(* ===== verification/Go_Prelude.thy ===== *)
theory Go_Prelude
  imports Main "HOL-Library.Word" "HOL-Library.Monad_Syntax"
begin

text \<open>
  Shared vocabulary of the development.

  A Go \<open>[]byte\<close> (and a Go \<open>string\<close> that carries binary data) is a list of 8-bit words, a textual
  Go string is a HOL \<^typ>\<open>string\<close>, whose characters are bytes too.  Reading from an
  \<open>io.Reader\<close> is modelled on the list of bytes that will still arrive before the end of the
  stream; writing to an \<open>io.Writer\<close> is modelled by the bytes handed to it.  An index or slice
  expression that Go checks at run time is \<open>go_idx\<close> / \<open>go_slice\<close>: \<^const>\<open>None\<close> is the run-time
  panic.  Fixed-width integers are words of that width.
\<close>

unbundle bit_operations_syntax

named_theorems wire_simps

type_synonym byte = "8 word"
type_synonym bytes = "byte list"

section \<open>Checked indexing and slicing\<close>

definition go_idx :: "'a list \<Rightarrow> nat \<Rightarrow> 'a option" where
  "go_idx xs i = (if i < length xs then Some (xs ! i) else None)"

definition go_slice :: "'a list \<Rightarrow> nat \<Rightarrow> nat \<Rightarrow> 'a list option" where
  "go_slice xs a b = (if a \<le> b \<and> b \<le> length xs then Some (take (b - a) (drop a xs)) else None)"

lemma go_idx_ok [simp]: "i < length xs \<Longrightarrow> go_idx xs i = Some (xs ! i)"
  by (simp add: go_idx_def)

lemma go_slice_ok [simp]:
  "a \<le> b \<Longrightarrow> b \<le> length xs \<Longrightarrow> go_slice xs a b = Some (take (b - a) (drop a xs))"
  by (simp add: go_slice_def)

text \<open>\<open>copy(dst[a:a+n], src)\<close> on a whole buffer: at most \<open>n\<close> bytes of \<open>src\<close> land at offset \<open>a\<close>.\<close>

definition copy_at :: "nat \<Rightarrow> nat \<Rightarrow> 'a list \<Rightarrow> 'a list \<Rightarrow> 'a list" where
  "copy_at a n src buf = take a buf @ take n src @ drop (a + min n (length src)) buf"

lemma length_copy_at [simp]:
  "a + min n (length src) \<le> length buf \<Longrightarrow> length (copy_at a n src buf) = length buf"
  by (auto simp: copy_at_def min_def)

section \<open>Big- and little-endian integers\<close>

definition be16 :: "16 word \<Rightarrow> bytes" where
  "be16 w = [ucast (drop_bit 8 w), ucast w]"

definition be32 :: "32 word \<Rightarrow> bytes" where
  "be32 w = [ucast (drop_bit 24 w), ucast (drop_bit 16 w), ucast (drop_bit 8 w), ucast w]"

definition le32 :: "32 word \<Rightarrow> bytes" where
  "le32 w = [ucast w, ucast (drop_bit 8 w), ucast (drop_bit 16 w), ucast (drop_bit 24 w)]"

definition of_be16 :: "byte \<Rightarrow> byte \<Rightarrow> 16 word" where
  "of_be16 a b = push_bit 8 (ucast a) OR ucast b"

definition of_be32 :: "byte \<Rightarrow> byte \<Rightarrow> byte \<Rightarrow> byte \<Rightarrow> 32 word" where
  "of_be32 a b c d =
     push_bit 24 (ucast a) OR push_bit 16 (ucast b) OR push_bit 8 (ucast c) OR ucast d"

text \<open>\<open>binary.BigEndian.Uint16(b[i:i+2])\<close> and its 32-bit kin, where the slice is known to be in
  range.\<close>

definition u16_at :: "bytes \<Rightarrow> nat \<Rightarrow> 16 word" where
  "u16_at b i = of_be16 (b ! i) (b ! Suc i)"

definition u32_at :: "bytes \<Rightarrow> nat \<Rightarrow> 32 word" where
  "u32_at b i = of_be32 (b ! i) (b ! (i + 1)) (b ! (i + 2)) (b ! (i + 3))"

definition le32_at :: "bytes \<Rightarrow> nat \<Rightarrow> 32 word" where
  "le32_at b i = of_be32 (b ! (i + 3)) (b ! (i + 2)) (b ! (i + 1)) (b ! i)"

lemma length_be16 [simp]: "length (be16 w) = 2"
  by (simp add: be16_def)

lemma length_be32 [simp]: "length (be32 w) = 4"
  by (simp add: be32_def)

lemma length_le32 [simp]: "length (le32 w) = 4"
  by (simp add: le32_def)

lemma of_be16_be16: "of_be16 (ucast (drop_bit 8 w)) (ucast w) = w"
  unfolding of_be16_def
  by (rule bit_word_eqI) (auto simp: bit_simps)

lemma of_be32_be32:
  "of_be32 (ucast (drop_bit 24 w)) (ucast (drop_bit 16 w)) (ucast (drop_bit 8 w)) (ucast w) = w"
proof (rule bit_word_eqI)
  fix n assume "n < LENGTH(32)"
  then have "n < 8 \<or> (8 \<le> n \<and> n < 16) \<or> (16 \<le> n \<and> n < 24) \<or> (24 \<le> n \<and> n < 32)" by auto
  then show "bit (of_be32 (ucast (drop_bit 24 w)) (ucast (drop_bit 16 w))
      (ucast (drop_bit 8 w)) (ucast w)) n = bit w n"
    by (auto simp: of_be32_def bit_simps)
qed

lemma be16_of_be16: "be16 (of_be16 a b) = [a, b]"
proof -
  have "ucast (drop_bit 8 (of_be16 a b)) = a" "ucast (of_be16 a b) = b"
    by (rule bit_word_eqI, auto simp: of_be16_def bit_simps dest: bit_imp_le_length)+
  then show ?thesis by (simp add: be16_def)
qed

lemma u16_at_be16 [simp]: "u16_at (be16 w @ rest) 0 = w"
  by (simp add: u16_at_def be16_def of_be16_be16)

lemma u16_at_be16_only [simp]: "u16_at (be16 w) 0 = w"
  using u16_at_be16 [of w "[]"] by simp

lemma u32_at_be32 [simp]: "u32_at (be32 w @ rest) 0 = w"
  by (simp add: u32_at_def be32_def of_be32_be32)

lemma le32_at_le32 [simp]: "le32_at (le32 w @ rest) 0 = w"
  by (simp add: le32_at_def le32_def of_be32_be32)

lemma u16_at_append [simp]: "length xs \<le> i \<Longrightarrow> u16_at (xs @ ys) i = u16_at ys (i - length xs)"
  by (simp add: u16_at_def nth_append Suc_diff_le)

lemma u16_at_append_left: "Suc i < length xs \<Longrightarrow> u16_at (xs @ ys) i = u16_at xs i"
  by (simp add: u16_at_def nth_append)

lemma u32_at_append_left: "i + 3 < length xs \<Longrightarrow> u32_at (xs @ ys) i = u32_at xs i"
  by (simp add: u32_at_def nth_append)

lemma u16_at_Cons [simp]: "u16_at (x # xs) (Suc i) = u16_at xs i"
  by (simp add: u16_at_def)

lemma u16_at_Cons_numeral [simp]: "u16_at (x # xs) (numeral k) = u16_at xs (pred_numeral k)"
  by (simp add: numeral_eq_Suc)

lemma u32_at_append [simp]: "length xs \<le> i \<Longrightarrow> u32_at (xs @ ys) i = u32_at ys (i - length xs)"
  by (simp add: u32_at_def nth_append Suc_diff_le)

lemma u16_at_drop: "u16_at (drop n xs) i = u16_at xs (n + i)" if "n \<le> length xs"
  using that by (simp add: u16_at_def)

lemma u32_at_drop: "u32_at (drop n xs) i = u32_at xs (n + i)" if "n \<le> length xs"
  using that by (simp add: u32_at_def add.assoc)

lemma unat_u16_lt [simp]: "unat (w :: 16 word) \<le> 65535"
  using unsigned_less [of w, where ?'a = nat] by simp

lemma unat_byte_le [simp]: "unat (a :: byte) \<le> 255"
  using unsigned_less [of a, where ?'a = nat] by simp

text \<open>\<open>uint16(len(x))\<close>: the conversion wraps, and is exact below 65536.\<close>

definition len16 :: "'a list \<Rightarrow> 16 word" where
  "len16 xs = word_of_nat (length xs)"

lemma unat_len16: "unat (len16 xs) = length xs mod 65536"
  by (simp add: len16_def unat_of_nat)

lemma unat_len16_small [simp]: "length xs \<le> 65535 \<Longrightarrow> unat (len16 xs) = length xs"
  by (simp add: unat_len16)

text \<open>\<open>binary.BigEndian.PutUint16(b[i:i+2], w)\<close> and \<open>PutUint32\<close> on a buffer long enough to hold
  the field.\<close>

definition put16 :: "nat \<Rightarrow> 16 word \<Rightarrow> bytes \<Rightarrow> bytes" where
  "put16 i w b = b[i := ucast (drop_bit 8 w), Suc i := ucast w]"

definition put32 :: "nat \<Rightarrow> 32 word \<Rightarrow> bytes \<Rightarrow> bytes" where
  "put32 i w b =
     b[i := ucast (drop_bit 24 w), i + 1 := ucast (drop_bit 16 w), i + 2 := ucast (drop_bit 8 w),
       i + 3 := ucast w]"

lemma length_put16 [simp]: "length (put16 i w b) = length b"
  by (simp add: put16_def)

lemma length_put32 [simp]: "length (put32 i w b) = length b"
  by (simp add: put32_def)

text \<open>The byte form of a Go string: \<open>[]byte(s)\<close>.\<close>

definition str_bytes :: "string \<Rightarrow> bytes" where
  "str_bytes s = map of_char s"

section \<open>Streams: \<open>io.ReadFull\<close>\<close>

datatype io_error = EOF | UnexpectedEOF

definition read_full :: "nat \<Rightarrow> bytes \<Rightarrow> io_error + (bytes \<times> bytes)" where
  "read_full n s =
     (if n \<le> length s then Inr (take n s, drop n s)
      else Inl (if s = [] then EOF else UnexpectedEOF))"

lemma read_full_append [simp]: "length xs = n \<Longrightarrow> read_full n (xs @ rest) = Inr (xs, rest)"
  by (simp add: read_full_def)

lemma read_full_exact: "length xs = n \<Longrightarrow> read_full n xs = Inr (xs, [])"
  by (simp add: read_full_def)

lemma read_full_short: "length s < n \<Longrightarrow> \<exists>e. read_full n s = Inl e"
  by (simp add: read_full_def)

lemma read_full_InrD:
  "read_full n s = Inr (x, r) \<Longrightarrow> s = x @ r \<and> length x = n"
  by (auto simp: read_full_def split: if_splits)

section \<open>Interface: self-delimiting codecs\<close>

text \<open>
  Every message format of the program is used the same way: one end hands \<open>enc x\<close> to the
  connection, possibly several in a row, and the other end calls \<open>dec\<close> on the byte stream.
  What its clients rely on is stated once here: a valid message is read back exactly, whatever
  follows it in the stream, and a truncated message is an error rather than a shorter message.
\<close>

fun decode_n :: "nat \<Rightarrow> (bytes \<Rightarrow> 'e + ('a \<times> bytes)) \<Rightarrow> bytes \<Rightarrow> 'e + ('a list \<times> bytes)" where
  "decode_n 0 dec s = Inr ([], s)"
| "decode_n (Suc n) dec s =
     (case dec s of
        Inl e \<Rightarrow> Inl e
      | Inr (x, s') \<Rightarrow>
          (case decode_n n dec s' of Inl e \<Rightarrow> Inl e | Inr (xs, s'') \<Rightarrow> Inr (x # xs, s'')))"

locale codec =
  fixes enc :: "'a \<Rightarrow> bytes"
    and dec :: "bytes \<Rightarrow> 'e + ('a \<times> bytes)"
    and valid :: "'a \<Rightarrow> bool"
  assumes dec_enc: "valid x \<Longrightarrow> dec (enc x @ rest) = Inr (x, rest)"
    and dec_trunc: "valid x \<Longrightarrow> k < length (enc x) \<Longrightarrow> \<exists>e. dec (take k (enc x)) = Inl e"
begin

lemma stream_unique:
  assumes "valid x" "valid y" "enc x @ r = enc y @ s"
  shows "x = y \<and> r = s"
proof -
  have "dec (enc x @ r) = Inr (x, r)" by (rule dec_enc [OF assms(1)])
  moreover have "dec (enc y @ s) = Inr (y, s)" by (rule dec_enc [OF assms(2)])
  ultimately show ?thesis using assms(3) by (metis prod.inject sum.inject(2))
qed

lemma decode_n_concat:
  "(\<forall>x\<in>set xs. valid x) \<Longrightarrow> decode_n (length xs) dec (concat (map enc xs) @ rest) = Inr (xs, rest)"
  by (induction xs) (simp_all add: dec_enc)

lemma enc_nonempty: "valid x \<Longrightarrow> valid y \<Longrightarrow> x \<noteq> y \<Longrightarrow> enc x \<noteq> [] \<or> enc y \<noteq> []"
  using stream_unique [of x y "[]" "[]"] by auto

end

section \<open>Interface: wrapping layers\<close>

text \<open>
  A layer of a packet carrier wraps a datagram on the way out, possibly choosing random bytes, and
  strips itself on the way in, rejecting what does not carry it.  \<open>wraps p q\<close> says that \<open>q\<close> is a
  form the sender may give \<open>p\<close>; the law is that the receiver recovers exactly \<open>p\<close> from it.
  Stacked layers are stripped in mirror order.
\<close>

definition strip_both :: "(bytes \<Rightarrow> bytes option) \<Rightarrow> (bytes \<Rightarrow> bytes option) \<Rightarrow> bytes \<Rightarrow> bytes option" where
  "strip_both outer inner q = Option.bind (outer q) inner"

definition optional_layer ::
    "bool \<Rightarrow> (bytes \<Rightarrow> bytes \<Rightarrow> bool) \<Rightarrow> bytes \<Rightarrow> bytes \<Rightarrow> bool" where
  "optional_layer on w p q = (if on then w p q else q = p)"

locale layer =
  fixes wraps :: "bytes \<Rightarrow> bytes \<Rightarrow> bool"
    and strip :: "bytes \<Rightarrow> bytes option"
  assumes strip_wraps: "wraps p q \<Longrightarrow> strip q = Some p"
begin

lemma wraps_inj: "wraps p q \<Longrightarrow> wraps p' q \<Longrightarrow> p = p'"
  by (metis option.inject strip_wraps)

lemma strip_optional:
  "optional_layer on wraps p q \<Longrightarrow> (if on then strip q else Some q) = Some p"
  by (auto simp: optional_layer_def strip_wraps split: if_splits)

end

locale layer_stack = inner: layer w1 s1 + outer: layer w2 s2
  for w1 s1 w2 s2

sublocale layer_stack \<subseteq> stacked: layer "w1 OO w2" "strip_both s2 s1"
  by unfold_locales (auto simp: strip_both_def inner.strip_wraps outer.strip_wraps)

section \<open>Interface: byte streams\<close>

text \<open>
  A connection that is read in pieces: \<open>pending s b\<close> says that exactly the bytes \<open>b\<close> are still to come.  A read
  returns some of them, in order, until they are used up and the end is reported.
\<close>

fun read_many :: "(nat \<Rightarrow> 's \<Rightarrow> ('e + bytes) \<times> 's) \<Rightarrow> nat list \<Rightarrow> 's \<Rightarrow> bytes \<times> 'e option \<times> 's" where
  "read_many rd [] s = ([], None, s)"
| "read_many rd (n # ns) s =
     (case rd n s of
        (Inl e, s') \<Rightarrow> ([], Some e, s')
      | (Inr x, s') \<Rightarrow> (case read_many rd ns s' of (xs, r) \<Rightarrow> (x @ xs, r)))"

locale byte_reader =
  fixes rd :: "nat \<Rightarrow> 's \<Rightarrow> ('e + bytes) \<times> 's"
    and pending :: "'s \<Rightarrow> bytes \<Rightarrow> bool"
    and eof :: 'e
  assumes read_some: "pending s b \<Longrightarrow> b \<noteq> [] \<Longrightarrow> 0 < n \<Longrightarrow>
      \<exists>x b' s'. rd n s = (Inr x, s') \<and> b = x @ b' \<and> x \<noteq> [] \<and> length x \<le> n \<and> pending s' b'"
    and read_end: "pending s [] \<Longrightarrow> 0 < n \<Longrightarrow> \<exists>s'. rd n s = (Inl eof, s')"
begin

lemma read_many_delivers:
  assumes "pending s b" "\<forall>n \<in> set ns. 0 < n" "read_many rd ns s = (bs, err, s')"
  shows "\<exists>rest. b = bs @ rest \<and> (err = None \<and> pending s' rest \<or> err = Some eof \<and> rest = []) \<and>
    (length b \<le> length ns \<longrightarrow> rest = [])"
  using assms
proof (induction ns arbitrary: s b bs)
  case (Cons n ns)
  show ?case
  proof (cases "b = []")
    case True
    then obtain s1 where "rd n s = (Inl eof, s1)" using read_end [of s n] Cons.prems(1,2) by auto
    then show ?thesis using Cons.prems(3) True by simp
  next
    case False
    then obtain x b' s1 where x: "rd n s = (Inr x, s1)" "b = x @ b'" "x \<noteq> []" "pending s1 b'"
      using read_some [of s b n] Cons.prems(1,2) by auto
    obtain xs where xs: "read_many rd ns s1 = (xs, err, s')" "bs = x @ xs"
      using Cons.prems(3) x(1) by (auto split: prod.splits)
    obtain rest where "b' = xs @ rest" "err = None \<and> pending s' rest \<or> err = Some eof \<and> rest = []"
        "length b' \<le> length ns \<longrightarrow> rest = []"
      using Cons.IH [OF x(4) _ xs(1)] Cons.prems(2) by auto
    moreover obtain y ys where "x = y # ys" using x(3) by (cases x) auto
    ultimately show ?thesis using x(2) xs(2) by (intro exI [of _ rest]) auto
  qed
qed auto

end


section \<open>Interface: state machines with an invariant\<close>

text \<open>
  Concurrent components are step relations whose steps are the atomic sections of the code; what
  holds initially and is kept by every step holds in every reachable state.  Sequential components
  are functions of events; running any list of events is a special case.
\<close>

locale invariant =
  fixes init :: "'s \<Rightarrow> bool"
    and step :: "'s \<Rightarrow> 's \<Rightarrow> bool"
    and inv :: "'s \<Rightarrow> bool"
  assumes inv_init: "init s \<Longrightarrow> inv s"
    and inv_step: "step s s' \<Longrightarrow> inv s \<Longrightarrow> inv s'"
begin

lemma inv_steps: "step\<^sup>*\<^sup>* s s' \<Longrightarrow> inv s \<Longrightarrow> inv s'"
  by (induction rule: rtranclp_induct) (auto intro: inv_step)

lemma inv_reachable: "init s \<Longrightarrow> step\<^sup>*\<^sup>* s s' \<Longrightarrow> inv s'"
  by (blast intro: inv_steps inv_init)

end

locale machine =
  fixes init :: "'s \<Rightarrow> bool"
    and next_state :: "'e \<Rightarrow> 's \<Rightarrow> 's"
    and inv :: "'s \<Rightarrow> bool"
  assumes inv_start: "init s \<Longrightarrow> inv s"
    and inv_next: "inv s \<Longrightarrow> inv (next_state e s)"

sublocale machine \<subseteq> steps: invariant init "\<lambda>s s'. \<exists>e. s' = next_state e s" inv
  by unfold_locales (auto intro: inv_start inv_next)

context machine
begin

lemma fold_steps: "(\<lambda>s s'. \<exists>e. s' = next_state e s)\<^sup>*\<^sup>* s (fold next_state es s)"
  by (induction es arbitrary: s) (simp_all, blast intro: converse_rtranclp_into_rtranclp)

lemma inv_run: "init s \<Longrightarrow> inv (fold next_state es s)"
  by (rule steps.inv_reachable [OF _ fold_steps])

end

text \<open>
  Operations that can panic: \<^const>\<open>None\<close> is the panic, which ends the process.  When the invariant rules it out in
  every step, no run of the component panics.
\<close>

fun run_events :: "('e \<Rightarrow> 's \<Rightarrow> 's option) \<Rightarrow> 'e list \<Rightarrow> 's \<Rightarrow> 's option" where
  "run_events nxt [] s = Some s"
| "run_events nxt (e # es) s = Option.bind (nxt e s) (run_events nxt es)"

lemma run_events_append: "run_events nxt (xs @ ys) s = Option.bind (run_events nxt xs s) (run_events nxt ys)"
proof (induction xs arbitrary: s)
  case (Cons e xs)
  then show ?case by (cases "nxt e s") simp_all
qed simp

locale safe_machine =
  fixes init :: "'s \<Rightarrow> bool"
    and nxt :: "'e \<Rightarrow> 's \<Rightarrow> 's option"
    and inv :: "'s \<Rightarrow> bool"
  assumes safe_start: "init s \<Longrightarrow> inv s"
    and safe_next: "inv s \<Longrightarrow> \<exists>s'. nxt e s = Some s' \<and> inv s'"
begin

lemma safe_from: "inv s \<Longrightarrow> \<exists>s'. run_events nxt es s = Some s' \<and> inv s'"
proof (induction es arbitrary: s)
  case (Cons e es)
  then obtain s1 where "nxt e s = Some s1" "inv s1" using safe_next by blast
  with Cons.IH show ?case by simp
qed simp

lemma safe_run: "init s \<Longrightarrow> \<exists>s'. run_events nxt es s = Some s' \<and> inv s'"
  by (rule safe_from [OF safe_start])

end

end
