(* ===== verification/Checksum.thy ===== *)
theory Checksum
  imports Go_Prelude
begin

text \<open>
  The internet checksum of \<open>internal/utils/network/spoofpacket.go\<close> (\<open>onesComplement\<close> and
  \<open>l4Checksum\<close>), on which every packet the program builds by hand rests: the spoof carrier's UDP,
  TCP and ICMP shims and the packet carrier's IPv4 and TCP headers.

  The code accumulates 16-bit words in a \<open>uint32\<close> and folds the carries back until the sum fits
  16 bits.  The arithmetic view is \<open>fold16\<close>: the representative of the sum modulo 65535 in
  \<open>1..65535\<close> (or 0 for a zero sum).  From it follows the law a receiver uses: a header whose
  checksum field was filled with the computed value sums to 0.
\<close>

section \<open>The code\<close>

text \<open>The inner loops of \<open>onesComplement\<close>: whole words, then a trailing odd byte padded with 0.\<close>

fun sum_words :: "32 word \<Rightarrow> bytes \<Rightarrow> 32 word" where
  "sum_words s (a # b # r) = sum_words (s + (push_bit 8 (ucast a) OR ucast b)) r"
| "sum_words s [a] = s + push_bit 8 (ucast a)"
| "sum_words s [] = s"

lemma drop_bit_16_zero_iff: "drop_bit 16 (s :: 32 word) = 0 \<longleftrightarrow> unat s < 65536"
proof -
  have "drop_bit 16 s = 0 \<longleftrightarrow> unat (drop_bit 16 s) = 0" by (metis unsigned_0 unsigned_word_eqI)
  also have "\<dots> \<longleftrightarrow> unat s < 65536"
    by (simp add: unat_div drop_bit_eq_div div_eq_0_iff)
  finally show ?thesis .
qed

lemma unat_fold_step:
  "unat ((s AND 0xffff) + drop_bit 16 s) = unat (s :: 32 word) mod 65536 + unat s div 65536"
proof -
  have "s AND 0xffff = take_bit 16 s" by (simp add: take_bit_eq_mask mask_numeral)
  then have lo: "unat (s AND 0xffff) = unat s mod 65536"
    by (simp add: take_bit_eq_mod unat_mod)
  have hi: "unat (drop_bit 16 s) = unat s div 65536"
    by (simp add: drop_bit_eq_div unat_div)
  have "unat s < 4294967296" using unsigned_less [of s, where ?'a = nat] by simp
  then have "unat s mod 65536 + unat s div 65536 < 4294967296" by linarith
  then show ?thesis by (simp add: unat_word_ariths(1) lo hi)
qed

function fold_carries :: "32 word \<Rightarrow> 32 word" where
  "fold_carries s =
     (if drop_bit 16 s \<noteq> 0 then fold_carries ((s AND 0xffff) + drop_bit 16 s) else s)"
  by auto
termination
proof (relation "measure unat")
  fix s :: "32 word" assume "drop_bit 16 s \<noteq> 0"
  then have "65536 \<le> unat s" by (simp add: drop_bit_16_zero_iff)
  then have "unat s mod 65536 + unat s div 65536 < unat s"
    using div_mult_mod_eq [of "unat s" 65536] div_le_mono [of 65536 "unat s" 65536] by linarith
  then show "((s AND 0xffff) + drop_bit 16 s, s) \<in> measure unat" by (simp add: unat_fold_step)
qed simp

declare fold_carries.simps [simp del]

definition onesComplement :: "bytes list \<Rightarrow> 16 word" where
  "onesComplement parts = NOT (ucast (fold_carries (fold (\<lambda>b s. sum_words s b) parts 0)))"

text \<open>\<open>net.IP.To4\<close>: the 4-byte form of a 4-byte or IPv4-mapped address, nil for anything else.\<close>

definition To4 :: "bytes \<Rightarrow> bytes" where
  "To4 ip =
     (if length ip = 4 then ip
      else if length ip = 16 \<and> take 12 ip = replicate 10 0 @ [255, 255] then drop 12 ip
      else [])"

text \<open>\<open>net.IP.Equal\<close>.\<close>

definition ip_equal :: "bytes \<Rightarrow> bytes \<Rightarrow> bool" where
  "ip_equal a b =
     (if length a = length b then a = b
      else if length a = 4 \<and> length b = 16 then take 12 b = replicate 10 0 @ [255, 255] \<and> a = drop 12 b
      else if length a = 16 \<and> length b = 4 then take 12 a = replicate 10 0 @ [255, 255] \<and> drop 12 a = b
      else False)"

definition l4_pseudo :: "bytes \<Rightarrow> bytes \<Rightarrow> byte \<Rightarrow> bytes \<Rightarrow> bytes" where
  "l4_pseudo src dst proto segment =
     copy_at 10 2 (be16 (len16 segment))
       ((copy_at 4 4 (To4 dst) (copy_at 0 4 (To4 src) (replicate 12 0)))[9 := proto])"

definition l4Checksum :: "bytes \<Rightarrow> bytes \<Rightarrow> byte \<Rightarrow> bytes \<Rightarrow> 16 word" where
  "l4Checksum src dst proto segment = onesComplement [l4_pseudo src dst proto segment, segment]"

section \<open>The arithmetic of the checksum\<close>

text \<open>The specification: the sum of the big-endian 16-bit words, and its end-around folding.\<close>

fun words_sum :: "bytes \<Rightarrow> nat" where
  "words_sum (a # b # r) = 256 * unat a + unat b + words_sum r"
| "words_sum [a] = 256 * unat a"
| "words_sum [] = 0"

definition fold16 :: "nat \<Rightarrow> nat" where
  "fold16 n = (if n = 0 then 0 else (n - 1) mod 65535 + 1)"

lemma words_sum_bound: "words_sum b \<le> 65535 * ((length b + 1) div 2)"
proof (induction b rule: words_sum.induct)
  case (1 a b r)
  have "256 * unat a + unat b \<le> 65535"
    using unat_byte_le [of a] unat_byte_le [of b] by linarith
  with 1 show ?case by simp
next
  case (2 a)
  have "256 * unat a \<le> 65535" using unat_byte_le [of a] by linarith
  then show ?case by simp
qed simp

lemma unat_word_of_bytes:
  "unat (push_bit 8 (ucast a) OR ucast b :: 32 word) = 256 * unat (a :: byte) + unat (b :: byte)"
proof -
  have dis: "push_bit 8 (ucast a) AND (ucast b :: 32 word) = 0"
    by (rule bit_word_eqI) (auto simp: bit_simps dest: bit_imp_le_length)
  have "push_bit 8 (ucast a) OR ucast b = push_bit 8 (ucast a) + (ucast b :: 32 word)"
    using dis by (simp add: disjunctive_add_eq_or)
  also have "\<dots> = word_of_nat (256 * unat a + unat b)"
    by (simp add: push_bit_eq_mult mult.commute)
  finally have "unat (push_bit 8 (ucast a) OR ucast b :: 32 word)
      = (256 * unat a + unat b) mod 4294967296" by (simp add: unat_of_nat del: of_nat_add of_nat_mult)
  moreover have "256 * unat a + unat b < 4294967296"
    using unat_byte_le [of a] unat_byte_le [of b] by linarith
  ultimately show ?thesis by simp
qed

lemma unat_add_small32:
  "unat (s :: 32 word) + unat t < 4294967296 \<Longrightarrow> unat (s + t) = unat s + unat t"
  by (simp add: unat_word_ariths(1))

lemma unat_sum_words:
  "unat s + words_sum b < 4294967296 \<Longrightarrow> unat (sum_words s b) = unat s + words_sum b"
proof (induction s b rule: sum_words.induct)
  case (1 s a b r)
  have "unat (s + (push_bit 8 (ucast a) OR ucast b)) = unat s + (256 * unat a + unat b)"
    using 1(2) by (subst unat_add_small32) (simp_all add: unat_word_of_bytes)
  then show ?case using 1 by simp
next
  case (2 s a)
  have "unat (push_bit 8 (ucast a) :: 32 word) = 256 * unat a"
    using unat_word_of_bytes [of a 0] by simp
  then show ?case using 2 by (simp add: unat_add_small32)
qed simp

lemma fold16_id [simp]: "n \<le> 65535 \<Longrightarrow> fold16 n = n"
  by (cases n) (auto simp: fold16_def)

lemma fold16_le: "fold16 n \<le> 65535"
proof -
  have "(n - 1) mod 65535 < 65535" by simp
  then have "(n - 1) mod 65535 + 1 \<le> 65535" by linarith
  then show ?thesis by (simp add: fold16_def)
qed

lemma fold16_add_65535: "0 < n \<Longrightarrow> fold16 (n + 65535 * k) = fold16 n"
proof -
  assume "0 < n"
  then have "n + 65535 * k - 1 = (n - 1) + 65535 * k" by simp
  then have "(n + 65535 * k - 1) mod 65535 = (n - 1) mod 65535" by (metis mod_mult_self2)
  then show ?thesis using \<open>0 < n\<close> by (simp add: fold16_def)
qed

lemma fold16_step: "65536 \<le> n \<Longrightarrow> fold16 (n mod 65536 + n div 65536) = fold16 n"
proof -
  assume "65536 \<le> n"
  then have "1 \<le> n div 65536" using div_le_mono [of 65536 n 65536] by simp
  moreover have "n = (n mod 65536 + n div 65536) + 65535 * (n div 65536)"
    using div_mult_mod_eq [of n 65536] by linarith
  ultimately show ?thesis
    using fold16_add_65535 [of "n mod 65536 + n div 65536" "n div 65536"] by simp
qed

lemma unat_fold_carries: "unat (fold_carries s) = fold16 (unat s)"
proof (induction s rule: fold_carries.induct)
  case (1 s)
  show ?case
  proof (cases "drop_bit 16 s = 0")
    case True
    then show ?thesis by (subst fold_carries.simps) (simp add: drop_bit_16_zero_iff)
  next
    case False
    then have "65536 \<le> unat s" by (simp add: drop_bit_16_zero_iff)
    with False 1 show ?thesis
      by (subst fold_carries.simps) (simp add: unat_fold_step fold16_step)
  qed
qed

lemma unat_fold_parts:
  "unat s + (\<Sum>b\<leftarrow>parts. words_sum b) < 4294967296 \<Longrightarrow>
    unat (fold (\<lambda>b s. sum_words s b) parts s) = unat s + (\<Sum>b\<leftarrow>parts. words_sum b)"
  by (induction parts arbitrary: s) (simp_all add: unat_sum_words add.assoc)

lemma unat_not_16: "unat (NOT (w :: 16 word)) = 65535 - unat w"
proof -
  have "NOT w = 65535 - w" by (simp add: not_eq_complement)
  moreover have "w \<le> 65535" by (simp add: word_le_nat_alt del: word_less_eq_iff_unsigned)
  ultimately show ?thesis by (simp add: unat_sub)
qed

theorem unat_onesComplement:
  assumes "(\<Sum>b\<leftarrow>parts. words_sum b) < 4294967296"
  shows "unat (onesComplement parts) = 65535 - fold16 (\<Sum>b\<leftarrow>parts. words_sum b)"
proof -
  let ?f = "fold_carries (fold (\<lambda>b s. sum_words s b) parts 0)"
  have "unat ?f = fold16 (\<Sum>b\<leftarrow>parts. words_sum b)"
    using unat_fold_parts [of 0 parts] assms by (simp add: unat_fold_carries)
  moreover from this have "unat (ucast ?f :: 16 word) = unat ?f"
    using fold16_le [of "\<Sum>b\<leftarrow>parts. words_sum b"] by (simp add: unsigned_ucast_eq take_bit_eq_mod)
  ultimately show ?thesis by (simp add: onesComplement_def unat_not_16)
qed

section \<open>A filled-in checksum verifies\<close>

lemma words_sum_append:
  "even (length xs) \<Longrightarrow> words_sum (xs @ ys) = words_sum xs + words_sum ys"
  by (induction xs rule: words_sum.induct) simp_all

lemma words_sum_be16 [simp]: "words_sum (be16 w) = unat w"
proof -
  let ?hi = "ucast (drop_bit 8 w) :: byte" and ?lo = "ucast w :: byte"
  have "unat w < 65536" using unat_u16_lt [of w] by linarith
  then have "unat w div 256 < 256" by (simp add: div_less_iff_less_mult)
  then have "unat ?hi = unat w div 256"
    by (simp add: unsigned_ucast_eq drop_bit_eq_div unat_div take_bit_eq_mod)
  moreover have "unat ?lo = unat w mod 256" by (simp add: unsigned_ucast_eq take_bit_eq_mod)
  ultimately show ?thesis by (simp add: be16_def)
qed

lemma fold16_fill: "fold16 (t + (65535 - fold16 t)) = 65535"
proof (cases "t = 0")
  case False
  let ?m = "(t - 1) mod 65535"
  have d: "t - 1 = 65535 * ((t - 1) div 65535) + ?m" by (simp only: mult_div_mod_eq)
  have "?m < 65535" by simp
  moreover have "fold16 t = ?m + 1" using False by (simp add: fold16_def)
  ultimately have "t + (65535 - fold16 t) = 65535 + 65535 * ((t - 1) div 65535)"
    using False d by linarith
  then show ?thesis using fold16_add_65535 [of 65535] by simp
qed (simp add: fold16_def)

lemma onesComplement_zero:
  assumes "(\<Sum>b\<leftarrow>parts. words_sum b) < 4294967296" "fold16 (\<Sum>b\<leftarrow>parts. words_sum b) = 65535"
  shows "onesComplement parts = 0"
proof -
  have "unat (onesComplement parts) = 0" using unat_onesComplement [OF assms(1)] assms(2) by simp
  then show ?thesis by (metis unsigned_0 unsigned_word_eqI)
qed

text \<open>The rule for every builder: \<open>t\<close> is the sum with a zero checksum field, \<open>c\<close> the value stored
  there, either the computed one or, as UDP requires, \<open>0xffff\<close> in place of a computed 0.\<close>

lemma checksum_fills:
  assumes zero: "(\<Sum>b\<leftarrow>parts0. words_sum b) = t"
    and full: "(\<Sum>b\<leftarrow>parts. words_sum b) = t + unat c"
    and small: "t < 4294900000"
    and c: "c = onesComplement parts0 \<or> (onesComplement parts0 = 0 \<and> c = 0xffff)"
  shows "onesComplement parts = 0"
proof (rule onesComplement_zero)
  show "(\<Sum>b\<leftarrow>parts. words_sum b) < 4294967296"
    using small unat_u16_lt [of c] unfolding full by linarith
  have v: "unat (onesComplement parts0) = 65535 - fold16 t"
    using unat_onesComplement [of parts0] small by (simp add: zero)
  from c show "fold16 (\<Sum>b\<leftarrow>parts. words_sum b) = 65535"
  proof
    assume "c = onesComplement parts0"
    then show ?thesis by (simp add: full v fold16_fill)
  next
    assume z: "onesComplement parts0 = 0 \<and> c = 0xffff"
    then have "fold16 t = 65535" using v fold16_le [of t] by simp
    moreover from this have "0 < t" by (cases t) (simp_all add: fold16_def)
    ultimately show ?thesis using fold16_add_65535 [of t 1] z by (simp add: full)
  qed
qed

lemma length_To4: "To4 ip \<noteq> [] \<Longrightarrow> length (To4 ip) = 4"
  by (auto simp: To4_def split: if_splits)

lemma copy_at_layers:
  "length a = i \<Longrightarrow> length m = length src \<Longrightarrow> length src \<le> n \<Longrightarrow>
    copy_at i n src (a @ m @ c) = a @ src @ c"
  by (simp add: copy_at_def)

lemma l4_pseudo_layers:
  assumes "length (To4 src) = 4" "length (To4 dst) = 4"
  shows "l4_pseudo src dst proto seg = To4 src @ To4 dst @ [0, proto] @ be16 (len16 seg)"
proof -
  let ?z = "replicate 4 (0 :: byte)"
  have "replicate 12 (0 :: byte) = [] @ ?z @ (?z @ ?z)" by (simp add: numeral_eq_Suc)
  then have r: "copy_at 0 4 (To4 src) (replicate 12 0) = To4 src @ ?z @ ?z"
    using copy_at_layers [of "[]" 0 ?z "To4 src" 4 "?z @ ?z"] assms by simp
  have "copy_at 4 4 (To4 dst) (copy_at 0 4 (To4 src) (replicate 12 0)) = To4 src @ To4 dst @ ?z"
    unfolding r using assms by (simp add: copy_at_layers)
  moreover have "(To4 src @ To4 dst @ ?z)[9 := proto] = (To4 src @ To4 dst @ [0, proto]) @ [0, 0] @ []"
    using assms by (simp add: list_update_append numeral_eq_Suc)
  ultimately show ?thesis
    unfolding l4_pseudo_def using assms by (simp only:) (subst copy_at_layers, simp_all)
qed

lemma even_length_l4_pseudo:
  "length (To4 src) = 4 \<Longrightarrow> length (To4 dst) = 4 \<Longrightarrow> length (l4_pseudo src dst proto seg) = 12"
  by (simp add: l4_pseudo_layers)

end
