(* ===== verification/Spoof.thy ===== *)
theory Spoof
  imports Checksum "HOL-Library.Signed_Division"
begin

text \<open>
  The IP-spoofing carrier: profiles and identity (\<open>internal/utils/network/spoofframe.go\<close>), the
  packet shims, obfuscation knobs and fragmentation (\<open>spoofpacket.go\<close>), and the carrier's
  constructor, send and receive paths (\<open>spoofconn_linux.go\<close>).

  Calls to \<open>rand.IntN(n)\<close> are arguments of the model, gathered in \<open>spoof_rand\<close>, with the
  documented promise that the result lies below \<open>n\<close> as the hypothesis \<open>rand_ok\<close>.  \<open>sha256.Sum256\<close>
  and \<open>net.ParseIP\<close> are function arguments.  Sockets are the packets they carry: \<open>sendIP\<close> returns
  the IP packets written to the raw socket, \<open>ReadFrom\<close> takes those the socket will deliver.
\<close>

section \<open>Profiles: \<open>spoofframe.go\<close>\<close>

datatype SpoofProfile =
    SpoofProfileUDP | SpoofProfileTCP | SpoofProfileICMP | SpoofProfileICMPv6
  | SpoofProfileIPIP | SpoofProfileGRE

text \<open>\<^const>\<open>None\<close> is the "unknown spoof profile" error.\<close>

definition ParseSpoofProfile :: "string \<Rightarrow> SpoofProfile option" where
  "ParseSpoofProfile s =
     (if s = '''' \<or> s = ''udp'' then Some SpoofProfileUDP
      else if s = ''tcp'' then Some SpoofProfileTCP
      else if s = ''icmp'' then Some SpoofProfileICMP
      else if s = ''icmpv6'' then Some SpoofProfileICMPv6
      else if s = ''ipip'' then Some SpoofProfileIPIP
      else if s = ''gre'' then Some SpoofProfileGRE
      else None)"

definition pick_direction :: "string \<Rightarrow> string \<Rightarrow> SpoofProfile" where
  "pick_direction profile dir =
     (let v = (if dir = '''' then profile else dir) in
      case ParseSpoofProfile v of None \<Rightarrow> SpoofProfileUDP | Some p \<Rightarrow> p)"

definition ResolveSpoofDirections :: "string \<Rightarrow> string \<Rightarrow> string \<Rightarrow> SpoofProfile \<times> SpoofProfile" where
  "ResolveSpoofDirections profile uplink downlink =
     (pick_direction profile uplink, pick_direction profile downlink)"

fun ipProtocol :: "SpoofProfile \<Rightarrow> byte" where
  "ipProtocol SpoofProfileTCP = 6"
| "ipProtocol SpoofProfileICMP = 1"
| "ipProtocol SpoofProfileICMPv6 = 58"
| "ipProtocol SpoofProfileIPIP = 4"
| "ipProtocol SpoofProfileGRE = 47"
| "ipProtocol SpoofProfileUDP = 17"

definition hasPortDemux :: "SpoofProfile \<Rightarrow> bool" where
  "hasPortDemux p = (p \<noteq> SpoofProfileIPIP \<and> p \<noteq> SpoofProfileGRE)"

definition isICMPFamily :: "SpoofProfile \<Rightarrow> bool" where
  "isICMPFamily p = (p = SpoofProfileICMP \<or> p = SpoofProfileICMPv6)"

definition icmpEchoTypes :: "SpoofProfile \<Rightarrow> byte \<times> byte" where
  "icmpEchoTypes p = (if p = SpoofProfileICMPv6 then (128, 129) else (8, 0))"

definition xdiTagLen :: nat where
  "xdiTagLen = 4"

definition spoofIdentity :: "(bytes \<Rightarrow> bytes) \<Rightarrow> string \<Rightarrow> bytes \<times> 16 word" where
  "spoofIdentity sha256 token =
     (let sum = sha256 (str_bytes (''arange-tun-spoof-v1:'' @ token));
          port = u16_at sum xdiTagLen
      in (take xdiTagLen sum, if port < 1024 then port + 1024 else port))"

section \<open>Obfuscation knobs: \<open>spoofpacket.go\<close>\<close>

record SpoofDPI =
  TTLJitter :: bool
  RandomDSCP :: bool
  ShufflePort :: bool
  PortMin :: "16 word"
  PortMax :: "16 word"
  Padding :: bool
  PaddingMax :: "8 word"
  FakeTLS :: bool

text \<open>One packet's random draws: the results of the \<open>rand.IntN\<close> calls, and the padding bytes.\<close>

record spoof_rand =
  rnd_ttl :: nat
  rnd_dscp :: nat
  rnd_port :: nat
  rnd_pad :: nat
  rnd_fill :: "nat \<Rightarrow> byte"

definition ttlPool :: "byte list" where
  "ttlPool = [64, 128, 255]"

definition dscpPool :: "byte list" where
  "dscpPool = [0x00, 0x28, 0x10]"

definition pickTTL :: "SpoofDPI \<Rightarrow> nat \<Rightarrow> byte" where
  "pickTTL d r = (if TTLJitter d then ttlPool ! r else 64)"

definition pickDSCP :: "SpoofDPI \<Rightarrow> nat \<Rightarrow> byte" where
  "pickDSCP d r = (if RandomDSCP d then dscpPool ! r else 0)"

definition port_range :: "SpoofDPI \<Rightarrow> 16 word \<times> 16 word" where
  "port_range d =
     (let lo = (if PortMin d = 0 then 49152 else PortMin d);
          hi = (if PortMax d \<le> lo then 65535 else PortMax d)
      in (lo, hi))"

definition pickSrcPort :: "SpoofDPI \<Rightarrow> 16 word \<Rightarrow> nat \<Rightarrow> 16 word" where
  "pickSrcPort d fixed r =
     (if \<not> ShufflePort d then fixed else (case port_range d of (lo, hi) \<Rightarrow> lo + word_of_nat r))"

definition pad_max :: "8 word \<Rightarrow> nat" where
  "pad_max m = unat (if m = 0 then 64 else m)"

definition rand_ok :: "SpoofDPI \<Rightarrow> spoof_rand \<Rightarrow> bool" where
  "rand_ok d r =
     (rnd_ttl r < length ttlPool \<and> rnd_dscp r < length dscpPool \<and>
      (case port_range d of (lo, hi) \<Rightarrow> rnd_port r < unat (hi - lo) + 1) \<and>
      rnd_pad r < pad_max (PaddingMax d))"

definition tlsFakeHeaderLen :: nat where
  "tlsFakeHeaderLen = 5"

definition applyFakeTLS :: "bytes \<Rightarrow> bytes" where
  "applyFakeTLS p =
     (let b = replicate (tlsFakeHeaderLen + length p) 0;
          b = b[0 := 0x17];
          b = b[1 := 0x03, 2 := 0x03];
          b = put16 3 (len16 p) b
      in copy_at tlsFakeHeaderLen (length p) p b)"

definition stripFakeTLS :: "bytes \<Rightarrow> bytes option" where
  "stripFakeTLS p =
     (if length p < tlsFakeHeaderLen \<or> p ! 0 \<noteq> 0x17 \<or> p ! 1 \<noteq> 0x03 \<or> p ! 2 \<noteq> 0x03 then None
      else Some (drop tlsFakeHeaderLen p))"

definition applyPadding :: "bytes \<Rightarrow> nat \<Rightarrow> (nat \<Rightarrow> byte) \<Rightarrow> bytes" where
  "applyPadding p r fill =
     (let padLen = r + 1 in p @ map fill [length p ..< length p + padLen - 1] @ [word_of_nat padLen])"

definition stripPadding :: "bytes \<Rightarrow> bytes option" where
  "stripPadding p =
     (if p = [] then None
      else let padLen = unat (last p) in
        if padLen = 0 \<or> length p < padLen then None else Some (take (length p - padLen) p))"

section \<open>Fragmentation: \<open>spoofpacket.go\<close>\<close>

record spoofFragRange =
  frag_off :: int
  frag_end :: int
  frag_more :: bool

definition HeaderLen :: int where
  "HeaderLen = 20"

text \<open>The loop of \<open>spoofFragments\<close>; its caller passes a positive step.\<close>

function fragment_loop :: "int \<Rightarrow> int \<Rightarrow> int \<Rightarrow> spoofFragRange list" where
  "fragment_loop maxData segLen o' =
     (if o' < segLen \<and> 0 < maxData then
        (let e = o' + maxData; e = (if segLen < e then segLen else e)
         in \<lparr>frag_off = o', frag_end = e, frag_more = e < segLen\<rparr> # fragment_loop maxData segLen (o' + maxData))
      else [])"
  by auto
termination
  by (relation "measure (\<lambda>(m, s, o'). nat (s - o'))") auto

declare fragment_loop.simps [simp del]

definition frag_step :: "int \<Rightarrow> int" where
  "frag_step mtu = (let m = ((mtu - HeaderLen) sdiv 8) * 8 in if m \<le> 0 then 8 else m)"

definition spoofFragments :: "int \<Rightarrow> int \<Rightarrow> spoofFragRange list" where
  "spoofFragments segLen mtu =
     (if HeaderLen + segLen \<le> mtu then [\<lparr>frag_off = 0, frag_end = segLen, frag_more = False\<rparr>]
      else fragment_loop (frag_step mtu) segLen 0)"

text \<open>The pool of forged sources; \<open>ParseIP\<close> is \<open>net.ParseIP\<close>, with \<open>[]\<close> for nil.\<close>

fun parse_pool_loop :: "(string \<Rightarrow> bytes) \<Rightarrow> string list \<Rightarrow> string + bytes list" where
  "parse_pool_loop ParseIP [] = Inr []"
| "parse_pool_loop ParseIP (s # ss) =
     (if To4 (ParseIP s) = [] then Inl s
      else (case parse_pool_loop ParseIP ss of
              Inl e \<Rightarrow> Inl e
            | Inr ips \<Rightarrow> Inr (To4 (ParseIP s) # ips)))"

definition parseSpoofPool :: "(string \<Rightarrow> bytes) \<Rightarrow> string \<Rightarrow> string list \<Rightarrow> string + bytes list" where
  "parseSpoofPool ParseIP srcIP pool =
     parse_pool_loop ParseIP (if pool = [] \<and> srcIP \<noteq> '''' then [srcIP] else pool)"

section \<open>L4 shims: \<open>spoofpacket.go\<close>\<close>

definition greHeaderLen :: nat where
  "greHeaderLen = 4"

definition greProtoIPv4 :: "16 word" where
  "greProtoIPv4 = 0x0800"

fun profileL4Len :: "SpoofProfile \<Rightarrow> nat" where
  "profileL4Len SpoofProfileTCP = 20"
| "profileL4Len SpoofProfileIPIP = 0"
| "profileL4Len SpoofProfileGRE = greHeaderLen"
| "profileL4Len SpoofProfileUDP = 8"
| "profileL4Len SpoofProfileICMP = 8"
| "profileL4Len SpoofProfileICMPv6 = 8"

definition buildGREShim :: "bytes \<Rightarrow> bytes" where
  "buildGREShim framed =
     (let b = replicate (greHeaderLen + length framed) 0;
          b = put16 2 greProtoIPv4 b
      in copy_at greHeaderLen (length framed) framed b)"

definition stripGREShim :: "bytes \<Rightarrow> bytes option" where
  "stripGREShim l4 = (if length l4 < greHeaderLen then None else Some (drop greHeaderLen l4))"

definition buildUDPShimPorts :: "16 word \<Rightarrow> 16 word \<Rightarrow> bytes \<Rightarrow> bytes \<Rightarrow> bytes \<Rightarrow> bytes" where
  "buildUDPShimPorts srcPort dstPort src dst framed =
     (let len = 8 + length framed;
          b = replicate len 0;
          b = put16 0 srcPort b;
          b = put16 2 dstPort b;
          b = put16 4 (word_of_nat len) b;
          b = copy_at 8 (len - 8) framed b;
          csum = l4Checksum src dst 17 b;
          csum = (if csum = 0 then 0xffff else csum)
      in put16 6 csum b)"

definition buildUDPShim :: "16 word \<Rightarrow> bytes \<Rightarrow> bytes \<Rightarrow> bytes \<Rightarrow> bytes" where
  "buildUDPShim port src dst framed = buildUDPShimPorts port port src dst framed"

definition buildTCPShimPorts ::
    "16 word \<Rightarrow> 16 word \<Rightarrow> 32 word \<Rightarrow> bytes \<Rightarrow> bytes \<Rightarrow> bytes \<Rightarrow> bytes" where
  "buildTCPShimPorts srcPort dstPort seq src dst framed =
     (let len = 20 + length framed;
          b = replicate len 0;
          b = put16 0 srcPort b;
          b = put16 2 dstPort b;
          b = put32 4 seq b;
          b = put32 8 0 b;
          b = b[12 := push_bit 4 5];
          b = b[13 := 0x18];
          b = put16 14 0xffff b;
          b = copy_at 20 (len - 20) framed b;
          csum = l4Checksum src dst 6 b
      in put16 16 csum b)"

definition buildTCPShim :: "16 word \<Rightarrow> 32 word \<Rightarrow> bytes \<Rightarrow> bytes \<Rightarrow> bytes \<Rightarrow> bytes" where
  "buildTCPShim port seq src dst framed = buildTCPShimPorts port port seq src dst framed"

definition buildSpoofShim ::
    "SpoofProfile \<Rightarrow> 16 word \<Rightarrow> 32 word \<Rightarrow> bytes \<Rightarrow> bytes \<Rightarrow> bytes \<Rightarrow> bytes" where
  "buildSpoofShim profile port seq src dst framed =
     (if profile = SpoofProfileTCP then buildTCPShim port seq src dst framed
      else buildUDPShim port src dst framed)"

definition stripSpoofShim :: "SpoofProfile \<Rightarrow> 16 word \<Rightarrow> bytes \<Rightarrow> bytes option" where
  "stripSpoofShim profile port l4 =
     (if profile = SpoofProfileTCP then
        (if length l4 < 20 \<or> u16_at l4 2 \<noteq> port then None
         else let o' = unat (drop_bit 4 (l4 ! 12)) * 4 in
           if o' < 20 \<or> length l4 < o' then None else Some (drop o' l4))
      else if length l4 < 8 \<or> u16_at l4 2 \<noteq> port then None
      else Some (drop 8 l4))"

definition icmpEchoHeaderLen :: nat where
  "icmpEchoHeaderLen = 8"

definition buildICMPEcho :: "byte \<Rightarrow> 16 word \<Rightarrow> 16 word \<Rightarrow> bytes \<Rightarrow> bytes" where
  "buildICMPEcho typ ident seq payload =
     (let b = replicate (icmpEchoHeaderLen + length payload) 0;
          b = b[0 := typ];
          b = b[1 := 0];
          b = put16 4 ident b;
          b = put16 6 seq b;
          b = copy_at icmpEchoHeaderLen (length payload) payload b
      in put16 2 (onesComplement [b]) b)"

definition parseICMPEcho :: "byte \<Rightarrow> 16 word \<Rightarrow> bytes \<Rightarrow> bytes option" where
  "parseICMPEcho wantType ident msg =
     (if length msg < icmpEchoHeaderLen then None
      else if msg ! 0 \<noteq> wantType then None
      else if u16_at msg 4 \<noteq> ident then None
      else Some (drop icmpEchoHeaderLen msg))"

section \<open>The carrier: \<open>spoofconn_linux.go\<close>\<close>

record spoofConn =
  sendProfile :: SpoofProfile
  recvProfile :: SpoofProfile
  server :: bool
  port :: "16 word"
  realPeer :: bytes
  spoofSrcs :: "bytes list"
  mtu :: int
  sendICMPType :: byte
  recvICMPType :: byte
  expectSrc :: bytes
  dpi :: SpoofDPI
  rot :: "32 word"
  ipID :: "32 word"
  tcpSeq :: "32 word"
  icmpSeq :: "32 word"

record spoofConnOpts =
  o_token :: string
  o_uplink :: SpoofProfile
  o_downlink :: SpoofProfile
  o_realPeer :: bytes
  o_srcIP :: string
  o_srcPool :: "string list"
  o_replySplit :: bool
  o_peerSrc :: string
  o_mtu :: int
  o_dpi :: SpoofDPI

datatype spoof_error = NoRealPeer | BadPoolEntry string | BadPeerSrc string

definition defaultSpoofMTU :: int where
  "defaultSpoofMTU = 1500"

definition spoofOverhead :: "SpoofProfile \<Rightarrow> int" where
  "spoofOverhead p = HeaderLen + int (profileL4Len p)"

text \<open>\<open>newSpoofConn\<close>, the configuration it resolves.  Opening the sockets, the kernel filter and the
  firewall guards are outside the model; \<open>localSource\<close> is \<open>localSourceToward(realPeer)\<close>.  The
  record it builds, with the echo types resolved for this side:\<close>

definition resolved_conn ::
    "(bytes \<Rightarrow> bytes) \<Rightarrow> bool \<Rightarrow> spoofConnOpts \<Rightarrow> bytes \<Rightarrow> int \<Rightarrow> bytes list \<Rightarrow> bytes \<Rightarrow> spoofConn" where
  "resolved_conn sha256 srv o' peer m srcs expect =
     (let sp = (if srv then o_downlink o' else o_uplink o');
          rp = (if srv then o_uplink o' else o_downlink o')
      in \<lparr>sendProfile = sp, recvProfile = rp, server = srv,
          port = snd (spoofIdentity sha256 (o_token o')), realPeer = peer,
          spoofSrcs = srcs, mtu = m,
          sendICMPType = (if o_replySplit o' \<and> srv then snd (icmpEchoTypes sp)
                          else fst (icmpEchoTypes sp)),
          recvICMPType = (if o_replySplit o' \<and> \<not> srv then snd (icmpEchoTypes rp)
                          else fst (icmpEchoTypes rp)),
          expectSrc = expect, dpi = o_dpi o', rot = 0, ipID = 0, tcpSeq = 0, icmpSeq = 0\<rparr>)"

definition resolve_mtu :: "int \<Rightarrow> int" where
  "resolve_mtu m = (if m \<le> HeaderLen + int (profileL4Len SpoofProfileTCP) then defaultSpoofMTU else m)"

definition newSpoofConn ::
    "(bytes \<Rightarrow> bytes) \<Rightarrow> (string \<Rightarrow> bytes) \<Rightarrow> bytes \<Rightarrow> bool \<Rightarrow> spoofConnOpts \<Rightarrow> spoof_error + spoofConn"
  where
  "newSpoofConn sha256 ParseIP localSource srv o' =
     (let peer = To4 (o_realPeer o') in
      if peer = [] then Inl NoRealPeer
      else case parseSpoofPool ParseIP (o_srcIP o') (o_srcPool o') of
          Inl s \<Rightarrow> Inl (BadPoolEntry s)
        | Inr srcs \<Rightarrow>
            let srcs = (if srcs = [] then [localSource] else srcs);
                expect = (if o_peerSrc o' \<noteq> '''' then To4 (ParseIP (o_peerSrc o')) else [])
            in
            if o_peerSrc o' \<noteq> '''' \<and> expect = [] then Inl (BadPeerSrc (o_peerSrc o'))
            else Inr (resolved_conn sha256 srv o' peer (resolve_mtu (o_mtu o')) srcs expect))"

text \<open>\<open>sourceFor\<close>: the counter is incremented atomically and the old value picks the source.\<close>

definition sourceFor :: "spoofConn \<Rightarrow> bytes \<times> spoofConn" where
  "sourceFor c =
     (let r = rot c + 1 in
      (spoofSrcs c ! (unat (r - 1) mod length (spoofSrcs c)), c\<lparr>rot := r\<rparr>))"

record ip_header =
  TOS :: byte
  TotalLen :: int
  ID :: nat
  MoreFragments :: bool
  FragOff :: int
  TTL :: byte
  Protocol :: byte
  Src :: bytes
  Dst :: bytes

definition frag_packet ::
    "spoofConn \<Rightarrow> spoof_rand \<Rightarrow> bytes \<Rightarrow> byte \<Rightarrow> bytes \<Rightarrow> spoofFragRange \<Rightarrow> ip_header \<times> bytes" where
  "frag_packet c r src proto shim f =
     (\<lparr>TOS = pickDSCP (dpi c) (rnd_dscp r), TotalLen = HeaderLen + (frag_end f - frag_off f),
       ID = unat (ipID c AND 0xffff), MoreFragments = frag_more f, FragOff = frag_off f sdiv 8,
       TTL = pickTTL (dpi c) (rnd_ttl r), Protocol = proto, Src = src, Dst = realPeer c\<rparr>,
      take (nat (frag_end f) - nat (frag_off f)) (drop (nat (frag_off f)) shim))"

definition sendIP ::
    "spoofConn \<Rightarrow> spoof_rand \<Rightarrow> bytes \<Rightarrow> byte \<Rightarrow> bytes \<Rightarrow> (ip_header \<times> bytes) list \<times> spoofConn" where
  "sendIP c r src proto shim =
     (let c = c\<lparr>ipID := ipID c + 1\<rparr> in
      (map (frag_packet c r src proto shim) (spoofFragments (int (length shim)) (mtu c)), c))"

definition spoof_body :: "spoofConn \<Rightarrow> spoof_rand \<Rightarrow> bytes \<Rightarrow> bytes" where
  "spoof_body c r p =
     (let body = p;
          body = (if Padding (dpi c) then applyPadding body (rnd_pad r) (rnd_fill r) else body)
      in if FakeTLS (dpi c) \<and> sendProfile c = SpoofProfileTCP then applyFakeTLS body else body)"

definition spoof_shim :: "spoofConn \<Rightarrow> spoof_rand \<Rightarrow> bytes \<Rightarrow> bytes \<Rightarrow> bytes \<times> spoofConn" where
  "spoof_shim c r src body =
     (let srcPort = pickSrcPort (dpi c) (port c) (rnd_port r) in
      if isICMPFamily (sendProfile c) then
        (let q = icmpSeq c + 1
         in (buildICMPEcho (sendICMPType c) (port c) (ucast q) body, c\<lparr>icmpSeq := q\<rparr>))
      else if sendProfile c = SpoofProfileTCP then
        (let q = tcpSeq c + (word_of_nat (length body) + 1)
         in (buildTCPShimPorts srcPort (port c) q src (realPeer c) body, c\<lparr>tcpSeq := q\<rparr>))
      else if sendProfile c = SpoofProfileIPIP then (body, c)
      else if sendProfile c = SpoofProfileGRE then (buildGREShim body, c)
      else (buildUDPShimPorts srcPort (port c) src (realPeer c) body, c))"

definition WriteTo :: "spoofConn \<Rightarrow> spoof_rand \<Rightarrow> bytes \<Rightarrow> (ip_header \<times> bytes) list \<times> spoofConn" where
  "WriteTo c r p =
     (case sourceFor c of (src, c) \<Rightarrow>
        case spoof_shim c r src (spoof_body c r p) of (shim, c) \<Rightarrow>
          sendIP c r src (ipProtocol (sendProfile c)) shim)"

definition undoDPI :: "spoofConn \<Rightarrow> SpoofProfile \<Rightarrow> bytes \<Rightarrow> bytes option" where
  "undoDPI c profile inner =
     (case (if FakeTLS (dpi c) \<and> profile = SpoofProfileTCP then stripFakeTLS inner else Some inner) of
        None \<Rightarrow> None
      | Some inner \<Rightarrow> (if Padding (dpi c) then stripPadding inner else Some inner))"

definition strip_l4 :: "spoofConn \<Rightarrow> bytes \<Rightarrow> bytes option" where
  "strip_l4 c payload =
     (if isICMPFamily (recvProfile c) then parseICMPEcho (recvICMPType c) (port c) payload
      else if recvProfile c = SpoofProfileIPIP then Some payload
      else if recvProfile c = SpoofProfileGRE then stripGREShim payload
      else stripSpoofShim (recvProfile c) (port c) payload)"

definition wrong_source :: "spoofConn \<Rightarrow> bytes option \<Rightarrow> bool" where
  "wrong_source c src =
     (expectSrc c \<noteq> [] \<and> (case src of None \<Rightarrow> True | Some ip \<Rightarrow> \<not> ip_equal ip (expectSrc c)))"

text \<open>\<open>ReadFrom\<close> on the packets its receive socket will deliver, each with its source (nil when
  unknown) and what the socket hands up: the datagram's payload on the UDP socket, the IP body on
  a raw one.  \<open>plen\<close> is the length of the caller's buffer.  \<^const>\<open>None\<close>: the socket ran dry.\<close>

fun ReadFrom :: "spoofConn \<Rightarrow> nat \<Rightarrow> (bytes option \<times> bytes) list \<Rightarrow>
    ((bytes \<times> bytes) \<times> (bytes option \<times> bytes) list) option" where
  "ReadFrom c plen [] = None"
| "ReadFrom c plen ((src, buf) # rest) =
     (if recvProfile c = SpoofProfileUDP then
        (if buf = [] then ReadFrom c plen rest
         else if wrong_source c src then ReadFrom c plen rest
         else (case undoDPI c SpoofProfileUDP buf of
                 None \<Rightarrow> ReadFrom c plen rest
               | Some inner \<Rightarrow>
                   (if inner = [] then ReadFrom c plen rest
                    else Some ((take plen inner, realPeer c), rest))))
      else
        (if wrong_source c src then ReadFrom c plen rest
         else (case strip_l4 c buf of
                 None \<Rightarrow> ReadFrom c plen rest
               | Some inner \<Rightarrow>
                   (case undoDPI c (recvProfile c) inner of
                      None \<Rightarrow> ReadFrom c plen rest
                    | Some inner \<Rightarrow>
                        (if inner = [] then ReadFrom c plen rest
                         else Some ((take plen inner, realPeer c), rest))))))"


section \<open>Layouts\<close>

text \<open>What the buffer writes of each builder amount to, field by field.\<close>

lemma replicate_split: "replicate (m + n) x = replicate m x @ replicate n x"
  by (rule replicate_add)

lemma copy_at_body:
  "length h = m \<Longrightarrow> length p = n \<Longrightarrow> length z = n \<Longrightarrow> copy_at m n p (h @ z) = h @ p"
  by (simp add: copy_at_def)

lemma put16_in_head:
  "Suc i < length h \<Longrightarrow> put16 i w (h @ p) = put16 i w h @ p"
  by (simp add: put16_def list_update_append)

lemma put32_in_head:
  "i + 3 < length h \<Longrightarrow> put32 i w (h @ p) = put32 i w h @ p"
  by (simp add: put32_def list_update_append)

lemma update_in_head: "i < length h \<Longrightarrow> (h @ p)[i := x] = h[i := x] @ p"
  by (simp add: list_update_append)

lemmas head_simps = replicate_split copy_at_body put16_in_head put32_in_head update_in_head

lemma applyFakeTLS_layers: "applyFakeTLS p = [0x17, 0x03, 0x03] @ be16 (len16 p) @ p"
proof -
  have fields: "put16 3 w ((replicate 5 0)[0 := 0x17, 1 := 0x03, 2 := 0x03]) = [0x17, 0x03, 0x03] @ be16 w"
    for w by (simp add: put16_def be16_def numeral_eq_Suc)
  show ?thesis
    by (simp add: applyFakeTLS_def Let_def tlsFakeHeaderLen_def head_simps del: One_nat_def)
      (simp add: fields del: One_nat_def)
qed

lemma buildGREShim_layers: "buildGREShim p = [0, 0] @ be16 greProtoIPv4 @ p"
proof -
  have fields: "put16 2 w (replicate 4 0) = [0, 0] @ be16 w" for w
    by (simp add: put16_def be16_def numeral_eq_Suc)
  show ?thesis
    by (simp add: buildGREShim_def Let_def greHeaderLen_def head_simps) (simp add: fields)
qed

definition udp_segment :: "16 word \<Rightarrow> 16 word \<Rightarrow> 16 word \<Rightarrow> bytes \<Rightarrow> bytes" where
  "udp_segment srcPort dstPort csum p =
     (be16 srcPort @ be16 dstPort @ be16 (word_of_nat (8 + length p)) @ be16 csum) @ p"

lemma buildUDPShimPorts_layers:
  "\<exists>csum. buildUDPShimPorts srcPort dstPort src dst p = udp_segment srcPort dstPort csum p \<and>
     (let c = l4Checksum src dst 17 (udp_segment srcPort dstPort 0 p)
      in csum = (if c = 0 then 0xffff else c))"
proof -
  have fields: "put16 6 c (be16 s @ be16 d @ be16 l @ be16 0)
      = be16 s @ be16 d @ be16 l @ be16 c" for s d l c
    by (simp add: put16_def be16_def numeral_eq_Suc)
  have zero: "put16 4 l (put16 2 d (put16 0 s (replicate 8 0))) = be16 s @ be16 d @ be16 l @ be16 0"
    for s d l by (simp add: put16_def be16_def numeral_eq_Suc)
  show ?thesis
    by (simp add: buildUDPShimPorts_def Let_def head_simps)
      (simp add: fields zero udp_segment_def)
qed

definition tcp_segment :: "16 word \<Rightarrow> 16 word \<Rightarrow> 32 word \<Rightarrow> 16 word \<Rightarrow> bytes \<Rightarrow> bytes" where
  "tcp_segment srcPort dstPort seq csum p =
     (be16 srcPort @ be16 dstPort @ be32 seq @ be32 0 @ [0x50, 0x18] @ be16 0xffff @ be16 csum @
      be16 0) @ p"

lemma buildTCPShimPorts_layers:
  "buildTCPShimPorts srcPort dstPort seq src dst p =
     tcp_segment srcPort dstPort seq
       (l4Checksum src dst 6 (tcp_segment srcPort dstPort seq 0 p)) p"
proof -
  have fields: "put16 16 c (be16 s @ be16 d @ be32 q @ be32 a @ x # y # be16 w @ be16 0 @ be16 0)
      = be16 s @ be16 d @ be32 q @ be32 a @ [x, y] @ be16 w @ be16 c @ be16 0" for s d q a x y w c
    by (simp add: put16_def put32_def be16_def be32_def numeral_eq_Suc)
  have zero: "put16 14 w ((put32 8 a (put32 4 q (put16 2 d (put16 0 s
        (replicate 20 0)))))[12 := x, 13 := y])
      = be16 s @ be16 d @ be32 q @ be32 a @ [x, y] @ be16 w @ be16 0 @ be16 0" for s d q a x y w
    by (simp add: put16_def put32_def be16_def be32_def numeral_eq_Suc)
  show ?thesis
    by (simp add: buildTCPShimPorts_def Let_def head_simps)
      (simp add: fields zero tcp_segment_def)
qed

definition icmp_message :: "byte \<Rightarrow> 16 word \<Rightarrow> 16 word \<Rightarrow> 16 word \<Rightarrow> bytes \<Rightarrow> bytes" where
  "icmp_message typ csum ident seq p = ([typ, 0] @ be16 csum @ be16 ident @ be16 seq) @ p"

lemma buildICMPEcho_layers:
  "buildICMPEcho typ ident seq p =
     icmp_message typ (onesComplement [icmp_message typ 0 ident seq p]) ident seq p"
proof -
  have fields: "put16 2 c (t # 0 # be16 0 @ be16 i @ be16 q)
      = [t, 0] @ be16 c @ be16 i @ be16 q" for t i q c
    by (simp add: put16_def be16_def numeral_eq_Suc)
  have zero: "put16 6 q (put16 4 i ((replicate 8 0)[0 := t, 1 := 0]))
      = [t, 0] @ be16 0 @ be16 i @ be16 q" for t i q
    by (simp add: put16_def be16_def numeral_eq_Suc)
  show ?thesis
    by (simp add: buildICMPEcho_def Let_def icmpEchoHeaderLen_def head_simps del: One_nat_def)
      (simp add: fields zero icmp_message_def del: One_nat_def)
qed

section \<open>Checksums of the shims\<close>

lemma words_sum_body_bound: "length p \<le> 65535 \<Longrightarrow> words_sum p \<le> 65535 * 32768"
proof -
  assume "length p \<le> 65535"
  then have "(length p + 1) div 2 \<le> 32768" by simp
  then show ?thesis using words_sum_bound [of p] by (meson le_trans mult_le_mono2)
qed

lemma words_sum_l4_pseudo:
  assumes "length (To4 src) = 4" "length (To4 dst) = 4"
  shows "words_sum (l4_pseudo src dst proto seg)
       = words_sum (To4 src) + words_sum (To4 dst) + unat proto + length seg mod 65536"
    and "words_sum (l4_pseudo src dst proto seg) \<le> 65535 * 6"
proof -
  show "words_sum (l4_pseudo src dst proto seg)
       = words_sum (To4 src) + words_sum (To4 dst) + unat proto + length seg mod 65536"
    using assms by (simp add: l4_pseudo_layers words_sum_append unat_len16)
  show "words_sum (l4_pseudo src dst proto seg) \<le> 65535 * 6"
    using words_sum_bound [of "l4_pseudo src dst proto seg"] assms by (simp add: even_length_l4_pseudo)
qed

lemma words_sum_udp_segment:
  "words_sum (udp_segment s d c p) = words_sum (udp_segment s d 0 p) + unat c"
  by (simp add: udp_segment_def words_sum_append)

lemma words_sum_tcp_segment:
  "words_sum (tcp_segment s d q c p) = words_sum (tcp_segment s d q 0 p) + unat c"
  by (simp add: tcp_segment_def words_sum_append)

lemma words_sum_icmp_message:
  "words_sum (icmp_message t c i q p) = words_sum (icmp_message t 0 i q p) + unat c"
  by (simp add: icmp_message_def words_sum_append)

lemma length_udp_segment [simp]: "length (udp_segment s d c p) = 8 + length p"
  by (simp add: udp_segment_def)

lemma length_tcp_segment [simp]: "length (tcp_segment s d q c p) = 20 + length p"
  by (simp add: tcp_segment_def)

lemma length_icmp_message [simp]: "length (icmp_message t c i q p) = 8 + length p"
  by (simp add: icmp_message_def)

lemma l4_pseudo_length_only:
  "length seg = length seg' \<Longrightarrow> l4_pseudo src dst proto seg = l4_pseudo src dst proto seg'"
  by (simp add: l4_pseudo_def len16_def)

text \<open>An L4 segment whose checksum field adds \<open>c\<close> to the sum verifies at the receiver.\<close>

lemma l4_checksum_verifies:
  assumes addr: "length (To4 src) = 4" "length (To4 dst) = 4"
    and len: "length seg = length seg0" "length seg0 \<le> 65535"
    and sum: "words_sum seg = words_sum seg0 + unat c"
    and c: "c = l4Checksum src dst proto seg0 \<or> (l4Checksum src dst proto seg0 = 0 \<and> c = 0xffff)"
  shows "l4Checksum src dst proto seg = 0"
  unfolding l4Checksum_def l4_pseudo_length_only [OF len(1)]
proof (rule checksum_fills)
  let ?ps = "words_sum (l4_pseudo src dst proto seg0)"
  show "(\<Sum>b\<leftarrow>[l4_pseudo src dst proto seg0, seg0]. words_sum b) = ?ps + words_sum seg0" by simp
  show "(\<Sum>b\<leftarrow>[l4_pseudo src dst proto seg0, seg]. words_sum b) = ?ps + words_sum seg0 + unat c"
    by (simp add: sum)
  show "?ps + words_sum seg0 < 4294900000"
    using words_sum_l4_pseudo(2) [OF addr, of proto seg0] words_sum_body_bound [OF len(2)]
    by linarith
  show "c = onesComplement [l4_pseudo src dst proto seg0, seg0] \<or>
    onesComplement [l4_pseudo src dst proto seg0, seg0] = 0 \<and> c = 0xffff"
    using c by (simp add: l4Checksum_def)
qed

text \<open>Every segment the spoof carrier builds carries a checksum that verifies: for IPv4
  addresses and a segment that fits the 16-bit length, summing the UDP or TCP segment with its
  pseudo-header (or the ICMP message alone) with the checksum in place gives 0, and the UDP
  checksum field is never 0, which would mean "no checksum".\<close>

theorem shim_checksums_verify:
  assumes addr: "length (To4 src) = 4" "length (To4 dst) = 4" and len: "length p \<le> 65515"
  shows "l4Checksum src dst 17 (buildUDPShimPorts sp dp src dst p) = 0 \<and>
    u16_at (buildUDPShimPorts sp dp src dst p) 6 \<noteq> 0 \<and>
    l4Checksum src dst 6 (buildTCPShimPorts sp dp seq src dst p) = 0 \<and>
    onesComplement [buildICMPEcho typ ident iseq p] = 0"
proof (intro conjI)
  obtain c where u: "buildUDPShimPorts sp dp src dst p = udp_segment sp dp c p"
    and c: "c = (if l4Checksum src dst 17 (udp_segment sp dp 0 p) = 0 then 0xffff
                 else l4Checksum src dst 17 (udp_segment sp dp 0 p))"
    using buildUDPShimPorts_layers [of sp dp src dst p] by (auto simp: Let_def)
  show "l4Checksum src dst 17 (buildUDPShimPorts sp dp src dst p) = 0"
    unfolding u by (rule l4_checksum_verifies [OF addr _ _ words_sum_udp_segment])
      (use len c in auto)
  show "u16_at (buildUDPShimPorts sp dp src dst p) 6 \<noteq> 0"
    unfolding u by (simp add: udp_segment_def c)
  show "l4Checksum src dst 6 (buildTCPShimPorts sp dp seq src dst p) = 0"
    unfolding buildTCPShimPorts_layers
    by (rule l4_checksum_verifies [OF addr _ _ words_sum_tcp_segment]) (use len in auto)
  have b: "words_sum (icmp_message typ 0 ident iseq p) \<le> 65535 * 32768"
    using len by (intro words_sum_body_bound) simp
  show "onesComplement [buildICMPEcho typ ident iseq p] = 0"
    unfolding buildICMPEcho_layers
  proof (rule checksum_fills)
    let ?m0 = "icmp_message typ 0 ident iseq p" and ?c = "onesComplement [icmp_message typ 0 ident iseq p]"
    show "(\<Sum>b\<leftarrow>[?m0]. words_sum b) = words_sum ?m0" by simp
    show "(\<Sum>b\<leftarrow>[icmp_message typ ?c ident iseq p]. words_sum b) = words_sum ?m0 + unat ?c"
      using words_sum_icmp_message [of "typ" "?c" ident iseq p] by simp
    show "words_sum ?m0 < 4294900000" using b by linarith
  qed simp
qed

theorem shim_checksums_verify_witness:
  "l4Checksum [10, 0, 0, 1] [10, 0, 0, 2] 17
     (buildUDPShimPorts 5000 6000 [10, 0, 0, 1] [10, 0, 0, 2] [1, 2, 3]) = 0"
  using shim_checksums_verify [of "[10, 0, 0, 1]" "[10, 0, 0, 2]" "[1, 2, 3]" 5000 6000 0 8 1 1]
  by (simp add: To4_def)

section \<open>The obfuscation layers\<close>

interpretation tls: layer "\<lambda>p q. q = applyFakeTLS p" stripFakeTLS
  by unfold_locales (simp add: stripFakeTLS_def applyFakeTLS_layers tlsFakeHeaderLen_def)

definition pads :: "bytes \<Rightarrow> bytes \<Rightarrow> bool" where
  "pads p q = (\<exists>r fill. r < 255 \<and> q = applyPadding p r fill)"

interpretation pad: layer pads stripPadding
proof
  fix p q assume "pads p q"
  then obtain r fill where r: "r < 255" and q: "q = applyPadding p r fill" by (auto simp: pads_def)
  have "unat (word_of_nat (Suc r) :: byte) = Suc r"
    using r by (simp add: unat_of_nat del: of_nat_Suc)
  then show "stripPadding q = Some p"
    by (simp add: q stripPadding_def applyPadding_def Let_def del: of_nat_Suc)
qed

interpretation gre: layer "\<lambda>p q. q = buildGREShim p" stripGREShim
  by unfold_locales (simp add: stripGREShim_def buildGREShim_layers greHeaderLen_def)

text \<open>The stack \<open>WriteTo\<close> applies on the tcp profile: padding inside, the fake record outside.\<close>

interpretation padtls: layer_stack pads stripPadding "\<lambda>p q. q = applyFakeTLS p" stripFakeTLS ..

lemma pad_max_le: "pad_max m \<le> 255"
  by (simp add: pad_max_def)

lemma rand_pads: "rand_ok d r \<Longrightarrow> pads p (applyPadding p (rnd_pad r) (rnd_fill r))"
  using less_le_trans [OF _ pad_max_le] unfolding pads_def rand_ok_def by blast

lemma undoDPI_spoof_body:
  assumes "rand_ok (dpi c) r" "dpi s = dpi c"
  shows "undoDPI s (sendProfile c) (spoof_body c r p) = Some p"
proof -
  let ?a = "applyPadding p (rnd_pad r) (rnd_fill r)"
  have a: "pads p ?a" using assms(1) by (rule rand_pads)
  have "stripPadding ?a = Some p" using a by (rule pad.strip_wraps)
  moreover have "strip_both stripFakeTLS stripPadding (applyFakeTLS ?a) = Some p"
    using a by (intro padtls.stacked.strip_wraps) auto
  ultimately show ?thesis
    by (auto simp: undoDPI_def spoof_body_def Let_def assms(2) strip_both_def tls.strip_wraps
        split: bind_splits)
qed


section \<open>Fragments\<close>

text \<open>What the receiving kernel does with the fragments of one datagram, delivered in order: offsets
  must continue where the previous one ended, every fragment but the last must carry a multiple of
  8 bytes, and only the last one has a clear more-fragments flag.\<close>

fun reassemble :: "int \<Rightarrow> (ip_header \<times> bytes) list \<Rightarrow> bytes option" where
  "reassemble pos [] = None"
| "reassemble pos ((h, b) # r) =
     (if 8 * FragOff h \<noteq> pos then None
      else if MoreFragments h then
        (if length b mod 8 \<noteq> 0 then None else map_option ((@) b) (reassemble (pos + int (length b)) r))
      else if r = [] then Some b else None)"

lemma frag_step_pos: "0 < frag_step mtu'"
  by (simp add: frag_step_def Let_def)

lemma frag_step_dvd: "8 dvd frag_step mtu'"
  by (simp add: frag_step_def Let_def)

lemma frag_step_fits: "28 \<le> mtu' \<Longrightarrow> HeaderLen + frag_step mtu' \<le> mtu'"
  by (simp add: frag_step_def Let_def HeaderLen_def signed_divide_int_def sgn_if) presburger

lemma sdiv_8: "8 dvd o' \<Longrightarrow> 0 \<le> o' \<Longrightarrow> 8 * (o' sdiv 8) = (o' :: int)"
  by (simp add: signed_divide_int_def sgn_if)

lemma reassemble_loop:
  "0 < m \<Longrightarrow> 8 dvd m \<Longrightarrow> 8 dvd o' \<Longrightarrow> 0 \<le> o' \<Longrightarrow> o' < int (length shim) \<Longrightarrow>
    reassemble o' (map (frag_packet c r src proto shim) (fragment_loop m (int (length shim)) o'))
      = Some (drop (nat o') shim)"
proof (induction m "int (length shim)" o' rule: fragment_loop.induct)
  case (1 m o')
  show ?case
  proof (cases "o' + m < int (length shim)")
    case True
    have IH: "reassemble (o' + m) (map (frag_packet c r src proto shim)
        (fragment_loop m (int (length shim)) (o' + m))) = Some (drop (nat (o' + m)) shim)"
      using 1 True by simp
    let ?b = "take (nat (o' + m) - nat o') (drop (nat o') shim)"
    have len: "nat (o' + m) - nat o' = nat m" "nat (o' + m) = nat m + nat o'"
      using 1 by (simp_all add: nat_add_distrib)
    have blen: "int (length ?b) = m" using True 1 len by (simp add: nat_add_distrib)
    have "8 dvd int (length ?b)" using 1 blen by simp
    then have "length ?b mod 8 = 0" by presburger
    moreover have "?b @ drop (nat (o' + m)) shim = drop (nat o') shim"
      unfolding len(1) by (simp add: len(2) append_take_drop_id flip: drop_drop)
    ultimately show ?thesis
      using True 1 IH blen
      by (subst fragment_loop.simps) (simp add: frag_packet_def sdiv_8 Let_def del: length_take)
  next
    case False
    have "fragment_loop m (int (length shim)) (o' + m) = []"
      using False by (subst fragment_loop.simps) simp
    then show ?thesis
      using False 1 by (subst fragment_loop.simps) (simp add: frag_packet_def sdiv_8 Let_def)
  qed
qed

lemma fragment_loop_bounds:
  "f \<in> set (fragment_loop m l o') \<Longrightarrow>
     o' \<le> frag_off f \<and> frag_off f < frag_end f \<and> frag_end f \<le> l \<and> frag_end f - frag_off f \<le> m"
proof (induction m l o' rule: fragment_loop.induct)
  case (1 m l o')
  have c: "o' < l \<and> 0 < m" using 1(2) by (subst (asm) fragment_loop.simps) (auto split: if_splits)
  then consider "f \<in> set (fragment_loop m l (o' + m))"
    | "frag_off f = o'" "frag_end f = (if l < o' + m then l else o' + m)"
    using 1(2) by (subst (asm) fragment_loop.simps) (auto simp: Let_def)
  then show ?case
  proof cases
    case 1
    with "1.IH" [OF c refl refl] c show ?thesis by linarith
  qed (use c in auto)
qed

lemma sendIP_reassembles:
  assumes "28 \<le> mtu c"
  shows "reassemble 0 (fst (sendIP c r src proto shim)) = Some shim"
proof (cases "HeaderLen + int (length shim) \<le> mtu c")
  case True
  then show ?thesis by (simp add: sendIP_def spoofFragments_def frag_packet_def Let_def)
next
  case False
  then have "0 < int (length shim)" using assms unfolding HeaderLen_def by linarith
  then show ?thesis
    using False reassemble_loop [OF frag_step_pos frag_step_dvd, of 0 shim]
    by (simp add: sendIP_def spoofFragments_def Let_def)
qed

lemma sendIP_fits:
  assumes "28 \<le> mtu c" "(h, b) \<in> set (fst (sendIP c r src proto shim))"
  shows "TotalLen h \<le> mtu c \<and> TotalLen h = HeaderLen + int (length b)"
proof -
  obtain f where f: "f \<in> set (spoofFragments (int (length shim)) (mtu c))"
    and h: "h = fst (frag_packet (c\<lparr>ipID := ipID c + 1\<rparr>) r src proto shim f)"
    and b: "b = take (nat (frag_end f) - nat (frag_off f)) (drop (nat (frag_off f)) shim)"
    using assms(2) by (auto simp: sendIP_def Let_def frag_packet_def)
  have "0 \<le> frag_off f \<and> frag_off f \<le> frag_end f \<and> frag_end f \<le> int (length shim) \<and>
      HeaderLen + (frag_end f - frag_off f) \<le> mtu c"
    using f frag_step_fits [OF assms(1)] fragment_loop_bounds [of f]
    by (fastforce simp: spoofFragments_def split: if_splits)
  then show ?thesis by (auto simp: h b frag_packet_def nat_diff_distrib' of_nat_diff)
qed


section \<open>End to end\<close>

text \<open>The part of a carrier that \<open>WriteTo\<close> leaves alone: everything but its counters.\<close>

definition config_of :: "spoofConn \<Rightarrow> spoofConn" where
  "config_of c = c\<lparr>rot := 0, ipID := 0, tcpSeq := 0, icmpSeq := 0\<rparr>"

lemma config_of_eqD:
  "config_of c = config_of c' \<Longrightarrow>
     sendProfile c = sendProfile c' \<and> recvProfile c = recvProfile c' \<and> port c = port c' \<and>
     realPeer c = realPeer c' \<and> mtu c = mtu c' \<and> dpi c = dpi c' \<and> spoofSrcs c = spoofSrcs c' \<and>
     sendICMPType c = sendICMPType c' \<and> recvICMPType c = recvICMPType c' \<and>
     expectSrc c = expectSrc c'"
  unfolding config_of_def by (cases c, cases c') simp

lemma config_of_WriteTo: "config_of (snd (WriteTo c r p)) = config_of c"
  by (simp add: config_of_def WriteTo_def sourceFor_def spoof_shim_def sendIP_def Let_def)

text \<open>What the receiver's socket hands up for a reassembled IP body: the UDP socket strips the UDP
  header, a raw socket nothing.\<close>

definition socket_view :: "SpoofProfile \<Rightarrow> bytes \<Rightarrow> bytes" where
  "socket_view profile body = (if profile = SpoofProfileUDP then drop 8 body else body)"

text \<open>Two ends of one tunnel: what one sends on, the other receives on.\<close>

definition paired :: "spoofConn \<Rightarrow> spoofConn \<Rightarrow> bool" where
  "paired c s =
     (recvProfile s = sendProfile c \<and> port s = port c \<and> dpi s = dpi c \<and>
      recvICMPType s = sendICMPType c)"

lemma newSpoofConn_InrD:
  "newSpoofConn sha PI l srv o' = Inr c \<Longrightarrow>
     \<exists>peer srcs expect. c = resolved_conn sha srv o' peer (resolve_mtu (o_mtu o')) srcs expect"
  by (auto simp: newSpoofConn_def Let_def split: if_splits sum.splits)

lemma newSpoofConn_paired:
  assumes "newSpoofConn sha PI l srv o1 = Inr c" "newSpoofConn sha PI' l' (\<not> srv) o2 = Inr s"
    and "o_token o1 = o_token o2" "o_uplink o1 = o_uplink o2" "o_downlink o1 = o_downlink o2"
    and "o_replySplit o1 = o_replySplit o2" "o_dpi o1 = o_dpi o2"
  shows "paired c s"
  using newSpoofConn_InrD [OF assms(1)] newSpoofConn_InrD [OF assms(2)] assms(3-7)
  by (auto simp: resolved_conn_def paired_def Let_def)

lemma newSpoofConn_mtu: "newSpoofConn sha PI l srv o' = Inr c \<Longrightarrow> 41 \<le> mtu c"
  by (drule newSpoofConn_InrD)
    (auto simp: resolved_conn_def resolve_mtu_def Let_def HeaderLen_def defaultSpoofMTU_def)

lemma drop_buildUDPShimPorts: "drop 8 (buildUDPShimPorts sp dp src dst p) = p"
proof -
  obtain c where "buildUDPShimPorts sp dp src dst p = udp_segment sp dp c p"
    using buildUDPShimPorts_layers [of sp dp src dst p] by blast
  then show ?thesis by (simp add: udp_segment_def)
qed

lemma strip_buildTCPShimPorts:
  "stripSpoofShim SpoofProfileTCP dp (buildTCPShimPorts sp dp seq src dst p) = Some p"
  by (simp add: stripSpoofShim_def buildTCPShimPorts_layers tcp_segment_def nth_append)

lemma parse_buildICMPEcho: "parseICMPEcho t i (buildICMPEcho t i q p) = Some p"
  by (simp add: parseICMPEcho_def buildICMPEcho_layers icmp_message_def icmpEchoHeaderLen_def)

lemma strip_l4_shim:
  assumes "paired c s" "shim = fst (spoof_shim c r src body)"
  shows "(if recvProfile s = SpoofProfileUDP then Some (drop 8 shim) else strip_l4 s shim) = Some body"
  using assms
  by (cases "sendProfile c")
    (simp_all add: paired_def strip_l4_def spoof_shim_def Let_def isICMPFamily_def gre.strip_wraps
      drop_buildUDPShimPorts strip_buildTCPShimPorts parse_buildICMPEcho)

lemma ReadFrom_accepts:
  assumes "\<not> wrong_source s src" "p \<noteq> []"
    and "(if recvProfile s = SpoofProfileUDP then Some (drop 8 shim) else strip_l4 s shim) = Some body"
    and "undoDPI s (recvProfile s) body = Some p" "body \<noteq> []"
  shows "ReadFrom s plen ((src, socket_view (recvProfile s) shim) # rest)
       = Some ((take plen p, realPeer s), rest)"
  using assms by (auto simp: socket_view_def split: if_splits)


lemma spoof_body_nonempty: "rand_ok (dpi c) r \<Longrightarrow> p \<noteq> [] \<Longrightarrow> spoof_body c r p \<noteq> []"
  by (simp add: spoof_body_def applyPadding_def applyFakeTLS_layers Let_def)

lemma WriteTo_packets:
  assumes "41 \<le> mtu c" "paired c s" "rand_ok (dpi c) r" "p \<noteq> []" "WriteTo c r p = (pkts, c')"
  shows "\<exists>shim. reassemble 0 pkts = Some shim \<and>
    (\<forall>src rest plen. \<not> wrong_source s src \<longrightarrow>
       ReadFrom s plen ((src, socket_view (recvProfile s) shim) # rest)
         = Some ((take plen p, realPeer s), rest))"
proof -
  obtain src c1 where s1: "sourceFor c = (src, c1)" by force
  obtain shim c2 where s2: "spoof_shim c1 r src (spoof_body c1 r p) = (shim, c2)" by force
  have cfg1: "config_of c1 = config_of c" and cfg2: "config_of c2 = config_of c"
    using s1 s2 by (auto simp: sourceFor_def spoof_shim_def config_of_def Let_def split: if_splits)
  have p1: "paired c1 s" using assms(2) config_of_eqD [OF cfg1] by (simp add: paired_def)
  have pkts: "pkts = fst (sendIP c2 r src (ipProtocol (sendProfile c2)) shim)"
    using assms(5) by (simp add: WriteTo_def s1 s2)
  have "28 \<le> mtu c2" using assms(1) config_of_eqD [OF cfg2] by simp
  then have "reassemble 0 pkts = Some shim" unfolding pkts by (rule sendIP_reassembles)
  moreover have "ReadFrom s plen ((sr, socket_view (recvProfile s) shim) # rest)
      = Some ((take plen p, realPeer s), rest)" if "\<not> wrong_source s sr" for sr rest plen
  proof (rule ReadFrom_accepts [OF that assms(4)])
    have r1: "rand_ok (dpi c1) r" using assms(3) config_of_eqD [OF cfg1] by simp
    show "(if recvProfile s = SpoofProfileUDP then Some (drop 8 shim) else strip_l4 s shim)
        = Some (spoof_body c1 r p)"
      by (rule strip_l4_shim [OF p1, of shim r src]) (simp add: s2)
    show "undoDPI s (recvProfile s) (spoof_body c1 r p) = Some p"
      using undoDPI_spoof_body [OF r1, of s p] p1 by (simp add: paired_def)
    show "spoof_body c1 r p \<noteq> []" by (rule spoof_body_nonempty [OF r1 assms(4)])
  qed
  ultimately show ?thesis by blast
qed


definition demo_dpi :: SpoofDPI where
  "demo_dpi = \<lparr>TTLJitter = True, RandomDSCP = False, ShufflePort = True, PortMin = 0, PortMax = 0,
     Padding = True, PaddingMax = 0, FakeTLS = True\<rparr>"

definition demo_opts :: spoofConnOpts where
  "demo_opts = \<lparr>o_token = ''t'', o_uplink = SpoofProfileTCP, o_downlink = SpoofProfileICMP,
     o_realPeer = [10, 0, 0, 9], o_srcIP = '''', o_srcPool = [], o_replySplit = True,
     o_peerSrc = '''', o_mtu = 0, o_dpi = demo_dpi\<rparr>"

definition demo_rand :: spoof_rand where
  "demo_rand = \<lparr>rnd_ttl = 1, rnd_dscp = 0, rnd_port = 5, rnd_pad = 3, rnd_fill = (\<lambda>_. 9)\<rparr>"

definition demo_conn :: "bool \<Rightarrow> spoofConn" where
  "demo_conn srv = projr (newSpoofConn (\<lambda>_. replicate 32 7) (\<lambda>_. []) [10, 0, 0, 1] srv demo_opts)"

lemma demo_conn: "newSpoofConn (\<lambda>_. replicate 32 7) (\<lambda>_. []) [10, 0, 0, 1] srv demo_opts = Inr (demo_conn srv)"
  by (simp add: demo_conn_def newSpoofConn_def demo_opts_def To4_def parseSpoofPool_def Let_def)

lemma demo_rand_ok: "rand_ok demo_dpi demo_rand"
  by (simp add: rand_ok_def demo_dpi_def demo_rand_def ttlPool_def dscpPool_def pad_max_def
      port_range_def)



text \<open>Userspace fragmentation.  For an MTU of at least 28 bytes, the IP packets \<open>sendIP\<close> writes
  for a segment each fit the MTU with a total length that matches their payload, and a kernel that
  requires contiguous offsets, 8-byte multiples and one final fragment reassembles them to the
  segment.\<close>

theorem fragments_tile_the_segment:
  assumes "28 \<le> mtu c"
  shows "reassemble 0 (fst (sendIP c r src proto shim)) = Some shim \<and>
    list_all (\<lambda>(h, b). TotalLen h \<le> mtu c \<and> TotalLen h = HeaderLen + int (length b))
      (fst (sendIP c r src proto shim))"
  using sendIP_reassembles [OF assms] sendIP_fits [OF assms] by (fastforce simp: list_all_iff)

theorem fragments_tile_the_segment_witness:
  "reassemble 0 (fst (sendIP ((demo_conn True)\<lparr>mtu := 36\<rparr>) demo_rand [10, 0, 0, 1] 6 (replicate 50 7)))
     = Some (replicate 50 7)"
  using fragments_tile_the_segment [of "(demo_conn True)\<lparr>mtu := 36\<rparr>" demo_rand "[10, 0, 0, 1]" 6
      "replicate 50 7"]
  by simp


text \<open>The shuffled source port stays in the configured range: with \<open>spoof_port_min\<close>/\<open>max\<close>
  resolved to \<open>lo\<close> and \<open>hi\<close>, the 16-bit addition never wraps and every draw gives a port between
  \<open>lo\<close> and \<open>hi\<close>; and the tunnel's own port, derived from the token, is never a well-known one.\<close>

theorem ports_in_range:
  assumes "rand_ok d r" "ShufflePort d" "port_range d = (lo, hi)"
  shows "lo \<le> pickSrcPort d fixed (rnd_port r) \<and> pickSrcPort d fixed (rnd_port r) \<le> hi \<and>
    1024 \<le> snd (spoofIdentity sha256 token)"
proof -
  have le: "lo \<le> hi"
    using assms(3) by (auto simp: port_range_def Let_def word_le_nat_alt not_le split: if_splits)
  have r: "rnd_port r \<le> unat (hi - lo)" using assms(1,3) by (simp add: rand_ok_def)
  have hl: "unat (hi - lo) = unat hi - unat lo" using le by (simp add: unat_sub)
  then have "unat lo + rnd_port r < 65536"
    using r le unat_u16_lt [of hi] unfolding word_le_nat_alt by linarith
  then have "unat (lo + word_of_nat (rnd_port r)) = unat lo + rnd_port r"
    by (simp add: unat_word_ariths unat_of_nat)
  moreover have "1024 \<le> snd (spoofIdentity sha256 token)"
  proof -
    have "1024 \<le> (if w < 1024 then w + 1024 else w)" for w :: "16 word"
      by (auto simp: word_le_nat_alt word_less_nat_alt unat_word_ariths)
    then show ?thesis by (simp add: spoofIdentity_def Let_def)
  qed
  ultimately show ?thesis
    using assms(2,3) r hl le by (simp add: pickSrcPort_def word_le_nat_alt)
qed


theorem ports_in_range_witness:
  "49152 \<le> pickSrcPort demo_dpi 80 (rnd_port demo_rand) \<and>
   pickSrcPort demo_dpi 80 (rnd_port demo_rand) \<le> 65535"
  using ports_in_range [OF demo_rand_ok, of 49152 65535 80]
  by (simp add: demo_dpi_def port_range_def)


end
