(* ===== verification/Xdi.thy ===== *)
theory Xdi
  imports Spoof
begin

text \<open>
  The tunnel inside ICMP echo: the tag-and-direction framing of
  \<open>internal/utils/network/icmpframe.go\<close> and the packet connection of \<open>icmpconn_linux.go\<close>.  An ICMP
  message is the record the \<open>icmp\<close> package marshals and parses (its type, identifier, sequence
  number and data); the raw socket is the list of messages it will deliver.
\<close>

definition xdiHeaderLen :: nat where
  "xdiHeaderLen = xdiTagLen + 1"

definition xdiDirServer :: byte where
  "xdiDirServer = 0x53"

definition xdiDirClient :: byte where
  "xdiDirClient = 0x43"

definition xdiIdentity :: "(bytes \<Rightarrow> bytes) \<Rightarrow> string \<Rightarrow> 16 word \<times> bytes" where
  "xdiIdentity sha256 token =
     (let sum = sha256 (str_bytes (''arange-tun-xdi-v1:'' @ token))
      in (u16_at sum xdiTagLen, take xdiTagLen sum))"

definition outboundDir :: "bool \<Rightarrow> byte" where
  "outboundDir srv = (if srv then xdiDirServer else xdiDirClient)"

definition inboundDir :: "bool \<Rightarrow> byte" where
  "inboundDir srv = (if srv then xdiDirClient else xdiDirServer)"

definition encodeXdiPayload :: "bytes \<Rightarrow> byte \<Rightarrow> bytes \<Rightarrow> bytes" where
  "encodeXdiPayload tag dir payload =
     (let out = replicate (xdiHeaderLen + length payload) 0;
          out = copy_at 0 xdiTagLen tag out;
          out = out[xdiTagLen := dir]
      in copy_at xdiHeaderLen (length payload) payload out)"

text \<open>The tag comparison loop, then the direction byte.\<close>

fun tag_matches :: "nat \<Rightarrow> bytes \<Rightarrow> bytes \<Rightarrow> bool" where
  "tag_matches 0 data tag = True"
| "tag_matches (Suc n) data tag = (tag_matches n data tag \<and> data ! n = tag ! n)"

definition decodeXdiPayload :: "bytes \<Rightarrow> byte \<Rightarrow> bytes \<Rightarrow> bytes option" where
  "decodeXdiPayload tag wantDir data =
     (if length data < xdiHeaderLen then None
      else if \<not> tag_matches xdiTagLen data tag then None
      else if data ! xdiTagLen \<noteq> wantDir then None
      else Some (drop xdiHeaderLen data))"

section \<open>The packet connection\<close>

datatype icmp_type = Echo | EchoReply

record icmp_echo =
  echo_type :: icmp_type
  echo_id :: "16 word"
  echo_seq :: "16 word"
  echo_data :: bytes

record icmpConn =
  xdi_server :: bool
  xdi_id :: "16 word"
  xdi_tag :: bytes
  xdi_seq :: "32 word"

definition newICMPConn :: "(bytes \<Rightarrow> bytes) \<Rightarrow> bool \<Rightarrow> string \<Rightarrow> icmpConn" where
  "newICMPConn sha256 srv token =
     (case xdiIdentity sha256 token of (ident, tag) \<Rightarrow>
        \<lparr>xdi_server = srv, xdi_id = ident, xdi_tag = tag, xdi_seq = 0\<rparr>)"

definition icmp_WriteTo :: "icmpConn \<Rightarrow> bytes \<Rightarrow> icmp_echo \<times> icmpConn" where
  "icmp_WriteTo c p =
     (let q = xdi_seq c + 1 in
      (\<lparr>echo_type = (if xdi_server c then EchoReply else Echo), echo_id = xdi_id c,
        echo_seq = ucast (q AND 0xffff),
        echo_data = encodeXdiPayload (xdi_tag c) (outboundDir (xdi_server c)) p\<rparr>,
       c\<lparr>xdi_seq := q\<rparr>))"

text \<open>\<open>ReadFrom\<close>: a message that does not parse as an echo is \<^const>\<open>None\<close> in the list; the loop skips
  everything that is not this tunnel's inbound traffic.\<close>

fun icmp_ReadFrom :: "icmpConn \<Rightarrow> nat \<Rightarrow> icmp_echo option list \<Rightarrow> (bytes \<times> icmp_echo option list) option" where
  "icmp_ReadFrom c plen [] = None"
| "icmp_ReadFrom c plen (None # rest) = icmp_ReadFrom c plen rest"
| "icmp_ReadFrom c plen (Some m # rest) =
     (if echo_type m \<noteq> (if xdi_server c then Echo else EchoReply) then icmp_ReadFrom c plen rest
      else if echo_id m \<noteq> xdi_id c then icmp_ReadFrom c plen rest
      else (case decodeXdiPayload (xdi_tag c) (inboundDir (xdi_server c)) (echo_data m) of
              None \<Rightarrow> icmp_ReadFrom c plen rest
            | Some payload \<Rightarrow> Some (take plen payload, rest)))"

text \<open>The kernel answers an echo request itself: same identifier, sequence and data.\<close>

definition kernel_reply :: "icmp_echo \<Rightarrow> icmp_echo" where
  "kernel_reply m = m\<lparr>echo_type := EchoReply\<rparr>"

section \<open>Correctness\<close>

lemma encodeXdiPayload_layers:
  assumes "length tag = 4"
  shows "encodeXdiPayload tag dir p = tag @ [dir] @ p"
proof -
  have "copy_at 0 4 tag (replicate (5 + length p) 0) = tag @ [0] @ replicate (length p) 0"
    using assms by (simp add: copy_at_def)
  then show ?thesis
    using assms copy_at_body [of "tag @ [dir]" 5 p "length p" "replicate (length p) 0"]
    by (simp add: encodeXdiPayload_def xdiHeaderLen_def xdiTagLen_def Let_def list_update_append)
qed

lemma tag_matches_take:
  "n \<le> length data \<Longrightarrow> n \<le> length tag \<Longrightarrow> tag_matches n data tag \<longleftrightarrow> take n data = take n tag"
  by (induction n) (auto simp: take_Suc_conv_app_nth)

lemma decode_encode:
  assumes "length tag = 4" "length tag' = 4"
  shows "decodeXdiPayload tag' want (encodeXdiPayload tag dir p)
       = (if tag' = tag \<and> want = dir then Some p else None)"
  using assms
  by (auto simp: decodeXdiPayload_def encodeXdiPayload_layers tag_matches_take xdiHeaderLen_def
      xdiTagLen_def nth_append)

interpretation xdi: layer "\<lambda>p q. length tag = 4 \<and> q = encodeXdiPayload tag dir p"
  "decodeXdiPayload tag dir" for tag dir
  by unfold_locales (simp add: decode_encode)

lemma dirs_differ: "outboundDir srv \<noteq> inboundDir srv" "inboundDir (\<not> srv) = outboundDir srv"
  by (auto simp: outboundDir_def inboundDir_def xdiDirServer_def xdiDirClient_def)

text \<open>(C19) The xdi demultiplexer.  For a hash with 32-byte digests, a datagram one end sends is the
  next one the other end of the same token reads, whatever the readers' buffer; the kernel's
  automatic reply to a client's packet, which carries the client's own identifier and tag, is
  skipped by the client; and a packet of a tunnel whose tag differs is skipped even when its
  identifier and type match.\<close>

theorem xdi_demultiplexes:
  assumes sha: "\<And>x. length (sha256 x) = 32"
    and conn: "c = newICMPConn sha256 srv token" "s = newICMPConn sha256 (\<not> srv) token"
    and m: "m = fst (icmp_WriteTo (c\<lparr>xdi_seq := n\<rparr>) p)"
    and other: "d = newICMPConn sha256 (\<not> srv) token'" "xdi_tag d \<noteq> xdi_tag c"
  shows "icmp_ReadFrom s plen (Some m # rest) = Some (take plen p, rest) \<and>
    icmp_ReadFrom c plen (Some (kernel_reply m) # rest) = icmp_ReadFrom c plen rest \<and>
    icmp_ReadFrom d plen (Some m # rest) = icmp_ReadFrom d plen rest"
proof -
  have tags: "length (xdi_tag c) = 4" "length (xdi_tag d) = 4"
    using sha by (simp_all add: conn other newICMPConn_def xdiIdentity_def Let_def xdiTagLen_def)
  have same: "xdi_tag s = xdi_tag c" "xdi_id s = xdi_id c" "xdi_server s = (\<not> xdi_server c)"
    "xdi_server d = (\<not> xdi_server c)"
    by (simp_all add: conn other newICMPConn_def xdiIdentity_def Let_def)
  show ?thesis
    using tags same other(2)
    by (simp add: m icmp_WriteTo_def kernel_reply_def Let_def decode_encode dirs_differ
        dirs_differ(1) [symmetric])
qed

theorem xdi_demultiplexes_witness:
  "icmp_ReadFrom (newICMPConn (\<lambda>x. replicate 32 (word_of_nat (length x))) True ''ab'') 9
     [Some (fst (icmp_WriteTo ((newICMPConn (\<lambda>x. replicate 32 (word_of_nat (length x))) False ''ab'')
        \<lparr>xdi_seq := 3\<rparr>) [1, 2]))]
   = Some ([1, 2], [])"
  using xdi_demultiplexes [of "\<lambda>x. replicate 32 (word_of_nat (length x))" _ False "''ab''" _ _ 3 "[1, 2]"
      _ "''abc''" 9 "[]", OF _ refl refl refl refl]
  by (simp add: newICMPConn_def xdiIdentity_def Let_def str_bytes_def xdiTagLen_def numeral_eq_Suc)

end
