(* ===== verification/Pck.thy ===== *)
theory Pck
  imports Checksum Spoof
begin

text \<open>
  The packet-level TCP carrier: frame assembly and parsing (\<open>internal/utils/network/pckframe.go\<close>),
  the client's source ports (\<open>pckport.go\<close>) and the connection's numbering, send and receive paths
  (\<open>pckconn_linux.go\<close>).

  The frame is assembled in place in a pooled buffer whose old contents are arbitrary; a write
  through a sub-slice of it is \<open>in_slice\<close>.  Parsing reads straight off the wire, so its index and
  slice expressions are the checked ones: \<^const>\<open>None\<close> would be a run-time panic.
\<close>

type_synonym TCPFlags = "8 word"

definition FlagFIN :: TCPFlags where "FlagFIN = 1"
definition FlagSYN :: TCPFlags where "FlagSYN = 2"
definition FlagRST :: TCPFlags where "FlagRST = 4"
definition FlagPSH :: TCPFlags where "FlagPSH = 8"
definition FlagACK :: TCPFlags where "FlagACK = 16"
definition FlagURG :: TCPFlags where "FlagURG = 32"
definition FlagECE :: TCPFlags where "FlagECE = 64"
definition FlagCWR :: TCPFlags where "FlagCWR = 128"

definition pckEthHeaderLen :: nat where "pckEthHeaderLen = 14"
definition pckTCPHeaderLen :: nat where "pckTCPHeaderLen = 20"
definition pckTCPOptionsLen :: nat where "pckTCPOptionsLen = 12"
definition ipHeaderLen :: nat where "ipHeaderLen = 20"
definition pckWindow :: "16 word" where "pckWindow = 65535"
definition etherTypeIPv4 :: "16 word" where "etherTypeIPv4 = 0x0800"

lemmas pck_lens = pckEthHeaderLen_def pckTCPHeaderLen_def pckTCPOptionsLen_def ipHeaderLen_def

section \<open>Assembling a frame: \<open>pckframe.go\<close>\<close>

record pckFrameParams =
  SrcMAC :: bytes
  DstMAC :: bytes
  SrcIP :: bytes
  DstIP :: bytes
  SrcPort :: "16 word"
  DstPort :: "16 word"
  Seq :: "32 word"
  Ack :: "32 word"
  Flags :: TCPFlags
  TSVal :: "32 word"
  TSEcr :: "32 word"
  IPID :: "16 word"
  Payload :: bytes

definition pckFrameLen :: "nat \<Rightarrow> nat" where
  "pckFrameLen payload = pckEthHeaderLen + ipHeaderLen + pckTCPHeaderLen + pckTCPOptionsLen + payload"

definition pckIPOffset :: nat where "pckIPOffset = pckEthHeaderLen"
definition pckTCPOffset :: nat where "pckTCPOffset = pckIPOffset + ipHeaderLen"
definition pckPayloadOffset :: nat where
  "pckPayloadOffset = pckTCPOffset + pckTCPHeaderLen + pckTCPOptionsLen"

lemmas pck_offsets = pckFrameLen_def pckIPOffset_def pckTCPOffset_def pckPayloadOffset_def pck_lens

text \<open>Writes through \<open>frame[a:b]\<close>.\<close>

definition in_slice :: "nat \<Rightarrow> nat \<Rightarrow> (bytes \<Rightarrow> bytes) \<Rightarrow> bytes \<Rightarrow> bytes" where
  "in_slice a b f frame = take a frame @ f (take (b - a) (drop a frame)) @ drop b frame"

definition pck_eth_writes :: "pckFrameParams \<Rightarrow> bytes \<Rightarrow> bytes" where
  "pck_eth_writes p frame = put16 12 etherTypeIPv4 (copy_at 6 6 (SrcMAC p) (copy_at 0 6 (DstMAC p) frame))"

definition pck_ip_writes :: "pckFrameParams \<Rightarrow> nat \<Rightarrow> bytes \<Rightarrow> bytes" where
  "pck_ip_writes p tlen ip =
     (let ip = ip[0 := push_bit 4 4 OR 5];
          ip = ip[1 := push_bit 2 46];
          ip = put16 2 (word_of_nat (tlen - pckEthHeaderLen)) ip;
          ip = put16 4 (IPID p) ip;
          ip = put16 6 0x4000 ip;
          ip = ip[8 := 64];
          ip = ip[9 := 6];
          ip = ip[10 := 0, 11 := 0];
          ip = copy_at 12 4 (To4 (SrcIP p)) ip;
          ip = copy_at 16 4 (To4 (DstIP p)) ip
      in put16 10 (onesComplement [ip]) ip)"

definition pck_tcp_writes :: "pckFrameParams \<Rightarrow> bytes \<Rightarrow> bytes" where
  "pck_tcp_writes p tcp =
     (let tcp = put16 0 (SrcPort p) tcp;
          tcp = put16 2 (DstPort p) tcp;
          tcp = put32 4 (Seq p) tcp;
          tcp = put32 8 (Ack p) tcp;
          tcp = tcp[12 := push_bit 4 (word_of_nat ((pckTCPHeaderLen + pckTCPOptionsLen) div 4))];
          tcp = tcp[13 := Flags p];
          tcp = put16 14 pckWindow tcp;
          tcp = tcp[16 := 0, 17 := 0];
          tcp = tcp[18 := 0, 19 := 0];
          tcp = tcp[20 := 1, 21 := 1];
          tcp = tcp[22 := 8, 23 := 10];
          tcp = put32 24 (TSVal p) tcp;
          tcp = put32 28 (TSEcr p) tcp;
          tcp = copy_at (pckPayloadOffset - pckTCPOffset) (length tcp) (Payload p) tcp
      in put16 16 (l4Checksum (SrcIP p) (DstIP p) 6 tcp) tcp)"

definition assemblePckFrame :: "bytes \<Rightarrow> pckFrameParams \<Rightarrow> bytes option" where
  "assemblePckFrame buf p =
     (let tlen = pckFrameLen (length (Payload p)) in
      do { frame \<leftarrow> go_slice buf 0 tlen;
           let frame = pck_eth_writes p frame;
           let frame = in_slice pckIPOffset pckTCPOffset (pck_ip_writes p tlen) frame;
           Some (in_slice pckTCPOffset (length frame) (pck_tcp_writes p) frame) })"

text \<open>The layered builders, each returning a fresh slice.\<close>

definition buildPckTCP ::
    "16 word \<Rightarrow> 16 word \<Rightarrow> 32 word \<Rightarrow> 32 word \<Rightarrow> TCPFlags \<Rightarrow> 32 word \<Rightarrow> 32 word \<Rightarrow> bytes \<Rightarrow> bytes \<Rightarrow> bytes \<Rightarrow> bytes"
  where
  "buildPckTCP srcPort dstPort seq ack flags tsVal tsEcr src dst payload =
     (let hl = pckTCPHeaderLen + pckTCPOptionsLen;
          b = replicate (hl + length payload) 0;
          b = put16 0 srcPort b;
          b = put16 2 dstPort b;
          b = put32 4 seq b;
          b = put32 8 ack b;
          b = b[12 := push_bit 4 (word_of_nat (hl div 4))];
          b = b[13 := flags];
          b = put16 14 pckWindow b;
          b = b[20 := 1];
          b = b[21 := 1];
          b = b[22 := 8];
          b = b[23 := 10];
          b = put32 24 tsVal b;
          b = put32 28 tsEcr b;
          b = copy_at hl (length payload) payload b
      in put16 16 (l4Checksum src dst 6 b) b)"

definition buildPckIPv4 :: "16 word \<Rightarrow> bytes \<Rightarrow> bytes \<Rightarrow> bytes \<Rightarrow> bytes" where
  "buildPckIPv4 ident src dst l4 =
     (let b = replicate (ipHeaderLen + length l4) 0;
          n = length b;
          b = b[0 := push_bit 4 4 OR 5];
          b = b[1 := push_bit 2 46];
          b = put16 2 (word_of_nat n) b;
          b = put16 4 ident b;
          b = put16 6 0x4000 b;
          b = b[8 := 64];
          b = b[9 := 6];
          b = copy_at 12 4 (To4 src) b;
          b = copy_at 16 4 (To4 dst) b;
          b = put16 10 (onesComplement [take ipHeaderLen b]) b
      in copy_at ipHeaderLen (length l4) l4 b)"

definition buildPckEthernet :: "bytes \<Rightarrow> bytes \<Rightarrow> bytes \<Rightarrow> bytes" where
  "buildPckEthernet dstMAC srcMAC ip =
     (let b = replicate (pckEthHeaderLen + length ip) 0;
          b = copy_at 0 6 dstMAC b;
          b = copy_at 6 6 srcMAC b;
          b = put16 12 etherTypeIPv4 b
      in copy_at pckEthHeaderLen (length ip) ip b)"

section \<open>Parsing a frame\<close>

record pckSegment =
  seg_SrcIP :: bytes
  seg_SrcPort :: "16 word"
  seg_DstPort :: "16 word"
  seg_Seq :: "32 word"
  seg_TSVal :: "32 word"
  seg_Payload :: bytes

definition be16_slice :: "bytes \<Rightarrow> nat \<Rightarrow> 16 word option" where
  "be16_slice b i = do { s \<leftarrow> go_slice b i (i + 2); Some (u16_at s 0) }"

definition be32_slice :: "bytes \<Rightarrow> nat \<Rightarrow> 32 word option" where
  "be32_slice b i = do { s \<leftarrow> go_slice b i (i + 4); Some (u32_at s 0) }"

text \<open>\<open>tcpTimestamp\<close>: the option walk; the loop variable grows by at least one each round.\<close>

function tcpTimestamp_from :: "bytes \<Rightarrow> nat \<Rightarrow> 32 word option" where
  "tcpTimestamp_from opts i =
     (if i < length opts then
        do { k \<leftarrow> go_idx opts i;
             if k = 0 then Some 0
             else if k = 1 then tcpTimestamp_from opts (i + 1)
             else if i + 1 \<ge> length opts then Some 0
             else do { lb \<leftarrow> go_idx opts (i + 1);
                       let l = unat lb;
                       if l < 2 \<or> i + l > length opts then Some 0
                       else if k = 8 \<and> l = 10 then be32_slice opts (i + 2)
                       else tcpTimestamp_from opts (i + l) } }
      else Some 0)"
  by auto
termination
  by (relation "measure (\<lambda>(opts, i). length opts - i)") auto

declare tcpTimestamp_from.simps [simp del]

definition tcpTimestamp :: "bytes \<Rightarrow> 32 word option" where
  "tcpTimestamp opts = tcpTimestamp_from opts 0"

text \<open>\<open>parsePckFrame\<close>: \<^const>\<open>None\<close> is a panic, \<open>Some None\<close> is "not one of ours".\<close>

definition parsePckFrame :: "bytes \<Rightarrow> nat \<Rightarrow> 16 word \<Rightarrow> pckSegment option option" where
  "parsePckFrame frame linkLen wantPort =
     (if length frame < linkLen + ipHeaderLen then Some None
      else do {
        badType \<leftarrow> (if linkLen = pckEthHeaderLen
                     then do { t \<leftarrow> be16_slice frame 12; Some (t \<noteq> etherTypeIPv4) }
                     else Some False);
        if badType then Some None
        else do {
          ip \<leftarrow> go_slice frame linkLen (length frame);
          b0 \<leftarrow> go_idx ip 0;
          if drop_bit 4 b0 \<noteq> 4 then Some None
          else do {
            let ihl = unat (b0 AND 0x0f) * 4;
            if ihl < ipHeaderLen \<or> length ip < ihl then Some None
            else do {
              b9 \<leftarrow> go_idx ip 9;
              if b9 \<noteq> 6 then Some None
              else do {
                fo \<leftarrow> be16_slice ip 6;
                if fo AND 0x1fff \<noteq> 0 then Some None
                else do {
                  tl \<leftarrow> be16_slice ip 2;
                  let tlen = unat tl;
                  if tlen < ihl \<or> tlen > length ip then Some None
                  else do {
                    tcp \<leftarrow> go_slice ip ihl tlen;
                    if length tcp < pckTCPHeaderLen then Some None
                    else do {
                      dstPort \<leftarrow> be16_slice tcp 2;
                      if dstPort \<noteq> wantPort then Some None
                      else do {
                        b12 \<leftarrow> go_idx tcp 12;
                        let off = unat (drop_bit 4 b12) * 4;
                        if off < pckTCPHeaderLen \<or> off > length tcp then Some None
                        else do {
                          srcIP \<leftarrow> go_slice ip 12 16;
                          sp \<leftarrow> be16_slice tcp 0;
                          sq \<leftarrow> be32_slice tcp 4;
                          opts \<leftarrow> go_slice tcp pckTCPHeaderLen off;
                          ts \<leftarrow> tcpTimestamp opts;
                          pl \<leftarrow> go_slice tcp off (length tcp);
                          Some (Some \<lparr>seg_SrcIP = srcIP, seg_SrcPort = sp, seg_DstPort = dstPort,
                                      seg_Seq = sq, seg_TSVal = ts, seg_Payload = pl\<rparr>)
                        } } } } } } } } } })"

section \<open>Layout of a frame\<close>

definition eth_layout :: "bytes \<Rightarrow> bytes \<Rightarrow> bytes" where
  "eth_layout dst src = dst @ src @ be16 etherTypeIPv4"

definition ip_layout :: "16 word \<Rightarrow> 16 word \<Rightarrow> 16 word \<Rightarrow> bytes \<Rightarrow> bytes \<Rightarrow> bytes" where
  "ip_layout len ident csum src dst =
     [0x45, 184] @ be16 len @ be16 ident @ be16 0x4000 @ [64, 6] @ be16 csum @ src @ dst"

definition tcp_layout :: "pckFrameParams \<Rightarrow> 16 word \<Rightarrow> bytes" where
  "tcp_layout p csum =
     be16 (SrcPort p) @ be16 (DstPort p) @ be32 (Seq p) @ be32 (Ack p) @ [0x80, Flags p] @
     be16 pckWindow @ be16 csum @ [0, 0, 1, 1, 8, 10] @ be32 (TSVal p) @ be32 (TSEcr p)"

lemma length_layouts [simp]:
  "length d = 6 \<Longrightarrow> length s = 6 \<Longrightarrow> length (eth_layout d s) = 14"
  "length s = 4 \<Longrightarrow> length d = 4 \<Longrightarrow> length (ip_layout n i c s d) = 20"
  "length (tcp_layout p c) = 32"
  by (simp_all add: eth_layout_def ip_layout_def tcp_layout_def)

lemma take_copy_at:
  "length src = n \<Longrightarrow> a + n \<le> length h \<Longrightarrow> copy_at a n src (h @ z) = copy_at a n src h @ z"
  by (simp add: copy_at_def)

lemma copy_at_head_n:
  "length h = m \<Longrightarrow> length p = length z \<Longrightarrow> length z \<le> n \<Longrightarrow> copy_at m n p (h @ z) = h @ p"
  by (simp add: copy_at_def)

text \<open>The header writes leave nothing of the buffer they are applied to.\<close>

lemma split3:
  assumes "length h = a + b + c"
  obtains x y z where "h = x @ y @ z" "length x = a" "length y = b" "length z = c"
proof
  show "h = take a h @ take b (drop a h) @ drop b (drop a h)" by (simp only: append_take_drop_id)
qed (use assms in simp_all)

lemma eth_head:
  assumes "length h = 14" "length d = 6" "length s = 6"
  shows "put16 12 w (copy_at 6 6 s (copy_at 0 6 d h)) = d @ s @ be16 w"
proof -
  obtain a b c where h: "h = a @ b @ c" and l: "length a = 6" "length b = 6" "length c = 2"
    using split3 [of h 6 6 2] assms(1) by auto
  obtain x y where c: "c = [x, y]" using l(3) by (auto simp: numeral_2_eq_2 length_Suc_conv)
  have "copy_at 0 6 d h = d @ b @ c"
    using copy_at_layers [of "[]" 0 a d 6 "b @ c"] l assms by (simp add: h)
  moreover have "copy_at 6 6 s (d @ b @ c) = d @ s @ c"
    using l assms by (simp add: copy_at_layers)
  ultimately show ?thesis
    using assms by (simp add: put16_def list_update_append be16_def c)
qed

lemma ip_head_fixed:
  assumes "length a = 12"
  shows "(put16 6 fl (put16 4 i (put16 2 n (a[0 := v, 1 := t]))))[8 := l, 9 := pr, 10 := 0, 11 := 0]
    = [v, t] @ be16 n @ be16 i @ be16 fl @ [l, pr] @ be16 0"
proof -
  obtain x0 x1 x2 x3 x4 x5 x6 x7 x8 x9 x10 x11
    where "a = [x0, x1, x2, x3, x4, x5, x6, x7, x8, x9, x10, x11]"
    using assms by (auto simp: numeral_eq_Suc length_Suc_conv)
  then show ?thesis by (simp add: put16_def be16_def numeral_eq_Suc)
qed

lemma ip_head:
  assumes "length h = 20" "length s = 4" "length d = 4"
  shows "copy_at 16 4 d (copy_at 12 4 s ((put16 6 0x4000 (put16 4 i (put16 2 n
      (h[0 := 0x45, 1 := 184]))))[8 := 64, 9 := 6, 10 := 0, 11 := 0])) = ip_layout n i 0 s d"
proof -
  obtain a b c where h: "h = a @ b @ c" and l: "length a = 12" "length b = 4" "length c = 4"
    using split3 [of h 12 4 4] assms(1) by auto
  have "(put16 6 0x4000 (put16 4 i (put16 2 n
      (h[0 := 0x45, 1 := 184]))))[8 := 64, 9 := 6, 10 := 0, 11 := 0]
    = ([0x45, 184] @ be16 n @ be16 i @ be16 0x4000 @ [64, 6] @ be16 0) @ b @ c"
    unfolding ip_head_fixed [OF l(1), symmetric] using l by (simp add: h head_simps del: One_nat_def)
  then show ?thesis
    using l assms copy_at_layers [of "[0x45, 184] @ be16 n @ be16 i @ be16 0x4000 @ [64, 6] @ be16 0"
        12 b s 4 c]
      copy_at_layers [of "[0x45, 184] @ be16 n @ be16 i @ be16 0x4000 @ [64, 6] @ be16 0 @ s" 16 c d 4
        "[]"]
    by (simp add: ip_layout_def)
qed

lemma ip_head_csum:
  "put16 10 c (ip_layout n i x s d) = ip_layout n i c s d"
proof -
  have "put16 10 c ([v, t] @ be16 n @ be16 i @ be16 fl @ [l, pr] @ be16 x)
      = [v, t] @ be16 n @ be16 i @ be16 fl @ [l, pr] @ be16 c" for v t fl l pr
    by (simp add: put16_def be16_def numeral_eq_Suc)
  then show ?thesis
    using put16_in_head [of 10 "[0x45, 184] @ be16 n @ be16 i @ be16 0x4000 @ [64, 6] @ be16 x" c "s @ d"]
    by (simp add: ip_layout_def)
qed


lemma list20:
  assumes "length a = 20"
  obtains x0 x1 x2 x3 x4 x5 x6 x7 x8 x9 x10 x11 x12 x13 x14 x15 x16 x17 x18 x19
  where "a = [x0, x1, x2, x3, x4, x5, x6, x7, x8, x9, x10, x11, x12, x13, x14, x15, x16, x17, x18, x19]"
  using assms by (auto simp: numeral_eq_Suc length_Suc_conv)

text \<open>The fixed part of the TCP header and its options are two blocks of a 32-byte header.\<close>

lemma tcp_fixed:
  assumes "length a = 20"
  shows "(put16 14 w ((put32 8 k (put32 4 q (put16 2 d (put16 0 s a))))[12 := o', 13 := f]))
      [16 := 0, 17 := 0, 18 := 0, 19 := 0]
    = be16 s @ be16 d @ be32 q @ be32 k @ [o', f] @ be16 w @ be16 0 @ [0, 0]"
  using assms by (rule list20) (simp add: put16_def put32_def be16_def be32_def numeral_eq_Suc)

lemma tcp_options:
  assumes "length h = 20" "length a = 12"
  shows "put32 28 e (put32 24 v ((h @ a)[20 := a1, 21 := a2, 22 := a3, 23 := a4]))
    = h @ [a1, a2, a3, a4] @ be32 v @ be32 e"
proof -
  obtain x0 x1 x2 x3 x4 x5 x6 x7 x8 x9 x10 x11
    where "a = [x0, x1, x2, x3, x4, x5, x6, x7, x8, x9, x10, x11]"
    using assms by (auto simp: numeral_eq_Suc length_Suc_conv)
  then show ?thesis using assms(1) by (simp add: put32_def be32_def list_update_append)
qed

lemma tcp_csum: "put16 16 c (tcp_layout p x @ z) = tcp_layout p c @ z"
proof -
  have "put16 16 c (h @ be16 x @ r) = h @ be16 c @ r" if "length h = 16" for h r
    using that by (simp add: put16_def be16_def list_update_append)
  from this [of "be16 (SrcPort p) @ be16 (DstPort p) @ be32 (Seq p) @ be32 (Ack p) @ [0x80, Flags p] @
     be16 pckWindow"]
  show ?thesis by (simp add: tcp_layout_def)
qed

lemma tcp_header:
  assumes "length h = 32"
  shows "put32 28 (TSEcr p) (put32 24 (TSVal p) ((put16 14 pckWindow ((put32 8 (Ack p) (put32 4 (Seq p)
      (put16 2 (DstPort p) (put16 0 (SrcPort p) h))))[12 := 0x80, 13 := Flags p]))
      [16 := 0, 17 := 0, 18 := 0, 19 := 0, 20 := 1, 21 := 1, 22 := 8, 23 := 10]))
    = tcp_layout p 0"
proof -
  obtain a b z where "h = a @ b @ z" and l: "length a = 20" "length b = 12" "length z = 0"
    by (rule split3 [of h 20 12 0]) (use assms in simp_all)
  then have h: "h = a @ b" by simp
  have "put32 28 (TSEcr p) (put32 24 (TSVal p) (((put16 14 pckWindow ((put32 8 (Ack p) (put32 4 (Seq p)
      (put16 2 (DstPort p) (put16 0 (SrcPort p) a))))[12 := 0x80, 13 := Flags p]))
      [16 := 0, 17 := 0, 18 := 0, 19 := 0] @ b)[20 := 1, 21 := 1, 22 := 8, 23 := 10]))
    = tcp_layout p 0"
    by (subst tcp_options) (use l in \<open>simp_all add: tcp_fixed tcp_layout_def be16_def\<close>)
  then show ?thesis using l by (simp add: h head_simps)
qed

lemma tcp_off: "push_bit 4 (word_of_nat (32 div 4)) = (0x80 :: byte)"
  by simp

lemma pck_tcp_writes_layout:
  assumes "length h = 32" "length z = length (Payload p)"
  shows "pck_tcp_writes p (h @ z) =
    tcp_layout p (l4Checksum (SrcIP p) (DstIP p) 6 (tcp_layout p 0 @ Payload p)) @ Payload p"
proof -
  note hd = tcp_header [OF assms(1), of p]
  have "copy_at 32 (32 + length z) (Payload p) (tcp_layout p 0 @ z) = tcp_layout p 0 @ Payload p"
    using assms by (simp add: copy_at_head_n)
  then show ?thesis
    using assms hd
    by (simp add: pck_tcp_writes_def Let_def pck_offsets head_simps tcp_csum)
qed


lemma pck_ip_writes_layout:
  assumes "length h = 20" "length (To4 (SrcIP p)) = 4" "length (To4 (DstIP p)) = 4"
  shows "pck_ip_writes p t h =
    (let n = word_of_nat (t - 14); lay = \<lambda>c. ip_layout n (IPID p) c (To4 (SrcIP p)) (To4 (DstIP p))
     in lay (onesComplement [lay 0]))"
  using ip_head [OF assms, of "IPID p" "word_of_nat (t - 14)"]
  by (simp add: pck_ip_writes_def Let_def pck_lens ip_head_csum)

text \<open>A frame with the given parameters, header by header.\<close>

definition pck_frame :: "pckFrameParams \<Rightarrow> bytes" where
  "pck_frame p =
     (let n = word_of_nat (52 + length (Payload p));
          ipl = \<lambda>c. ip_layout n (IPID p) c (To4 (SrcIP p)) (To4 (DstIP p))
      in eth_layout (DstMAC p) (SrcMAC p) @ ipl (onesComplement [ipl 0]) @
         tcp_layout p (l4Checksum (SrcIP p) (DstIP p) 6 (tcp_layout p 0 @ Payload p)) @ Payload p)"

definition params_ok :: "pckFrameParams \<Rightarrow> bool" where
  "params_ok p = (length (SrcMAC p) = 6 \<and> length (DstMAC p) = 6 \<and>
     length (To4 (SrcIP p)) = 4 \<and> length (To4 (DstIP p)) = 4)"

lemma in_slice_mid: "length a = i \<Longrightarrow> i + length b = j \<Longrightarrow> in_slice i j f (a @ b @ c) = a @ f b @ c"
  by (auto simp: in_slice_def)

lemma in_slice_end: "length a = i \<Longrightarrow> i + length b = j \<Longrightarrow> in_slice i j f (a @ b) = a @ f b"
  using in_slice_mid [of a i b j f "[]"] by simp

lemma assemblePckFrame_layout:
  assumes ok: "params_ok p" and len: "pckFrameLen (length (Payload p)) \<le> length buf"
  shows "assemblePckFrame buf p = Some (pck_frame p)"
proof -
  let ?n = "length (Payload p)"
  let ?f = "take (66 + ?n) buf"
  have lf: "length ?f = 14 + 20 + (32 + ?n)" using len by (simp add: pck_offsets)
  obtain e i t where f: "?f = e @ i @ t" and l: "length e = 14" "length i = 20" "length t = 32 + ?n"
    using split3 [OF lf] by metis
  obtain h z where t: "t = h @ z" and lt: "length h = 32" "length z = ?n"
    using l(3) by (metis append_take_drop_id length_append length_take add_left_cancel min.absorb2 le_add1)
  note okd = ok [unfolded params_ok_def]
  let ?ip = "pck_ip_writes p (66 + ?n) i" and ?eth = "eth_layout (DstMAC p) (SrcMAC p)"
  have eth: "pck_eth_writes p ?f = ?eth @ i @ t"
    using eth_head [OF l(1)] okd l
    by (simp add: f pck_eth_writes_def eth_layout_def take_copy_at put16_in_head)
  have ip: "in_slice 14 34 (pck_ip_writes p (66 + ?n)) (?eth @ i @ t) = ?eth @ ?ip @ t"
    using l okd by (simp add: in_slice_mid)
  have lip: "length ?ip = 20"
    using okd by (simp add: pck_ip_writes_layout [OF l(2)] Let_def)
  have "in_slice 34 (66 + ?n) (pck_tcp_writes p) ((?eth @ ?ip) @ t) = (?eth @ ?ip) @ pck_tcp_writes p t"
    using l okd lip by (intro in_slice_end) simp_all
  then show ?thesis
    using len okd l lip pck_tcp_writes_layout [OF lt, folded t] pck_ip_writes_layout [OF l(2), of p "66 + ?n"]
    by (simp add: assemblePckFrame_def Let_def pck_offsets eth ip pck_frame_def)
qed


lemma buildPckTCP_layout:
  "buildPckTCP (SrcPort p) (DstPort p) (Seq p) (Ack p) (Flags p) (TSVal p) (TSEcr p) (SrcIP p) (DstIP p)
     (Payload p)
   = tcp_layout p (l4Checksum (SrcIP p) (DstIP p) 6 (tcp_layout p 0 @ Payload p)) @ Payload p"
proof -
  have "put32 28 (TSEcr p) (put32 24 (TSVal p) ((put16 14 pckWindow ((put32 8 (Ack p) (put32 4 (Seq p)
      (put16 2 (DstPort p) (put16 0 (SrcPort p) (replicate 32 0)))))[12 := 0x80, 13 := Flags p]))
      [20 := 1, 21 := 1, 22 := 8, 23 := 10])) = tcp_layout p 0"
    by (simp add: put16_def put32_def tcp_layout_def be16_def be32_def numeral_eq_Suc)
  then show ?thesis
    by (simp add: buildPckTCP_def Let_def pck_lens head_simps tcp_csum)
qed

lemma buildPckIPv4_layout:
  assumes "length (To4 src) = 4" "length (To4 dst) = 4"
  shows "buildPckIPv4 ident src dst l4 =
    (let n = word_of_nat (20 + length l4); lay = \<lambda>c. ip_layout n ident c (To4 src) (To4 dst)
     in lay (onesComplement [lay 0]) @ l4)"
proof -
  have z: "(put16 6 fl (put16 4 i (put16 2 n ((replicate 20 0)[0 := v, 1 := t]))))[8 := l, 9 := pr]
     = (put16 6 fl (put16 4 i (put16 2 n ((replicate 20 0)[0 := v, 1 := t]))))
        [8 := l, 9 := pr, 10 := 0, 11 := 0]" for i n fl v t l pr
    by (simp add: put16_def numeral_eq_Suc)
  show ?thesis
    using assms ip_head [of "replicate 20 0", OF _ assms] unfolding z [symmetric]
    by (simp add: buildPckIPv4_def Let_def ipHeaderLen_def head_simps take_copy_at ip_head_csum)
qed


lemma buildPckEthernet_layout:
  assumes "length d = 6" "length s = 6"
  shows "buildPckEthernet d s ip = eth_layout d s @ ip"
  using assms eth_head [of "replicate 14 0" d s etherTypeIPv4, folded eth_layout_def]
  by (simp add: buildPckEthernet_def Let_def pck_lens head_simps take_copy_at)

text \<open>(C10) The in-place frame builder is the layered one.  Whatever the pooled buffer holds from
  earlier packets, as long as it is large enough and the addresses are well formed (6-byte MACs,
  IPv4 addresses), \<open>assemblePckFrame\<close> does not panic and returns byte for byte what
  \<open>buildPckEthernet\<close>, \<open>buildPckIPv4\<close> and \<open>buildPckTCP\<close> produce on fresh slices.\<close>

theorem assemble_in_place_equiv:
  assumes "params_ok p" "pckFrameLen (length (Payload p)) \<le> length buf"
  shows "assemblePckFrame buf p =
    Some (buildPckEthernet (DstMAC p) (SrcMAC p)
      (buildPckIPv4 (IPID p) (SrcIP p) (DstIP p)
        (buildPckTCP (SrcPort p) (DstPort p) (Seq p) (Ack p) (Flags p) (TSVal p) (TSEcr p)
           (SrcIP p) (DstIP p) (Payload p))))"
  using assms(1) unfolding params_ok_def
  by (simp add: assemblePckFrame_layout [OF assms] pck_frame_def Let_def buildPckEthernet_layout
      buildPckIPv4_layout buildPckTCP_layout)

definition demo_params :: "16 word \<Rightarrow> bytes \<Rightarrow> pckFrameParams" where
  "demo_params dport payload =
     \<lparr>SrcMAC = [2, 0, 0, 0, 0, 1], DstMAC = [2, 0, 0, 0, 0, 2], SrcIP = [10, 0, 0, 1],
      DstIP = [10, 0, 0, 2], SrcPort = 40000, DstPort = dport, Seq = 7, Ack = 9, Flags = 0x18,
      TSVal = 100, TSEcr = 99, IPID = 1, Payload = payload\<rparr>"

lemma demo_params_ok: "params_ok (demo_params d q)"
  by (simp add: params_ok_def demo_params_def To4_def)

theorem assemble_in_place_equiv_witness:
  "assemblePckFrame (replicate 70 0xAA) (demo_params 443 [1, 2]) =
    Some (buildPckEthernet [2, 0, 0, 0, 0, 2] [2, 0, 0, 0, 0, 1]
      (buildPckIPv4 1 [10, 0, 0, 1] [10, 0, 0, 2]
        (buildPckTCP 40000 443 7 9 0x18 100 99 [10, 0, 0, 1] [10, 0, 0, 2] [1, 2])))"
  using assemble_in_place_equiv [OF demo_params_ok, of 443 "[1, 2]" "replicate 70 0xAA"]
  by (simp add: demo_params_def pck_offsets)

section \<open>Parsing\<close>

lemma be16_slice_ok [simp]: "i + 2 \<le> length b \<Longrightarrow> be16_slice b i = Some (u16_at b i)"
  by (simp add: be16_slice_def u16_at_def)

lemma be32_slice_ok [simp]: "i + 4 \<le> length b \<Longrightarrow> be32_slice b i = Some (u32_at b i)"
  by (simp add: be32_slice_def u32_at_def)

lemma tcpTimestamp_from_total: "\<exists>v. tcpTimestamp_from opts i = Some v"
proof (induction opts i rule: tcpTimestamp_from.induct)
  case (1 opts i)
  show ?case
  proof (cases "i < length opts")
    case True
    then show ?thesis
      using 1 by (subst tcpTimestamp_from.simps) (auto simp: Let_def)
  next
    case False
    then show ?thesis by (subst tcpTimestamp_from.simps) simp
  qed
qed

lemma tcpTimestamp_total: "\<exists>v. tcpTimestamp opts = Some v"
  by (simp add: tcpTimestamp_def tcpTimestamp_from_total)


text \<open>Running a checked computation: a panic can only come from one of its steps.\<close>

lemma np_if: "(c \<Longrightarrow> m \<noteq> None) \<Longrightarrow> (\<not> c \<Longrightarrow> n \<noteq> None) \<Longrightarrow> (if c then m else n) \<noteq> None"
  by simp

lemma np_bind: "m \<noteq> None \<Longrightarrow> (\<And>v. m = Some v \<Longrightarrow> f v \<noteq> None) \<Longrightarrow> Option.bind m f \<noteq> None"
  by auto

lemma np_Some: "Some x \<noteq> None"
  by simp

text \<open>Reading off the wire is safe.  For any captured bytes, any link-header length and any
  port, \<open>parsePckFrame\<close> never indexes or slices out of range: it accepts or rejects, it does not
  panic.\<close>

theorem parsePckFrame_never_panics: "parsePckFrame frame linkLen wantPort \<noteq> None"
  unfolding parsePckFrame_def Let_def
  by (intro np_if np_bind np_Some)
    (auto simp: pck_lens tcpTimestamp_total go_idx_def go_slice_def be16_slice_def be32_slice_def)


lemma tcpTimestamp_linux: "tcpTimestamp ([1, 1, 8, 10] @ be32 v @ be32 e) = Some v"
proof -
  let ?o = "[1, 1, 8, 10] @ be32 v @ be32 e"
  have s: "be32_slice ?o 4 = Some v"
    using u32_at_append [of "[1, 1, 8, 10]" 4 "be32 v @ be32 e"] by (simp del: u32_at_append)
  have "tcpTimestamp_from ?o 2 = Some v"
    using s by (subst tcpTimestamp_from.simps) simp
  then have "tcpTimestamp_from ?o 1 = Some v"
    by (subst tcpTimestamp_from.simps) (simp del: One_nat_def)
  then show ?thesis
    unfolding tcpTimestamp_def by (subst tcpTimestamp_from.simps) simp
qed

lemma parsePckFrame_accepts:
  fixes e h t pl pad :: bytes
  assumes e: "length e = 14" "u16_at e 12 = etherTypeIPv4"
    and h: "length h = 20" "h ! 0 = 0x45" "h ! 9 = 6" "u16_at h 6 = 0x4000"
      "unat (u16_at h 2) = 52 + length pl"
    and t: "length t = 32" "t ! 12 = 0x80" "tcpTimestamp (drop 20 t) = Some ts"
  shows "parsePckFrame (e @ h @ t @ pl @ pad) 14 wp = Some (if wp = u16_at t 2 then Some
    \<lparr>seg_SrcIP = take 4 (drop 12 h), seg_SrcPort = u16_at t 0, seg_DstPort = u16_at t 2,
     seg_Seq = u32_at t 4, seg_TSVal = ts, seg_Payload = pl\<rparr> else None)"
proof -
  have ip: "go_slice (e @ h @ t @ pl @ pad) 14 (66 + (length pl + length pad)) = Some (h @ t @ pl @ pad)"
    using e h(1) t(1) by simp
  have tcp: "go_slice (h @ t @ pl @ pad) 20 (52 + length pl) = Some (t @ pl)"
    using h(1) t(1) by simp
  have o20: "go_slice (t @ pl) 20 32 = Some (drop 20 t)" using t(1) by simp
  show ?thesis
    using e h t
    by (simp add: parsePckFrame_def pck_lens ip tcp o20 u16_at_append_left u32_at_append_left nth_append
        Let_def)
qed


lemma eth_layout_type: "length d = 6 \<Longrightarrow> length s = 6 \<Longrightarrow> u16_at (eth_layout d s) 12 = etherTypeIPv4"
  by (simp add: eth_layout_def)

lemma ip_layout_fields:
  assumes "length s = 4" "length d = 4"
  shows "ip_layout n i c s d ! 0 = 0x45" "ip_layout n i c s d ! 9 = 6"
    "u16_at (ip_layout n i c s d) 6 = 0x4000" "u16_at (ip_layout n i c s d) 2 = n"
    "take 4 (drop 12 (ip_layout n i c s d)) = s"
  using assms by (simp_all add: ip_layout_def nth_append nth_Cons_numeral)

lemma tcp_layout_fields:
  "u16_at (tcp_layout p c) 0 = SrcPort p" "u16_at (tcp_layout p c) 2 = DstPort p"
  "u32_at (tcp_layout p c) 4 = Seq p" "tcp_layout p c ! 12 = 0x80"
  "drop 20 (tcp_layout p c) = [1, 1, 8, 10] @ be32 (TSVal p) @ be32 (TSEcr p)"
  by (simp_all add: tcp_layout_def nth_append)

lemma parse_pck_frame:
  assumes ok: "params_ok p" and len: "length (Payload p) \<le> 65483"
  shows "parsePckFrame (pck_frame p @ pad) 14 wp = Some (if wp = DstPort p then Some
    \<lparr>seg_SrcIP = To4 (SrcIP p), seg_SrcPort = SrcPort p, seg_DstPort = DstPort p, seg_Seq = Seq p,
     seg_TSVal = TSVal p, seg_Payload = Payload p\<rparr> else None)"
proof -
  let ?n = "word_of_nat (52 + length (Payload p)) :: 16 word"
  let ?ip = "\<lambda>c. ip_layout ?n (IPID p) c (To4 (SrcIP p)) (To4 (DstIP p))"
  let ?t = "tcp_layout p (l4Checksum (SrcIP p) (DstIP p) 6 (tcp_layout p 0 @ Payload p))"
  note okd = ok [unfolded params_ok_def]
  have n: "unat ?n = 52 + length (Payload p)" using len by (simp add: unat_of_nat del: of_nat_add)
  have "parsePckFrame (eth_layout (DstMAC p) (SrcMAC p) @ ?ip (onesComplement [?ip 0]) @ ?t @ Payload p @ pad)
      14 wp = Some (if wp = u16_at ?t 2 then Some
    \<lparr>seg_SrcIP = take 4 (drop 12 (?ip (onesComplement [?ip 0]))), seg_SrcPort = u16_at ?t 0,
     seg_DstPort = u16_at ?t 2, seg_Seq = u32_at ?t 4, seg_TSVal = TSVal p, seg_Payload = Payload p\<rparr> else None)"
    by (rule parsePckFrame_accepts)
      (use okd n in \<open>simp_all add: eth_layout_type ip_layout_fields tcp_layout_fields
        tcpTimestamp_linux [simplified]\<close>)
  then show ?thesis
    using okd by (simp add: pck_frame_def Let_def tcp_layout_fields ip_layout_fields)
qed

text \<open>Frames survive the wire.  A frame assembled from well-formed parameters, in any dirty
  buffer large enough, whose payload fits the 16-bit IP length, followed by any link padding, is
  parsed by the receiver waiting on its destination port to exactly the source address, ports,
  sequence number, timestamp and payload it was built from; a receiver on another port rejects
  it.\<close>

theorem pck_frame_roundtrip:
  assumes "params_ok p" "length (Payload p) \<le> 65483" "assemblePckFrame buf p = Some frame"
  shows "parsePckFrame (frame @ pad) 14 wantPort = Some (if wantPort = DstPort p then Some
      \<lparr>seg_SrcIP = To4 (SrcIP p), seg_SrcPort = SrcPort p, seg_DstPort = DstPort p, seg_Seq = Seq p,
       seg_TSVal = TSVal p, seg_Payload = Payload p\<rparr> else None)"
proof -
  have "pckFrameLen (length (Payload p)) \<le> length buf"
    using assms(3) by (auto simp: assemblePckFrame_def Let_def go_slice_def split: if_splits)
  then have "frame = pck_frame p" using assemblePckFrame_layout [OF assms(1)] assms(3) by simp
  then show ?thesis using parse_pck_frame [OF assms(1,2)] by simp
qed

theorem pck_frame_roundtrip_witness:
  "parsePckFrame (pck_frame (demo_params 443 [1, 2, 3]) @ [0, 0]) 14 443 = Some (Some
      \<lparr>seg_SrcIP = [10, 0, 0, 1], seg_SrcPort = 40000, seg_DstPort = 443, seg_Seq = 7,
       seg_TSVal = 100, seg_Payload = [1, 2, 3]\<rparr>)"
  using pck_frame_roundtrip [OF demo_params_ok, of 443 "[1, 2, 3]" "replicate 80 1"
      "pck_frame (demo_params 443 [1, 2, 3])" "[0, 0]" 443]
    assemblePckFrame_layout [OF demo_params_ok, of 443 "[1, 2, 3]" "replicate 80 1"]
  by (simp add: demo_params_def pck_offsets To4_def)

lemma words_sum_ip_layout:
  "words_sum (ip_layout n i c s d) = words_sum (ip_layout n i 0 s d) + unat c"
  by (simp add: ip_layout_def words_sum_append)

lemma words_sum_tcp_layout:
  "words_sum (tcp_layout p c @ z) = words_sum (tcp_layout p 0 @ z) + unat c"
  by (simp add: tcp_layout_def words_sum_append)

text \<open>Both checksums of an assembled frame verify: the IPv4 header sums to 0, and so does the
  TCP segment with its pseudo-header, for every payload that fits the segment length.\<close>

theorem pck_checksums_verify:
  assumes ok: "params_ok p" and len: "length (Payload p) \<le> 65483"
    and frame: "assemblePckFrame buf p = Some frame"
  shows "onesComplement [take 20 (drop 14 frame)] = 0 \<and>
    l4Checksum (SrcIP p) (DstIP p) 6 (drop 34 frame) = 0"
proof
  have "pckFrameLen (length (Payload p)) \<le> length buf"
    using frame by (auto simp: assemblePckFrame_def Let_def go_slice_def split: if_splits)
  then have f: "frame = pck_frame p" using assemblePckFrame_layout [OF ok] frame by simp
  note okd = ok [unfolded params_ok_def]
  let ?lay = "\<lambda>c. ip_layout (word_of_nat (52 + length (Payload p))) (IPID p) c (To4 (SrcIP p)) (To4 (DstIP p))"
  have ip: "take 20 (drop 14 frame) = ?lay (onesComplement [?lay 0])"
    using okd by (simp add: f pck_frame_def Let_def)
  have "words_sum (?lay 0) \<le> 65535 * 10"
    using words_sum_bound [of "?lay 0"] okd by (simp del: of_nat_add)
  then show "onesComplement [take 20 (drop 14 frame)] = 0"
    unfolding ip using words_sum_ip_layout [of _ "IPID p" "onesComplement [?lay 0]"]
    by (intro checksum_fills [of "[?lay 0]" "words_sum (?lay 0)" _ "onesComplement [?lay 0]"]) auto
  have tcp: "drop 34 frame = tcp_layout p (l4Checksum (SrcIP p) (DstIP p) 6 (tcp_layout p 0 @ Payload p))
      @ Payload p"
    using okd by (simp add: f pck_frame_def Let_def)
  show "l4Checksum (SrcIP p) (DstIP p) 6 (drop 34 frame) = 0"
    unfolding tcp
    by (rule l4_checksum_verifies [OF _ _ _ _ words_sum_tcp_layout]) (use okd len in auto)
qed

theorem pck_checksums_verify_witness:
  "onesComplement [take 20 (drop 14 (pck_frame (demo_params 443 [1, 2, 3])))] = 0"
  using pck_checksums_verify [OF demo_params_ok, of 443 "[1, 2, 3]" "replicate 80 1"
      "pck_frame (demo_params 443 [1, 2, 3])"]
    assemblePckFrame_layout [OF demo_params_ok, of 443 "[1, 2, 3]" "replicate 80 1"]
  by (simp add: demo_params_def pck_offsets)


end
