(* ===== verification/Pck_Conn.thy ===== *)
theory Pck_Conn
  imports Pck
begin

text \<open>
  The packet carrier's connection: the client's source ports (\<open>internal/utils/network/pckport.go\<close>),
  and the send path, the per-peer numbering and the receive loop of \<open>pckconn_linux.go\<close>.  A raw
  socket is the frames it carries; the wall clock, the initial sequence number and the contents of
  the pooled frame buffer are arguments.
\<close>

section \<open>Source ports: \<open>pckport.go\<close>\<close>

definition pckPortSpan :: "16 word" where
  "pckPortSpan = 128"

definition pckClientPortBase :: "(bytes \<Rightarrow> bytes) \<Rightarrow> string \<Rightarrow> 16 word" where
  "pckClientPortBase sha256 token =
     (let sum = sha256 (str_bytes (''arange-tun-pck-v1:'' @ token))
      in 32768 + u16_at sum 0 mod (28000 - pckPortSpan))"

text \<open>The package-level counter is an argument and a result.\<close>

definition nextPckClientPort :: "16 word \<Rightarrow> 32 word \<Rightarrow> 16 word \<times> 32 word" where
  "nextPckClientPort base pckPortSeq =
     (let n = pckPortSeq + 1 in (base + ucast (n - 1) mod pckPortSpan, n))"

fun take_ports :: "nat \<Rightarrow> 16 word \<Rightarrow> 32 word \<Rightarrow> 16 word list" where
  "take_ports 0 base q = []"
| "take_ports (Suc n) base q =
     (case nextPckClientPort base q of (p, q') \<Rightarrow> p # take_ports n base q')"

section \<open>Opening the send path: \<open>openTx\<close>\<close>

text \<open>What the operating system answers.\<close>

record tx_outcomes =
  sock_ok :: bool
  nonblock_ok :: bool
  syscallconn_ok :: bool
  listen_ok :: bool
  rawconn_ok :: bool

record tx_state =
  txFile :: bool
  txRaw :: bool

text \<open>\<open>Inl ()\<close> is an error return; the Boolean argument is \<open>egress.Ethernet && egress.NextHop != nil\<close>.\<close>

definition openTx_raw :: "tx_outcomes \<Rightarrow> unit + tx_state" where
  "openTx_raw os =
     (if \<not> listen_ok os then Inl ()
      else if \<not> rawconn_ok os then Inl ()
      else Inr \<lparr>txFile = False, txRaw = True\<rparr>)"

definition openTx :: "bool \<Rightarrow> tx_outcomes \<Rightarrow> unit + tx_state" where
  "openTx l2 os =
     (if l2 \<and> sock_ok os \<and> nonblock_ok os then
        (if syscallconn_ok os then Inr \<lparr>txFile = True, txRaw = False\<rparr>
         else Inr \<lparr>txFile = False, txRaw = False\<rparr>)
      else openTx_raw os)"

section \<open>The connection: \<open>pckconn_linux.go\<close>\<close>

record pckPeer =
  peer_seq :: "32 word"
  peer_ack :: "32 word"
  peer_lastTS :: "32 word"

record pckConn =
  LocalIP :: bytes
  egress_SrcMAC :: bytes
  NextHop :: bytes
  LinkLen :: nat
  local :: "16 word"
  flags :: "TCPFlags list"
  flagRot :: "32 word"
  pck_ipID :: "32 word"
  tsBase :: "32 word"
  tx :: tx_state
  peers :: "bytes \<times> nat \<Rightarrow> pckPeer option"
  closed :: bool

datatype net_addr = UDPAddr bytes nat | IPAddr bytes | OtherAddr

definition toUDPAddr :: "net_addr \<Rightarrow> (bytes \<times> nat) option" where
  "toUDPAddr a =
     (case a of
        UDPAddr ip prt \<Rightarrow> (if To4 ip \<noteq> [] then Some (ip, prt) else None)
      | IPAddr ip \<Rightarrow> (if To4 ip \<noteq> [] then Some (ip, 0) else None)
      | OtherAddr \<Rightarrow> None)"

text \<open>\<open>addr.String()\<close> as a map key: the 4-byte form of the address, and the port.\<close>

definition addr_key :: "bytes \<times> nat \<Rightarrow> bytes \<times> nat" where
  "addr_key a = (To4 (fst a), snd a)"

definition pck_timestamp :: "pckConn \<Rightarrow> nat \<Rightarrow> 32 word" where
  "pck_timestamp c ms = tsBase c + word_of_nat ms"

definition peerFor :: "pckConn \<Rightarrow> bytes \<times> nat \<Rightarrow> 32 word \<Rightarrow> pckPeer \<times> pckConn" where
  "peerFor c addr iss =
     (case peers c (addr_key addr) of
        Some p \<Rightarrow> (p, c)
      | None \<Rightarrow>
          let p = \<lparr>peer_seq = iss, peer_ack = 0, peer_lastTS = 0\<rparr>
          in (p, c\<lparr>peers := (peers c)(addr_key addr \<mapsto> p)\<rparr>))"

datatype pck_error = ErrClosed | InvalidAddr

datatype pck_sent = L2Frame bytes | RawSegment bytes bytes

text \<open>What \<open>WriteTo\<close> sees besides its arguments: the milliseconds since the start, a fresh initial
  sequence number and the pooled buffer.\<close>

record pck_env =
  env_ms :: nat
  env_iss :: "32 word"
  env_buf :: bytes

definition pck_params ::
    "pckConn \<Rightarrow> pck_env \<Rightarrow> bytes \<times> nat \<Rightarrow> pckPeer \<Rightarrow> TCPFlags \<Rightarrow> 16 word \<Rightarrow> bytes \<Rightarrow> pckFrameParams" where
  "pck_params c env dst peer f ident p =
     \<lparr>SrcMAC = egress_SrcMAC c, DstMAC = NextHop c, SrcIP = LocalIP c, DstIP = To4 (fst dst),
      SrcPort = local c, DstPort = word_of_nat (snd dst), Seq = peer_seq peer, Ack = peer_ack peer,
      Flags = f, TSVal = pck_timestamp c (env_ms env), TSEcr = peer_lastTS peer, IPID = ident,
      Payload = p\<rparr>"

text \<open>\<^const>\<open>None\<close> is a panic: a missing send path is a nil dereference.\<close>

definition pck_WriteTo ::
    "pckConn \<Rightarrow> pck_env \<Rightarrow> bytes \<Rightarrow> net_addr \<Rightarrow> ((pck_error + pck_sent) \<times> pckConn) option" where
  "pck_WriteTo c env p addr =
     (if closed c then Some (Inl ErrClosed, c)
      else case toUDPAddr addr of
          None \<Rightarrow> Some (Inl InvalidAddr, c)
        | Some dst \<Rightarrow>
            (case peerFor c dst (env_iss env) of (peer, c) \<Rightarrow>
               let c = c\<lparr>peers := (peers c)(addr_key dst \<mapsto>
                           peer\<lparr>peer_seq := peer_seq peer + word_of_nat (length p)\<rparr>)\<rparr>;
                   r = flagRot c + 1;
                   f = flags c ! (unat (r - 1) mod length (flags c));
                   i = pck_ipID c + 1;
                   c = c\<lparr>flagRot := r, pck_ipID := i\<rparr>;
                   buf = (if length (env_buf env) < pckFrameLen (length p)
                          then replicate (pckFrameLen (length p)) 0 else env_buf env)
               in do {
                 frame \<leftarrow> assemblePckFrame buf (pck_params c env dst peer f (ucast i) p);
                 if txFile (tx c) then Some (Inr (L2Frame frame), c)
                 else if txRaw (tx c) then Some (Inr (RawSegment (To4 (fst dst)) (drop pckTCPOffset frame)), c)
                 else None }))"

text \<open>The bookkeeping of \<open>ReadFrom\<close> for an accepted segment.\<close>

definition note_segment :: "pckSegment \<Rightarrow> pckPeer \<Rightarrow> pckPeer" where
  "note_segment seg peer =
     (let next = seg_Seq seg + word_of_nat (length (seg_Payload seg));
          peer = (if peer_ack peer = 0 \<or> 0 <s next - peer_ack peer then peer\<lparr>peer_ack := next\<rparr> else peer)
      in if seg_TSVal seg \<noteq> 0 then peer\<lparr>peer_lastTS := seg_TSVal seg\<rparr> else peer)"

text \<open>\<open>ReadFrom\<close> on the frames the packet socket delivers.  The outer \<^const>\<open>None\<close> is a panic, the
  inner one that the socket ran dry.\<close>

fun pck_ReadFrom :: "pckConn \<Rightarrow> 32 word \<Rightarrow> nat \<Rightarrow> bytes list \<Rightarrow>
    ((bytes \<times> (bytes \<times> nat)) \<times> pckConn \<times> bytes list) option option" where
  "pck_ReadFrom c iss plen [] = Some None"
| "pck_ReadFrom c iss plen (frame # rest) =
     do { r \<leftarrow> parsePckFrame frame (LinkLen c) (local c);
          (case r of
             None \<Rightarrow> pck_ReadFrom c iss plen rest
           | Some seg \<Rightarrow>
               if seg_Payload seg = [] then pck_ReadFrom c iss plen rest
               else if ip_equal (seg_SrcIP seg) (LocalIP c) \<and> seg_SrcPort seg = local c
               then pck_ReadFrom c iss plen rest
               else
                 (let addr = (seg_SrcIP seg, unat (seg_SrcPort seg)) in
                  case peerFor c addr iss of (peer, c) \<Rightarrow>
                    Some (Some ((take plen (seg_Payload seg), addr),
                      c\<lparr>peers := (peers c)(addr_key addr \<mapsto> note_segment seg peer)\<rparr>, rest)))) }"

definition pck_Close :: "pckConn \<Rightarrow> pckConn" where
  "pck_Close c = (if closed c then c else c\<lparr>closed := True\<rparr>)"

section \<open>Ports\<close>

lemma unat_add16_small: "unat (a :: 16 word) + unat b < 65536 \<Longrightarrow> unat (a + b) = unat a + unat b"
  by (simp add: unat_word_ariths(1))

lemma base_range:
  "32768 \<le> unat (pckClientPortBase sha token) \<and> unat (pckClientPortBase sha token) \<le> 60639"
proof -
  have "\<exists>r. r \<le> 27871 \<and> pckClientPortBase sha token = 32768 + word_of_nat r"
  proof (intro exI conjI)
    let ?w = "u16_at (sha (str_bytes (''arange-tun-pck-v1:'' @ token))) 0"
    let ?r = "unat (?w mod 27872)"
    show "?r \<le> 27871" by (simp add: unat_mod less_Suc_eq_le [symmetric])
    show "pckClientPortBase sha token = 32768 + word_of_nat ?r"
      by (simp add: pckClientPortBase_def Let_def pckPortSpan_def)
  qed
  then obtain r where r: "r \<le> 27871" "pckClientPortBase sha token = 32768 + word_of_nat r" by blast
  then have "unat (word_of_nat r :: 16 word) = r" by (simp add: unat_of_nat)
  then show ?thesis using r by (simp add: unat_add16_small)
qed

lemma unat_nextPckClientPort:
  assumes "unat base \<le> 65408"
  shows "unat (fst (nextPckClientPort base q)) = unat base + unat q mod 128"
proof -
  have "unat (ucast q mod pckPortSpan :: 16 word) = unat q mod 128"
    by (simp add: pckPortSpan_def unat_mod unsigned_ucast_eq take_bit_eq_mod mod_mod_cancel)
  moreover have "unat q mod 128 < 128" by simp
  ultimately show ?thesis
    using assms by (simp add: nextPckClientPort_def Let_def unat_word_ariths)
qed

lemma take_ports_offsets:
  assumes "unat base \<le> 65408"
  shows "map unat (take_ports n base q) = map (\<lambda>i. unat base + (unat q + i) mod 128) [0..<n]"
proof (induction n arbitrary: q)
  case (Suc n)
  have wrap: "unat (q + 1) = (unat q + 1) mod 4294967296" by (simp add: unat_word_ariths)
  have "(unat (q + 1) + i) mod 128 = (unat q + Suc i) mod 128" for i
  proof -
    have "((unat q + 1) mod 4294967296 + i) mod 128 = ((unat q + 1) mod 4294967296 mod 128 + i) mod 128"
      by (simp only: mod_add_left_eq)
    also have "(unat q + 1) mod 4294967296 mod 128 = (unat q + 1) mod 128"
      by (rule mod_mod_cancel) simp
    also have "((unat q + 1) mod 128 + i) mod 128 = (unat q + Suc i) mod 128"
      by (simp only: mod_add_left_eq) simp
    finally show ?thesis unfolding wrap .
  qed
  then have "map unat (take_ports n base (q + 1)) = map (\<lambda>i. unat base + (unat q + Suc i) mod 128) [0..<n]"
    using Suc by simp
  moreover have "take_ports (Suc n) base q = fst (nextPckClientPort base q) # take_ports n base (q + 1)"
    by (simp add: nextPckClientPort_def Let_def)
  ultimately show ?case
    using unat_nextPckClientPort [OF assms]
    by (simp add: upt_conv_Cons map_Suc_upt [symmetric] del: upt_Suc take_ports.simps)
qed simp

lemma mod_window_le:
  assumes "i \<le> j" "j < 128" "(q + i) mod (128 :: nat) = (q + j) mod 128"
  shows "i = j"
proof -
  have "128 dvd (q + j) - (q + i)" using assms by (subst mod_eq_dvd_iff_nat [symmetric]) simp_all
  then have "128 dvd j - i" by simp
  then show ?thesis using assms by (auto dest: dvd_imp_le)
qed

lemma inj_on_mod_window: "inj_on (\<lambda>i. (q + i) mod (128 :: nat)) {0..<128}"
  by (rule inj_onI) (metis atLeastLessThan_iff mod_window_le nat_le_linear)

text \<open>Source ports of the packet carrier.  For every token and every state of the process-wide
  counter, wrap-around included, up to 128 carriers opened in a row get pairwise different source
  ports, all inside the tunnel's 128-port range that the firewall guard covers, and that range lies
  between 32768 and 60766 without overflowing 16 bits.\<close>

theorem pck_ports_distinct:
  assumes "n \<le> 128"
  shows "let base = pckClientPortBase sha256 token; ps = take_ports n base q in
    distinct ps \<and> length ps = n \<and> 32768 \<le> unat base \<and> unat base + 127 \<le> 60766 \<and>
    list_all (\<lambda>p. unat base \<le> unat p \<and> unat p \<le> unat base + 127) ps"
proof -
  let ?b = "pckClientPortBase sha256 token"
  have b: "32768 \<le> unat ?b" "unat ?b \<le> 60639" using base_range [of sha256 token] by auto
  then have m: "map unat (take_ports n ?b q) = map (\<lambda>i. unat ?b + (unat q + i) mod 128) [0..<n]"
    by (intro take_ports_offsets) simp
  have "inj_on (\<lambda>i. unat ?b + (unat q + i) mod 128) {0..<n}"
    using inj_on_subset [OF inj_on_mod_window [of "unat q"], of "{0..<n}"] assms
    by (auto simp: inj_on_def)
  then have d: "distinct (map unat (take_ports n ?b q))" unfolding m by (simp add: distinct_map)
  have len: "length (take_ports n ?b q) = n" using arg_cong [OF m, of length] by simp
  have "unat p \<in> (\<lambda>i. unat ?b + (unat q + i) mod 128) ` {0..<n}" if "p \<in> set (take_ports n ?b q)" for p
    using arg_cong [OF m, of set] that by auto
  then have r: "unat ?b \<le> unat p \<and> unat p \<le> unat ?b + 127" if "p \<in> set (take_ports n ?b q)" for p
    using that by (fastforce simp: less_Suc_eq_le [symmetric])
  show ?thesis using d [unfolded distinct_map] len b r by (simp add: Let_def list_all_iff)
qed

theorem pck_ports_distinct_witness:
  "distinct (take_ports 128 (pckClientPortBase (\<lambda>_. replicate 32 255) ''t'') (- 5))"
  using pck_ports_distinct [of 128 "\<lambda>_. replicate 32 255" "''t''" "- 5"] by (simp add: Let_def)

text \<open>A send path that silently goes missing.  \<open>openTx\<close> promises, in its own comment, to fall
  back to the raw IP socket when the packet socket gives no usable \<open>RawConn\<close>; it returns success
  with neither path open exactly in that case, and the first \<open>WriteTo\<close> to a valid address then
  panics.\<close>

theorem openTx_without_path:
  "(openTx l2 os = Inr \<lparr>txFile = False, txRaw = False\<rparr>)
     = (l2 \<and> sock_ok os \<and> nonblock_ok os \<and> \<not> syscallconn_ok os) \<and>
   (tx c = \<lparr>txFile = False, txRaw = False\<rparr> \<longrightarrow> \<not> closed c \<longrightarrow> toUDPAddr addr \<noteq> None \<longrightarrow>
      pck_WriteTo c env p addr = None)"
proof
  show "(openTx l2 os = Inr \<lparr>txFile = False, txRaw = False\<rparr>)
     = (l2 \<and> sock_ok os \<and> nonblock_ok os \<and> \<not> syscallconn_ok os)"
    by (auto simp: openTx_def openTx_raw_def)
  have tx: "tx (snd (peerFor c dst iss)) = tx c" for dst iss
    by (auto simp: peerFor_def Let_def split: option.splits)
  have "pck_WriteTo c env p addr = None"
    if "tx c = \<lparr>txFile = False, txRaw = False\<rparr>" "\<not> closed c" "toUDPAddr addr = Some dst" for dst
    using that tx [of dst "env_iss env"]
    by (auto simp: pck_WriteTo_def Let_def split: prod.splits option.splits bind_splits)
  then show "tx c = \<lparr>txFile = False, txRaw = False\<rparr> \<longrightarrow> \<not> closed c \<longrightarrow> toUDPAddr addr \<noteq> None \<longrightarrow>
      pck_WriteTo c env p addr = None" by auto
qed


definition demo_pck :: "bytes \<Rightarrow> 16 word \<Rightarrow> tx_state \<Rightarrow> pckConn" where
  "demo_pck ip prt t =
     \<lparr>LocalIP = ip, egress_SrcMAC = [2, 0, 0, 0, 0, 1], NextHop = [2, 0, 0, 0, 0, 9], LinkLen = 14,
      local = prt, flags = [0x18], flagRot = 0, pck_ipID = 0, tsBase = 5, tx = t,
      peers = (\<lambda>_. None), closed = False\<rparr>"

definition demo_env :: pck_env where
  "demo_env = \<lparr>env_ms = 3, env_iss = - 2, env_buf = replicate 100 7\<rparr>"

theorem openTx_without_path_witness:
  "pck_WriteTo (demo_pck [10, 0, 0, 1] 40000 \<lparr>txFile = False, txRaw = False\<rparr>) demo_env [1]
     (UDPAddr [10, 0, 0, 2] 443) = None"
  using openTx_without_path [of True undefined "demo_pck [10, 0, 0, 1] 40000 \<lparr>txFile = False, txRaw = False\<rparr>"
      "UDPAddr [10, 0, 0, 2] 443" demo_env "[1]"]
  by (simp add: demo_pck_def toUDPAddr_def To4_def)

section \<open>A conversation\<close>

text \<open>One datagram from \<open>a\<close> to \<open>b\<close>, and a stream of them.\<close>

definition pck_hop :: "pckConn \<Rightarrow> pckConn \<Rightarrow> pck_env \<Rightarrow> bytes \<Rightarrow> (bytes \<times> pckConn \<times> pckConn) option" where
  "pck_hop a b env p =
     (case pck_WriteTo a env p (UDPAddr (LocalIP b) (unat (local b))) of
        Some (Inr (L2Frame frame), a') \<Rightarrow>
          (case pck_ReadFrom b (env_iss env) (length p) [frame] of
             Some (Some ((q, _), b', _)) \<Rightarrow> Some (q, a', b')
           | _ \<Rightarrow> None)
      | _ \<Rightarrow> None)"

fun pck_stream :: "pckConn \<Rightarrow> pckConn \<Rightarrow> (pck_env \<times> bytes) list \<Rightarrow> (bytes list \<times> pckConn \<times> pckConn) option" where
  "pck_stream a b [] = Some ([], a, b)"
| "pck_stream a b ((env, p) # ps) =
     do { (q, a, b) \<leftarrow> pck_hop a b env p;
          (qs, a, b) \<leftarrow> pck_stream a b ps;
          Some (q # qs, a, b) }"

definition key_of :: "pckConn \<Rightarrow> bytes \<times> nat" where
  "key_of c = (LocalIP c, unat (local c))"

definition wired :: "pckConn \<Rightarrow> pckConn \<Rightarrow> bool" where
  "wired a b =
     (length (egress_SrcMAC a) = 6 \<and> length (NextHop a) = 6 \<and> length (LocalIP a) = 4 \<and>
      length (LocalIP b) = 4 \<and> LinkLen b = 14 \<and> \<not> closed a \<and> txFile (tx a) \<and>
      key_of a \<noteq> key_of b)"

text \<open>\<open>b\<close> acknowledges what \<open>a\<close> will send next, or has not acknowledged anything yet.\<close>

definition in_step :: "pckConn \<Rightarrow> pckConn \<Rightarrow> bool" where
  "in_step a b =
     (case peers b (key_of a) of
        None \<Rightarrow> True
      | Some pb \<Rightarrow> peer_ack pb = 0 \<or>
          (\<exists>pa. peers a (key_of b) = Some pa \<and> peer_ack pb = peer_seq pa))"

definition acked :: "pckConn \<Rightarrow> pckConn \<Rightarrow> bool" where
  "acked a b = (\<exists>pa pb. peers a (key_of b) = Some pa \<and> peers b (key_of a) = Some pb \<and>
      peer_ack pb = peer_seq pa)"

lemma sless_pos: "0 < n \<Longrightarrow> n < 2147483648 \<Longrightarrow> 0 <s (word_of_nat n :: 32 word)"
  by (simp add: word_sless_alt signed_of_nat signed_take_bit_int_eq_self)

lemma sless_pos_iff: "0 < n \<Longrightarrow> n < 2147483648 \<Longrightarrow> 0 <s (q + word_of_nat n - q :: 32 word)"
  by (simp add: sless_pos)

lemma note_segment_ack:
  assumes "seg_Payload seg \<noteq> []" "length (seg_Payload seg) < 2147483648"
    and "peer_ack pb = 0 \<or> peer_ack pb = seg_Seq seg"
  shows "peer_ack (note_segment seg pb) = seg_Seq seg + word_of_nat (length (seg_Payload seg))"
proof -
  have "0 <s seg_Seq seg + word_of_nat (length (seg_Payload seg)) - seg_Seq seg"
    by (rule sless_pos_iff) (use assms in auto)
  then show ?thesis using assms by (auto simp: note_segment_def Let_def)
qed

lemma wired_To4 [simp]: "wired a b \<Longrightarrow> To4 (LocalIP a) = LocalIP a" "wired a b \<Longrightarrow> To4 (LocalIP b) = LocalIP b"
  by (simp_all add: wired_def To4_def)

lemma addr_key_key_of: "length (LocalIP c) = 4 \<Longrightarrow> addr_key (key_of c) = key_of c"
  by (simp add: addr_key_def key_of_def To4_def)

lemma peerFor_facts:
  assumes "addr_key k = k" "peerFor c k iss = (p, c')"
  shows "(\<exists>f. c' = c\<lparr>peers := f\<rparr>) \<and> (peers c k = Some p \<or> peers c k = None \<and> peer_ack p = 0)"
proof (cases "peers c k")
  case None
  then show ?thesis using assms by (auto simp: peerFor_def Let_def)
next
  case (Some q)
  then have "c' = c\<lparr>peers := peers c\<rparr>" "p = q" using assms by (auto simp: peerFor_def)
  then show ?thesis using Some by blast
qed

lemma key_of_updates [simp]:
  "key_of (c\<lparr>peers := f\<rparr>) = key_of c" "key_of (c\<lparr>flagRot := r\<rparr>) = key_of c"
  "key_of (c\<lparr>pck_ipID := i\<rparr>) = key_of c"
  by (simp_all add: key_of_def)

lemma wired_updates [simp]:
  "wired (c\<lparr>peers := f\<rparr>) b = wired c b" "wired (c\<lparr>flagRot := r\<rparr>) b = wired c b"
  "wired (c\<lparr>pck_ipID := i\<rparr>) b = wired c b" "wired a (b\<lparr>peers := f\<rparr>) = wired a b"
  by (simp_all add: wired_def)

text \<open>The send half: the frame carries \<open>a\<close>'s next sequence number, which then moves past it.\<close>

lemma WriteTo_frame:
  assumes w: "wired a b"
  shows "\<exists>prm a' pa. pck_WriteTo a env p (UDPAddr (LocalIP b) (unat (local b)))
      = Some (Inr (L2Frame (pck_frame prm)), a') \<and>
    params_ok prm \<and> Payload prm = p \<and> SrcIP prm = LocalIP a \<and> SrcPort prm = local a \<and>
    DstPort prm = local b \<and> Seq prm = peer_seq pa \<and>
    (peers a (key_of b) = Some pa \<or> peers a (key_of b) = None) \<and>
    peers a' (key_of b) = Some (pa\<lparr>peer_seq := peer_seq pa + word_of_nat (length p)\<rparr>) \<and>
    key_of a' = key_of a \<and> wired a' b"
proof -
  have k: "addr_key (key_of b) = key_of b" using w by (simp add: wired_def addr_key_key_of)
  have t4: "To4 (LocalIP b) = LocalIP b" "To4 (LocalIP a) = LocalIP a" "LocalIP b \<noteq> []"
    "\<not> closed a" "txFile (tx a)"
    using w by (auto simp: wired_def To4_def)
  obtain pa a1 where pf: "peerFor a (key_of b) (env_iss env) = (pa, a1)" by force
  obtain g where a1: "a1 = a\<lparr>peers := g\<rparr>" and pa: "peers a (key_of b) = Some pa \<or> peers a (key_of b) = None"
    using peerFor_facts [OF k pf] by blast
  define a2 where "a2 = a1\<lparr>peers := (peers a1)(key_of b \<mapsto>
      pa\<lparr>peer_seq := peer_seq pa + word_of_nat (length p)\<rparr>), flagRot := flagRot a1 + 1,
      pck_ipID := pck_ipID a1 + 1\<rparr>"
  define prm where "prm = pck_params a2 env (key_of b) pa
      (flags a1 ! (unat (flagRot a1) mod length (flags a1))) (ucast (pck_ipID a1 + 1)) p"
  have ok: "params_ok prm" "Payload prm = p" "SrcIP prm = LocalIP a" "SrcPort prm = local a"
    "DstPort prm = local b" "Seq prm = peer_seq pa"
    using w by (simp_all add: prm_def pck_params_def params_ok_def a2_def a1 wired_def key_of_def To4_def)
  have "assemblePckFrame (if length (env_buf env) < pckFrameLen (length p)
      then replicate (pckFrameLen (length p)) 0 else env_buf env) prm = Some (pck_frame prm)"
    using ok by (intro assemblePckFrame_layout) auto
  then have "pck_WriteTo a env p (UDPAddr (LocalIP b) (unat (local b)))
      = Some (Inr (L2Frame (pck_frame prm)), a2)"
    using t4 pf k
    by (simp add: pck_WriteTo_def toUDPAddr_def key_of_def [symmetric] Let_def a2_def prm_def a1
        split: if_splits)
  moreover have "peers a2 (key_of b) = Some (pa\<lparr>peer_seq := peer_seq pa + word_of_nat (length p)\<rparr>)"
    "key_of a2 = key_of a" "wired a2 b" using w by (simp_all add: a2_def a1)
  ultimately show ?thesis using ok pa by blast
qed

text \<open>The receive half.\<close>

lemma ReadFrom_frame:
  assumes w: "wired a b" and prm: "params_ok prm" "Payload prm = p" "SrcIP prm = LocalIP a"
      "SrcPort prm = local a" "DstPort prm = local b"
    and p: "p \<noteq> []" "length p \<le> 65483"
  shows "\<exists>b' pb seg. pck_ReadFrom b iss (length p) [pck_frame prm] = Some (Some ((p, key_of a), b', [])) \<and>
    seg_Payload seg = p \<and> seg_Seq seg = Seq prm \<and>
    (peers b (key_of a) = Some pb \<or> peers b (key_of a) = None \<and> peer_ack pb = 0) \<and>
    peers b' (key_of a) = Some (note_segment seg pb) \<and> key_of b' = key_of b \<and> wired a b'"
proof -
  have k: "addr_key (key_of a) = key_of a" using w by (simp add: wired_def addr_key_key_of)
  have t4: "To4 (LocalIP a) = LocalIP a" "LinkLen b = 14" using w by (auto simp: wired_def To4_def)
  have ne: "\<not> (ip_equal (LocalIP a) (LocalIP b) \<and> local a = local b)"
    using w by (auto simp: wired_def ip_equal_def key_of_def split: if_splits)
  obtain pb b1 where pf: "peerFor b (key_of a) iss = (pb, b1)" by force
  obtain g where b1: "b1 = b\<lparr>peers := g\<rparr>"
    and pb: "peers b (key_of a) = Some pb \<or> peers b (key_of a) = None \<and> peer_ack pb = 0"
    using peerFor_facts [OF k pf] by blast
  obtain seg where seg: "parsePckFrame (pck_frame prm) 14 (local b) = Some (Some seg)"
    and sf: "seg_Payload seg = p" "seg_Seq seg = Seq prm" "seg_SrcIP seg = LocalIP a"
      "seg_SrcPort seg = local a"
    using parse_pck_frame [OF prm(1), of "[]" "local b"] prm p t4 by auto
  define b2 where "b2 = b1\<lparr>peers := (peers b1)(key_of a \<mapsto> note_segment seg pb)\<rparr>"
  have "pck_ReadFrom b iss (length p) [pck_frame prm] = Some (Some ((p, key_of a), b2, []))"
    using seg sf ne t4 p pf k
    by (simp add: key_of_def [symmetric] Let_def b2_def)
  moreover have "peers b2 (key_of a) = Some (note_segment seg pb)" "key_of b2 = key_of b" "wired a b2"
    using w by (simp_all add: b2_def b1)
  ultimately show ?thesis using sf pb by blast
qed

lemma pck_hop_ok:
  assumes w: "wired a b" and st: "in_step a b" and p: "p \<noteq> []" "length p \<le> 65483"
  shows "\<exists>a' b'. pck_hop a b env p = Some (p, a', b') \<and> wired a' b' \<and> acked a' b'"
proof -
  obtain prm a' pa where wr: "pck_WriteTo a env p (UDPAddr (LocalIP b) (unat (local b)))
      = Some (Inr (L2Frame (pck_frame prm)), a')"
    and prm: "params_ok prm" "Payload prm = p" "SrcIP prm = LocalIP a" "SrcPort prm = local a"
      "DstPort prm = local b"
    and sq: "Seq prm = peer_seq pa" "peers a (key_of b) = Some pa \<or> peers a (key_of b) = None"
    and a': "peers a' (key_of b) = Some (pa\<lparr>peer_seq := peer_seq pa + word_of_nat (length p)\<rparr>)"
      "key_of a' = key_of a" "wired a' b"
    using WriteTo_frame [OF w] by metis
  obtain b' pb seg where rd: "pck_ReadFrom b (env_iss env) (length p) [pck_frame prm]
      = Some (Some ((p, key_of a), b', []))"
    and seg: "seg_Payload seg = p" "seg_Seq seg = Seq prm"
    and pb: "peers b (key_of a) = Some pb \<or> peers b (key_of a) = None \<and> peer_ack pb = 0"
    and b': "peers b' (key_of a) = Some (note_segment seg pb)" "key_of b' = key_of b" "wired a b'"
    using ReadFrom_frame [OF w prm p] by metis
  have "peer_ack pb = 0 \<or> peer_ack pb = seg_Seq seg"
    using st pb sq seg by (auto simp: in_step_def)
  then have "peer_ack (note_segment seg pb) = peer_seq pa + word_of_nat (length p)"
    using note_segment_ack [of seg pb] seg p sq by simp
  then have "acked a' b'" using a' b' by (simp add: acked_def)
  moreover have "wired a' b'" using a'(2,3) b'(2,3) by (auto simp: wired_def key_of_def)
  ultimately show ?thesis using wr rd by (simp add: pck_hop_def)
qed

lemma acked_in_step: "acked a b \<Longrightarrow> in_step a b"
  by (auto simp: acked_def in_step_def)




end
