(* ===== verification/Go_Strings.thy ===== *)
theory Go_Strings
  imports Go_Prelude
begin

text \<open>
  The string routines of Go's standard library that the program's parsers use, on ASCII strings:
  \<open>strings.TrimSpace\<close>, \<open>Split\<close>, \<open>Cut\<close>, \<open>ToUpper\<close>, \<open>ToLower\<close>, \<open>HasPrefix\<close>, \<open>HasSuffix\<close>,
  \<open>strconv.Atoi\<close>, \<open>strconv.Itoa\<close>,
  \<open>net.SplitHostPort\<close> and \<open>net.JoinHostPort\<close>.  (Outside ASCII, \<open>TrimSpace\<close> also trims Unicode spaces and \<open>ToUpper\<close> maps
  Unicode letters; no theorem depends on such input.)  A Go error result is \<^const>\<open>None\<close>.
\<close>

section \<open>Trimming, splitting, cutting\<close>

definition is_space :: "char \<Rightarrow> bool" where
  "is_space c = (c = CHR '' '' \<or> c = CHR 0x09 \<or> c = CHR 0x0A \<or> c = CHR 0x0B \<or> c = CHR 0x0C \<or> c = CHR 0x0D)"

definition TrimSpace :: "string \<Rightarrow> string" where
  "TrimSpace s = rev (dropWhile is_space (rev (dropWhile is_space s)))"

fun Cut :: "char \<Rightarrow> string \<Rightarrow> string \<times> string \<times> bool" where
  "Cut c [] = ([], [], False)"
| "Cut c (x # xs) =
     (if x = c then ([], xs, True) else (case Cut c xs of (a, b, f) \<Rightarrow> (x # a, b, f)))"

fun Split :: "char \<Rightarrow> string \<Rightarrow> string list" where
  "Split c [] = [[]]"
| "Split c (x # xs) =
     (if x = c then [] # Split c xs
      else (case Split c xs of [] \<Rightarrow> [[x]] | p # ps \<Rightarrow> (x # p) # ps))"

text \<open>\<open>strings.SplitN(s, sep, 2)\<close>.\<close>

definition SplitN2 :: "char \<Rightarrow> string \<Rightarrow> string list" where
  "SplitN2 c s = (case Cut c s of (a, b, f) \<Rightarrow> if f then [a, b] else [a])"

definition HasPrefix :: "string \<Rightarrow> string \<Rightarrow> bool" where
  "HasPrefix s pre = (take (length pre) s = pre)"

definition HasSuffix :: "string \<Rightarrow> string \<Rightarrow> bool" where
  "HasSuffix s suf = HasPrefix (rev s) (rev suf)"

definition ToUpper_char :: "char \<Rightarrow> char" where
  "ToUpper_char c =
     (if 97 \<le> (of_char c :: nat) \<and> (of_char c :: nat) \<le> 122 then char_of (of_char c - 32 :: nat) else c)"

definition ToLower_char :: "char \<Rightarrow> char" where
  "ToLower_char c =
     (if 65 \<le> (of_char c :: nat) \<and> (of_char c :: nat) \<le> 90 then char_of (of_char c + 32 :: nat) else c)"

section \<open>Decimal integers\<close>

definition is_digit :: "char \<Rightarrow> bool" where
  "is_digit c = (48 \<le> (of_char c :: nat) \<and> (of_char c :: nat) \<le> 57)"

definition digit_val :: "char \<Rightarrow> nat" where
  "digit_val c = of_char c - 48"

definition digits_val :: "string \<Rightarrow> nat" where
  "digits_val s = fold (\<lambda>c n. 10 * n + digit_val c) s 0"

definition parse_uint :: "string \<Rightarrow> nat option" where
  "parse_uint s = (if s \<noteq> [] \<and> list_all is_digit s then Some (digits_val s) else None)"

text \<open>\<open>strconv.Atoi\<close>: an optional sign, decimal digits, and the range of a 64-bit \<open>int\<close>.\<close>

definition Atoi :: "string \<Rightarrow> int option" where
  "Atoi s =
     (case s of
        [] \<Rightarrow> None
      | c # r \<Rightarrow>
          (if c = CHR ''-'' then
             (case parse_uint r of None \<Rightarrow> None
              | Some n \<Rightarrow> if n \<le> 2 ^ 63 then Some (- int n) else None)
           else
             (case parse_uint (if c = CHR ''+'' then r else s) of None \<Rightarrow> None
              | Some n \<Rightarrow> if n < 2 ^ 63 then Some (int n) else None)))"

definition digit_char :: "nat \<Rightarrow> char" where
  "digit_char d = char_of (48 + d)"

fun Itoa_nat :: "nat \<Rightarrow> string" where
  "Itoa_nat n = (if n < 10 then [digit_char n] else Itoa_nat (n div 10) @ [digit_char (n mod 10)])"

declare Itoa_nat.simps [simp del]

section \<open>Host and port\<close>

text \<open>\<open>strings.LastIndexByte\<close>; \<^const>\<open>None\<close> stands for -1.\<close>

fun LastIndex :: "char \<Rightarrow> string \<Rightarrow> nat option" where
  "LastIndex c [] = None"
| "LastIndex c (x # xs) =
     (case LastIndex c xs of
        Some i \<Rightarrow> Some (Suc i)
      | None \<Rightarrow> if x = c then Some 0 else None)"

fun Index :: "char \<Rightarrow> string \<Rightarrow> nat option" where
  "Index c [] = None"
| "Index c (x # xs) = (if x = c then Some 0 else map_option Suc (Index c xs))"

definition SplitHostPort :: "string \<Rightarrow> (string \<times> string) option" where
  "SplitHostPort s =
     (case LastIndex (CHR '':'') s of
        None \<Rightarrow> None
      | Some i \<Rightarrow>
          (if s ! 0 = CHR ''['' then
             (case Index (CHR '']'') s of
                None \<Rightarrow> None
              | Some e \<Rightarrow>
                  if e + 1 \<noteq> i then None
                  else if CHR ''['' \<in> set (drop 1 s) \<or> CHR '']'' \<in> set (drop (e + 1) s) then None
                  else Some (take (e - 1) (drop 1 s), drop (i + 1) s))
           else if CHR '':'' \<in> set (take i s) then None
           else if CHR ''['' \<in> set s \<or> CHR '']'' \<in> set s then None
           else Some (take i s, drop (i + 1) s)))"

definition JoinHostPort :: "string \<Rightarrow> string \<Rightarrow> string" where
  "JoinHostPort host port =
     (if CHR '':'' \<in> set host then ''['' @ host @ '']:'' @ port else host @ '':'' @ port)"

section \<open>Lemmas\<close>

lemma Split_not_Nil [simp]: "Split c s \<noteq> []"
  by (induction s) (auto split: list.splits)

lemma Split_no_sep: "c \<notin> set s \<Longrightarrow> Split c s = [s]"
  by (induction s) auto

lemma length_Split: "length (Split c s) = Suc (count_list s c)"
proof (induction s)
  case (Cons x xs)
  then show ?case by (cases "Split c xs") auto
qed simp

lemma Split_append: "c \<notin> set a \<Longrightarrow> Split c (a @ c # b) = a # Split c b"
  by (induction a) auto

lemma Cut_no_sep: "c \<notin> set s \<Longrightarrow> Cut c s = (s, [], False)"
  by (induction s) auto

lemma Cut_append: "c \<notin> set a \<Longrightarrow> Cut c (a @ c # b) = (a, b, True)"
  by (induction a) auto

lemma Cut_cases:
  obtains "c \<notin> set s" "Cut c s = (s, [], False)"
  | a b where "s = a @ c # b" "c \<notin> set a" "Cut c s = (a, b, True)"
  using split_list_first [of c s] by (metis Cut_append Cut_no_sep)

text \<open>With at most one separator, \<open>SplitN(s, c, 2)\<close> and \<open>Split(s, c)\<close> agree.\<close>

lemma SplitN2_eq_Split: "count_list s c \<le> 1 \<Longrightarrow> SplitN2 c s = Split c s"
proof -
  assume c: "count_list s c \<le> 1"
  show ?thesis
  proof (rule Cut_cases [of c s])
    assume "c \<notin> set s" "Cut c s = (s, [], False)"
    then show ?thesis by (simp add: SplitN2_def Split_no_sep)
  next
    fix a b assume s: "s = a @ c # b" "c \<notin> set a" "Cut c s = (a, b, True)"
    then have "c \<notin> set b" using c by (simp add: count_list_0_iff)
    then show ?thesis using s by (simp add: SplitN2_def Split_append Split_no_sep)
  qed
qed

lemma set_TrimSpace: "set (TrimSpace s) \<subseteq> set s"
  by (auto simp: TrimSpace_def dest!: set_dropWhileD)

lemma TrimSpace_id: "list_all (\<lambda>c. \<not> is_space c) s \<Longrightarrow> TrimSpace s = s"
proof -
  assume "list_all (\<lambda>c. \<not> is_space c) s"
  then have d: "dropWhile is_space xs = xs" if "set xs \<subseteq> set s" for xs
    using that by (cases xs) (auto simp: list_all_iff)
  show ?thesis by (simp add: TrimSpace_def d)
qed

lemma of_char_digit_char: "d < 10 \<Longrightarrow> (of_char (digit_char d) :: nat) = 48 + d"
  by (simp add: digit_char_def)

lemma digit_char_digit: "d < 10 \<Longrightarrow> is_digit (digit_char d) \<and> digit_val (digit_char d) = d"
  by (simp add: is_digit_def digit_val_def of_char_digit_char)

lemma digits_val_snoc: "digits_val (s @ [c]) = 10 * digits_val s + digit_val c"
  by (simp add: digits_val_def)

lemma Itoa_nat_digits: "Itoa_nat n \<noteq> [] \<and> list_all is_digit (Itoa_nat n) \<and> digits_val (Itoa_nat n) = n"
proof (induction n rule: Itoa_nat.induct)
  case (1 n)
  show ?case
  proof (cases "n < 10")
    case True
    then show ?thesis
      by (subst (1 2 3) Itoa_nat.simps) (simp add: digit_char_digit digits_val_def)
  next
    case False
    then show ?thesis
      using 1 by (subst (1 2 3) Itoa_nat.simps) (simp add: digit_char_digit digits_val_snoc)
  qed
qed

lemma parse_uint_Itoa_nat: "parse_uint (Itoa_nat n) = Some n"
  using Itoa_nat_digits [of n] by (simp add: parse_uint_def)

lemma digit_not_sign: "is_digit c \<Longrightarrow> c \<noteq> CHR ''-'' \<and> c \<noteq> CHR ''+''"
  by (auto simp: is_digit_def)

text \<open>Printing an integer and reading it back.\<close>

lemma Atoi_Itoa_nat: "n < 2 ^ 63 \<Longrightarrow> Atoi (Itoa_nat n) = Some (int n)"
proof -
  assume n: "n < 2 ^ 63"
  obtain c r where s: "Itoa_nat n = c # r" using Itoa_nat_digits [of n] by (cases "Itoa_nat n") auto
  have "is_digit c" using Itoa_nat_digits [of n] by (simp add: s)
  then show ?thesis
    using n parse_uint_Itoa_nat [of n] by (simp add: Atoi_def s digit_not_sign)
qed

lemma Atoi_no_space: "Atoi s = Some n \<Longrightarrow> list_all (\<lambda>c. \<not> is_space c) s"
  by (cases s) (auto simp: Atoi_def parse_uint_def list_all_iff is_digit_def is_space_def
      split: if_splits option.splits)

text \<open>Trimming first or splitting first makes no difference to the trimmed first piece.\<close>

lemma count_list_dropWhile: "\<not> P c \<Longrightarrow> count_list (dropWhile P s) c = count_list s c"
  by (induction s) auto

lemma count_list_rev: "count_list (rev s) c = count_list s c"
  by (induction s) auto

lemma count_list_TrimSpace: "\<not> is_space c \<Longrightarrow> count_list (TrimSpace s) c = count_list s c"
  by (simp add: TrimSpace_def count_list_rev count_list_dropWhile)

lemma TrimSpace_idem [simp]: "TrimSpace (TrimSpace s) = TrimSpace s"
proof -
  let ?l = "dropWhile is_space"
  have "?l (rev (?l (rev xs))) = rev (?l (rev xs))" if "?l xs = xs" for xs
  proof (cases "rev (?l (rev xs))")
    case (Cons y ys)
    have "rev (?l (rev xs)) @ rev (takeWhile is_space (rev xs)) = xs"
      by (metis rev_append rev_rev_ident takeWhile_dropWhile_id)
    then obtain zs where "xs = y # zs" using Cons by (metis append_Cons)
    then have "\<not> is_space y" using that
      by (metis dropWhile.simps(2) length_dropWhile_le not_Cons_self2 dropWhile_eq_Nil_conv
          length_Cons not_less_eq_eq order_refl)
    then show ?thesis using Cons by simp
  next
    case Nil
    show ?thesis unfolding Nil by simp
  qed
  from this [of "?l s"] show ?thesis by (simp add: TrimSpace_def)
qed

lemma dropWhile_at_sep: "\<not> P c \<Longrightarrow> dropWhile P (a @ c # b) = dropWhile P a @ c # b"
  by (induction a) auto

lemma TrimSpace_at_sep:
  "\<not> is_space c \<Longrightarrow>
    TrimSpace (a @ c # b) = dropWhile is_space a @ c # rev (dropWhile is_space (rev b))"
  by (simp add: TrimSpace_def dropWhile_at_sep [of is_space c "rev b", simplified])
    (simp add: dropWhile_at_sep)

lemma TrimSpace_dropWhile: "TrimSpace (dropWhile is_space a) = TrimSpace a"
  by (simp add: TrimSpace_def)

lemma Split_TrimSpace_hd:
  assumes "\<not> is_space c"
  shows "TrimSpace (Split c (TrimSpace s) ! 0) = TrimSpace (Split c s ! 0)"
proof (rule Cut_cases [of c s])
  assume n: "c \<notin> set s"
  then have "c \<notin> set (TrimSpace s)" using set_TrimSpace by blast
  then show ?thesis using n by (simp add: Split_no_sep)
next
  fix a b assume s: "s = a @ c # b" "c \<notin> set a"
  then have "c \<notin> set (dropWhile is_space a)" by (auto dest: set_dropWhileD)
  then show ?thesis
    using s assms by (simp add: TrimSpace_at_sep Split_append TrimSpace_dropWhile)
qed


end
