(* ===== verification/Ports.thy ===== *)
theory Ports
  imports Go_Strings
begin

text \<open>
  Forwarded-port specifications: the management layer's validation (\<open>internal/manage/validate.go\<close>),
  the engine's expansion into listeners (\<open>parsePortMappings\<close> of
  \<open>internal/server/transport/tcp.go\<close> and its restructured copy in \<open>kcp.go\<close>; the copies in
  \<open>udp.go\<close>, \<open>ws.go\<close>, \<open>tcpmux.go\<close> and \<open>wsmux.go\<close> are textually the tcp one and \<open>quic.go\<close> the kcp one)
  and the mappings of the rathole and frp servers.

  A listener is the pair of a local listen address and a remote target; a \<open>Fatalf\<close>, which ends the
  process, is the error value.
\<close>

section \<open>Validation: \<open>validate.go\<close>\<close>

definition validPort :: "string \<Rightarrow> bool" where
  "validPort s = (case Atoi s of None \<Rightarrow> False | Some n \<Rightarrow> 1 \<le> n \<and> n \<le> 65535)"

definition name_char :: "char \<Rightarrow> bool" where
  "name_char c =
     (let n = (of_char c :: nat) in
      (65 \<le> n \<and> n \<le> 90) \<or> (97 \<le> n \<and> n \<le> 122) \<or> (48 \<le> n \<and> n \<le> 57) \<or>
      c = CHR ''.'' \<or> c = CHR ''_'' \<or> c = CHR ''-'')"

definition validName :: "string \<Rightarrow> bool" where
  "validName name = (1 \<le> length name \<and> length name \<le> 40 \<and> list_all name_char name)"

definition parsePorts :: "string \<Rightarrow> string list" where
  "parsePorts raw = filter (\<lambda>p. p \<noteq> []) (map TrimSpace (Split (CHR '','') raw))"

definition validBackendList :: "string \<Rightarrow> bool" where
  "validBackendList dest =
     (let parts = Split (CHR ''|'') dest in
      list_all (\<lambda>p. TrimSpace p \<noteq> []) parts \<and> 0 < length parts)"

definition valid_range_or_port :: "string \<Rightarrow> bool" where
  "valid_range_or_port local =
     (if CHR ''-'' \<in> set local then
        (let r = Split (CHR ''-'') local in
         if length r \<noteq> 2 then False
         else let lo = TrimSpace (r ! 0); hi = TrimSpace (r ! 1) in
           if \<not> validPort lo \<or> \<not> validPort hi then False
           else the (Atoi lo) \<le> the (Atoi hi))
      else validPort local)"

definition validPortSpec :: "string \<Rightarrow> bool" where
  "validPortSpec spec =
     (let spec = TrimSpace spec;
          parts = SplitN2 (CHR ''='') spec;
          local = TrimSpace (parts ! 0)
      in if local = [] then False
         else if length parts = 2 \<and> \<not> validBackendList (parts ! 1) then False
         else case SplitHostPort local of
             Some (h, p) \<Rightarrow>
               (if h \<noteq> [] then length parts = 2 \<and> validPort p else valid_range_or_port local)
           | None \<Rightarrow> valid_range_or_port local)"

text \<open>\<^const>\<open>None\<close>: every entry is fine; otherwise the first invalid one, as named in the error.\<close>

fun validatePortSpecs :: "string list \<Rightarrow> string option" where
  "validatePortSpecs [] = None"
| "validatePortSpecs (p # ps) = (if \<not> validPortSpec p then Some (TrimSpace p) else validatePortSpecs ps)"

section \<open>The engine: \<open>parsePortMappings\<close>\<close>

datatype port_error =
    BadRangeFormat string
  | BadStartPort string
  | BadEndPort string
  | BadPort string
  | BadMapping string

type_synonym listener = "string \<times> string"

definition colon_port :: "int \<Rightarrow> string" where
  "colon_port n = CHR '':'' # Itoa_nat (nat n)"

definition range_ports :: "string \<Rightarrow> port_error + int list" where
  "range_ports s =
     (let r = Split (CHR ''-'') s in
      if length r \<noteq> 2 then Inl (BadRangeFormat s)
      else case Atoi (TrimSpace (r ! 0)) of
          None \<Rightarrow> Inl (BadStartPort (r ! 0))
        | Some a \<Rightarrow>
            (if a < 1 \<or> a > 65535 then Inl (BadStartPort (r ! 0))
             else case Atoi (TrimSpace (r ! 1)) of
                 None \<Rightarrow> Inl (BadEndPort (r ! 1))
               | Some b \<Rightarrow>
                   (if b < 1 \<or> b > 65535 \<or> b < a then Inl (BadEndPort (r ! 1))
                    else Inr [a..b])))"

definition port_entry :: "string \<Rightarrow> port_error + listener list" where
  "port_entry m =
     (let parts = Split (CHR ''='') m in
      if length parts = 1 then
        (let l = TrimSpace (parts ! 0) in
         if CHR ''-'' \<in> set l then
           (case range_ports l of
              Inl e \<Rightarrow> Inl e
            | Inr ps \<Rightarrow> Inr (map (\<lambda>p. (colon_port p, Itoa_nat (nat p))) ps))
         else
           (case Atoi l of
              None \<Rightarrow> Inl (BadPort l)
            | Some p \<Rightarrow> if p < 1 \<or> p > 65535 then Inl (BadPort l) else Inr [(colon_port p, l)]))
      else if length parts = 2 then
        (let l = TrimSpace (parts ! 0); remoteAddr = TrimSpace (parts ! 1) in
         if CHR ''-'' \<in> set l then
           (case range_ports l of
              Inl e \<Rightarrow> Inl e
            | Inr ps \<Rightarrow> Inr (map (\<lambda>p. (colon_port p, remoteAddr)) ps))
         else
           (case Atoi l of
              None \<Rightarrow> Inr [(l, remoteAddr)]
            | Some p \<Rightarrow>
                if p > 1 \<and> p < 65535 then Inr [(colon_port p, remoteAddr)] else Inr [(l, remoteAddr)]))
      else Inl (BadMapping m))"

fun parsePortMappings :: "string list \<Rightarrow> port_error + listener list" where
  "parsePortMappings [] = Inr []"
| "parsePortMappings (m # ms) =
     (case port_entry m of
        Inl e \<Rightarrow> Inl e
      | Inr ls \<Rightarrow>
          (case parsePortMappings ms of Inl e \<Rightarrow> Inl e | Inr ls' \<Rightarrow> Inr (ls @ ls')))"

section \<open>Rathole and frp: \<open>mappings\<close>\<close>

definition portRange :: "string \<Rightarrow> (int \<times> int) option" where
  "portRange s =
     (case Cut (CHR ''-'') s of (a, b, found) \<Rightarrow>
        if \<not> found then None
        else case (Atoi (TrimSpace a), Atoi (TrimSpace b)) of
            (Some lo, Some hi) \<Rightarrow> if lo < 1 \<or> hi > 65535 \<or> lo > hi then None else Some (lo, hi)
          | _ \<Rightarrow> None)"

definition normalizeTarget :: "string \<Rightarrow> string" where
  "normalizeTarget spec =
     (let spec = TrimSpace spec in
      case Atoi spec of Some _ \<Rightarrow> ''127.0.0.1:'' @ spec | None \<Rightarrow> spec)"

definition mapping_entry :: "string \<Rightarrow> listener list" where
  "mapping_entry raw =
     (let raw = TrimSpace raw in
      if raw = [] then []
      else case Cut (CHR ''='') raw of (left, right, hasRight) \<Rightarrow>
        let left = TrimSpace left; right = TrimSpace right in
        case portRange left of
          Some (lo, hi) \<Rightarrow> map (\<lambda>p. (colon_port p, normalizeTarget (Itoa_nat (nat p)))) [lo..hi]
        | None \<Rightarrow>
            let listen = (case Atoi left of Some _ \<Rightarrow> CHR '':'' # left | None \<Rightarrow> left);
                target = (if hasRight \<and> right \<noteq> [] then right else left)
            in [(listen, normalizeTarget target)])"

definition mappings :: "string list \<Rightarrow> listener list" where
  "mappings ports = concat (map mapping_entry ports)"

section \<open>Validated entries start\<close>

definition local_part :: "string \<Rightarrow> string" where
  "local_part s = TrimSpace (Split (CHR ''='') s ! 0)"

definition host_form :: "string \<Rightarrow> bool" where
  "host_form l = (case SplitHostPort l of Some (h, p) \<Rightarrow> h \<noteq> [] | None \<Rightarrow> False)"

definition good_listener :: "string \<Rightarrow> listener \<Rightarrow> bool" where
  "good_listener l x = (fst x = l \<or> (\<exists>n. 1 \<le> n \<and> n \<le> 65535 \<and> fst x = colon_port n))"

lemma validPortSpec_parts:
  assumes "validPortSpec s" "count_list s (CHR ''='') \<le> 1"
  shows "local_part s \<noteq> [] \<and>
    (if host_form (local_part s) then length (Split (CHR ''='') s) = 2
     else valid_range_or_port (local_part s))"
proof -
  have ns: "\<not> is_space (CHR ''='')" by (simp add: is_space_def)
  let ?t = "TrimSpace s"
  have c: "count_list ?t (CHR ''='') = count_list s (CHR ''='')" by (rule count_list_TrimSpace [OF ns])
  then have parts: "SplitN2 (CHR ''='') ?t = Split (CHR ''='') ?t" using assms(2) by (simp add: SplitN2_eq_Split)
  have len: "length (Split (CHR ''='') ?t) = length (Split (CHR ''='') s)" by (simp add: length_Split c)
  have lp: "TrimSpace (Split (CHR ''='') ?t ! 0) = local_part s"
    unfolding local_part_def by (rule Split_TrimSpace_hd [OF ns])
  show ?thesis
    using assms(1) unfolding validPortSpec_def Let_def parts lp len
    by (auto simp: host_form_def split: if_splits option.splits)
qed

lemma range_ports_valid:
  assumes "valid_range_or_port l" "CHR ''-'' \<in> set l"
  shows "\<exists>a b. range_ports l = Inr [a..b] \<and> 1 \<le> a \<and> a \<le> b \<and> b \<le> 65535"
  using assms
  by (auto simp: valid_range_or_port_def range_ports_def Let_def validPort_def
      split: if_splits option.splits)

lemma good_listener_port: "1 \<le> p \<Longrightarrow> p \<le> 65535 \<Longrightarrow> good_listener l (colon_port p, x)"
  unfolding good_listener_def by auto

lemma good_listener_self [simp]: "good_listener l (l, x)"
  by (simp add: good_listener_def)

lemma Split_length_12: "count_list s c \<le> 1 \<Longrightarrow> length (Split c s) = 1 \<or> length (Split c s) = 2"
  by (auto simp: length_Split)

text \<open>What the management layer accepts, the engine can run.  A port entry that
  \<open>validPortSpec\<close> accepts, with at most one \<open>=\<close> in it and, in the \<open>host:port\<close> form, no dash, never
  makes \<open>parsePortMappings\<close> exit: it yields at least one listener, and every listener's local
  address is the entry's own local part or \<open>:n\<close> for a port \<open>n\<close> between 1 and 65535.\<close>

theorem accepted_specs_start:
  assumes v: "validPortSpec s" and one: "count_list s (CHR ''='') \<le> 1"
    and dash: "host_form (local_part s) \<Longrightarrow> CHR ''-'' \<notin> set (local_part s)"
  shows "\<exists>ls. port_entry s = Inr ls \<and> ls \<noteq> [] \<and> list_all (good_listener (local_part s)) ls"
proof -
  note vp = validPortSpec_parts [OF v one]
  show ?thesis
  proof (cases "CHR ''-'' \<in> set (local_part s)")
    case True
    then have "valid_range_or_port (local_part s)" using vp dash by (auto split: if_splits)
    then obtain a b where r: "range_ports (local_part s) = Inr [a..b]" "1 \<le> a" "a \<le> b" "b \<le> 65535"
      using range_ports_valid True by blast
    then show ?thesis
      using Split_length_12 [OF one] True
      by (auto simp: port_entry_def Let_def local_part_def [symmetric] list_all_iff
          intro!: good_listener_port)
  next
    case False
    consider (port) "valid_range_or_port (local_part s)"
      | (host) "length (Split (CHR ''='') s) = 2" using vp by (auto split: if_splits)
    then show ?thesis
    proof cases
      case port
      then obtain n where "Atoi (local_part s) = Some n" "1 \<le> n" "n \<le> 65535"
        using False by (auto simp: valid_range_or_port_def validPort_def split: option.splits)
      then show ?thesis
        using Split_length_12 [OF one] False
        by (auto simp: port_entry_def Let_def local_part_def [symmetric] intro!: good_listener_port)
    next
      case host
      then show ?thesis using False
        by (auto simp: port_entry_def Let_def local_part_def [symmetric]
            intro!: good_listener_port split: option.splits)
    qed
  qed
qed

theorem accepted_specs_start_witness:
  "\<exists>ls. port_entry ''400-402=1.1.1.1:443'' = Inr ls \<and> ls \<noteq> [] \<and>
     list_all (good_listener (local_part ''400-402=1.1.1.1:443'')) ls"
  by (rule accepted_specs_start)
    (simp_all add: validPortSpec_def SplitN2_def TrimSpace_def is_space_def Let_def
      validBackendList_def SplitHostPort_def valid_range_or_port_def validPort_def Atoi_def
      parse_uint_def is_digit_def digits_val_def digit_val_def host_form_def local_part_def)

text \<open>Entries the validator passes and the engine dies on.  \<open>validPortSpec\<close> is there because an
  entry the engine rejects makes the service exit and crash-loop, yet it accepts a second \<open>=\<close> in
  the destination and a dash in the host, which \<open>parsePortMappings\<close> treats as fatal; and for the
  ports 1 and 65535 of the mapping form the engine listens on the bare number without the colon,
  unlike for every port in between.\<close>

theorem accepted_specs_that_fail:
  "validPortSpec ''443=a=b'' \<and> port_entry ''443=a=b'' = Inl (BadMapping ''443=a=b'') \<and>
   validPortSpec ''my-host:443=x'' \<and> port_entry ''my-host:443=x'' = Inl (BadStartPort ''my'') \<and>
   validPortSpec ''1=x'' \<and> port_entry ''1=x'' = Inr [(''1'', ''x'')] \<and>
   validPortSpec ''65535=x'' \<and> port_entry ''65535=x'' = Inr [(''65535'', ''x'')] \<and>
   port_entry ''2=x'' = Inr [('':2'', ''x'')]"
  by (simp add: validPortSpec_def SplitN2_def TrimSpace_def is_space_def Let_def
      validBackendList_def SplitHostPort_def valid_range_or_port_def validPort_def Atoi_def
      parse_uint_def is_digit_def digits_val_def digit_val_def port_entry_def range_ports_def
      colon_port_def Itoa_nat.simps digit_char_def char_of_def bit_0)


section \<open>Rathole and frp mappings\<close>

lemma Itoa_nat_no_space: "list_all (\<lambda>c. \<not> is_space c) (Itoa_nat n)"
  using Itoa_nat_digits [of n] by (auto simp: list_all_iff is_digit_def is_space_def)

lemma normalizeTarget_port:
  "0 \<le> p \<Longrightarrow> p \<le> 65535 \<Longrightarrow> normalizeTarget (Itoa_nat (nat p)) = ''127.0.0.1:'' @ Itoa_nat (nat p)"
  by (simp add: normalizeTarget_def Let_def TrimSpace_id [OF Itoa_nat_no_space] Atoi_Itoa_nat)

text \<open>Port ranges of the rathole and frp servers.  An entry whose local side is a valid range
  \<open>lo-hi\<close> yields exactly one listener per port, in ascending order, each forwarding to the same port
  on the far end's loopback, whatever follows an \<open>=\<close>: a destination given for a range, which the
  validator accepts, is silently ignored.\<close>

theorem range_mappings:
  assumes "portRange (TrimSpace (fst (Cut (CHR ''='') (TrimSpace raw)))) = Some (lo, hi)"
  shows "mapping_entry raw =
    map (\<lambda>p. (colon_port p, ''127.0.0.1:'' @ Itoa_nat (nat p))) [lo..hi] \<and> 1 \<le> lo \<and> lo \<le> hi \<and> hi \<le> 65535"
proof -
  have b: "1 \<le> lo" "lo \<le> hi" "hi \<le> 65535"
    using assms by (auto simp: portRange_def split: prod.splits if_splits option.splits)
  have "TrimSpace raw \<noteq> []"
  proof
    assume "TrimSpace raw = []"
    then have "portRange (TrimSpace []) = Some (lo, hi)" using assms by simp
    then show False by (simp add: TrimSpace_def portRange_def)
  qed
  moreover have "map (\<lambda>p. (colon_port p, normalizeTarget (Itoa_nat (nat p)))) [lo..hi]
      = map (\<lambda>p. (colon_port p, ''127.0.0.1:'' @ Itoa_nat (nat p))) [lo..hi]"
    using b by (intro map_cong refl) (auto simp: normalizeTarget_port)
  ultimately show ?thesis
    using assms b by (auto simp: mapping_entry_def Let_def split: prod.splits)
qed

theorem range_mappings_witness:
  "mapping_entry ''8000-8001=10.0.0.9:1'' =
     map (\<lambda>p. (colon_port p, ''127.0.0.1:'' @ Itoa_nat (nat p))) [8000..8001]"
proof -
  have "portRange (TrimSpace (fst (Cut (CHR ''='') (TrimSpace ''8000-8001=10.0.0.9:1'')))) = Some (8000, 8001)"
    by (simp add: TrimSpace_def is_space_def portRange_def Atoi_def parse_uint_def is_digit_def
        digits_val_def digit_val_def)
  then show ?thesis using range_mappings by blast
qed


end
