(* ===== verification/Pck_Flags.thy ===== *)
theory Pck_Flags
  imports Pck_Conn Go_Strings
begin

text \<open>
  The configuration side of the packet carrier: the TCP flag cycle of
  \<open>internal/utils/network/pckframe.go\<close> in tcpdump's spelling, and the firewall rules of
  \<open>pckport.go\<close> written against the client's port range.
\<close>

section \<open>Flag combinations: \<open>pckframe.go\<close>\<close>

definition flagLetters :: "(char \<times> TCPFlags) list" where
  "flagLetters = [(CHR ''F'', FlagFIN), (CHR ''S'', FlagSYN), (CHR ''R'', FlagRST), (CHR ''P'', FlagPSH),
     (CHR ''A'', FlagACK), (CHR ''U'', FlagURG), (CHR ''E'', FlagECE), (CHR ''C'', FlagCWR)]"

datatype flag_error = EmptyCombination | NotAFlag char | TooMany nat | CarriesRST | NeitherAckNorSyn TCPFlags

fun or_letters :: "TCPFlags \<Rightarrow> string \<Rightarrow> flag_error + TCPFlags" where
  "or_letters out [] = Inr out"
| "or_letters out (c # cs) =
     (case map_of flagLetters c of
        Some f \<Rightarrow> or_letters (out OR f) cs
      | None \<Rightarrow> Inl (NotAFlag c))"

definition ParseTCPFlags :: "string \<Rightarrow> flag_error + TCPFlags" where
  "ParseTCPFlags s =
     (let s = TrimSpace s in
      if s = [] then Inl EmptyCombination else or_letters 0 (map ToUpper_char s))"

definition TCPFlags_String :: "TCPFlags \<Rightarrow> string" where
  "TCPFlags_String f = map fst (filter (\<lambda>(c, b). f AND b \<noteq> 0) flagLetters)"

fun parse_flag_loop :: "string list \<Rightarrow> flag_error + TCPFlags list" where
  "parse_flag_loop [] = Inr []"
| "parse_flag_loop (s # ss) =
     (case ParseTCPFlags s of
        Inl e \<Rightarrow> Inl e
      | Inr f \<Rightarrow>
          (if f AND FlagRST \<noteq> 0 then Inl CarriesRST
           else if f AND (FlagACK OR FlagSYN) = 0 then Inl (NeitherAckNorSyn f)
           else (case parse_flag_loop ss of Inl e \<Rightarrow> Inl e | Inr fs \<Rightarrow> Inr (f # fs))))"

definition ParseTCPFlagList :: "string list \<Rightarrow> flag_error + TCPFlags list" where
  "ParseTCPFlagList ins =
     (if ins = [] then Inr [FlagPSH OR FlagACK]
      else if 64 < length ins then Inl (TooMany (length ins))
      else parse_flag_loop ins)"

definition FormatTCPFlagList :: "TCPFlags list \<Rightarrow> string list" where
  "FormatTCPFlagList fs = map TCPFlags_String fs"

definition DefaultTCPFlagList :: "string list" where
  "DefaultTCPFlagList = [''PA'']"

section \<open>Firewall rules: \<open>pckport.go\<close>\<close>

definition portSpec :: "16 word \<Rightarrow> 16 word \<Rightarrow> string" where
  "portSpec lo hi =
     (if lo = hi then Itoa_nat (unat lo) else Itoa_nat (unat lo) @ '':'' @ Itoa_nat (unat hi))"

definition pckRules :: "16 word \<Rightarrow> 16 word \<Rightarrow> string list list" where
  "pckRules lo hi =
     (let p = portSpec lo hi;
          tag = [''-m'', ''comment'', ''--comment'', ''arange-tun-pck-'' @ p];
          rule = (\<lambda>table body. [table] @ (body @ tag))
      in [rule ''filter'' [''OUTPUT'', ''-p'', ''tcp'', ''--sport'', p,
            ''--tcp-flags'', ''RST'', ''RST'', ''-j'', ''DROP''],
          rule ''raw'' [''PREROUTING'', ''-p'', ''tcp'', ''--dport'', p, ''-j'', ''NOTRACK''],
          rule ''raw'' [''OUTPUT'', ''-p'', ''tcp'', ''--sport'', p, ''-j'', ''NOTRACK'']])"

section \<open>Correctness\<close>

definition sendable :: "TCPFlags \<Rightarrow> bool" where
  "sendable f = (f AND FlagRST = 0 \<and> f AND (FlagACK OR FlagSYN) \<noteq> 0)"

lemmas flag_defs = FlagFIN_def FlagSYN_def FlagRST_def FlagPSH_def FlagACK_def FlagURG_def
  FlagECE_def FlagCWR_def

lemma or_letters_known:
  "(\<forall>c\<in>set cs. map_of flagLetters c \<noteq> None) \<Longrightarrow>
    or_letters out cs = Inr (fold (\<lambda>c o'. o' OR the (map_of flagLetters c)) cs out)"
  by (induction cs arbitrary: out) auto

lemma bit_fold_or:
  "bit (fold (\<lambda>c o'. o' OR g c) cs out) n \<longleftrightarrow> bit out n \<or> (\<exists>c\<in>set cs. bit (g c :: TCPFlags) n)"
  by (induction cs arbitrary: out) (auto simp: bit_or_iff)

text \<open>The table, by bit position.\<close>

definition letters :: string where
  "letters = ''FSRPAUEC''"

lemma length_letters: "length letters = 8"
  by (simp add: letters_def)

lemma flagLetters_bits: "flagLetters = zip letters (map (\<lambda>i. 2 ^ i) [0..<8])"
  by (simp add: flagLetters_def letters_def flag_defs upt_conv_Cons)

lemma flag_at: "(c, b) \<in> set flagLetters \<longleftrightarrow> (\<exists>i<8. c = letters ! i \<and> b = 2 ^ i)"
  unfolding flagLetters_bits in_set_zip by (auto simp: length_letters)

lemma letters_distinct: "distinct (map fst flagLetters)"
  by (simp add: flagLetters_def)

lemma set_TCPFlags_String: "c \<in> set (TCPFlags_String f) \<longleftrightarrow> (\<exists>i<8. c = letters ! i \<and> bit f i)"
proof -
  have "c \<in> set (TCPFlags_String f) \<longleftrightarrow> (\<exists>b. (c, b) \<in> set flagLetters \<and> f AND b \<noteq> 0)"
    by (force simp: TCPFlags_String_def image_iff)
  also have "\<dots> \<longleftrightarrow> (\<exists>i<8. c = letters ! i \<and> f AND 2 ^ i \<noteq> 0)" by (auto simp: flag_at)
  finally show ?thesis by (simp add: and_exp_eq_0_iff_not_bit)
qed

lemma map_of_letter: "i < 8 \<Longrightarrow> map_of flagLetters (letters ! i) = Some (2 ^ i)"
  by (simp add: map_of_eq_Some_iff letters_distinct flag_at) blast

lemma or_letters_String: "or_letters 0 (TCPFlags_String f) = Inr f"
proof -
  let ?g = "\<lambda>c. the (map_of flagLetters c)"
  have "fold (\<lambda>c o'. o' OR ?g c) (TCPFlags_String f) 0 = f"
  proof (rule bit_word_eqI)
    fix n assume n: "n < LENGTH(8)"
    have "bit (fold (\<lambda>c o'. o' OR ?g c) (TCPFlags_String f) 0) n
        \<longleftrightarrow> (\<exists>c\<in>set (TCPFlags_String f). bit (?g c) n)" by (simp add: bit_fold_or)
    also have "\<dots> \<longleftrightarrow> (\<exists>i<8. bit f i \<and> bit (2 ^ i :: TCPFlags) n)"
      unfolding Bex_def set_TCPFlags_String by (metis map_of_letter option.sel)
    also have "\<dots> \<longleftrightarrow> bit f n" using n by (auto simp: bit_exp_iff)
    finally show "bit (fold (\<lambda>c o'. o' OR ?g c) (TCPFlags_String f) 0) n = bit f n" .
  qed
  moreover have "\<forall>c\<in>set (TCPFlags_String f). map_of flagLetters c \<noteq> None"
    by (auto simp: set_TCPFlags_String map_of_letter)
  ultimately show ?thesis by (simp add: or_letters_known)
qed

lemma letter_upper: "i < 8 \<Longrightarrow> ToUpper_char (letters ! i) = letters ! i \<and> \<not> is_space (letters ! i)"
  by (auto simp: less_Suc_eq numeral_eq_Suc letters_def ToUpper_char_def is_space_def)

lemma String_nonempty: "f \<noteq> 0 \<Longrightarrow> TCPFlags_String f \<noteq> []"
proof
  assume "f \<noteq> 0" "TCPFlags_String f = []"
  then have "\<not> bit f i" if "i < 8" for i using set_TCPFlags_String [of _ f] that by fastforce
  then have "f = 0" by (intro bit_word_eqI) simp
  then show False using \<open>f \<noteq> 0\<close> by simp
qed

lemma ParseTCPFlags_String: "f \<noteq> 0 \<Longrightarrow> ParseTCPFlags (TCPFlags_String f) = Inr f"
proof -
  assume "f \<noteq> 0"
  have "map ToUpper_char (TCPFlags_String f) = TCPFlags_String f"
    by (rule map_idI) (auto simp: set_TCPFlags_String letter_upper)
  moreover have "TrimSpace (TCPFlags_String f) = TCPFlags_String f"
    by (rule TrimSpace_id) (auto simp: list_all_iff set_TCPFlags_String letter_upper)
  ultimately show ?thesis
    using String_nonempty [OF \<open>f \<noteq> 0\<close>] by (simp add: ParseTCPFlags_def or_letters_String)
qed

lemma sendable_nonzero: "sendable f \<Longrightarrow> f \<noteq> 0"
  by (auto simp: sendable_def)

lemma parse_flag_loop_format: "list_all sendable fs \<Longrightarrow> parse_flag_loop (map TCPFlags_String fs) = Inr fs"
  by (induction fs) (auto simp: ParseTCPFlags_String sendable_nonzero, auto simp: sendable_def)

lemma parse_flag_loop_sendable: "parse_flag_loop ss = Inr fs \<Longrightarrow> list_all sendable fs \<and> length fs = length ss"
  by (induction ss arbitrary: fs) (auto simp: sendable_def split: sum.splits if_splits)

text \<open>TCP flag cycles.  Whatever list of combinations the operator writes, the parser either
  reports an error or yields between 1 and 64 combinations, none carrying RST and each carrying ACK
  or SYN; and every such cycle, printed in tcpdump's spelling, parses back to itself.\<close>

theorem flag_cycles:
  "(ParseTCPFlagList ss = Inr fs \<longrightarrow> list_all sendable fs \<and> 1 \<le> length fs \<and> length fs \<le> 64) \<and>
   (list_all sendable gs \<longrightarrow> gs \<noteq> [] \<longrightarrow> length gs \<le> 64 \<longrightarrow>
      ParseTCPFlagList (FormatTCPFlagList gs) = Inr gs)"
proof
  show "ParseTCPFlagList ss = Inr fs \<longrightarrow> list_all sendable fs \<and> 1 \<le> length fs \<and> length fs \<le> 64"
    using parse_flag_loop_sendable [of ss fs]
    by (cases ss) (auto simp: ParseTCPFlagList_def sendable_def flag_defs split: if_splits)
  show "list_all sendable gs \<longrightarrow> gs \<noteq> [] \<longrightarrow> length gs \<le> 64 \<longrightarrow>
      ParseTCPFlagList (FormatTCPFlagList gs) = Inr gs"
    by (simp add: ParseTCPFlagList_def FormatTCPFlagList_def parse_flag_loop_format)
qed

theorem flag_cycles_witness:
  "ParseTCPFlagList (FormatTCPFlagList [0x18, 0x10]) = Inr [0x18, 0x10]"
  using flag_cycles [of "[]" "[]" "[0x18, 0x10]"] by (simp add: sendable_def flag_defs)

end
