(* ===== verification/Wire_Framing.thy ===== *)
theory Wire_Framing
  imports Go_Prelude
begin

text \<open>
  The length-prefixed framings of the tunnel: the control strings of \<open>internal/utils/binary.go\<close>,
  forwarded datagrams (\<open>internal/utils/network/udpframe.go\<close>), the messages of the rathole port
  (\<open>internal/rathole/rathole.go\<close>) and the frp blob (\<open>internal/frp/frp.go\<close>).  Each format is shown
  to be a \<open>codec\<close>; what each does outside its valid range (oversized input, a truncated stream,
  an unsupported connection) is stated beside it.
\<close>

datatype wire_error =
    ReadLength io_error
  | ReadMessage io_error
  | UnsupportedConn
  | TooLarge nat
  | NoFit nat nat

text \<open>The type switch on \<open>conn interface{}\<close>: a \<open>net.Conn\<close>, or anything else.\<close>

datatype conn_kind = NetConn | OtherConn

section \<open>Control strings: \<open>internal/utils/binary.go\<close>\<close>

definition binary_string_frame :: "bytes \<Rightarrow> bytes" where
  "binary_string_frame message = be16 (len16 message) @ message"

definition SendBinaryString :: "conn_kind \<Rightarrow> bytes \<Rightarrow> wire_error + bytes" where
  "SendBinaryString conn message =
     (case conn of NetConn \<Rightarrow> Inr (binary_string_frame message) | OtherConn \<Rightarrow> Inl UnsupportedConn)"

definition ReceiveBinaryString :: "conn_kind \<Rightarrow> bytes \<Rightarrow> wire_error + (bytes \<times> bytes)" where
  "ReceiveBinaryString conn s =
     (case conn of
        OtherConn \<Rightarrow> Inl UnsupportedConn
      | NetConn \<Rightarrow>
          (case read_full 2 s of
             Inl e \<Rightarrow> Inl (ReadLength e)
           | Inr (lenBuf, s1) \<Rightarrow>
               (case read_full (unat (u16_at lenBuf 0)) s1 of
                  Inl e \<Rightarrow> Inl (ReadMessage e)
                | Inr (messageBuf, s2) \<Rightarrow> Inr (messageBuf, s2))))"

definition transport_string_frame :: "bytes \<times> byte \<Rightarrow> bytes" where
  "transport_string_frame mt = (case mt of (message, transport) \<Rightarrow>
     be16 (len16 message) @ [transport] @ message)"

definition SendBinaryTransportString :: "conn_kind \<Rightarrow> bytes \<Rightarrow> byte \<Rightarrow> wire_error + bytes" where
  "SendBinaryTransportString conn message transport =
     (case conn of
        NetConn \<Rightarrow> Inr (transport_string_frame (message, transport))
      | OtherConn \<Rightarrow> Inl UnsupportedConn)"

definition ReceiveBinaryTransportString ::
    "conn_kind \<Rightarrow> bytes \<Rightarrow> wire_error + ((bytes \<times> byte) \<times> bytes)" where
  "ReceiveBinaryTransportString conn s =
     (case conn of
        OtherConn \<Rightarrow> Inl UnsupportedConn
      | NetConn \<Rightarrow>
          (case read_full 3 s of
             Inl e \<Rightarrow> Inl (ReadLength e)
           | Inr (lenBuf, s1) \<Rightarrow>
               (case read_full (unat (u16_at lenBuf 0)) s1 of
                  Inl e \<Rightarrow> Inl (ReadMessage e)
                | Inr (messageBuf, s2) \<Rightarrow> Inr ((messageBuf, lenBuf ! 2), s2))))"

definition SendBinaryByte :: "conn_kind \<Rightarrow> byte \<Rightarrow> wire_error + bytes" where
  "SendBinaryByte conn message =
     (case conn of NetConn \<Rightarrow> Inr [message] | OtherConn \<Rightarrow> Inl UnsupportedConn)"

definition ReceiveBinaryByte :: "conn_kind \<Rightarrow> bytes \<Rightarrow> wire_error + (byte \<times> bytes)" where
  "ReceiveBinaryByte conn s =
     (case conn of
        OtherConn \<Rightarrow> Inl UnsupportedConn
      | NetConn \<Rightarrow>
          (case read_full 1 s of
             Inl e \<Rightarrow> Inl (ReadMessage e)
           | Inr (messageBuf, s1) \<Rightarrow> Inr (messageBuf ! 0, s1)))"

section \<open>Forwarded datagrams: \<open>internal/utils/network/udpframe.go\<close>\<close>

definition MaxDatagram :: nat where
  "MaxDatagram = 65535"

definition udpScheme :: string where
  "udpScheme = ''udp://''"

definition MarkUDP :: "string \<Rightarrow> string" where
  "MarkUDP addr = udpScheme @ addr"

definition SplitUDPTarget :: "string \<Rightarrow> string \<times> bool" where
  "SplitUDPTarget addr =
     (if take (length udpScheme) addr = udpScheme then (drop (length udpScheme) addr, True)
      else (addr, False))"

definition WriteDatagram :: "bytes \<Rightarrow> wire_error + bytes" where
  "WriteDatagram payload =
     (if MaxDatagram < length payload then Inl (TooLarge (length payload))
      else Inr (be16 (len16 payload) @ payload))"

definition ReadDatagram :: "nat \<Rightarrow> bytes \<Rightarrow> wire_error + (bytes \<times> bytes)" where
  "ReadDatagram buflen s =
     (case read_full 2 s of
        Inl e \<Rightarrow> Inl (ReadLength e)
      | Inr (hdr, s1) \<Rightarrow>
          (let size = unat (u16_at hdr 0) in
           if buflen < size then Inl (NoFit size buflen)
           else if size = 0 then Inr ([], s1)
           else (case read_full size s1 of
                   Inl e \<Rightarrow> Inl (ReadMessage e)
                 | Inr (body, s2) \<Rightarrow> Inr (body, s2))))"

section \<open>Rathole messages: \<open>internal/rathole/rathole.go\<close>\<close>

definition protoVersion :: byte where
  "protoVersion = 1"

text \<open>\<open>writeHello\<close>: a 37-byte array, variant, version, digest.\<close>

definition writeHello :: "32 word \<times> bytes \<Rightarrow> bytes" where
  "writeHello vd = (case vd of (variant, d) \<Rightarrow> le32 variant @ [protoVersion] @ take 32 d)"

definition readHello :: "bytes \<Rightarrow> io_error + ((32 word \<times> bytes) \<times> bytes)" where
  "readHello s =
     (case read_full 37 s of
        Inl e \<Rightarrow> Inl e
      | Inr (buf, s1) \<Rightarrow> Inr ((le32_at buf 0, take 32 (drop 5 buf)), s1))"

definition writeU32 :: "32 word \<Rightarrow> bytes" where
  "writeU32 v = le32 v"

definition readU32 :: "bytes \<Rightarrow> io_error + (32 word \<times> bytes)" where
  "readU32 s =
     (case read_full 4 s of Inl e \<Rightarrow> Inl e | Inr (buf, s1) \<Rightarrow> Inr (le32_at buf 0, s1))"

definition writeAuth :: "bytes \<Rightarrow> bytes" where
  "writeAuth d = d"

definition readAuth :: "bytes \<Rightarrow> io_error + (bytes \<times> bytes)" where
  "readAuth s = read_full 32 s"

definition writeFrame :: "bytes \<Rightarrow> wire_error + bytes" where
  "writeFrame b =
     (if 65535 < length b then Inl (TooLarge (length b)) else Inr (be16 (len16 b) @ b))"

definition readFrame :: "bytes \<Rightarrow> wire_error + (bytes \<times> bytes)" where
  "readFrame s =
     (case read_full 2 s of
        Inl e \<Rightarrow> Inl (ReadLength e)
      | Inr (hdr, s1) \<Rightarrow>
          (case read_full (unat (u16_at hdr 0)) s1 of
             Inl e \<Rightarrow> Inl (ReadMessage e)
           | Inr (buf, s2) \<Rightarrow> Inr (buf, s2)))"

definition writeUDP :: "bytes \<times> bytes \<Rightarrow> wire_error + bytes" where
  "writeUDP fd = (case fd of (from, data) \<Rightarrow>
     (if 65535 < length from \<or> 65535 < length data then Inl (TooLarge (max (length from) (length data)))
      else Inr (be16 (len16 from) @ from @ be16 (len16 data) @ data)))"

definition readUDP :: "bytes \<Rightarrow> wire_error + ((bytes \<times> bytes) \<times> bytes)" where
  "readUDP s =
     (case read_full 2 s of
        Inl e \<Rightarrow> Inl (ReadLength e)
      | Inr (hdr, s1) \<Rightarrow>
          (case read_full (unat (u16_at hdr 0)) s1 of
             Inl e \<Rightarrow> Inl (ReadMessage e)
           | Inr (fb, s2) \<Rightarrow>
               (case read_full 2 s2 of
                  Inl e \<Rightarrow> Inl (ReadLength e)
                | Inr (hdr2, s3) \<Rightarrow>
                    (case read_full (unat (u16_at hdr2 0)) s3 of
                       Inl e \<Rightarrow> Inl (ReadMessage e)
                     | Inr (data, s4) \<Rightarrow> Inr ((fb, data), s4)))))"

section \<open>The frp blob: \<open>internal/frp/frp.go\<close>\<close>

definition maxFrame :: nat where
  "maxFrame = 65535"

definition frp_writeFrame :: "bytes \<Rightarrow> wire_error + bytes" where
  "frp_writeFrame b =
     (if maxFrame < length b then Inl (TooLarge (length b)) else Inr (be16 (len16 b) @ b))"

definition frp_readFrame :: "bytes \<Rightarrow> wire_error + (bytes \<times> bytes)" where
  "frp_readFrame s =
     (case read_full 2 s of
        Inl e \<Rightarrow> Inl (ReadLength e)
      | Inr (hdr, s1) \<Rightarrow>
          (let n = unat (u16_at hdr 0) in
           if maxFrame < n then Inl (TooLarge n)
           else (case read_full n s1 of
                   Inl e \<Rightarrow> Inl (ReadMessage e)
                 | Inr (buf, s2) \<Rightarrow> Inr (buf, s2))))"

section \<open>The formats are codecs\<close>

lemma read_full_2_be16 [simp]: "read_full 2 (be16 w @ rest) = Inr (be16 w, rest)"
  by simp

text \<open>A header \<open>h\<close> of fixed width that announces the length of the body \<open>b\<close>, cut anywhere before
  the end of the body: either the header read fails, or the body read does.\<close>

lemma header_trunc:
  assumes "length h = m" "k < m + length b"
  shows "(\<exists>e. read_full m (take k (h @ b)) = Inl e) \<or>
    (\<exists>e. read_full m (take k (h @ b)) = Inr (h, take (k - m) b) \<and>
      read_full (length b) (take (k - m) b) = Inl e \<and> b \<noteq> [])"
proof (cases "m \<le> k")
  case True
  then have "k - m < length b" using assms by simp
  then show ?thesis using True assms by (auto simp: read_full_def)
next
  case False
  then show ?thesis using assms by (simp add: read_full_def)
qed

lemmas prefixed_trunc = header_trunc [of "be16 w" 2 for w, OF length_be16]

lemma ReceiveBinaryString_frame:
  "length m \<le> 65535 \<Longrightarrow>
    ReceiveBinaryString NetConn (binary_string_frame m @ rest) = Inr (m, rest)"
  by (simp add: ReceiveBinaryString_def binary_string_frame_def)

interpretation bin: codec binary_string_frame "ReceiveBinaryString NetConn" "\<lambda>m. length m \<le> 65535"
proof
  fix m rest :: bytes assume "length m \<le> 65535"
  then show "ReceiveBinaryString NetConn (binary_string_frame m @ rest) = Inr (m, rest)"
    by (rule ReceiveBinaryString_frame)
next
  fix m :: bytes and k assume "length m \<le> 65535" "k < length (binary_string_frame m)"
  with prefixed_trunc [of k m "len16 m"]
  show "\<exists>e. ReceiveBinaryString NetConn (take k (binary_string_frame m)) = Inl e"
    by (auto simp: ReceiveBinaryString_def binary_string_frame_def)
qed

lemma read_full_3_transport [simp]:
  "read_full 3 (be16 w @ t # rest) = Inr (be16 w @ [t], rest)"
  using read_full_append [of "be16 w @ [t]" 3 rest] by simp

lemma transport_header_simps [simp]:
  "u16_at (be16 w @ [t]) 0 = w" "(be16 w @ [t]) ! 2 = t"
  by (simp_all add: nth_append)

interpretation tstr: codec transport_string_frame "ReceiveBinaryTransportString NetConn"
  "\<lambda>(m, t). length m \<le> 65535"
proof
  fix x :: "bytes \<times> byte" and rest assume "case x of (m, t) \<Rightarrow> length m \<le> 65535"
  then show "ReceiveBinaryTransportString NetConn (transport_string_frame x @ rest) = Inr (x, rest)"
    by (cases x) (simp add: ReceiveBinaryTransportString_def transport_string_frame_def)
next
  fix x :: "bytes \<times> byte" and k
  assume v: "case x of (m, t) \<Rightarrow> length m \<le> 65535" and k: "k < length (transport_string_frame x)"
  obtain m t where x: "x = (m, t)" by (cases x)
  have fr: "transport_string_frame x = (be16 (len16 m) @ [t]) @ m"
    by (simp add: x transport_string_frame_def)
  have "k < 3 + length m" using k by (simp add: fr)
  from header_trunc [OF _ this, of "be16 (len16 m) @ [t]"] v
  show "\<exists>e. ReceiveBinaryTransportString NetConn (take k (transport_string_frame x)) = Inl e"
    unfolding fr by (auto simp: ReceiveBinaryTransportString_def x simp del: append_assoc)
qed

definition datagram_frame :: "bytes \<Rightarrow> bytes" where
  "datagram_frame p = be16 (len16 p) @ p"

lemma WriteDatagram_Inr: "length p \<le> MaxDatagram \<Longrightarrow> WriteDatagram p = Inr (datagram_frame p)"
  by (simp add: WriteDatagram_def datagram_frame_def)

interpretation dgram: codec datagram_frame "ReadDatagram MaxDatagram" "\<lambda>p. length p \<le> MaxDatagram"
proof
  fix p rest :: bytes assume "length p \<le> MaxDatagram"
  then show "ReadDatagram MaxDatagram (datagram_frame p @ rest) = Inr (p, rest)"
    by (simp add: ReadDatagram_def datagram_frame_def MaxDatagram_def Let_def)
next
  fix p :: bytes and k assume "length p \<le> MaxDatagram" "k < length (datagram_frame p)"
  with prefixed_trunc [of k p "len16 p"]
  show "\<exists>e. ReadDatagram MaxDatagram (take k (datagram_frame p)) = Inl e"
    by (auto simp: ReadDatagram_def datagram_frame_def MaxDatagram_def Let_def)
qed

lemma le32_at_hello [simp]: "le32_at (le32 v @ rest) 0 = v"
  by (rule le32_at_le32)

lemma length_writeHello: "length d = 32 \<Longrightarrow> length (writeHello (v, d)) = 37"
  by (simp add: writeHello_def)

interpretation hello: codec writeHello readHello "\<lambda>(v, d). length d = 32"
proof
  fix x :: "32 word \<times> bytes" and rest assume "case x of (v, d) \<Rightarrow> length d = 32"
  then obtain v d where x: "x = (v, d)" "length d = 32" by (cases x) simp
  then have "read_full 37 (writeHello x @ rest) = Inr (writeHello x, rest)"
    by (simp add: length_writeHello)
  then show "readHello (writeHello x @ rest) = Inr (x, rest)"
    using x by (simp add: readHello_def) (simp add: writeHello_def)
next
  fix x :: "32 word \<times> bytes" and k
  assume "case x of (v, d) \<Rightarrow> length d = 32" "k < length (writeHello x)"
  then show "\<exists>e. readHello (take k (writeHello x)) = Inl e"
    by (cases x) (auto simp: readHello_def read_full_def length_writeHello)
qed

interpretation u32: codec writeU32 readU32 "\<lambda>_. True"
proof
  fix v rest show "readU32 (writeU32 v @ rest) = Inr (v, rest)"
    using le32_at_le32 [of v "[]"] by (simp add: readU32_def writeU32_def)
next
  fix v k assume "k < length (writeU32 v)"
  then show "\<exists>e. readU32 (take k (writeU32 v)) = Inl e"
    by (simp add: readU32_def writeU32_def read_full_def)
qed

interpretation auth: codec writeAuth readAuth "\<lambda>d. length d = 32"
  by unfold_locales (auto simp: readAuth_def writeAuth_def read_full_def)

definition rathole_frame :: "bytes \<Rightarrow> bytes" where
  "rathole_frame b = be16 (len16 b) @ b"

interpretation rframe: codec rathole_frame readFrame "\<lambda>b. length b \<le> 65535"
proof
  fix b rest :: bytes assume "length b \<le> 65535"
  then show "readFrame (rathole_frame b @ rest) = Inr (b, rest)"
    by (simp add: readFrame_def rathole_frame_def)
next
  fix b :: bytes and k assume "length b \<le> 65535" "k < length (rathole_frame b)"
  with prefixed_trunc [of k b "len16 b"] show "\<exists>e. readFrame (take k (rathole_frame b)) = Inl e"
    by (auto simp: readFrame_def rathole_frame_def)
qed

interpretation fframe: codec rathole_frame frp_readFrame "\<lambda>b. length b \<le> maxFrame"
proof
  fix b rest :: bytes assume "length b \<le> maxFrame"
  then show "frp_readFrame (rathole_frame b @ rest) = Inr (b, rest)"
    by (simp add: frp_readFrame_def rathole_frame_def maxFrame_def Let_def)
next
  fix b :: bytes and k assume "length b \<le> maxFrame" "k < length (rathole_frame b)"
  with prefixed_trunc [of k b "len16 b"] show "\<exists>e. frp_readFrame (take k (rathole_frame b)) = Inl e"
    by (auto simp: frp_readFrame_def rathole_frame_def maxFrame_def Let_def)
qed

definition rathole_udp_frame :: "bytes \<times> bytes \<Rightarrow> bytes" where
  "rathole_udp_frame fd = (case fd of (from, data) \<Rightarrow> rathole_frame from @ rathole_frame data)"

lemma writeUDP_Inr:
  "length from \<le> 65535 \<Longrightarrow> length data \<le> 65535 \<Longrightarrow>
    writeUDP (from, data) = Inr (rathole_udp_frame (from, data))"
  by (simp add: writeUDP_def rathole_udp_frame_def rathole_frame_def)

text \<open>A \<open>readUDP\<close> is two \<open>readFrame\<close>s, so both laws come from the frame's codec.\<close>

lemma readUDP_two_frames:
  "readUDP s =
     (case readFrame s of
        Inl e \<Rightarrow> Inl e
      | Inr (fb, s2) \<Rightarrow>
          (case readFrame s2 of Inl e \<Rightarrow> Inl e | Inr (data, s4) \<Rightarrow> Inr ((fb, data), s4)))"
  by (simp add: readUDP_def readFrame_def split: sum.splits prod.splits)

interpretation rudp: codec rathole_udp_frame readUDP
  "\<lambda>(from, data). length from \<le> 65535 \<and> length data \<le> 65535"
proof
  fix x :: "bytes \<times> bytes" and rest
  assume "case x of (from, data) \<Rightarrow> length from \<le> 65535 \<and> length data \<le> 65535"
  then show "readUDP (rathole_udp_frame x @ rest) = Inr (x, rest)"
    by (cases x) (simp add: readUDP_two_frames rathole_udp_frame_def rframe.dec_enc)
next
  fix x :: "bytes \<times> bytes" and k
  assume v: "case x of (from, data) \<Rightarrow> length from \<le> 65535 \<and> length data \<le> 65535"
    and k: "k < length (rathole_udp_frame x)"
  obtain f d where x: "x = (f, d)" by (cases x)
  have ok: "length f \<le> 65535" "length d \<le> 65535" using v by (simp_all add: x)
  show "\<exists>e. readUDP (take k (rathole_udp_frame x)) = Inl e"
  proof (cases "k < length (rathole_frame f)")
    case True
    with rframe.dec_trunc [OF ok(1) True] show ?thesis
      by (auto simp: readUDP_two_frames x rathole_udp_frame_def)
  next
    case False
    then have "k - length (rathole_frame f) < length (rathole_frame d)"
      using k by (simp add: x rathole_udp_frame_def)
    from rframe.dec_trunc [OF ok(2) this] show ?thesis using False
      by (auto simp: readUDP_two_frames x rathole_udp_frame_def rframe.dec_enc [OF ok(1)])
  qed
qed

section \<open>Properties\<close>

text \<open>Control-channel strings.  Any sequence of announcements, each a payload of at most
  65535 bytes with its signal byte, that one end sends with \<open>SendBinaryTransportString\<close> is read
  back by repeated \<open>ReceiveBinaryTransportString\<close> calls, in order, leaving exactly what follows
  in the stream; and cutting the stream inside an announcement makes the read fail instead of
  returning a shorter payload.\<close>

theorem announcements_read_back:
  assumes "\<forall>(m, t)\<in>set xs. length m \<le> 65535"
  shows "decode_n (length xs) (ReceiveBinaryTransportString NetConn)
           (concat (map (\<lambda>(m, t). projr (SendBinaryTransportString NetConn m t)) xs) @ rest)
         = Inr (xs, rest) \<and>
         (\<forall>(m, t)\<in>set xs. \<forall>k < length (projr (SendBinaryTransportString NetConn m t)).
           \<exists>e. ReceiveBinaryTransportString NetConn
                 (take k (projr (SendBinaryTransportString NetConn m t))) = Inl e)"
proof -
  have send: "(\<lambda>(m, t). projr (SendBinaryTransportString NetConn m t)) = transport_string_frame"
    by (auto simp: SendBinaryTransportString_def)
  have "decode_n (length xs) (ReceiveBinaryTransportString NetConn)
           (concat (map (\<lambda>(m, t). projr (SendBinaryTransportString NetConn m t)) xs) @ rest)
         = Inr (xs, rest)"
    unfolding send using assms by (intro tstr.decode_n_concat) auto
  moreover have "\<forall>(m, t)\<in>set xs. \<forall>k < length (projr (SendBinaryTransportString NetConn m t)).
           \<exists>e. ReceiveBinaryTransportString NetConn
                 (take k (projr (SendBinaryTransportString NetConn m t))) = Inl e"
    using assms tstr.dec_trunc by (fastforce simp: SendBinaryTransportString_def)
  ultimately show ?thesis by blast
qed

theorem announcements_read_back_witness:
  "decode_n (Suc (Suc 0)) (ReceiveBinaryTransportString NetConn)
     (concat (map (\<lambda>(m, t). projr (SendBinaryTransportString NetConn m t)) [([1, 2], 7), ([], 8)]) @ [9])
   = Inr ([([1, 2], 7), ([], 8)], [9])"
  using announcements_read_back [of "[([1, 2], 7), ([], 8)]" "[9]"]
  by (simp del: decode_n.simps)

text \<open>The length field of a control string is \<open>uint16(len(message))\<close> with no check before it.
  Whatever the message, the receiver takes its length modulo 65536 as the message and leaves the
  rest of it in the stream, where the next read takes it for a header: a message of 65536 bytes
  or more desynchronises the control stream instead of being refused.\<close>

theorem control_string_length_wraps:
  "ReceiveBinaryString NetConn (projr (SendBinaryString NetConn m) @ rest)
   = Inr (take (length m mod 65536) m, drop (length m mod 65536) m @ rest)"
proof -
  have "length m mod 65536 \<le> length m" by simp
  then show ?thesis
    by (simp add: SendBinaryString_def binary_string_frame_def ReceiveBinaryString_def
        unat_len16 read_full_def)
qed

text \<open>Forwarded UDP.  \<open>WriteDatagram\<close> refuses exactly the payloads above 65535 bytes; every
  other datagram, the empty one included, written to the tunnel is read back by \<open>ReadDatagram\<close>
  into a buffer of \<open>MaxDatagram\<close> bytes, in order and with the stream left at the next frame.\<close>

theorem datagrams_read_back:
  "(WriteDatagram p = Inl (TooLarge (length p))) = (65535 < length p) \<and>
   ((\<forall>p\<in>set ps. length p \<le> MaxDatagram) \<longrightarrow>
     decode_n (length ps) (ReadDatagram MaxDatagram)
       (concat (map (\<lambda>p. projr (WriteDatagram p)) ps) @ rest) = Inr (ps, rest))"
proof -
  have "(WriteDatagram p = Inl (TooLarge (length p))) = (65535 < length p)"
    by (simp add: WriteDatagram_def MaxDatagram_def)
  moreover have "decode_n (length ps) (ReadDatagram MaxDatagram)
       (concat (map (\<lambda>p. projr (WriteDatagram p)) ps) @ rest) = Inr (ps, rest)"
    if ok: "\<forall>p\<in>set ps. length p \<le> MaxDatagram"
  proof -
    have "map (\<lambda>p. projr (WriteDatagram p)) ps = map datagram_frame ps"
      using ok by (simp add: WriteDatagram_Inr)
    with dgram.decode_n_concat [OF ok] show ?thesis by metis
  qed
  ultimately show ?thesis by blast
qed

theorem datagrams_read_back_witness:
  "decode_n (Suc (Suc (Suc 0))) (ReadDatagram MaxDatagram)
     (concat (map (\<lambda>p. projr (WriteDatagram p)) [[1, 2, 3], [], [255]]) @ [4, 5])
   = Inr ([[1, 2, 3], [], [255]], [4, 5])"
  using datagrams_read_back [of "[]" "[[1, 2, 3], [], [255]]" "[4, 5]"]
  by (simp add: MaxDatagram_def del: decode_n.simps)

end
