(* ===== verification/Failover.thy ===== *)
theory Failover
  imports Complex_Main Go_Strings
begin

text \<open>
  Where a client dials: the rotating list of server endpoints (\<open>internal/utils/network/endpoints.go\<close>),
  the health scoring that steers it (\<open>healthscore.go\<close>) and the pacing of reconnects
  (\<open>internal/client/transport/backoff.go\<close>).

  The cursors are 64-bit counters with Go's wrapping addition and truncating remainder.  A nil list
  behaves as an empty one and is represented by it.  Scores and durations are floating-point numbers
  in the source and rational numbers here, so rounding is not modelled; the ping whose output a score
  is computed from is an argument.
\<close>

section \<open>64-bit counters\<close>

definition wrap64 :: "int \<Rightarrow> int" where
  "wrap64 x = (x + 2 ^ 63) mod 2 ^ 64 - 2 ^ 63"

definition go_rem :: "int \<Rightarrow> int \<Rightarrow> int" where
  "go_rem a b = (if a < 0 then - (- a mod b) else a mod b)"

definition go_index :: "'a list \<Rightarrow> int \<Rightarrow> 'a option" where
  "go_index xs i = (if 0 \<le> i \<and> nat i < length xs then Some (xs ! nat i) else None)"

lemma wrap64_id: "- (2 ^ 63) \<le> x \<Longrightarrow> x < 2 ^ 63 \<Longrightarrow> wrap64 x = x"
  by (simp add: wrap64_def)

lemma go_rem_nonneg: "0 \<le> a \<Longrightarrow> go_rem a b = a mod b"
  by (simp add: go_rem_def)

lemma go_rem_bounds: "0 < b \<Longrightarrow> - b < go_rem a b \<and> go_rem a b < b"
  by (simp add: go_rem_def) (smt (verit) pos_mod_bound pos_mod_sign)

section \<open>The endpoint list: \<open>endpoints.go\<close>\<close>

record endpoints =
  ep_list :: "string list"
  ep_idx :: int
  spreadIdx :: int
  ep_spread :: bool
  steer :: bool
  preferred :: int

definition add_endpoint :: "string list \<Rightarrow> string \<Rightarrow> string list" where
  "add_endpoint l a =
     (let a = TrimSpace a in if a = [] \<or> a \<in> set l then l else l @ [a])"

definition NewEndpoints :: "string \<Rightarrow> string list \<Rightarrow> endpoints" where
  "NewEndpoints primary fallbacks =
     \<lparr>ep_list = foldl add_endpoint [] (primary # fallbacks), ep_idx = 0, spreadIdx = 0,
      ep_spread = False, steer = False, preferred = 0\<rparr>"

abbreviation Len :: "endpoints \<Rightarrow> nat" where
  "Len e \<equiv> length (ep_list e)"

definition clampIdx :: "endpoints \<Rightarrow> int \<Rightarrow> int" where
  "clampIdx e v =
     (let i = go_rem v (int (Len e)) in if i < 0 then i + int (Len e) else i)"

text \<open>\<^const>\<open>None\<close> is an index out of range.\<close>

definition Current :: "endpoints \<Rightarrow> string option" where
  "Current e =
     (if ep_list e = [] then Some []
      else if steer e then go_index (ep_list e) (clampIdx e (preferred e))
      else go_index (ep_list e) (go_rem (ep_idx e) (int (Len e))))"

definition Rotate :: "endpoints \<Rightarrow> endpoints" where
  "Rotate e =
     (if Len e \<le> 1 then e
      else if steer e then e\<lparr>preferred := clampIdx e (wrap64 (preferred e + 1))\<rparr>
      else e\<lparr>ep_idx := wrap64 (ep_idx e + 1)\<rparr>)"

definition Next :: "endpoints \<Rightarrow> string option \<times> endpoints" where
  "Next e =
     (if ep_list e = [] then (Some [], e)
      else if steer e then (go_index (ep_list e) (clampIdx e (preferred e)), e)
      else if \<not> ep_spread e \<or> Len e = 1 then (Current e, e)
      else
        (let n = wrap64 (spreadIdx e + 1); i = go_rem (wrap64 (n - 1)) (int (Len e)) in
         (go_index (ep_list e) (if i < 0 then 0 else i), e\<lparr>spreadIdx := n\<rparr>)))"

definition SetSpread :: "endpoints \<Rightarrow> bool \<Rightarrow> endpoints" where
  "SetSpread e on = e\<lparr>ep_spread := on\<rparr>"

section \<open>Health scoring: \<open>healthscore.go\<close>\<close>

record EndpointScore =
  Addr :: string
  RTTms :: rat
  JitterMs :: rat
  LossPct :: rat
  Score :: rat
  Reachable :: bool

definition computeScore :: "rat \<Rightarrow> rat \<Rightarrow> rat \<Rightarrow> rat" where
  "computeScore rttMs jitterMs lossPct = rttMs + 2 * jitterMs + 20 * lossPct"

definition hostOf :: "string \<Rightarrow> string" where
  "hostOf addr = (case SplitHostPort addr of Some (h, _) \<Rightarrow> h | None \<Rightarrow> addr)"

text \<open>\<open>parseScorePing\<close> on what its two regular expressions find: the loss, and the average and deviation.\<close>

definition parseScorePing :: "rat option \<Rightarrow> (rat \<times> rat) option \<Rightarrow> EndpointScore" where
  "parseScorePing loss rtt =
     (let l = (case loss of Some x \<Rightarrow> x | None \<Rightarrow> 100);
          r = (case rtt of Some (a, _) \<Rightarrow> a | None \<Rightarrow> 0);
          j = (case rtt of Some (_, d) \<Rightarrow> d | None \<Rightarrow> 0) in
      \<lparr>Addr = [], RTTms = r, JitterMs = j, LossPct = l, Score = computeScore r j l,
       Reachable = (rtt \<noteq> None)\<rparr>)"

type_synonym pinger = "string \<Rightarrow> rat option \<times> (rat \<times> rat) option"

definition ScoreEndpoint :: "pinger \<Rightarrow> string \<Rightarrow> EndpointScore" where
  "ScoreEndpoint ping addr =
     (let s = (case ping (hostOf addr) of (loss, rtt) \<Rightarrow> parseScorePing loss rtt)\<lparr>Addr := addr\<rparr> in
      if \<not> Reachable s then s\<lparr>Score := 1000000000\<rparr> else s)"

definition ScoreEndpoints :: "pinger \<Rightarrow> string list \<Rightarrow> EndpointScore list" where
  "ScoreEndpoints ping addrs = sort_key Score (map (ScoreEndpoint ping) addrs)"

definition EnableHealthSteering :: "endpoints \<Rightarrow> endpoints" where
  "EnableHealthSteering e =
     (if Len e \<le> 1 then e else e\<lparr>ep_spread := False, preferred := ep_idx e, steer := True\<rparr>)"

text \<open>The loop of \<open>steerLoop\<close> keeps a challenger and how many checks in a row it has won; \<^const>\<open>None\<close> is
  the \<open>-1\<close> of the source.\<close>

record steer_state =
  challenger :: "nat option"
  streak :: nat

definition no_challenger :: steer_state where
  "no_challenger = \<lparr>challenger = None, streak = 0\<rparr>"

fun best_from :: "EndpointScore list \<Rightarrow> nat \<Rightarrow> nat option \<Rightarrow> EndpointScore list \<Rightarrow> nat option" where
  "best_from all i best [] = best"
| "best_from all i best (s # ss) =
     best_from all (Suc i)
       (if Reachable s \<and> (case best of None \<Rightarrow> True | Some b \<Rightarrow> Score s < Score (all ! b)) then Some i else best)
       ss"

definition best_of :: "EndpointScore list \<Rightarrow> nat option" where
  "best_of scores = best_from scores 0 None scores"

definition clearlyBetter :: "EndpointScore list \<Rightarrow> nat \<Rightarrow> nat \<Rightarrow> bool" where
  "clearlyBetter scores best cur = (Score (scores ! best) \<le> 85 / 100 * Score (scores ! cur))"

definition steer_tick ::
    "EndpointScore list \<Rightarrow> endpoints \<times> steer_state \<Rightarrow> endpoints \<times> steer_state" where
  "steer_tick scores = (\<lambda>(e, st).
     case best_of scores of
       None \<Rightarrow> (e, st)
     | Some best \<Rightarrow>
         (let cur = nat (clampIdx e (preferred e)) in
          if best = cur then (e, no_challenger)
          else
            (let curDead = (\<not> Reachable (scores ! cur)) in
             if \<not> curDead \<and> \<not> clearlyBetter scores best cur then (e, no_challenger)
             else
               (let st = (if challenger st = Some best then st\<lparr>streak := Suc (streak st)\<rparr>
                          else \<lparr>challenger = Some best, streak = 1\<rparr>) in
                if curDead \<or> 3 \<le> streak st then (e\<lparr>preferred := int best\<rparr>, no_challenger)
                else (e, st)))))"

section \<open>Reconnect pacing: \<open>backoff.go\<close>\<close>

record backoff =
  bo_min :: int
  bo_max :: int
  bo_attempt :: nat

definition newBackoff :: "int \<Rightarrow> backoff" where
  "newBackoff interval =
     (let interval = (if interval \<le> 0 then 1000000000 else interval);
          mx = 30 * 1000000000;
          mx = (if interval > mx then interval else mx) in
      \<lparr>bo_min = interval, bo_max = mx, bo_attempt = 0\<rparr>)"

text \<open>\<open>rnd\<close> is the draw of \<open>rand.Float64\<close>.\<close>

definition bo_duration :: "backoff \<Rightarrow> rat \<Rightarrow> int" where
  "bo_duration b rnd =
     (let d = of_int (bo_min b) * 2 ^ bo_attempt b;
          d = (if d > of_int (bo_max b) then of_int (bo_max b) else d);
          d = d + d * (2 / 10) * (rnd * 2 - 1);
          d = (if d < of_int (bo_min b) then of_int (bo_min b) else d) in
      \<lfloor>d\<rfloor>)"

definition bo_Wait :: "rat \<Rightarrow> backoff \<Rightarrow> int \<times> backoff" where
  "bo_Wait rnd b = (bo_duration b rnd, b\<lparr>bo_attempt := Suc (bo_attempt b)\<rparr>)"

section \<open>Rotation and spreading\<close>

lemma mod_window: "0 < n \<Longrightarrow> (\<lambda>k. (i + k) mod n) ` {..<n} = {..<n :: nat}"
proof (rule card_subset_eq)
  assume n: "0 < n"
  show "(\<lambda>k. (i + k) mod n) ` {..<n} \<subseteq> {..<n}" using n by auto
  have "inj_on (\<lambda>k. (i + k) mod n) {..<n}"
  proof (rule inj_onI)
    fix x y assume xy: "x \<in> {..<n}" "y \<in> {..<n}" "(i + x) mod n = (i + y) mod n"
    then have "int (i + x) mod int n = int (i + y) mod int n" by (metis zmod_int)
    then have "int n dvd int (i + x) - int (i + y)" by (simp add: mod_eq_dvd_iff)
    then have "int n dvd int x - int y" by simp
    moreover have "\<bar>int x - int y\<bar> < int n" using xy by auto
    ultimately show "x = y" using dvd_imp_le_int [of "int x - int y" "int n"] by fastforce
  qed
  then show "card ((\<lambda>k. (i + k) mod n) ` {..<n}) = card {..<n}" by (rule card_image)
qed simp

lemma add_endpoints_props:
  assumes "distinct l" "[] \<notin> set l"
  shows "distinct (foldl add_endpoint l as) \<and> [] \<notin> set (foldl add_endpoint l as) \<and>
    set (foldl add_endpoint l as) = set l \<union> (TrimSpace ` set as - {[]})"
  using assms
proof (induction as arbitrary: l)
  case (Cons a as)
  have "distinct (add_endpoint l a)" "[] \<notin> set (add_endpoint l a)"
    "set (add_endpoint l a) = set l \<union> ({TrimSpace a} - {[]})"
    using Cons.prems by (auto simp: add_endpoint_def Let_def)
  then show ?case using Cons.IH [of "add_endpoint l a"] by auto
qed auto

lemma NewEndpoints_props:
  "distinct (ep_list (NewEndpoints p fs))"
  "set (ep_list (NewEndpoints p fs)) = TrimSpace ` set (p # fs) - {[]}"
  using add_endpoints_props [of "[]" "p # fs"] by (auto simp: NewEndpoints_def)

text \<open>A cursor inside the range of a counter.\<close>

definition unsteered_at :: "endpoints \<Rightarrow> nat \<Rightarrow> bool" where
  "unsteered_at e i = (\<not> steer e \<and> ep_idx e = int i \<and> i < 2 ^ 62)"

lemma Current_at:
  assumes "unsteered_at e i" "ep_list e \<noteq> []"
  shows "Current e = Some (ep_list e ! (i mod Len e))"
  using assms
  by (simp add: unsteered_at_def Current_def go_rem_nonneg go_index_def zmod_int [symmetric])

lemma Rotate_pow:
  assumes "unsteered_at e i" "i + k < 2 ^ 62" "1 < Len e"
  shows "(Rotate ^^ k) e = e\<lparr>ep_idx := int (i + k)\<rparr>"
  using assms(2)
proof (induction k)
  case (Suc k)
  have "wrap64 (int (i + k) + 1) = int (i + k) + 1" using Suc.prems by (intro wrap64_id) auto
  then show ?case using Suc assms by (simp add: unsteered_at_def Rotate_def ac_simps)
qed (use assms in \<open>simp add: unsteered_at_def\<close>)

lemma rotation_covers:
  assumes "unsteered_at e i" "i + Len e < 2 ^ 62" "ep_list e \<noteq> []"
  shows "(\<lambda>k. Current ((Rotate ^^ k) e)) ` {..<Len e} = Some ` set (ep_list e)"
proof (cases "Len e = 1")
  case True
  then show ?thesis using Current_at [OF assms(1,3)] assms(3) by (cases "ep_list e") auto
next
  case False
  then have n: "1 < Len e" using assms(3) by (cases "ep_list e") auto
  have "Current ((Rotate ^^ k) e) = Some (ep_list e ! ((i + k) mod Len e))" if "k < Len e" for k
    using Rotate_pow [OF assms(1) _ n, of k] Current_at [of "e\<lparr>ep_idx := int (i + k)\<rparr>" "i + k"] that assms
    by (simp add: unsteered_at_def)
  then have "(\<lambda>k. Current ((Rotate ^^ k) e)) ` {..<Len e}
      = (\<lambda>j. Some (ep_list e ! j)) ` (\<lambda>k. (i + k) mod Len e) ` {..<Len e}"
    by (simp add: image_image cong: image_cong_simp)
  also have "\<dots> = (\<lambda>j. Some (ep_list e ! j)) ` {..<Len e}" using mod_window [OF order.strict_trans [OF zero_less_one n], of i] by simp
  also have "\<dots> = Some ` set (ep_list e)" by (auto simp: set_conv_nth)
  finally show ?thesis .
qed

text \<open>The addresses handed out by successive calls of \<open>Next\<close>.\<close>

fun next_seq :: "nat \<Rightarrow> endpoints \<Rightarrow> string option list \<times> endpoints" where
  "next_seq 0 e = ([], e)"
| "next_seq (Suc k) e =
     (case Next e of (a, e1) \<Rightarrow> (case next_seq k e1 of (as, e2) \<Rightarrow> (a # as, e2)))"

lemma next_seq_spread:
  assumes "\<not> steer e" "ep_spread e" "1 < Len e" "spreadIdx e = int j" "j + k < 2 ^ 62"
  shows "next_seq k e
    = (map (\<lambda>m. Some (ep_list e ! (m mod Len e))) [j..<j + k], e\<lparr>spreadIdx := int (j + k)\<rparr>)"
  using assms
proof (induction k arbitrary: e j)
  case (Suc k)
  have "wrap64 (int j + 1) = int (Suc j)" "wrap64 (int j) = int j"
    using Suc.prems by (auto intro!: trans [OF wrap64_id])
  then have "Next e = (Some (ep_list e ! (j mod Len e)), e\<lparr>spreadIdx := int (Suc j)\<rparr>)"
    using Suc.prems
    by (auto simp: Next_def Let_def go_rem_nonneg go_index_def zmod_int [symmetric])
  then show ?case
    using Suc.IH [of "e\<lparr>spreadIdx := int (Suc j)\<rparr>" "Suc j"] Suc.prems by (simp add: upt_rec)
qed simp

text \<open>(C20) Fail-over reaches every configured address.  From any point of its life, a client that rotates
  after each failed dial has tried every distinct non-blank address after as many attempts as there
  are addresses; and with spreading on, each round of pool connections is opened over the addresses
  in order, each used once, without moving the endpoint the control channel is pinned to.\<close>

theorem failover_visits_every_endpoint:
  fixes primary fallbacks j
  defines "e \<equiv> (Rotate ^^ j) (NewEndpoints primary fallbacks)"
  assumes "j + Suc (length fallbacks) < 2 ^ 62" "\<exists>a \<in> set (primary # fallbacks). TrimSpace a \<noteq> []"
  shows "(\<lambda>k. Current ((Rotate ^^ k) e)) ` {..<Len e} = Some ` (TrimSpace ` set (primary # fallbacks) - {[]}) \<and>
    (let r = next_seq (Len e) (SetSpread e True) in
     fst r = map Some (ep_list e) \<and> Current (snd r) = Current e)"
proof -
  let ?n = "NewEndpoints primary fallbacks"
  have un: "unsteered_at ?n 0" "spreadIdx ?n = 0" by (auto simp: unsteered_at_def NewEndpoints_def)
  obtain a where "a \<in> set (primary # fallbacks)" "TrimSpace a \<noteq> []" using assms(3) by blast
  then have "TrimSpace a \<in> set (ep_list ?n)" unfolding NewEndpoints_props(2) by blast
  then have ne: "ep_list ?n \<noteq> []" by (metis list.set_cases list.distinct(1))
  have len: "Len ?n \<le> Suc (length fallbacks)"
  proof -
    have "Len ?n = card (TrimSpace ` set (primary # fallbacks) - {[]})"
      by (simp only: NewEndpoints_props(2) [symmetric] distinct_card [OF NewEndpoints_props(1)])
    also have "\<dots> \<le> card (set (primary # fallbacks))"
      by (rule order_trans [OF card_mono card_image_le]) auto
    also have "\<dots> \<le> Suc (length fallbacks)" using card_length [of "primary # fallbacks"] by simp
    finally show ?thesis .
  qed
  obtain i where e: "unsteered_at e i" "i + Len e < 2 ^ 62" "ep_list e = ep_list ?n" "spreadIdx e = 0"
  proof (cases "1 < Len ?n")
    case True
    then have "e = ?n\<lparr>ep_idx := int (0 + j)\<rparr>"
      unfolding e_def using assms(2) by (intro Rotate_pow [OF un(1)]) auto
    then show ?thesis using that [of j] un assms(2) len by (simp add: unsteered_at_def)
  next
    case False
    then have "Rotate ?n = ?n" by (simp add: Rotate_def)
    then have "e = ?n" unfolding e_def by (induction j) auto
    then show ?thesis using that [of 0] un assms(2) len by (simp add: unsteered_at_def)
  qed
  have cover: "(\<lambda>k. Current ((Rotate ^^ k) e)) ` {..<Len e}
      = Some ` (TrimSpace ` set (primary # fallbacks) - {[]})"
    using rotation_covers [OF e(1,2)] ne unfolding e(3) NewEndpoints_props(2) by blast
  have spread: "fst (next_seq (Len e) (SetSpread e True)) = map Some (ep_list e) \<and>
      Current (snd (next_seq (Len e) (SetSpread e True))) = Current e"
  proof (cases "1 < Len e")
    case True
    have "next_seq (Len e) (SetSpread e True)
      = (map (\<lambda>m. Some (ep_list e ! (m mod Len e))) [0..<Len e], e\<lparr>ep_spread := True, spreadIdx := int (Len e)\<rparr>)"
      using next_seq_spread [of "SetSpread e True" 0 "Len e"] True e by (simp add: SetSpread_def unsteered_at_def)
    moreover have "map (\<lambda>m. Some (ep_list e ! (m mod Len e))) [0..<Len e] = map Some (ep_list e)"
      by (rule nth_equalityI) simp_all
    ultimately show ?thesis by (simp add: Current_def clampIdx_def Let_def)
  next
    case False
    moreover have "0 < Len e" using ne e(3) by (simp only: length_greater_0_conv not_False_eq_True)
    ultimately have "Len e = 1" by linarith
    then obtain a where "ep_list e = [a]" by (cases "ep_list e") auto
    then show ?thesis
      using Current_at [OF e(1)] e(1) by (simp add: SetSpread_def Next_def Current_def unsteered_at_def)
  qed
  show ?thesis using cover spread by (simp add: Let_def)
qed

theorem failover_visits_every_endpoint_witness:
  "(\<lambda>k. Current ((Rotate ^^ k) ((Rotate ^^ 4) (NewEndpoints ''a:1'' [''b:1'', '''', ''a:1''])))) ` {..<2}
     = {Some ''a:1'', Some ''b:1''}"
proof -
  let ?e = "NewEndpoints ''a:1'' [''b:1'', [], ''a:1'']"
  have len: "Len ((Rotate ^^ k) e) = Len e" for k and e
    by (induction k) (auto simp: Rotate_def)
  have "Len ?e = 2" by (simp add: NewEndpoints_def add_endpoint_def TrimSpace_def is_space_def Let_def)
  with failover_visits_every_endpoint [of 4 "[''b:1'', [], ''a:1'']" "''a:1''"] show ?thesis
    by (simp add: len TrimSpace_def is_space_def insert_commute)
qed

section \<open>Steering\<close>

definition best_ok :: "EndpointScore list \<Rightarrow> nat \<Rightarrow> nat option \<Rightarrow> bool" where
  "best_ok all i best =
     (case best of
        None \<Rightarrow> \<forall>k < i. \<not> Reachable (all ! k)
      | Some b \<Rightarrow> b < i \<and> Reachable (all ! b) \<and>
          (\<forall>k < i. Reachable (all ! k) \<longrightarrow> Score (all ! b) \<le> Score (all ! k)))"

lemma best_from_ok:
  "best_ok all i best \<Longrightarrow> drop i all = ss \<Longrightarrow> i \<le> length all \<Longrightarrow> best_ok all (length all) (best_from all i best ss)"
proof (induction ss arbitrary: i best)
  case (Cons s ss)
  have s: "all ! i = s" "i < length all" "drop (Suc i) all = ss"
    using Cons.prems by (metis nth_via_drop, metis drop_all linorder_not_less list.distinct(1),
        metis drop_Suc tl_drop list.sel(3))
  have "best_ok all (Suc i)
     (if Reachable s \<and> (case best of None \<Rightarrow> True | Some b \<Rightarrow> Score s < Score (all ! b)) then Some i else best)"
    using Cons.prems(1) s(1) by (fastforce simp: best_ok_def less_Suc_eq split: option.splits)
  then show ?case using Cons.IH s by simp
qed simp

lemma best_of_ok: "best_ok scores (length scores) (best_of scores)"
  unfolding best_of_def by (rule best_from_ok) (auto simp: best_ok_def)

text \<open>What happens to a steered list: the checks of the loop, and \<open>Rotate\<close> from a failed dial.  The trace
  holds, latest first, what each check measured and which endpoint was preferred at the time.\<close>

datatype steer_event = Check "EndpointScore list" | DialFailure

type_synonym steer_trace = "(EndpointScore list \<times> nat) list"

definition current_index :: "endpoints \<Rightarrow> nat" where
  "current_index e = nat (clampIdx e (preferred e))"

fun steer_event_step :: "steer_event \<Rightarrow> endpoints \<times> steer_state \<times> steer_trace \<Rightarrow> endpoints \<times> steer_state \<times> steer_trace" where
  "steer_event_step (Check sc) (e, st, tr) =
     (case steer_tick sc (e, st) of (e', st') \<Rightarrow> (e', st', (sc, current_index e) # tr))"
| "steer_event_step DialFailure (e, st, tr) = (Rotate e, st, tr)"

definition answered :: "steer_trace \<Rightarrow> steer_trace" where
  "answered tr = filter (\<lambda>(sc, _). best_of sc \<noteq> None) tr"

definition beaten_by :: "nat \<Rightarrow> EndpointScore list \<times> nat \<Rightarrow> bool" where
  "beaten_by b = (\<lambda>(sc, cur). best_of sc = Some b \<and> b \<noteq> cur \<and> clearlyBetter sc b cur)"

definition streak_inv :: "steer_state \<Rightarrow> steer_trace \<Rightarrow> bool" where
  "streak_inv st tr =
     (case challenger st of
        None \<Rightarrow> True
      | Some b \<Rightarrow> streak st \<le> length (answered tr) \<and> list_all (beaten_by b) (take (streak st) (answered tr)))"

lemma steer_tick_streak:
  assumes "streak_inv st tr" "steer_tick sc (e, st) = (e', st')"
  shows "streak_inv st' ((sc, current_index e) # tr)"
proof (cases "best_of sc")
  case None
  then have "st' = st" "answered ((sc, current_index e) # tr) = answered tr"
    using assms(2) by (auto simp: steer_tick_def answered_def)
  then show ?thesis using assms(1) by (simp add: streak_inv_def split: option.splits)
next
  case (Some b)
  then show ?thesis
    using assms
    by (auto simp: steer_tick_def streak_inv_def answered_def no_challenger_def Let_def beaten_by_def
        current_index_def split: if_splits option.splits)
qed

lemma streak_inv_run:
  "fold steer_event_step es (e0, no_challenger, []) = (e, st, tr) \<Longrightarrow> streak_inv st tr"
proof (induction es arbitrary: e st tr rule: rev_induct)
  case (snoc ev es)
  obtain e1 st1 tr1 where 1: "fold steer_event_step es (e0, no_challenger, []) = (e1, st1, tr1)"
    by (metis prod_cases3)
  then have "steer_event_step ev (e1, st1, tr1) = (e, st, tr)" using snoc.prems by simp
  then show ?case
    using snoc.IH [OF 1] steer_tick_streak by (cases ev) (auto split: prod.splits)
qed (simp add: streak_inv_def no_challenger_def)

text \<open>(C15) Steering is stable and prompt.  Whatever checks and failed dials came before, a check moves the
  preferred exit only to a reachable one with the lowest score of all reachable ones; if the exit in
  use still answers, the newcomer has been the best and at least 15 percent better than the exit in
  use in each of the last three checks that got any answer; and if the exit in use does not answer
  while another does, the check moves at once.\<close>

theorem steering_hysteresis:
  assumes run: "fold steer_event_step es (e0, no_challenger, []) = (e, st, tr)"
    and tick: "steer_tick sc (e, st) = (e', st')"
    and cur: "current_index e < length sc"
  shows "(preferred e' \<noteq> preferred e \<longrightarrow>
      (\<exists>b < length sc. preferred e' = int b \<and> Reachable (sc ! b) \<and>
         (\<forall>k < length sc. Reachable (sc ! k) \<longrightarrow> Score (sc ! b) \<le> Score (sc ! k)) \<and>
         (Reachable (sc ! current_index e) \<longrightarrow>
            2 \<le> length (answered tr) \<and> list_all (beaten_by b) ((sc, current_index e) # take 2 (answered tr))))) \<and>
    (\<not> Reachable (sc ! current_index e) \<and> (\<exists>s \<in> set sc. Reachable s) \<longrightarrow>
      (\<exists>b < length sc. preferred e' = int b \<and> Reachable (sc ! b)))"
proof (cases "best_of sc")
  case None
  then show ?thesis
    using tick best_of_ok [of sc] by (auto simp: steer_tick_def best_ok_def in_set_conv_nth)
next
  case (Some b)
  have b: "b < length sc" "Reachable (sc ! b)"
    "\<forall>k < length sc. Reachable (sc ! k) \<longrightarrow> Score (sc ! b) \<le> Score (sc ! k)"
    using best_of_ok [of sc] Some by (auto simp: best_ok_def)
  have inv: "streak_inv st tr" by (rule streak_inv_run [OF run])
  have moved: "preferred e' = preferred e \<or> (preferred e' = int b \<and> b \<noteq> current_index e \<and>
      (Reachable (sc ! current_index e) \<longrightarrow> clearlyBetter sc b (current_index e) \<and>
         challenger st = Some b \<and> 2 \<le> streak st))"
    using tick Some
    by (auto simp: steer_tick_def Let_def current_index_def [symmetric] split: if_splits)
  have "list_all (beaten_by b) ((sc, current_index e) # take 2 (answered tr)) \<and> 2 \<le> length (answered tr)"
    if "b \<noteq> current_index e" "clearlyBetter sc b (current_index e)" "challenger st = Some b" "2 \<le> streak st"
  proof -
    have "list_all (beaten_by b) (take (streak st) (answered tr))" "streak st \<le> length (answered tr)"
      using inv that(3) by (auto simp: streak_inv_def)
    moreover have "take 2 (answered tr) = take 2 (take (streak st) (answered tr))" using that(4) by simp
    ultimately have "list_all (beaten_by b) (take 2 (answered tr))"
      by (metis list_all_iff in_set_takeD)
    then show ?thesis using that \<open>streak st \<le> _\<close> Some by (simp add: beaten_by_def)
  qed
  moreover have "preferred e' = int b" if "\<not> Reachable (sc ! current_index e)"
    using tick Some b(2) that
    by (auto simp: steer_tick_def Let_def current_index_def [symmetric] split: if_splits)
  ultimately show ?thesis using moved b by blast
qed

definition example_scores :: "rat \<Rightarrow> rat \<Rightarrow> EndpointScore list" where
  "example_scores a b = map (\<lambda>s. (parseScorePing (Some 0) (Some (s, 0)))) [a, b]"

theorem steering_hysteresis_witness:
  "\<exists>e st tr e' st'.
     fold steer_event_step (replicate 2 (Check (example_scores 100 50)))
       (EnableHealthSteering (NewEndpoints ''a:1'' [''b:1'']), no_challenger, []) = (e, st, tr) \<and>
     steer_tick (example_scores 100 50) (e, st) = (e', st') \<and> preferred e = 0 \<and> preferred e' = 1 \<and>
     list_all (beaten_by 1) (answered tr)"
proof -
  let ?e = "EnableHealthSteering (NewEndpoints ''a:1'' [''b:1''])"
  have ls: "ep_list ?e = [''a:1'', ''b:1'']" "preferred ?e = 0" "clampIdx ?e 0 = 0"
    by (simp_all add: NewEndpoints_def add_endpoint_def TrimSpace_def is_space_def Let_def
        EnableHealthSteering_def clampIdx_def go_rem_def)
  have best: "best_of (example_scores 100 50) = Some 1" "clearlyBetter (example_scores 100 50) 1 0"
    "Reachable (example_scores 100 50 ! 0)" "length (example_scores 100 50) = 2"
    by (simp_all add: best_of_def example_scores_def parseScorePing_def computeScore_def clearlyBetter_def Let_def)
  obtain st tr where run: "fold steer_event_step (replicate 2 (Check (example_scores 100 50))) (?e, no_challenger, [])
      = (?e, st, tr)" "st = \<lparr>challenger = Some 1, streak = 2\<rparr>"
    "tr = replicate 2 (example_scores 100 50, 0)"
    using best ls by (simp add: numeral_2_eq_2 steer_tick_def Let_def no_challenger_def current_index_def)
  have tick: "steer_tick (example_scores 100 50) (?e, st) = (?e\<lparr>preferred := 1\<rparr>, no_challenger)"
    using best ls run(2) by (simp add: steer_tick_def Let_def)
  have "current_index ?e = 0" using ls by (simp add: current_index_def)
  then have "list_all (beaten_by 1) (take 2 (answered tr))"
    using steering_hysteresis [OF run(1) tick] ls best by (auto simp: less_2_cases_iff)
  moreover have "length (answered tr) \<le> 2"
    using run(3) length_filter_le [of _ tr] by (simp only: answered_def length_replicate)
  ultimately show ?thesis using run(1) tick ls by (intro exI conjI) auto
qed

section \<open>Back-off\<close>

lemma backoff_after:
  "((snd \<circ> bo_Wait rnd) ^^ k) b = b\<lparr>bo_attempt := bo_attempt b + k\<rparr>"
  by (induction k) (simp_all add: bo_Wait_def)

text \<open>Reconnects are paced.  The wait before attempt \<open>k\<close> is at least the configured interval (one
  second when that is not positive), within 20 percent of the interval doubled \<open>k\<close> times and capped
  at 30 seconds or the interval, whichever is longer; so it never exceeds 1.2 times that cap.\<close>

theorem backoff_bounds:
  fixes interval and k and rnd :: rat
  defines "b \<equiv> ((snd \<circ> bo_Wait rnd) ^^ k) (newBackoff interval)"
  defines "D \<equiv> min (bo_max b) (bo_min b * 2 ^ k)"
  assumes "0 \<le> rnd" "rnd < 1"
  shows "bo_min b = (if interval \<le> 0 then 1000000000 else interval) \<and>
    bo_max b = max 30000000000 (bo_min b) \<and>
    bo_min b \<le> fst (bo_Wait rnd b) \<and>
    8 * D < 10 * (fst (bo_Wait rnd b) + 1) \<and> 10 * fst (bo_Wait rnd b) \<le> 12 * D"
proof -
  have b: "bo_min b = (if interval \<le> 0 then 1000000000 else interval)"
    "bo_max b = max 30000000000 (bo_min b)" "bo_attempt b = k"
    unfolding b_def backoff_after by (simp_all add: newBackoff_def Let_def)
  have pos: "0 < bo_min b" "bo_min b \<le> bo_max b" using b by (auto split: if_splits)
  have D: "bo_min b \<le> D"
    using pos mult_mono [of "bo_min b" "bo_min b" 1 "2 ^ k"] by (simp add: D_def)
  define x :: rat where "x = of_int D + of_int D * (2 / 10) * (rnd * 2 - 1)"
  define y where "y = (if x < of_int (bo_min b) then of_int (bo_min b) else x)"
  have cap: "(if of_int (bo_min b) * 2 ^ k > (of_int (bo_max b) :: rat) then of_int (bo_max b)
      else of_int (bo_min b) * 2 ^ k) = of_int D"
  proof -
    have "of_int (bo_min b) * 2 ^ k = (of_int (bo_min b * 2 ^ k) :: rat)" by simp
    then show ?thesis unfolding D_def by (simp only: of_int_less_iff min_def split: if_split) auto
  qed
  have w: "fst (bo_Wait rnd b) = \<lfloor>y\<rfloor>"
    unfolding bo_Wait_def bo_duration_def y_def x_def Let_def b(3) fst_conv cap ..
  have d0: "0 \<le> (of_int D :: rat)" using D pos by simp
  have r: "- 1 \<le> rnd * 2 - 1" "rnd * 2 - 1 \<le> 1" using assms by auto
  have "of_int D * (rnd * 2 - 1) \<le> of_int D * 1" "of_int D * (- 1) \<le> of_int D * (rnd * 2 - 1)"
    using mult_left_mono [OF r(2) d0] mult_left_mono [OF r(1) d0] by auto
  moreover have x10: "10 * x = 10 * of_int D + 2 * (of_int D * (rnd * 2 - 1))"
    by (simp add: x_def field_simps)
  ultimately have x: "8 * of_int D \<le> 10 * x" "10 * x \<le> 12 * of_int D" using x10 by linarith+
  have y: "8 * of_int D \<le> 10 * y" "10 * y \<le> 12 * of_int D" "of_int (bo_min b) \<le> y"
    using x D pos unfolding y_def by (auto simp: not_less)
  have "bo_min b \<le> \<lfloor>y\<rfloor>" using y(3) by (simp add: le_floor_iff)
  moreover have "8 * D < 10 * (\<lfloor>y\<rfloor> + 1)"
  proof -
    have "10 * y < 10 * of_int (\<lfloor>y\<rfloor> + 1)" by (simp only: mult_less_cancel_left_pos zero_less_numeral) linarith
    then have "rat_of_int (8 * D) < of_int (10 * (\<lfloor>y\<rfloor> + 1))" using le_less_trans [OF y(1)] by simp
    then show ?thesis by (simp only: of_int_less_iff)
  qed
  moreover have "10 * \<lfloor>y\<rfloor> \<le> 12 * D"
  proof -
    have "10 * of_int \<lfloor>y\<rfloor> \<le> 10 * y" by simp
    then have "rat_of_int (10 * \<lfloor>y\<rfloor>) \<le> of_int (12 * D)" using order_trans [OF _ y(2)] by simp
    then show ?thesis by (simp only: of_int_le_iff)
  qed
  ultimately show ?thesis using b w by simp
qed

theorem backoff_bounds_witness:
  "bo_min (newBackoff 0) = 1000000000 \<and> 1000000000 \<le> fst (bo_Wait (1 / 2) (newBackoff 0))"
  using backoff_bounds [of "1 / 2" 0 0] by auto


end
