(* ===== verification/Handshake.thy ===== *)
theory Handshake
  imports Wire_Framing Failover
begin

text \<open>
  The control handshake.  The wire values and their codecs come from \<open>internal/utils/signals.go\<close>,
  \<open>internal/utils/network/poolnonce.go\<close>, \<open>mux.go\<close>, \<open>internal/server/transport/announce.go\<close> and
  \<open>internal/client/transport/handshake.go\<close>; the client's side of one attempt is
  \<open>channelDialer\<close> of \<open>internal/client/transport/tcp.go\<close>.  The server's admission of connections,
  which is concurrent, is in the theory \<open>Admission\<close>.

  Tokens and nonces are byte strings: a token is arbitrary user input.
\<close>

section \<open>Signals\<close>

definition SG_HB :: byte where "SG_HB = 0"
definition SG_Chan :: byte where "SG_Chan = 1"
definition SG_Ping :: byte where "SG_Ping = 2"
definition SG_Closed :: byte where "SG_Closed = 3"
definition SG_TCP :: byte where "SG_TCP = 4"
definition SG_UDP :: byte where "SG_UDP = 5"
definition SG_RTT :: byte where "SG_RTT = 6"
definition SG_ChanV2 :: byte where "SG_ChanV2 = 7"
definition SG_Pool :: byte where "SG_Pool = 8"

lemmas signal_defs = SG_HB_def SG_Chan_def SG_Ping_def SG_Closed_def SG_TCP_def SG_UDP_def SG_RTT_def
  SG_ChanV2_def SG_Pool_def

section \<open>The pool nonce: \<open>poolnonce.go\<close>\<close>

definition poolNonceHexLen :: nat where
  "poolNonceHexLen = 64"

text \<open>\<open>hex.EncodeToString\<close>, on which \<open>NewPoolNonce\<close> ends; its argument is the 32 random bytes.\<close>

definition hex_digit :: "nat \<Rightarrow> byte" where
  "hex_digit n = word_of_nat (if n < 10 then 48 + n else 87 + n)"

definition hex_encode :: "bytes \<Rightarrow> bytes" where
  "hex_encode b = concat (map (\<lambda>x. [hex_digit (unat x div 16), hex_digit (unat x mod 16)]) b)"

definition NewPoolNonce :: "bytes \<Rightarrow> bytes" where
  "NewPoolNonce random = hex_encode random"

text \<open>\<open>string(rune('0'+muxVersion))\<close> for the single-digit versions is one byte.\<close>

definition EncodeControlAck :: "bytes \<Rightarrow> bytes \<Rightarrow> nat \<Rightarrow> bytes" where
  "EncodeControlAck token nonce muxVersion = nonce @ [word_of_nat (48 + muxVersion)] @ token"

definition DecodeControlAck :: "bytes \<Rightarrow> bytes \<times> bytes \<times> nat" where
  "DecodeControlAck ack =
     (if length ack < poolNonceHexLen + 1 then ([], [], 0)
      else let v = unat (ack ! poolNonceHexLen - 48) in
        if v > 9 then ([], [], 0)
        else (drop (poolNonceHexLen + 1) ack, take poolNonceHexLen ack, v))"

text \<open>The holder: \<open>Set\<close>, \<open>Get\<close> and \<open>Clear\<close> are assignments to a field; \<open>Verify\<close> refuses while it is empty.\<close>

definition nonce_Verify :: "bytes \<Rightarrow> bytes \<Rightarrow> bool" where
  "nonce_Verify want got = (if want = [] then False else got = want)"

section \<open>Mux versions: \<open>mux.go\<close>\<close>

definition ResolveMuxVersion :: "int \<Rightarrow> int" where
  "ResolveMuxVersion configured = (if configured = 1 \<or> configured = 2 then configured else 2)"

definition ResolveStaticMuxVersion :: "int \<Rightarrow> int" where
  "ResolveStaticMuxVersion configured = (if configured = 1 \<or> configured = 2 then configured else 1)"

section \<open>Announcements and answers: \<open>announce.go\<close>\<close>

record announcement =
  ann_signal :: byte
  ann_payload :: bytes

definition readAnnouncement :: "bytes \<Rightarrow> wire_error + announcement" where
  "readAnnouncement stream =
     (case ReceiveBinaryTransportString NetConn stream of
        Inl e \<Rightarrow> Inl e
      | Inr ((payload, signal), rest) \<Rightarrow> Inr \<lparr>ann_signal = signal, ann_payload = payload\<rparr>)"

definition isControlSignal :: "byte \<Rightarrow> bool" where
  "isControlSignal sig = (sig = SG_Chan \<or> sig = SG_ChanV2)"

definition tokenMatches :: "bytes \<Rightarrow> bytes \<Rightarrow> bool" where
  "tokenMatches got want = (got = want)"

text \<open>\<open>controlAck\<close>: the answer, the nonce and the promised version.  The random bytes are an argument;
  a failing random source is \<^const>\<open>None\<close>.\<close>

definition controlAck :: "byte \<Rightarrow> bytes \<Rightarrow> nat \<Rightarrow> bytes option \<Rightarrow> (bytes \<times> bytes \<times> nat) option" where
  "controlAck sig token muxVersion random =
     (if sig \<noteq> SG_ChanV2 then Some (token, [], 0)
      else case random of
          None \<Rightarrow> None
        | Some r \<Rightarrow>
            (let nonce = NewPoolNonce r in
             Some (EncodeControlAck token nonce muxVersion, nonce, muxVersion)))"

section \<open>The client: \<open>handshake.go\<close> and \<open>channelDialer\<close>\<close>

definition controlSignal :: "bool \<Rightarrow> byte" where
  "controlSignal legacy = (if legacy then SG_Chan else SG_ChanV2)"

definition noteLegacyServer :: "bool \<Rightarrow> byte \<Rightarrow> bool" where
  "noteLegacyServer legacy sent = (if sent \<noteq> SG_ChanV2 then legacy else True)"

definition decodeControlAck :: "bytes \<Rightarrow> byte \<Rightarrow> bytes \<times> bytes \<times> nat" where
  "decodeControlAck ack signal =
     (if signal \<noteq> SG_ChanV2 then (ack, [], 0) else DecodeControlAck ack)"

definition announcePoolConn :: "bytes \<Rightarrow> wire_error + bytes" where
  "announcePoolConn nonce =
     (if nonce = [] then Inr [] else SendBinaryTransportString NetConn nonce SG_Pool)"

text \<open>A Go error and what \<open>err.(net.Error)\<close> sees of it: the assertion looks at the dynamic type of the
  outermost value, and an error made by \<open>fmt.Errorf\<close> with \<open>%w\<close> is not a \<open>net.Error\<close>.\<close>

datatype go_error = NetError bool | PlainError | Errorf go_error

definition asserts_timeout :: "go_error \<Rightarrow> bool" where
  "asserts_timeout e = (case e of NetError timeout \<Rightarrow> timeout | _ \<Rightarrow> False)"

text \<open>What the read of the answer returns: \<open>ReceiveBinaryTransportString\<close> hands up every read error
  through \<open>fmt.Errorf\<close>.\<close>

definition receive_answer :: "go_error + bytes \<Rightarrow> go_error + (bytes \<times> byte)" where
  "receive_answer r =
     (case r of
        Inl e \<Rightarrow> Inl (Errorf e)
      | Inr s \<Rightarrow>
          (case ReceiveBinaryTransportString NetConn s of
             Inl _ \<Rightarrow> Inl (Errorf PlainError)
           | Inr (x, _) \<Rightarrow> Inr x))"

record tcp_client =
  cl_token :: bytes
  cl_legacy :: bool
  cl_nonce :: bytes
  cl_connected :: bool
  cl_endpoints :: endpoints

text \<open>How far an attempt got: the dial (after which the client moves to its next endpoint), the stealth handshake, the send or the deadline failed, or an
  answer was waited for and the socket returned an error or bytes.\<close>

datatype attempt = DialFailed | StealthFailed | SendFailed | DeadlineFailed | Answer "go_error + bytes"

definition dial_attempt :: "tcp_client \<Rightarrow> attempt \<Rightarrow> tcp_client" where
  "dial_attempt c a =
     (case a of
        Answer r \<Rightarrow>
          (let signal = controlSignal (cl_legacy c) in
           case receive_answer r of
             Inl e \<Rightarrow>
               (if asserts_timeout e then c
                else c\<lparr>cl_legacy := noteLegacyServer (cl_legacy c) signal\<rparr>)
           | Inr (message, ackSignal) \<Rightarrow>
               (case decodeControlAck message ackSignal of (token, nonce, v) \<Rightarrow>
                  if token = cl_token c then c\<lparr>cl_nonce := nonce, cl_connected := True\<rparr> else c))
      | DialFailed \<Rightarrow> c\<lparr>cl_endpoints := Rotate (cl_endpoints c)\<rparr>
      | _ \<Rightarrow> c)"

text \<open>What the client sends in an attempt that reaches the send.\<close>

definition claim_frame :: "tcp_client \<Rightarrow> bytes" where
  "claim_frame c = projr (SendBinaryTransportString NetConn (cl_token c) (controlSignal (cl_legacy c)))"

text \<open>The loop of \<open>channelDialer\<close> over the outcomes of successive attempts; it returns once connected.\<close>

fun channelDialer :: "tcp_client \<Rightarrow> attempt list \<Rightarrow> tcp_client" where
  "channelDialer c [] = c"
| "channelDialer c (a # as) =
     (let c' = dial_attempt c a in if cl_connected c' then c' else channelDialer c' as)"

section \<open>Round trips\<close>

lemma length_NewPoolNonce: "length r = 32 \<Longrightarrow> length (NewPoolNonce r) = 64"
proof -
  have "length (hex_encode r) = 2 * length r" for r
    by (induction r) (simp_all add: hex_encode_def)
  then show "length r = 32 \<Longrightarrow> ?thesis" by (simp add: NewPoolNonce_def)
qed

lemma Decode_Encode:
  assumes "length nonce = 64" "mv \<le> 9"
  shows "DecodeControlAck (EncodeControlAck token nonce mv) = (token, nonce, mv)"
proof -
  have "unat (word_of_nat (48 + mv) - 48 :: byte) = mv"
    using assms(2) by (simp add: unat_of_nat)
  then show ?thesis
    using assms by (simp add: DecodeControlAck_def EncodeControlAck_def poolNonceHexLen_def Let_def nth_append)
qed

lemma readAnnouncement_claim:
  "length (cl_token c) \<le> 65535 \<Longrightarrow>
    readAnnouncement (claim_frame c @ rest)
      = Inr \<lparr>ann_signal = controlSignal (cl_legacy c), ann_payload = cl_token c\<rparr>"
  using tstr.dec_enc [of "(cl_token c, controlSignal (cl_legacy c))" rest]
  by (simp add: readAnnouncement_def claim_frame_def SendBinaryTransportString_def)

text \<open>The control handshake agrees on everything it carries.  A client that has not fallen back
  claims the control channel; a server holding the same token (any bytes, short enough for the
  frame) reads that claim, answers with a fresh nonce and its mux version, and the client decodes
  exactly that nonce and connects; the connection it then opens for the pool is read by the server
  as a pool announcement that its nonce check accepts.  A server holding another token refuses the
  claim, and its answer would not be accepted by the client either.\<close>

theorem control_handshake_agrees:
  assumes tok: "length token \<le> 65470" "cl_token c = token" "\<not> cl_legacy c"
    and rnd: "length r = 32" and mv: "mv \<le> 9"
    and ack: "controlAck SG_ChanV2 stoken mv (Some r) = Some (ack, nonce, promised)"
    and st: "length stoken \<le> 65470"
  shows "readAnnouncement (claim_frame c) = Inr \<lparr>ann_signal = SG_ChanV2, ann_payload = token\<rparr> \<and>
    isControlSignal SG_ChanV2 \<and>
    (let c' = dial_attempt c (Answer (Inr (projr (SendBinaryTransportString NetConn ack SG_ChanV2))))
     in if tokenMatches token stoken
        then cl_connected c' \<and> cl_nonce c' = nonce \<and>
          (\<exists>f. announcePoolConn (cl_nonce c') = Inr f \<and>
             readAnnouncement f = Inr \<lparr>ann_signal = SG_Pool, ann_payload = nonce\<rparr> \<and> nonce_Verify nonce nonce)
        else c' = c)"
proof -
  have n: "nonce = NewPoolNonce r" "ack = EncodeControlAck stoken nonce mv" "length nonce = 64"
    using ack rnd by (auto simp: controlAck_def Let_def length_NewPoolNonce)
  have "length ack \<le> 65535" using n st by (simp add: EncodeControlAck_def)
  then have rcv: "receive_answer (Inr (projr (SendBinaryTransportString NetConn ack SG_ChanV2)))
      = Inr (ack, SG_ChanV2)"
    using tstr.dec_enc [of "(ack, SG_ChanV2)" "[]"]
    by (simp add: receive_answer_def SendBinaryTransportString_def)
  have dec: "decodeControlAck ack SG_ChanV2 = (stoken, nonce, mv)"
    using Decode_Encode [OF n(3) mv] n(2) by (simp add: decodeControlAck_def)
  have pool: "announcePoolConn nonce = Inr (transport_string_frame (nonce, SG_Pool))"
    "readAnnouncement (transport_string_frame (nonce, SG_Pool))
      = Inr \<lparr>ann_signal = SG_Pool, ann_payload = nonce\<rparr>" "nonce \<noteq> []"
    using n(3) tstr.dec_enc [of "(nonce, SG_Pool)" "[]"]
    by (auto simp: announcePoolConn_def SendBinaryTransportString_def readAnnouncement_def)
  have claim: "readAnnouncement (claim_frame c) = Inr \<lparr>ann_signal = SG_ChanV2, ann_payload = token\<rparr>"
    using readAnnouncement_claim [of c "[]"] tok by (simp add: controlSignal_def)
  show ?thesis
    using claim tok pool
    by (auto simp: isControlSignal_def tokenMatches_def dial_attempt_def rcv dec Let_def nonce_Verify_def)
qed

theorem control_handshake_agrees_witness:
  "let c = \<lparr>cl_token = [1, 2], cl_legacy = False, cl_nonce = [], cl_connected = False, cl_endpoints = NewEndpoints ''s:1'' []\<rparr>
   in readAnnouncement (claim_frame c) = Inr \<lparr>ann_signal = SG_ChanV2, ann_payload = [1, 2]\<rparr> \<and>
     cl_connected (dial_attempt c (Answer (Inr (projr (SendBinaryTransportString NetConn
       (EncodeControlAck [1, 2] (NewPoolNonce (replicate 32 5)) 2) SG_ChanV2)))))"
  using control_handshake_agrees [of "[1, 2]" "\<lparr>cl_token = [1, 2], cl_legacy = False, cl_nonce = [], cl_connected = False, cl_endpoints = NewEndpoints ''s:1'' []\<rparr>"
      "replicate 32 5" 2 "[1, 2]" "EncodeControlAck [1, 2] (NewPoolNonce (replicate 32 5)) 2"
      "NewPoolNonce (replicate 32 5)" 2]
  by (simp add: controlAck_def Let_def tokenMatches_def)

text \<open>A timeout is taken for an old server.  The client means to fall back to the legacy
  handshake only when the server closes the connection, "never on a timeout"; but the answer is
  read through \<open>ReceiveBinaryTransportString\<close>, which wraps the read error, and the type assertion
  on the wrapped error never sees the timeout.  So one timed-out answer marks the server as legacy,
  and whatever happens afterwards the flag that selects the legacy handshake stays set.\<close>

theorem timeout_marks_server_legacy:
  assumes "\<not> cl_legacy c"
  shows "cl_legacy (dial_attempt c (Answer (Inl (NetError True)))) \<and>
    (\<forall>as. cl_legacy (channelDialer (dial_attempt c (Answer (Inl (NetError True)))) as))"
proof
  have mono: "cl_legacy d \<Longrightarrow> cl_legacy (dial_attempt d a)" for d a
    by (auto simp: dial_attempt_def noteLegacyServer_def Let_def
        split: attempt.splits sum.splits prod.splits)
  show first: "cl_legacy (dial_attempt c (Answer (Inl (NetError True))))"
    using assms
    by (simp add: dial_attempt_def receive_answer_def asserts_timeout_def noteLegacyServer_def
        controlSignal_def)
  have keep: "cl_legacy d \<Longrightarrow> cl_legacy (channelDialer d as)" for d as
    by (induction as arbitrary: d) (auto simp: Let_def mono)
  show "\<forall>as. cl_legacy (channelDialer (dial_attempt c (Answer (Inl (NetError True)))) as)"
    using keep [OF first] by blast
qed

theorem timeout_marks_server_legacy_witness:
  "cl_legacy (dial_attempt \<lparr>cl_token = [1], cl_legacy = False, cl_nonce = [], cl_connected = False, cl_endpoints = NewEndpoints ''s:1'' []\<rparr>
     (Answer (Inl (NetError True))))"
  using timeout_marks_server_legacy [of "\<lparr>cl_token = [1], cl_legacy = False, cl_nonce = [], cl_connected = False, cl_endpoints = NewEndpoints ''s:1'' []\<rparr>"]
  by simp

end
