(* ===== verification/Admission.thy ===== *)
theory Admission
  imports Handshake Spoof
begin

text \<open>
  The TCP server's admission of tunnel connections (\<open>internal/server/transport/tcp.go\<close>,
  \<open>control.go\<close>), with its concurrency.  Every accepted connection runs \<open>admitTunnelConn\<close> in its own
  goroutine, \<open>channelHandshake\<close> runs once per generation of the run, and \<open>Restart\<close> ends one
  generation and starts the next; they share the control-channel holder and the pool nonce.  One
  step of the relation below is one access to that shared state, so all interleavings of the
  accesses are covered.

  The environment fixes what is local to a connection: its remote address, the bytes it sends, the
  outcome of its stealth handshake, whether the answer to it can be sent and the random bytes drawn
  for it.  A restart is modelled where
  the code requests it, from the handlers of a run whose control channel is established.
\<close>

section \<open>Hosts: \<open>control.go\<close>\<close>

definition sameHost :: "(string \<Rightarrow> bytes) \<Rightarrow> string option \<Rightarrow> string option \<Rightarrow> bool" where
  "sameHost ParseIP a b =
     (case (a, b) of
        (Some a, Some b) \<Rightarrow>
          (case SplitHostPort a of
             None \<Rightarrow> False
           | Some (ha, _) \<Rightarrow>
               (case SplitHostPort b of
                  None \<Rightarrow> False
                | Some (hb, _) \<Rightarrow>
                    (let ipa = ParseIP ha; ipb = ParseIP hb in
                     if ipa = [] \<or> ipb = [] then ha = hb else ip_equal ipa ipb)))
      | _ \<Rightarrow> False)"

section \<open>State\<close>

type_synonym conn = nat
type_synonym gen_id = nat

record candidate =
  cand_conn :: conn
  cand_nonce :: bytes

datatype reason = ByNonce | ByAddress

text \<open>Where a connection's goroutine stands, with the generation it was accepted in.\<close>

datatype phase =
    Fresh
  | Admit gen_id
  | SawControl gen_id
  | CheckAddr gen_id
  | Reading gen_id
  | Announced gen_id announcement
  | Offering gen_id candidate
  | Delivering gen_id reason
  | Candidate gen_id
  | InPool gen_id reason
  | Discarded

text \<open>Where \<open>channelHandshake\<close> of a generation stands.\<close>

datatype hs_phase = HsIdle | HsWait | HsGot candidate | HsNonce candidate | HsDone candidate

text \<open>Where \<open>Restart\<close> stands: it replaces the channels, clears the control channel, clears the nonce.\<close>

datatype restart_phase = Running | NewChannels | ControlCleared | NonceCleared

record srv =
  generation :: gen_id
  control :: "conn option"
  nonce :: bytes
  handshakeChannel :: "gen_id \<Rightarrow> candidate option"
  tunnelChannel :: "gen_id \<Rightarrow> conn list"
  phases :: "conn \<Rightarrow> phase"
  handshake :: "gen_id \<Rightarrow> hs_phase"
  restart :: restart_phase

record srv_env =
  Token :: bytes
  Stealth :: bool
  ChannelSize :: nat
  noise_ok :: "conn \<Rightarrow> bool"
  remote :: "conn \<Rightarrow> string"
  stream :: "conn \<Rightarrow> bytes"
  random :: "conn \<Rightarrow> bytes option"
  send_ok :: "conn \<Rightarrow> bool"
  ParseIP :: "string \<Rightarrow> bytes"

definition init_srv :: srv where
  "init_srv = \<lparr>generation = 0, control = None, nonce = [], handshakeChannel = (\<lambda>_. None),
     tunnelChannel = (\<lambda>_. []), phases = (\<lambda>_. Fresh),
     handshake = (\<lambda>g. if g = 0 then HsWait else HsIdle), restart = Running\<rparr>"

abbreviation set_phase :: "conn \<Rightarrow> phase \<Rightarrow> srv \<Rightarrow> srv" where
  "set_phase c p s \<equiv> s\<lparr>phases := (phases s)(c := p)\<rparr>"

abbreviation set_handshake :: "gen_id \<Rightarrow> hs_phase \<Rightarrow> srv \<Rightarrow> srv" where
  "set_handshake g p s \<equiv> s\<lparr>handshake := (handshake s)(g := p)\<rparr>"

section \<open>One access to the shared state\<close>

text \<open>The decisions of \<open>admitTunnelConn\<close>, \<open>admitControlChannel\<close> and \<open>deliverTunnelConn\<close>: from the phase
  and the value read, the next phase.\<close>

definition after_stealth :: "srv_env \<Rightarrow> srv \<Rightarrow> conn \<Rightarrow> gen_id \<Rightarrow> phase" where
  "after_stealth e s c g =
     (if Stealth e \<and> \<not> noise_ok e c then Discarded
      else if control s \<noteq> None then SawControl g else Reading g)"

definition after_nonce_read :: "srv \<Rightarrow> gen_id \<Rightarrow> phase" where
  "after_nonce_read s g = (if nonce s = [] then CheckAddr g else Reading g)"

definition after_address :: "srv_env \<Rightarrow> srv \<Rightarrow> conn \<Rightarrow> gen_id \<Rightarrow> phase" where
  "after_address e s c g =
     (case control s of
        Some peer \<Rightarrow>
          (if \<not> sameHost (ParseIP e) (Some (remote e peer)) (Some (remote e c)) then Discarded
           else Delivering g ByAddress)
      | None \<Rightarrow> Delivering g ByAddress)"

definition after_read :: "srv_env \<Rightarrow> conn \<Rightarrow> gen_id \<Rightarrow> phase" where
  "after_read e c g =
     (case readAnnouncement (stream e c) of Inl _ \<Rightarrow> Discarded | Inr a \<Rightarrow> Announced g a)"

definition admitControlChannel :: "srv_env \<Rightarrow> srv \<Rightarrow> conn \<Rightarrow> gen_id \<Rightarrow> announcement \<Rightarrow> phase" where
  "admitControlChannel e s c g a =
     (if control s \<noteq> None then Discarded
      else if \<not> tokenMatches (ann_payload a) (Token e) then Discarded
      else case controlAck (ann_signal a) (Token e) 0 (random e c) of
          None \<Rightarrow> Discarded
        | Some (ack, n, _) \<Rightarrow>
            (if \<not> send_ok e c then Discarded else Offering g \<lparr>cand_conn = c, cand_nonce = n\<rparr>))"

definition after_announcement :: "srv_env \<Rightarrow> srv \<Rightarrow> conn \<Rightarrow> gen_id \<Rightarrow> announcement \<Rightarrow> phase" where
  "after_announcement e s c g a =
     (if isControlSignal (ann_signal a) then admitControlChannel e s c g a
      else if ann_signal a = SG_Pool then
        (if \<not> nonce_Verify (nonce s) (ann_payload a) then Discarded else Delivering g ByNonce)
      else Discarded)"

definition offer_candidate :: "srv \<Rightarrow> conn \<Rightarrow> gen_id \<Rightarrow> candidate \<Rightarrow> srv" where
  "offer_candidate s c g cand =
     (if handshakeChannel s g = None
      then set_phase c (Candidate g) (s\<lparr>handshakeChannel := (handshakeChannel s)(g := Some cand)\<rparr>)
      else set_phase c Discarded s)"

definition deliverTunnelConn :: "srv_env \<Rightarrow> srv \<Rightarrow> conn \<Rightarrow> gen_id \<Rightarrow> reason \<Rightarrow> srv" where
  "deliverTunnelConn e s c g r =
     (if length (tunnelChannel s g) < ChannelSize e
      then set_phase c (InPool g r) (s\<lparr>tunnelChannel := (tunnelChannel s)(g := tunnelChannel s g @ [c])\<rparr>)
      else set_phase c Discarded s)"

inductive srv_step :: "srv_env \<Rightarrow> srv \<Rightarrow> srv \<Rightarrow> bool" for e where
  accept: "\<lbrakk>phases s c = Fresh; handshake s g \<noteq> HsIdle\<rbrakk>
      \<Longrightarrow> srv_step e s (set_phase c (Admit g) s)"
| stealth: "phases s c = Admit g \<Longrightarrow> srv_step e s (set_phase c (after_stealth e s c g) s)"
| read_nonce: "phases s c = SawControl g \<Longrightarrow> srv_step e s (set_phase c (after_nonce_read s g) s)"
| check_address: "phases s c = CheckAddr g \<Longrightarrow> srv_step e s (set_phase c (after_address e s c g) s)"
| read_announcement: "phases s c = Reading g \<Longrightarrow> srv_step e s (set_phase c (after_read e c g) s)"
| judge: "phases s c = Announced g a
      \<Longrightarrow> srv_step e s (set_phase c (after_announcement e s c g a) s)"
| offer: "phases s c = Offering g cand \<Longrightarrow> srv_step e s (offer_candidate s c g cand)"
| deliver: "phases s c = Delivering g r \<Longrightarrow> srv_step e s (deliverTunnelConn e s c g r)"
| take_candidate: "\<lbrakk>handshake s g = HsWait; handshakeChannel s g = Some cand\<rbrakk>
      \<Longrightarrow> srv_step e s (set_handshake g (HsGot cand)
            (s\<lparr>handshakeChannel := (handshakeChannel s)(g := None)\<rparr>))"
| publish_nonce: "handshake s g = HsGot cand
      \<Longrightarrow> srv_step e s (set_handshake g (HsNonce cand) (s\<lparr>nonce := cand_nonce cand\<rparr>))"
| publish_control: "handshake s g = HsNonce cand
      \<Longrightarrow> srv_step e s (set_handshake g (HsDone cand) (s\<lparr>control := Some (cand_conn cand)\<rparr>))"
| handle_pool: "tunnelChannel s g = c # cs
      \<Longrightarrow> srv_step e s (s\<lparr>tunnelChannel := (tunnelChannel s)(g := cs)\<rparr>)"
| restart_begin: "\<lbrakk>restart s = Running; handshake s (generation s) = HsDone cand\<rbrakk>
      \<Longrightarrow> srv_step e s (s\<lparr>generation := Suc (generation s), restart := NewChannels\<rparr>)"
| restart_control: "restart s = NewChannels
      \<Longrightarrow> srv_step e s (s\<lparr>control := None, restart := ControlCleared\<rparr>)"
| restart_nonce: "restart s = ControlCleared
      \<Longrightarrow> srv_step e s (s\<lparr>nonce := [], restart := NonceCleared\<rparr>)"
| restart_start: "restart s = NonceCleared
      \<Longrightarrow> srv_step e s (set_handshake (generation s) HsWait (s\<lparr>restart := Running\<rparr>))"

definition srv_reachable :: "srv_env \<Rightarrow> srv \<Rightarrow> bool" where
  "srv_reachable e s = (srv_step e)\<^sup>*\<^sup>* init_srv s"

text \<open>The steps as a function, for evaluating a schedule: a move names who takes the next step.\<close>

datatype move = Accept conn gen_id | Go conn | Hs gen_id | Handle gen_id | Rst

definition go_move :: "srv_env \<Rightarrow> conn \<Rightarrow> srv \<Rightarrow> srv option" where
  "go_move e c s =
     (case phases s c of
        Admit g \<Rightarrow> Some (set_phase c (after_stealth e s c g) s)
      | SawControl g \<Rightarrow> Some (set_phase c (after_nonce_read s g) s)
      | CheckAddr g \<Rightarrow> Some (set_phase c (after_address e s c g) s)
      | Reading g \<Rightarrow> Some (set_phase c (after_read e c g) s)
      | Announced g a \<Rightarrow> Some (set_phase c (after_announcement e s c g a) s)
      | Offering g cand \<Rightarrow> Some (offer_candidate s c g cand)
      | Delivering g r \<Rightarrow> Some (deliverTunnelConn e s c g r)
      | _ \<Rightarrow> None)"

definition handshake_move :: "gen_id \<Rightarrow> srv \<Rightarrow> srv option" where
  "handshake_move g s =
     (case handshake s g of
        HsWait \<Rightarrow>
          (case handshakeChannel s g of
             Some cand \<Rightarrow> Some (set_handshake g (HsGot cand)
               (s\<lparr>handshakeChannel := (handshakeChannel s)(g := None)\<rparr>))
           | None \<Rightarrow> None)
      | HsGot cand \<Rightarrow> Some (set_handshake g (HsNonce cand) (s\<lparr>nonce := cand_nonce cand\<rparr>))
      | HsNonce cand \<Rightarrow> Some (set_handshake g (HsDone cand) (s\<lparr>control := Some (cand_conn cand)\<rparr>))
      | _ \<Rightarrow> None)"

definition restart_move :: "srv \<Rightarrow> srv option" where
  "restart_move s =
     (case restart s of
        Running \<Rightarrow>
          (case handshake s (generation s) of
             HsDone cand \<Rightarrow> Some (s\<lparr>generation := Suc (generation s), restart := NewChannels\<rparr>)
           | _ \<Rightarrow> None)
      | NewChannels \<Rightarrow> Some (s\<lparr>control := None, restart := ControlCleared\<rparr>)
      | ControlCleared \<Rightarrow> Some (s\<lparr>nonce := [], restart := NonceCleared\<rparr>)
      | NonceCleared \<Rightarrow> Some (set_handshake (generation s) HsWait (s\<lparr>restart := Running\<rparr>)))"

definition exec_move :: "srv_env \<Rightarrow> move \<Rightarrow> srv \<Rightarrow> srv option" where
  "exec_move e m s =
     (case m of
        Accept c g \<Rightarrow>
          (if phases s c = Fresh \<and> handshake s g \<noteq> HsIdle then Some (set_phase c (Admit g) s) else None)
      | Go c \<Rightarrow> go_move e c s
      | Hs g \<Rightarrow> handshake_move g s
      | Handle g \<Rightarrow>
          (case tunnelChannel s g of
             [] \<Rightarrow> None
           | c # cs \<Rightarrow> Some (s\<lparr>tunnelChannel := (tunnelChannel s)(g := cs)\<rparr>))
      | Rst \<Rightarrow> restart_move s)"

lemmas move_defs = go_move_def handshake_move_def restart_move_def exec_move_def

fun exec_moves :: "srv_env \<Rightarrow> move list \<Rightarrow> srv \<Rightarrow> srv option" where
  "exec_moves e [] s = Some s"
| "exec_moves e (m # ms) s = Option.bind (exec_move e m s) (exec_moves e ms)"

lemma exec_move_step: "exec_move e m s = Some s' \<Longrightarrow> srv_step e s s'"
  by (cases m)
    (auto simp: move_defs intro: srv_step.intros [simplified]
      split: phase.splits hs_phase.splits restart_phase.splits option.splits list.splits if_splits)

lemma exec_moves_reachable:
  "srv_reachable e s \<Longrightarrow> exec_moves e ms s = Some s' \<Longrightarrow> srv_reachable e s'"
proof (induction ms arbitrary: s)
  case (Cons m ms)
  then obtain t where t: "exec_move e m s = Some t" "exec_moves e ms t = Some s'"
    by (cases "exec_move e m s") auto
  have "srv_reachable e t"
    using Cons.prems(1) exec_move_step [OF t(1)]
    unfolding srv_reachable_def by (rule rtranclp.rtrancl_into_rtrancl)
  then show ?case using Cons.IH t(2) by blast
qed simp


section \<open>Invariant\<close>

text \<open>The candidate whose handshake owns a generation, once its nonce is in place.\<close>

definition run_candidate :: "srv \<Rightarrow> gen_id \<Rightarrow> candidate option" where
  "run_candidate s g =
     (case handshake s g of HsNonce cand \<Rightarrow> Some cand | HsDone cand \<Rightarrow> Some cand | _ \<Rightarrow> None)"

definition claims_control :: "srv_env \<Rightarrow> candidate \<Rightarrow> bool" where
  "claims_control e cand =
     (\<exists>a r. readAnnouncement (stream e (cand_conn cand)) = Inr a \<and> isControlSignal (ann_signal a) \<and>
        ann_payload a = Token e \<and>
        cand_nonce cand = (if ann_signal a = SG_ChanV2 then NewPoolNonce r else []) \<and>
        (ann_signal a = SG_ChanV2 \<longrightarrow> random e (cand_conn cand) = Some r))"

text \<open>The shared variables, generation by generation.\<close>

definition shared_inv :: "srv \<Rightarrow> bool" where
  "shared_inv s =
     ((\<forall>g. g < generation s \<longrightarrow> (\<exists>cand. handshake s g = HsDone cand)) \<and>
      (\<forall>g. generation s < g \<longrightarrow> handshake s g = HsIdle) \<and>
      (case restart s of
         Running \<Rightarrow>
           (case handshake s (generation s) of
              HsIdle \<Rightarrow> False
            | HsWait \<Rightarrow> control s = None \<and> nonce s = []
            | HsGot cand \<Rightarrow> control s = None \<and> nonce s = []
            | HsNonce cand \<Rightarrow> control s = None \<and> nonce s = cand_nonce cand
            | HsDone cand \<Rightarrow> control s = Some (cand_conn cand) \<and> nonce s = cand_nonce cand)
       | NewChannels \<Rightarrow> handshake s (generation s) = HsIdle \<and>
           (\<forall>c. control s = Some c \<longrightarrow> (\<exists>g cand. handshake s g = HsDone cand \<and> cand_conn cand = c))
       | ControlCleared \<Rightarrow> handshake s (generation s) = HsIdle \<and> control s = None
       | NonceCleared \<Rightarrow> handshake s (generation s) = HsIdle \<and> control s = None \<and> nonce s = []))"

definition legacy_run :: "srv \<Rightarrow> gen_id \<Rightarrow> bool" where
  "legacy_run s g = (\<exists>cand. handshake s g = HsDone cand \<and> cand_nonce cand = [])"

definition admitted_by_address :: "srv_env \<Rightarrow> srv \<Rightarrow> gen_id \<Rightarrow> conn \<Rightarrow> bool" where
  "admitted_by_address e s g c =
     (\<exists>cand. handshake s g = HsDone cand \<and> cand_nonce cand = [] \<and>
        sameHost (ParseIP e) (Some (remote e (cand_conn cand))) (Some (remote e c)))"

definition admitted_by_nonce :: "srv_env \<Rightarrow> srv \<Rightarrow> gen_id \<Rightarrow> conn \<Rightarrow> bool" where
  "admitted_by_nonce e s g c =
     (\<exists>a cand. readAnnouncement (stream e c) = Inr a \<and> ann_signal a = SG_Pool \<and>
        run_candidate s g = Some cand \<and> cand_nonce cand \<noteq> [] \<and> ann_payload a = cand_nonce cand)"

text \<open>What each goroutine of the current generation has established by the point it has reached.\<close>

definition phase_inv :: "srv_env \<Rightarrow> srv \<Rightarrow> conn \<Rightarrow> bool" where
  "phase_inv e s c =
     (case phases s c of
        Admit g \<Rightarrow> handshake s g \<noteq> HsIdle
      | SawControl g \<Rightarrow> handshake s g \<noteq> HsIdle \<and>
          (g = generation s \<longrightarrow> (\<exists>cand. handshake s g = HsDone cand))
      | CheckAddr g \<Rightarrow> handshake s g \<noteq> HsIdle \<and> (g = generation s \<longrightarrow> legacy_run s g)
      | Reading g \<Rightarrow> handshake s g \<noteq> HsIdle
      | Announced g a \<Rightarrow> handshake s g \<noteq> HsIdle \<and> readAnnouncement (stream e c) = Inr a
      | Offering g cand \<Rightarrow> handshake s g \<noteq> HsIdle \<and> cand_conn cand = c \<and> claims_control e cand
      | Delivering g r \<Rightarrow> handshake s g \<noteq> HsIdle \<and>
          (g = generation s \<longrightarrow>
             (case r of ByAddress \<Rightarrow> admitted_by_address e s g c | ByNonce \<Rightarrow> admitted_by_nonce e s g c))
      | InPool g r \<Rightarrow> handshake s g \<noteq> HsIdle \<and>
          (g = generation s \<longrightarrow>
             (case r of ByAddress \<Rightarrow> admitted_by_address e s g c | ByNonce \<Rightarrow> admitted_by_nonce e s g c))
      | _ \<Rightarrow> True)"

definition cand_inv :: "srv_env \<Rightarrow> srv \<Rightarrow> bool" where
  "cand_inv e s =
     ((\<forall>g cand. handshakeChannel s g = Some cand \<longrightarrow> claims_control e cand) \<and>
      (\<forall>g cand. handshake s g \<in> {HsGot cand, HsNonce cand, HsDone cand} \<longrightarrow> claims_control e cand))"

definition pool_inv :: "srv \<Rightarrow> bool" where
  "pool_inv s = (\<forall>g c. c \<in> set (tunnelChannel s g) \<longrightarrow> (\<exists>r. phases s c = InPool g r))"

definition srv_inv :: "srv_env \<Rightarrow> srv \<Rightarrow> bool" where
  "srv_inv e s = (shared_inv s \<and> (\<forall>c. phase_inv e s c) \<and> cand_inv e s \<and> pool_inv s)"

lemma srv_inv_init: "srv_inv e init_srv"
  by (simp add: srv_inv_def shared_inv_def phase_inv_def cand_inv_def pool_inv_def init_srv_def)

lemma run_candidate_cong: "handshake s' = handshake s \<Longrightarrow> run_candidate s' = run_candidate s"
  by (auto simp: run_candidate_def)

text \<open>The invariant sees a state only through these fields.\<close>

lemma shared_inv_cong:
  "generation s' = generation s \<Longrightarrow> control s' = control s \<Longrightarrow> nonce s' = nonce s \<Longrightarrow>
   handshake s' = handshake s \<Longrightarrow> restart s' = restart s \<Longrightarrow> shared_inv s' = shared_inv s"
  by (simp add: shared_inv_def cong: restart_phase.case_cong hs_phase.case_cong)

lemma phase_inv_cong:
  "generation s' = generation s \<Longrightarrow> handshake s' = handshake s \<Longrightarrow> phases s' c = phases s c \<Longrightarrow>
   phase_inv e s' c = phase_inv e s c"
proof -
  assume eq: "generation s' = generation s" "handshake s' = handshake s" "phases s' c = phases s c"
  have "legacy_run s' = legacy_run s" "admitted_by_address e s' = admitted_by_address e s"
    "admitted_by_nonce e s' = admitted_by_nonce e s"
    using eq(2) by (simp_all add: fun_eq_iff legacy_run_def admitted_by_address_def
        admitted_by_nonce_def run_candidate_def)
  then show ?thesis using eq by (cases "phases s c") (simp_all add: phase_inv_def split: reason.splits)
qed

lemma set_phase_inv:
  assumes "srv_inv e s" "\<And>g r. phases s c \<noteq> InPool g r" "phase_inv e (set_phase c p s) c"
  shows "srv_inv e (set_phase c p s)"
proof -
  have "shared_inv (set_phase c p s)"
    using assms(1) by (simp add: srv_inv_def shared_inv_cong [of "set_phase c p s" s])
  moreover have "phase_inv e (set_phase c p s) c'" for c'
    using assms phase_inv_cong [of "set_phase c p s" s c' e]
    by (cases "c' = c") (auto simp: srv_inv_def)
  moreover have "cand_inv e (set_phase c p s)" using assms(1) by (simp add: srv_inv_def cand_inv_def)
  moreover have "pool_inv (set_phase c p s)" using assms(1,2) by (fastforce simp: srv_inv_def pool_inv_def)
  ultimately show ?thesis by (simp add: srv_inv_def)
qed

lemma running_generation:
  assumes "shared_inv s" "handshake s g \<in> {HsWait, HsGot cand, HsNonce cand}"
  shows "g = generation s \<and> restart s = Running"
  using assms by (cases g "generation s" rule: linorder_cases)
    (auto simp: shared_inv_def split: restart_phase.splits)

lemma control_set_done:
  assumes "shared_inv s" "control s \<noteq> None" "handshake s (generation s) \<noteq> HsIdle"
  shows "\<exists>cand. handshake s (generation s) = HsDone cand \<and> control s = Some (cand_conn cand) \<and>
    nonce s = cand_nonce cand"
  using assms by (auto simp: shared_inv_def split: restart_phase.splits hs_phase.splits)

lemma done_running:
  assumes "shared_inv s" "handshake s (generation s) = HsDone cand"
  shows "control s = Some (cand_conn cand) \<and> nonce s = cand_nonce cand"
  using assms by (auto simp: shared_inv_def split: restart_phase.splits)

lemma nonempty_nonce_candidate:
  assumes "shared_inv s" "nonce s \<noteq> []" "handshake s (generation s) \<noteq> HsIdle"
  shows "\<exists>cand. run_candidate s (generation s) = Some cand \<and> nonce s = cand_nonce cand"
  using assms by (auto simp: shared_inv_def run_candidate_def split: restart_phase.splits hs_phase.splits)

lemma controlAck_claims:
  assumes "readAnnouncement (stream e c) = Inr a" "isControlSignal (ann_signal a)" "ann_payload a = Token e"
    and "controlAck (ann_signal a) (Token e) mv (random e c) = Some (ack, n, v)"
  shows "claims_control e \<lparr>cand_conn = c, cand_nonce = n\<rparr>"
  using assms
  by (auto simp: claims_control_def controlAck_def Let_def split: if_splits option.splits)

text \<open>One case per decision of a connection's goroutine.\<close>

lemma admission_steps:
  assumes inv: "srv_inv e s"
  shows "phases s c = Fresh \<Longrightarrow> handshake s g \<noteq> HsIdle \<Longrightarrow> srv_inv e (set_phase c (Admit g) s)"
    and "phases s c = Admit g \<Longrightarrow> srv_inv e (set_phase c (after_stealth e s c g) s)"
    and "phases s c = SawControl g \<Longrightarrow> srv_inv e (set_phase c (after_nonce_read s g) s)"
    and "phases s c = CheckAddr g \<Longrightarrow> srv_inv e (set_phase c (after_address e s c g) s)"
    and "phases s c = Reading g \<Longrightarrow> srv_inv e (set_phase c (after_read e c g) s)"
    and "phases s c = Announced g a \<Longrightarrow> srv_inv e (set_phase c (after_announcement e s c g a) s)"
proof -
  have sh: "shared_inv s" and ph: "phase_inv e s c" using inv by (auto simp: srv_inv_def)
  note red = set_phase_inv [OF inv]
  show "phases s c = Fresh \<Longrightarrow> handshake s g \<noteq> HsIdle \<Longrightarrow> srv_inv e (set_phase c (Admit g) s)"
    by (rule red) (auto simp: phase_inv_def)
  show "phases s c = Admit g \<Longrightarrow> srv_inv e (set_phase c (after_stealth e s c g) s)"
    using ph control_set_done [OF sh]
    by (intro red) (auto simp: phase_inv_def after_stealth_def)
  show "phases s c = SawControl g \<Longrightarrow> srv_inv e (set_phase c (after_nonce_read s g) s)"
    using ph done_running [OF sh]
    by (intro red) (auto simp: phase_inv_def after_nonce_read_def legacy_run_def)
  show "phases s c = CheckAddr g \<Longrightarrow> srv_inv e (set_phase c (after_address e s c g) s)"
    using ph done_running [OF sh]
    by (intro red) (auto simp: phase_inv_def after_address_def legacy_run_def admitted_by_address_def
        split: option.splits)
  show "phases s c = Reading g \<Longrightarrow> srv_inv e (set_phase c (after_read e c g) s)"
    using ph by (intro red) (auto simp: phase_inv_def after_read_def split: sum.splits)
  show "phases s c = Announced g a \<Longrightarrow> srv_inv e (set_phase c (after_announcement e s c g a) s)"
    using ph nonempty_nonce_candidate [OF sh] controlAck_claims
    by (intro red) (auto simp: phase_inv_def after_announcement_def admitControlChannel_def
        tokenMatches_def nonce_Verify_def admitted_by_nonce_def run_candidate_def
        split: option.splits if_splits)
qed


lemma offer_step:
  assumes inv: "srv_inv e s" and ph: "phases s c = Offering g cand"
  shows "srv_inv e (offer_candidate s c g cand)"
proof (cases "handshakeChannel s g = None")
  case True
  let ?s = "s\<lparr>handshakeChannel := (handshakeChannel s)(g := Some cand)\<rparr>"
  have cl: "claims_control e cand" "handshake s g \<noteq> HsIdle"
    using inv ph by (auto simp: srv_inv_def phase_inv_def split: phase.splits dest!: spec [of _ c])
  have "shared_inv ?s" using inv by (simp add: srv_inv_def shared_inv_cong [of ?s s])
  moreover have "phase_inv e ?s c'" for c'
    using inv phase_inv_cong [of ?s s c' e] by (simp add: srv_inv_def)
  moreover have "cand_inv e ?s" "pool_inv ?s"
    using inv cl by (auto simp: srv_inv_def cand_inv_def pool_inv_def)
  ultimately have "srv_inv e ?s" by (simp add: srv_inv_def)
  then have "srv_inv e (set_phase c (Candidate g) ?s)"
    by (rule set_phase_inv) (simp_all add: ph phase_inv_def)
  then show ?thesis using True by (simp add: offer_candidate_def)
next
  case False
  moreover have "srv_inv e (set_phase c Discarded s)"
    using set_phase_inv [OF inv, of c Discarded] ph by (simp add: phase_inv_def)
  ultimately show ?thesis by (simp only: offer_candidate_def if_False)
qed

lemma deliver_step:
  assumes inv: "srv_inv e s" and ph: "phases s c = Delivering g r"
  shows "srv_inv e (deliverTunnelConn e s c g r)"
proof (cases "length (tunnelChannel s g) < ChannelSize e")
  case True
  let ?s1 = "set_phase c (InPool g r) s"
  let ?s = "set_phase c (InPool g r)
    (s\<lparr>tunnelChannel := (tunnelChannel s)(g := tunnelChannel s g @ [c])\<rparr>)"
  have "phase_inv e s c" using inv by (simp add: srv_inv_def)
  then have "phase_inv e ?s1 c"
    using ph phase_inv_cong [of ?s1 s c e]
    by (simp add: phase_inv_def legacy_run_def admitted_by_address_def admitted_by_nonce_def
        run_candidate_def cong: reason.case_cong)
  then have inv1: "srv_inv e ?s1" using set_phase_inv [OF inv] ph by simp
  have "shared_inv ?s" using inv1 shared_inv_cong [of ?s ?s1] by (simp add: srv_inv_def)
  moreover have "phase_inv e ?s c'" for c'
    using inv1 phase_inv_cong [of ?s ?s1 c' e] by (simp add: srv_inv_def)
  moreover have "cand_inv e ?s" "pool_inv ?s"
    using inv1 by (auto simp: srv_inv_def cand_inv_def pool_inv_def)
  ultimately have "srv_inv e ?s" by (simp add: srv_inv_def)
  then show ?thesis using True by (simp add: deliverTunnelConn_def)
next
  case False
  then show ?thesis
    using set_phase_inv [OF inv, of c Discarded] ph by (simp add: deliverTunnelConn_def phase_inv_def)
qed

text \<open>Steps of \<open>channelHandshake\<close> and \<open>Restart\<close> change the shared variables; what a goroutine of the
  current generation has established survives them.\<close>

lemma phase_inv_transfer:
  assumes "phase_inv e s c" "phases s' c = phases s c"
    and idle: "\<And>g. handshake s g \<noteq> HsIdle \<Longrightarrow> handshake s' g \<noteq> HsIdle"
    and cur: "\<And>g. handshake s g \<noteq> HsIdle \<Longrightarrow> g = generation s' \<Longrightarrow> g = generation s"
    and dn: "\<And>g cand. handshake s g = HsDone cand \<Longrightarrow> handshake s' g = HsDone cand"
    and cand: "\<And>g x. run_candidate s g = Some x \<Longrightarrow> run_candidate s' g = Some x"
  shows "phase_inv e s' c"
proof -
  have a: "admitted_by_address e s g c \<Longrightarrow> admitted_by_address e s' g c"
    and n: "admitted_by_nonce e s g c \<Longrightarrow> admitted_by_nonce e s' g c"
    and l: "legacy_run s g \<Longrightarrow> legacy_run s' g" for g
    using dn cand by (auto simp: admitted_by_address_def admitted_by_nonce_def legacy_run_def)
  show ?thesis
    using assms(1,2) idle cur dn a n l
    by (auto simp: phase_inv_def split: phase.splits reason.splits)
qed


lemma handshake_advance:
  assumes "srv_inv e s" "shared_inv s'" "cand_inv e s'"
    and "phases s' = phases s" "tunnelChannel s' = tunnelChannel s" "generation s' = generation s"
    and "handshake s' = (handshake s)(g := p)"
    and "p \<noteq> HsIdle" "\<And>x. handshake s g \<noteq> HsDone x" "\<And>x. handshake s g = HsNonce x \<Longrightarrow> p = HsDone x"
  shows "srv_inv e s'"
proof -
  have "phase_inv e s c" for c using assms(1) by (simp add: srv_inv_def)
  then have "phase_inv e s' c" for c
  proof (rule phase_inv_transfer)
    fix h x
    show "run_candidate s h = Some x \<Longrightarrow> run_candidate s' h = Some x"
      using assms(7,9,10) by (cases "handshake s h") (auto simp: run_candidate_def)
  qed (use assms in auto)
  then show ?thesis using assms(1-5) by (simp add: srv_inv_def pool_inv_def)
qed

lemma channelHandshake_steps:
  assumes inv: "srv_inv e s"
  shows "handshake s g = HsWait \<Longrightarrow> handshakeChannel s g = Some cand \<Longrightarrow>
      srv_inv e (set_handshake g (HsGot cand) (s\<lparr>handshakeChannel := (handshakeChannel s)(g := None)\<rparr>))"
    and "handshake s g = HsGot cand \<Longrightarrow>
      srv_inv e (set_handshake g (HsNonce cand) (s\<lparr>nonce := cand_nonce cand\<rparr>))"
    and "handshake s g = HsNonce cand \<Longrightarrow>
      srv_inv e (set_handshake g (HsDone cand) (s\<lparr>control := Some (cand_conn cand)\<rparr>))"
proof -
  have sh: "shared_inv s" and cd: "cand_inv e s" using inv by (auto simp: srv_inv_def)
  have run: "g = generation s" "restart s = Running" if "handshake s g \<in> {HsWait, HsGot cand, HsNonce cand}"
    using running_generation [OF sh that] by auto
  show "srv_inv e (set_handshake g (HsGot cand) (s\<lparr>handshakeChannel := (handshakeChannel s)(g := None)\<rparr>))"
    if h: "handshake s g = HsWait" "handshakeChannel s g = Some cand"
  proof (rule handshake_advance [OF inv, where g = g and p = "HsGot cand"])
    show "shared_inv (set_handshake g (HsGot cand) (s\<lparr>handshakeChannel := (handshakeChannel s)(g := None)\<rparr>))"
      using sh h run by (simp add: shared_inv_def)
    show "cand_inv e (set_handshake g (HsGot cand) (s\<lparr>handshakeChannel := (handshakeChannel s)(g := None)\<rparr>))"
      using cd h by (auto simp: cand_inv_def)
  qed (use h in simp_all)
  show "srv_inv e (set_handshake g (HsNonce cand) (s\<lparr>nonce := cand_nonce cand\<rparr>))"
    if h: "handshake s g = HsGot cand"
  proof (rule handshake_advance [OF inv, where g = g and p = "HsNonce cand"])
    show "shared_inv (set_handshake g (HsNonce cand) (s\<lparr>nonce := cand_nonce cand\<rparr>))"
      using sh h run by (simp add: shared_inv_def)
    show "cand_inv e (set_handshake g (HsNonce cand) (s\<lparr>nonce := cand_nonce cand\<rparr>))"
      using cd h by (auto simp: cand_inv_def)
  qed (use h in simp_all)
  show "srv_inv e (set_handshake g (HsDone cand) (s\<lparr>control := Some (cand_conn cand)\<rparr>))"
    if h: "handshake s g = HsNonce cand"
  proof (rule handshake_advance [OF inv, where g = g and p = "HsDone cand"])
    show "shared_inv (set_handshake g (HsDone cand) (s\<lparr>control := Some (cand_conn cand)\<rparr>))"
      using sh h run by (simp add: shared_inv_def)
    show "cand_inv e (set_handshake g (HsDone cand) (s\<lparr>control := Some (cand_conn cand)\<rparr>))"
      using cd h by (auto simp: cand_inv_def)
  qed (use h in simp_all)
qed

lemma restart_steps:
  assumes inv: "srv_inv e s"
  shows "restart s = Running \<Longrightarrow> handshake s (generation s) = HsDone cand \<Longrightarrow>
      srv_inv e (s\<lparr>generation := Suc (generation s), restart := NewChannels\<rparr>)"
    and "restart s = NewChannels \<Longrightarrow> srv_inv e (s\<lparr>control := None, restart := ControlCleared\<rparr>)"
    and "restart s = ControlCleared \<Longrightarrow> srv_inv e (s\<lparr>nonce := [], restart := NonceCleared\<rparr>)"
    and "restart s = NonceCleared \<Longrightarrow>
      srv_inv e (set_handshake (generation s) HsWait (s\<lparr>restart := Running\<rparr>))"
proof -
  have sh: "shared_inv s" and rest: "cand_inv e s" "pool_inv s" and ph: "phase_inv e s c" for c
    using inv by (auto simp: srv_inv_def)
  have idle: "handshake s (Suc (generation s)) = HsIdle" using sh by (simp add: shared_inv_def)
  show "srv_inv e (s\<lparr>generation := Suc (generation s), restart := NewChannels\<rparr>)"
    if r: "restart s = Running" "handshake s (generation s) = HsDone cand"
  proof -
    let ?s = "s\<lparr>generation := Suc (generation s), restart := NewChannels\<rparr>"
    have "shared_inv ?s" using sh r idle by (auto simp: shared_inv_def less_Suc_eq)
    moreover have "phase_inv e ?s c" for c
      using ph [of c] by (rule phase_inv_transfer) (use idle in \<open>auto simp: run_candidate_def\<close>)
    ultimately show ?thesis using rest by (simp add: srv_inv_def cand_inv_def pool_inv_def)
  qed
  show "srv_inv e (s\<lparr>control := None, restart := ControlCleared\<rparr>)" if r: "restart s = NewChannels"
  proof -
    let ?s = "s\<lparr>control := None, restart := ControlCleared\<rparr>"
    have "shared_inv ?s" using sh r by (auto simp: shared_inv_def)
    moreover have "phase_inv e ?s c" for c using ph [of c] phase_inv_cong [of ?s s c e] by simp
    ultimately show ?thesis using rest by (simp add: srv_inv_def cand_inv_def pool_inv_def)
  qed
  show "srv_inv e (s\<lparr>nonce := [], restart := NonceCleared\<rparr>)" if r: "restart s = ControlCleared"
  proof -
    let ?s = "s\<lparr>nonce := [], restart := NonceCleared\<rparr>"
    have "shared_inv ?s" using sh r by (auto simp: shared_inv_def)
    moreover have "phase_inv e ?s c" for c using ph [of c] phase_inv_cong [of ?s s c e] by simp
    ultimately show ?thesis using rest by (simp add: srv_inv_def cand_inv_def pool_inv_def)
  qed
  show "srv_inv e (set_handshake (generation s) HsWait (s\<lparr>restart := Running\<rparr>))"
    if r: "restart s = NonceCleared"
  proof -
    let ?s = "set_handshake (generation s) HsWait (s\<lparr>restart := Running\<rparr>)"
    have i: "handshake s (generation s) = HsIdle" using sh r by (simp add: shared_inv_def)
    have "shared_inv ?s" using sh r by (auto simp: shared_inv_def)
    moreover have "phase_inv e ?s c" for c
      using ph [of c] by (rule phase_inv_transfer) (use i in \<open>auto simp: run_candidate_def split: if_splits\<close>)
    ultimately show ?thesis using rest by (auto simp: srv_inv_def cand_inv_def pool_inv_def)
  qed
qed

lemma srv_inv_step: "srv_step e s s' \<Longrightarrow> srv_inv e s \<Longrightarrow> srv_inv e s'"
proof (induction rule: srv_step.induct)
  case (accept s c g)
  then show ?case by (rule_tac admission_steps)
next
  case (handle_pool s g c cs)
  let ?s = "s\<lparr>tunnelChannel := (tunnelChannel s)(g := cs)\<rparr>"
  have "shared_inv ?s" using handle_pool by (simp add: srv_inv_def shared_inv_cong [of ?s s])
  moreover have "phase_inv e ?s c'" for c'
    using handle_pool phase_inv_cong [of ?s s c' e] by (simp add: srv_inv_def)
  moreover have "cand_inv e ?s" "pool_inv ?s"
    using handle_pool by (auto simp: srv_inv_def cand_inv_def pool_inv_def)
  ultimately show ?case by (simp add: srv_inv_def)
qed (simp_all only: admission_steps offer_step deliver_step channelHandshake_steps restart_steps)

interpretation srv: invariant "\<lambda>s. s = init_srv" "srv_step e" "srv_inv e" for e
  by unfold_locales (auto intro: srv_inv_init srv_inv_step)

lemma srv_inv_reachable: "srv_reachable e s \<Longrightarrow> srv_inv e s"
  unfolding srv_reachable_def by (rule srv.inv_reachable) simp

text \<open>(C3) Admission to the tunnel, under every interleaving of connections, the handshake and
  restarts.  A published control channel belongs to a peer that announced itself with the
  configured token.  A connection waiting in the current run's pool either announced itself with
  the non-empty nonce issued to this run's control channel, or the run's control channel spoke the
  legacy handshake and the connection comes from the control channel's host: a run established with
  the nonce handshake never admits a pool connection by its address.\<close>

theorem pool_admission_safe:
  assumes "srv_reachable e s"
  shows "(\<forall>c. control s = Some c \<longrightarrow>
      (\<exists>a. readAnnouncement (stream e c) = Inr a \<and> isControlSignal (ann_signal a) \<and>
           ann_payload a = Token e)) \<and>
    (\<forall>c \<in> set (tunnelChannel s (generation s)).
       admitted_by_nonce e s (generation s) c \<or> admitted_by_address e s (generation s) c)"
proof -
  have inv: "shared_inv s" "\<And>c. phase_inv e s c" "cand_inv e s" "pool_inv s"
    using srv_inv_reachable [OF assms] by (auto simp: srv_inv_def)
  have "\<exists>g cand. handshake s g = HsDone cand \<and> cand_conn cand = c" if "control s = Some c" for c
    using inv(1) that by (auto simp: shared_inv_def split: restart_phase.splits hs_phase.splits)
  then have "\<exists>cand. claims_control e cand \<and> cand_conn cand = c" if "control s = Some c" for c
    using inv(3) that unfolding cand_inv_def by blast
  then have ctl: "\<exists>a. readAnnouncement (stream e c) = Inr a \<and> isControlSignal (ann_signal a) \<and>
      ann_payload a = Token e" if "control s = Some c" for c
    using that by (fastforce simp: claims_control_def)
  moreover have "admitted_by_nonce e s (generation s) c \<or> admitted_by_address e s (generation s) c"
    if "c \<in> set (tunnelChannel s (generation s))" for c
  proof -
    obtain r where "phases s c = InPool (generation s) r" using inv(4) \<open>c \<in> _\<close> by (auto simp: pool_inv_def)
    then show ?thesis using inv(2) [of c] by (cases r) (auto simp: phase_inv_def)
  qed
  ultimately show ?thesis by blast
qed

text \<open>A run: connection 0 claims the control channel with the nonce handshake, connection 1 announces
  itself with the nonce, and connection 2, which announces another nonce, is turned away.\<close>

definition example_env :: srv_env where
  "example_env = \<lparr>Token = [116], Stealth = False, ChannelSize = 4, noise_ok = (\<lambda>_. True),
     remote = (\<lambda>_. ''1.2.3.4:5''),
     stream = (\<lambda>c. if c = 0 then transport_string_frame ([116], SG_ChanV2)
       else if c = 1 then transport_string_frame (NewPoolNonce [5], SG_Pool)
       else transport_string_frame ([48], SG_Pool)),
     random = (\<lambda>_. Some [5]), send_ok = (\<lambda>_. True), ParseIP = (\<lambda>_. [])\<rparr>"

definition example_moves :: "move list" where
  "example_moves = [Accept 0 0, Go 0, Go 0, Go 0, Go 0, Hs 0, Hs 0, Hs 0, Accept 1 0, Accept 2 0,
     Go 1, Go 2, Go 1, Go 2, Go 1, Go 2, Go 1, Go 2, Go 1]"

lemma readAnnouncement_frame:
  "length p \<le> 65535 \<Longrightarrow>
    readAnnouncement (transport_string_frame (p, sig)) = Inr \<lparr>ann_signal = sig, ann_payload = p\<rparr>"
  using tstr.dec_enc [of "(p, sig)" "[]"]
  by (simp add: readAnnouncement_def)

lemma example_nonce: "NewPoolNonce [5] = [48, 53]"
  by (simp add: NewPoolNonce_def hex_encode_def hex_digit_def)

lemma example_env_facts:
  "Token example_env = [116]" "\<not> Stealth example_env" "ChannelSize example_env = 4"
  "random example_env c = Some [5]" "send_ok example_env c"
  "readAnnouncement (stream example_env 0) = Inr \<lparr>ann_signal = SG_ChanV2, ann_payload = [116]\<rparr>"
  "readAnnouncement (stream example_env (Suc 0)) = Inr \<lparr>ann_signal = SG_Pool, ann_payload = [48, 53]\<rparr>"
  "readAnnouncement (stream example_env 2) = Inr \<lparr>ann_signal = SG_Pool, ann_payload = [48]\<rparr>"
  by (simp_all add: example_env_def readAnnouncement_frame example_nonce)

lemma go_move_simps:
  "phases s c = Admit g \<Longrightarrow> go_move e c s = Some (set_phase c (after_stealth e s c g) s)"
  "phases s c = SawControl g \<Longrightarrow> go_move e c s = Some (set_phase c (after_nonce_read s g) s)"
  "phases s c = Reading g \<Longrightarrow> go_move e c s = Some (set_phase c (after_read e c g) s)"
  "phases s c = Announced g a \<Longrightarrow> go_move e c s = Some (set_phase c (after_announcement e s c g a) s)"
  "phases s c = Offering g cand \<Longrightarrow> go_move e c s = Some (offer_candidate s c g cand)"
  "phases s c = Delivering g r \<Longrightarrow> go_move e c s = Some (deliverTunnelConn e s c g r)"
  by (simp_all add: go_move_def)

lemma example_run:
  "\<exists>s. exec_moves example_env example_moves init_srv = Some s \<and>
     generation s = 0 \<and> control s = Some 0 \<and> tunnelChannel s 0 = [1] \<and> phases s 2 = Discarded"
  by (simp add: example_moves_def exec_move_def go_move_simps handshake_move_def init_srv_def example_env_facts
      after_stealth_def after_read_def after_announcement_def admitControlChannel_def isControlSignal_def
      signal_defs tokenMatches_def controlAck_def example_nonce offer_candidate_def after_nonce_read_def
      nonce_Verify_def deliverTunnelConn_def Let_def)

theorem pool_admission_safe_witness:
  "\<exists>s. srv_reachable example_env s \<and> control s = Some 0 \<and> tunnelChannel s (generation s) = [1] \<and>
     phases s 2 = Discarded \<and>
     (admitted_by_nonce example_env s (generation s) 1 \<or> admitted_by_address example_env s (generation s) 1)"
proof -
  obtain s where s: "exec_moves example_env example_moves init_srv = Some s" "generation s = 0"
    "control s = Some 0" "tunnelChannel s 0 = [1]" "phases s 2 = Discarded"
    using example_run by blast
  have "srv_reachable example_env s"
    using exec_moves_reachable [OF _ s(1)] by (simp add: srv_reachable_def)
  with pool_admission_safe [OF this] s show ?thesis by auto
qed

end
