(* ===== verification/Udp_Flow.thy ===== *)
theory Udp_Flow
  imports Wire_Framing
begin

text \<open>
  Forwarded UDP: the server's flows (\<open>internal/server/transport/udpforward.go\<close>) and the client's end
  (\<open>internal/client/transport/udpforward.go\<close>).  A flow turns the datagrams of one source address
  into framed bytes (\<open>Read\<close>) and framed bytes from the tunnel into datagrams (\<open>Write\<close>), however the
  transport cuts the stream.

  The queue of a flow is a Go channel of fixed capacity; \<open>deliver\<close> takes a coin for the choice Go
  makes when several cases of a \<open>select\<close> are ready.  The socket is an argument that says which sends
  fail.  A flow is closed between calls: a close in the middle of a \<open>Write\<close> is a close between the
  writes of the two halves of its chunk.
\<close>

section \<open>One flow\<close>

definition udpIdleTimeout :: int where "udpIdleTimeout = 60 * 1000000000"
definition udpFlowQueue :: nat where "udpFlowQueue = 256"

text \<open>\<open>fl_hdr\<close> is \<open>hdr[:hdrN]\<close>.  \<open>sent\<close> and \<open>attempts\<close> record what \<open>send\<close> has put on the wire and how often
  it was called.\<close>

record udp_flow =
  fl_key :: string
  fl_in :: "bytes list"
  fl_done :: bool
  lastSeen :: int
  pending :: bytes
  fl_hdr :: bytes
  fl_body :: bytes
  fl_want :: nat
  sent :: "bytes list"
  attempts :: nat

definition newUDPFlow :: "int \<Rightarrow> string \<Rightarrow> udp_flow" where
  "newUDPFlow now key =
     \<lparr>fl_key = key, fl_in = [], fl_done = False, lastSeen = now, pending = [], fl_hdr = [],
      fl_body = [], fl_want = 0, sent = [], attempts = 0\<rparr>"

definition deliver :: "int \<Rightarrow> bool \<Rightarrow> bytes \<Rightarrow> udp_flow \<Rightarrow> udp_flow" where
  "deliver now coin payload f =
     (if length (fl_in f) < udpFlowQueue \<and> \<not> (fl_done f \<and> coin)
      then f\<lparr>fl_in := fl_in f @ [payload], lastSeen := now\<rparr>
      else f)"

definition flow_frame :: "bytes \<Rightarrow> bytes" where
  "flow_frame payload =
     [word_of_nat (length payload div 256), word_of_nat (length payload)] @ payload"

datatype read_result = Blocked | ReadEOF | ReadBytes bytes

definition flow_Read :: "int \<Rightarrow> nat \<Rightarrow> udp_flow \<Rightarrow> read_result \<times> udp_flow" where
  "flow_Read now n f =
     (if pending f \<noteq> [] then
        (ReadBytes (take n (pending f)), f\<lparr>pending := drop n (pending f), lastSeen := now\<rparr>)
      else case fl_in f of
          payload # q \<Rightarrow>
            (let frame = flow_frame payload in
             (ReadBytes (take n frame), f\<lparr>fl_in := q, pending := drop n frame, lastSeen := now\<rparr>))
        | [] \<Rightarrow> (if fl_done f then ReadEOF else Blocked, f))"

definition flow_send :: "(nat \<Rightarrow> bool) \<Rightarrow> int \<Rightarrow> bytes \<Rightarrow> udp_flow \<Rightarrow> bool \<times> udp_flow" where
  "flow_send fails now payload f =
     (let f' = f\<lparr>attempts := Suc (attempts f)\<rparr> in
      if fails (attempts f) then (False, f')
      else (True, f'\<lparr>sent := sent f @ [payload], lastSeen := now\<rparr>))"

lemma flow_send_fields:
  "flow_send fails now p f = (b, f') \<Longrightarrow> fl_hdr f' = fl_hdr f \<and> fl_done f' = fl_done f \<and>
    fl_body f' = fl_body f \<and> fl_want f' = fl_want f"
  by (auto simp: flow_send_def Let_def split: if_splits)

datatype write_error = ErrClosed | SendError | SliceBounds

text \<open>The loop of \<open>Write\<close>: the bytes not consumed, the error and the flow.\<close>

function write_loop ::
    "(nat \<Rightarrow> bool) \<Rightarrow> int \<Rightarrow> bytes \<Rightarrow> udp_flow \<Rightarrow> bytes \<times> write_error option \<times> udp_flow" where
  "write_loop fails now p f =
     (if p = [] then ([], None, f)
      else if fl_done f then (p, Some ErrClosed, f)
      else if length (fl_hdr f) < 2 then
        (let n = min (2 - length (fl_hdr f)) (length p);
             hdr = fl_hdr f @ take n p;
             p1 = drop n p in
         if length hdr < 2 then (p1, None, f\<lparr>fl_hdr := hdr\<rparr>)
         else
           (let w = unat (hdr ! 0) * 256 + unat (hdr ! 1);
                f1 = f\<lparr>fl_hdr := hdr, fl_want := w, fl_body := []\<rparr> in
            if w = 0 then
              (case flow_send fails now [] f1 of
                 (False, f2) \<Rightarrow> (p1, Some SendError, f2)
               | (True, f2) \<Rightarrow> write_loop fails now p1 (f2\<lparr>fl_hdr := []\<rparr>))
            else write_loop fails now p1 f1))
      else if fl_want f < length (fl_body f) then (p, Some SliceBounds, f)
      else
        (let need = min (fl_want f - length (fl_body f)) (length p);
             body = fl_body f @ take need p;
             p1 = drop need p;
             f1 = f\<lparr>fl_body := body\<rparr> in
         if length body = fl_want f then
           (case flow_send fails now body f1 of
              (False, f2) \<Rightarrow> (p1, Some SendError, f2)
            | (True, f2) \<Rightarrow> write_loop fails now p1 (f2\<lparr>fl_hdr := [], fl_want := 0, fl_body := []\<rparr>))
         else write_loop fails now p1 f1))"
  by pat_completeness auto

termination
proof (relation "measure (\<lambda>(fails, now, p, f). 2 * length p + (if length (fl_hdr f) < 2 then 0 else 1))",
    goal_cases)
  case 1 then show ?case by simp
next
  case (2 fails now p f n hdr p1 w f1 b f2)
  then show ?case by (cases p) (auto simp: Let_def)
next
  case (3 fails now p f n hdr p1 w f1)
  then show ?case by (cases p) (auto simp: Let_def)
next
  case (4 fails now p f need body p1 f1 b f2)
  then have "length p1 \<le> length p" "\<not> length (fl_hdr f) < 2" by simp_all
  then show ?case by simp
next
  case (5 fails now p f need body p1 f1)
  then have "0 < need" by (cases p) (auto simp: min_def split: if_splits)
  with 5 show ?case by auto
qed

definition flow_Write ::
    "(nat \<Rightarrow> bool) \<Rightarrow> int \<Rightarrow> bytes \<Rightarrow> udp_flow \<Rightarrow> (nat \<times> write_error option) \<times> udp_flow" where
  "flow_Write fails now p f =
     (case write_loop fails now p f of (rest, e, f') \<Rightarrow> ((length p - length rest, e), f'))"

definition flow_close :: "udp_flow \<Rightarrow> udp_flow" where
  "flow_close f = f\<lparr>fl_done := True\<rparr>"

section \<open>The client's end\<close>

definition firstUDPBackend :: "string \<Rightarrow> string" where
  "firstUDPBackend addr = takeWhile (\<lambda>c. c \<noteq> CHR ''|'') addr"

lemma ReadDatagram_shorter:
  "ReadDatagram n s = Inr (p, s') \<Longrightarrow> length s' < length s"
  by (auto simp: ReadDatagram_def Let_def dest!: read_full_InrD split: sum.splits if_splits)

text \<open>\<open>tunnelToBackend\<close> on the whole stream of a tunnel connection that ends: what it writes to the
  backend, whose writes may fail.\<close>

function tunnelToBackend :: "(nat \<Rightarrow> bool) \<Rightarrow> nat \<Rightarrow> bytes \<Rightarrow> bytes list" where
  "tunnelToBackend fails k s =
     (case ReadDatagram MaxDatagram s of
        Inl _ \<Rightarrow> []
      | Inr (p, s') \<Rightarrow> if fails k then [] else p # tunnelToBackend fails (Suc k) s')"
  by pat_completeness auto
termination
  by (relation "measure (\<lambda>(_, _, s). length s)") (auto dest: ReadDatagram_shorter)

text \<open>\<open>backendToTunnel\<close>: the frames written for the datagrams the backend socket returns, until one
  cannot be framed or the tunnel write fails.\<close>

fun backendToTunnel :: "(nat \<Rightarrow> bool) \<Rightarrow> nat \<Rightarrow> bytes list \<Rightarrow> bytes list" where
  "backendToTunnel fails k [] = []"
| "backendToTunnel fails k (d # ds) =
     (case WriteDatagram d of
        Inl _ \<Rightarrow> []
      | Inr fr \<Rightarrow> if fails k then [] else fr # backendToTunnel fails (Suc k) ds)"

declare write_loop.simps [simp del] tunnelToBackend.simps [simp del]

section \<open>Write refines an incremental parser\<close>

text \<open>What a byte stream of frames means: the complete datagrams at its front, and the rest.\<close>

function parse_frames :: "bytes \<Rightarrow> bytes list \<times> bytes" where
  "parse_frames s =
     (if length s < 2 then ([], s)
      else
        (let w = unat (s ! 0) * 256 + unat (s ! 1) in
         if length s < 2 + w then ([], s)
         else (case parse_frames (drop (2 + w) s) of (ds, r) \<Rightarrow> (take w (drop 2 s) # ds, r))))"
  by pat_completeness auto
termination by (relation "measure length") auto

declare parse_frames.simps [simp del]

text \<open>The abstraction: a flow stands for the bytes of the frame it has not completed.\<close>

definition buffered :: "udp_flow \<Rightarrow> bytes" where
  "buffered f = fl_hdr f @ fl_body f"

definition write_inv :: "udp_flow \<Rightarrow> bool" where
  "write_inv f =
     (if length (fl_hdr f) < 2 then fl_body f = []
      else length (fl_hdr f) = 2 \<and> fl_want f = unat (fl_hdr f ! 0) * 256 + unat (fl_hdr f ! 1) \<and>
        length (fl_body f) < fl_want f)"

lemma parse_short: "length s < 2 \<Longrightarrow> parse_frames s = ([], s)"
  by (simp add: parse_frames.simps)

lemma parse_incomplete:
  "length h = 2 \<Longrightarrow> length b < unat (h ! 0) * 256 + unat (h ! 1) \<Longrightarrow> parse_frames (h @ b) = ([], h @ b)"
  by (simp add: parse_frames.simps [of "h @ b"] nth_append Let_def)

lemma parse_complete:
  assumes "length h = 2" "length b = unat (h ! 0) * 256 + unat (h ! 1)"
  shows "parse_frames (h @ b @ s) = (b # fst (parse_frames s), snd (parse_frames s))"
  using assms by (simp add: parse_frames.simps [of "h @ b @ s"] nth_append Let_def split_def)

lemma parse_buffered: "write_inv f \<Longrightarrow> parse_frames (buffered f) = ([], buffered f)"
  by (auto simp: write_inv_def buffered_def parse_short parse_incomplete split: if_splits)

text \<open>One turn of the loop on each branch, with a socket that accepts every datagram.\<close>

lemma write_turn_header:
  fixes f p
  defines "n \<equiv> min (2 - length (fl_hdr f)) (length p)"
  defines "h \<equiv> fl_hdr f @ take n p"
  assumes "p \<noteq> []" "\<not> fl_done f" "length (fl_hdr f) < 2" "\<And>k. \<not> fails k"
  shows "length h < 2 \<Longrightarrow> drop n p = [] \<and> write_loop fails now p f = ([], None, f\<lparr>fl_hdr := h\<rparr>)"
    and "length h = 2 \<Longrightarrow> w = unat (h ! 0) * 256 + unat (h ! 1) \<Longrightarrow> 0 < w \<Longrightarrow>
      write_loop fails now p f
        = write_loop fails now (drop n p) (f\<lparr>fl_hdr := h, fl_want := w, fl_body := []\<rparr>)"
    and "length h = 2 \<Longrightarrow> unat (h ! 0) * 256 + unat (h ! 1) = 0 \<Longrightarrow>
      write_loop fails now p f = write_loop fails now (drop n p)
        (f\<lparr>fl_hdr := [], fl_want := 0, fl_body := [], attempts := Suc (attempts f), sent := sent f @ [[]],
           lastSeen := now\<rparr>)"
proof -
  show "drop n p = [] \<and> write_loop fails now p f = ([], None, f\<lparr>fl_hdr := h\<rparr>)" if "length h < 2"
  proof -
    have "n = length p" using that by (auto simp: h_def n_def min_def split: if_splits)
    then show ?thesis
      using that assms(3-5) by (subst write_loop.simps) (simp add: Let_def h_def flip: n_def)
  qed
  show "write_loop fails now p f
        = write_loop fails now (drop n p) (f\<lparr>fl_hdr := h, fl_want := w, fl_body := []\<rparr>)"
    if "length h = 2" "w = unat (h ! 0) * 256 + unat (h ! 1)" "0 < w"
    unfolding write_loop.simps [of fails now p f] Let_def n_def [symmetric] h_def [symmetric]
    using that assms(3-5) by auto
  show "write_loop fails now p f = write_loop fails now (drop n p)
        (f\<lparr>fl_hdr := [], fl_want := 0, fl_body := [], attempts := Suc (attempts f), sent := sent f @ [[]],
           lastSeen := now\<rparr>)"
    if "length h = 2" "unat (h ! 0) * 256 + unat (h ! 1) = 0"
    unfolding write_loop.simps [of fails now p f] Let_def n_def [symmetric] h_def [symmetric]
    using that assms(3-6) by (cases f) (simp add: flow_send_def)
qed

lemma write_turn_body:
  fixes f p
  defines "n \<equiv> min (fl_want f - length (fl_body f)) (length p)"
  defines "b \<equiv> fl_body f @ take n p"
  assumes "p \<noteq> []" "\<not> fl_done f" "\<not> length (fl_hdr f) < 2" "length (fl_body f) < fl_want f" "\<And>k. \<not> fails k"
  shows "length b = fl_want f \<Longrightarrow> write_loop fails now p f = write_loop fails now (drop n p)
      (f\<lparr>fl_hdr := [], fl_want := 0, fl_body := [], attempts := Suc (attempts f), sent := sent f @ [b],
         lastSeen := now\<rparr>)"
    and "length b \<noteq> fl_want f \<Longrightarrow>
      write_loop fails now p f = write_loop fails now (drop n p) (f\<lparr>fl_body := b\<rparr>)"
  unfolding write_loop.simps [of fails now p f] Let_def n_def [symmetric] b_def [symmetric]
  using assms(3-7) by (cases f; simp add: flow_send_def)+

text \<open>What a \<open>Write\<close> that meets no error does, in terms of the parser.\<close>

definition writes_as_parsed :: "bytes \<Rightarrow> udp_flow \<Rightarrow> bytes \<times> write_error option \<times> udp_flow \<Rightarrow> bool" where
  "writes_as_parsed p f r =
     (\<exists>f'. r = ([], None, f') \<and> write_inv f' \<and> fl_done f' = fl_done f \<and>
        sent f' = sent f @ fst (parse_frames (buffered f @ p)) \<and>
        buffered f' = snd (parse_frames (buffered f @ p)) \<and>
        fl_in f' = fl_in f \<and> pending f' = pending f \<and> fl_key f' = fl_key f)"

lemma writes_as_parsed_same:
  assumes "writes_as_parsed q g r" "buffered f @ p = buffered g @ q" "sent g = sent f"
    "fl_done g = fl_done f" "fl_in g = fl_in f" "pending g = pending f" "fl_key g = fl_key f"
  shows "writes_as_parsed p f r"
  using assms by (simp add: writes_as_parsed_def)

lemma writes_as_parsed_frame:
  assumes "writes_as_parsed q g r" "buffered g = []" "buffered f @ p = h @ b @ q" "sent g = sent f @ [b]"
    "length h = 2" "length b = unat (h ! 0) * 256 + unat (h ! 1)"
    "fl_done g = fl_done f" "fl_in g = fl_in f" "pending g = pending f" "fl_key g = fl_key f"
  shows "writes_as_parsed p f r"
  using assms parse_complete [OF assms(5,6), of q] by (auto simp: writes_as_parsed_def)

lemma write_loop_refines:
  assumes ok: "\<And>k. \<not> fails k"
  shows "write_inv f \<Longrightarrow> \<not> fl_done f \<Longrightarrow> writes_as_parsed p f (write_loop fails now p f)"
proof (induction "2 * length p + length (fl_hdr f)" arbitrary: p f rule: less_induct)
  case less
  note inv = less.prems(1) and opn = less.prems(2)
  consider (empty) "p = []" | (hdr) "p \<noteq> []" "length (fl_hdr f) < 2" | (body) "p \<noteq> []" "\<not> length (fl_hdr f) < 2"
    by blast
  then show ?case
  proof cases
    case empty
    then show ?thesis
      using inv parse_buffered [OF inv] by (simp add: write_loop.simps writes_as_parsed_def)
  next
    case hdr
    define n where "n = min (2 - length (fl_hdr f)) (length p)"
    define h where "h = fl_hdr f @ take n p"
    note turn = write_turn_header [OF hdr(1) opn hdr(2) ok, where now = now, folded n_def, folded h_def]
    have b: "fl_body f = []" using inv hdr by (simp add: write_inv_def)
    have split: "buffered f @ p = h @ drop n p" by (simp add: buffered_def b h_def)
    have n: "0 < n" "n \<le> length p" "length h = length (fl_hdr f) + n"
      using hdr by (auto simp: n_def h_def)
    then have dec: "2 * length (drop n p) + k < 2 * length p + length (fl_hdr f)" if "k \<le> length h" for k
      using that by simp
    have "length h \<le> 2" using hdr by (simp add: h_def n_def)
    then consider "length h < 2" | "length h = 2" by linarith
    then show ?thesis
    proof cases
      case 1
      then show ?thesis
        using turn(1) split b inv parse_short [of h]
        by (auto simp: writes_as_parsed_def write_inv_def buffered_def)
    next
      case 2
      show ?thesis
      proof (cases "unat (h ! 0) * 256 + unat (h ! 1) = 0")
        case True
        let ?g = "f\<lparr>fl_hdr := [], fl_want := 0, fl_body := [], attempts := Suc (attempts f),
          sent := sent f @ [[]], lastSeen := now\<rparr>"
        have "writes_as_parsed (drop n p) ?g (write_loop fails now (drop n p) ?g)"
          by (rule less.hyps) (use dec [of 0] opn in \<open>simp_all add: write_inv_def\<close>)
        then show ?thesis
          unfolding turn(3) [OF 2 True]
          by (rule writes_as_parsed_frame [where h = h and b = "[]"])
            (use split 2 True in \<open>simp_all add: buffered_def\<close>)
      next
        case False
        let ?g = "f\<lparr>fl_hdr := h, fl_want := unat (h ! 0) * 256 + unat (h ! 1), fl_body := []\<rparr>"
        have "writes_as_parsed (drop n p) ?g (write_loop fails now (drop n p) ?g)"
          by (rule less.hyps) (use dec [of "length h"] opn 2 False in \<open>simp_all add: write_inv_def\<close>)
        then show ?thesis
          unfolding turn(2) [OF 2 refl, unfolded neq0_conv [symmetric], OF False]
          by (rule writes_as_parsed_same) (use split in \<open>simp_all add: buffered_def\<close>)
      qed
    qed
  next
    case body
    define n where "n = min (fl_want f - length (fl_body f)) (length p)"
    define b where "b = fl_body f @ take n p"
    have h: "length (fl_hdr f) = 2" "fl_want f = unat (fl_hdr f ! 0) * 256 + unat (fl_hdr f ! 1)"
      "length (fl_body f) < fl_want f"
      using inv body by (auto simp: write_inv_def)
    note turn = write_turn_body [OF body(1) opn body(2) h(3) ok, where now = now, folded n_def, folded b_def]
    have split: "buffered f @ p = fl_hdr f @ b @ drop n p" by (simp add: buffered_def b_def)
    have n: "0 < n" "n \<le> length p" "length b \<le> fl_want f" using body(1) h(3) by (auto simp: n_def b_def)
    show ?thesis
    proof (cases "length b = fl_want f")
      case True
      let ?g = "f\<lparr>fl_hdr := [], fl_want := 0, fl_body := [], attempts := Suc (attempts f),
        sent := sent f @ [b], lastSeen := now\<rparr>"
      have "writes_as_parsed (drop n p) ?g (write_loop fails now (drop n p) ?g)"
        by (rule less.hyps) (use n opn h in \<open>simp_all add: write_inv_def\<close>)
      then show ?thesis
        unfolding turn(1) [OF True]
        by (rule writes_as_parsed_frame [where h = "fl_hdr f" and b = b])
          (use split True h in \<open>simp_all add: buffered_def\<close>)
    next
      case False
      let ?g = "f\<lparr>fl_body := b\<rparr>"
      have "writes_as_parsed (drop n p) ?g (write_loop fails now (drop n p) ?g)"
        by (rule less.hyps) (use n opn h False in \<open>simp_all add: write_inv_def\<close>)
      then show ?thesis
        unfolding turn(2) [OF False]
        by (rule writes_as_parsed_same) (use split in \<open>simp_all add: buffered_def\<close>)
    qed
  qed
qed

lemma parse_append:
  "parse_frames (a @ b) =
     (fst (parse_frames a) @ fst (parse_frames (snd (parse_frames a) @ b)),
      snd (parse_frames (snd (parse_frames a) @ b)))"
proof (induction a rule: parse_frames.induct)
  case (1 s)
  define w where "w = unat (s ! 0) * 256 + unat (s ! 1)"
  show ?case
  proof (cases "length s < 2 + w \<or> length s < 2")
    case True
    then have "parse_frames s = ([], s)" by (auto simp: parse_frames.simps [of s] w_def Let_def)
    then show ?thesis by simp
  next
    case False
    then have h: "length (take 2 s) = 2" "length (take w (drop 2 s)) = unat (take 2 s ! 0) * 256 + unat (take 2 s ! 1)"
      by (auto simp: w_def)
    have s: "s = take 2 s @ take w (drop 2 s) @ drop (2 + w) s"
      by (metis add.commute append_take_drop_id drop_drop)
    have "parse_frames s = (take w (drop 2 s) # fst (parse_frames (drop (2 + w) s)), snd (parse_frames (drop (2 + w) s)))"
      using parse_complete [OF h, of "drop (2 + w) s"] s by simp
    moreover have "parse_frames (s @ b)
        = (take w (drop 2 s) # fst (parse_frames (drop (2 + w) s @ b)), snd (parse_frames (drop (2 + w) s @ b)))"
      using parse_complete [OF h, of "drop (2 + w) s @ b"] s by (metis append.assoc)
    moreover have "parse_frames (drop (2 + w) s @ b) =
        (fst (parse_frames (drop (2 + w) s)) @ fst (parse_frames (snd (parse_frames (drop (2 + w) s)) @ b)),
         snd (parse_frames (snd (parse_frames (drop (2 + w) s)) @ b)))"
      using "1.IH" [OF _ w_def] False by auto
    ultimately show ?thesis by simp
  qed
qed

fun write_all ::
    "(nat \<Rightarrow> bool) \<Rightarrow> int \<Rightarrow> bytes list \<Rightarrow> udp_flow \<Rightarrow> (nat \<times> write_error option) list \<times> udp_flow" where
  "write_all fails now [] f = ([], f)"
| "write_all fails now (c # cs) f =
     (case flow_Write fails now c f of
        (r, f1) \<Rightarrow> (case write_all fails now cs f1 of (rs, f2) \<Rightarrow> (r # rs, f2)))"

lemma write_all_parsed:
  assumes "write_inv f" "\<not> fl_done f" "\<And>k. \<not> fails k"
  shows "case write_all fails now cs f of (rs, f') \<Rightarrow>
    rs = map (\<lambda>c. (length c, None)) cs \<and> write_inv f' \<and>
    sent f' = sent f @ fst (parse_frames (buffered f @ concat cs)) \<and>
    buffered f' = snd (parse_frames (buffered f @ concat cs))"
  using assms(1,2)
proof (induction cs arbitrary: f)
  case Nil
  then show ?case using parse_buffered by simp
next
  case (Cons c cs)
  obtain f1 where f1: "write_loop fails now c f = ([], None, f1)" "write_inv f1" "\<not> fl_done f1"
      "sent f1 = sent f @ fst (parse_frames (buffered f @ c))" "buffered f1 = snd (parse_frames (buffered f @ c))"
    using write_loop_refines [where fails = fails and p = c and now = now, OF assms(3) Cons.prems] Cons.prems(2) by (auto simp: writes_as_parsed_def)
  show ?case
    using Cons.IH [OF f1(2,3)] f1 parse_append [of "buffered f @ c" "concat cs"]
    by (auto simp: flow_Write_def split: prod.splits)
qed

text \<open>(C21) \<open>Write\<close> implements the incremental frame parser, however the transport cuts the stream.  From
  any state between two calls, writing chunks one after the other consumes each of them whole and
  without error, sends exactly the complete datagrams of the buffered bytes followed by the chunks,
  in order, and buffers exactly the bytes of the frame still incomplete.\<close>

theorem write_refines_parser:
  assumes "write_inv f" "\<not> fl_done f" "\<And>k. \<not> fails k"
  shows "case write_all fails now cs f of (rs, f') \<Rightarrow>
    rs = map (\<lambda>c. (length c, None)) cs \<and> write_inv f' \<and>
    sent f' = sent f @ fst (parse_frames (buffered f @ concat cs)) \<and>
    buffered f' = snd (parse_frames (buffered f @ concat cs))"
  using assms by (rule write_all_parsed)

theorem write_refines_parser_witness:
  "sent (snd (write_all (\<lambda>_. False) 0 [[0], [2, 7], [8, 0, 0]] (newUDPFlow 0 ''k''))) = [[7, 8], []]"
  using write_refines_parser [of "newUDPFlow 0 ''k''" "\<lambda>_. False" "[[0], [2, 7], [8, 0, 0]]" 0]
  by (simp add: newUDPFlow_def write_inv_def buffered_def parse_frames.simps split: prod.splits)

section \<open>Both directions of a flow\<close>

lemma flow_frame_datagram: "flow_frame d = datagram_frame d"
proof -
  have "n mod 65536 div 256 = n div 256 mod 256" for n :: nat
    using mod_mult2_eq [of n 256 256] by simp
  then have "ucast (drop_bit 8 (len16 d)) = (word_of_nat (length d div 256) :: byte)"
    by (intro word_unat_eq_iff [THEN iffD2])
      (simp add: unsigned_ucast_eq take_bit_eq_mod unat_drop_bit_eq drop_bit_eq_div unat_div_distrib unat_len16 unat_of_nat)
  moreover have "ucast (len16 d) = (word_of_nat (length d) :: byte)"
    by (intro word_unat_eq_iff [THEN iffD2]) (simp add: unsigned_ucast_eq take_bit_eq_mod unat_len16 unat_of_nat mod_mod_cancel)
  ultimately show ?thesis
    by (simp add: flow_frame_def datagram_frame_def be16_def)
qed

text \<open>The bytes a flow still owes the tunnel.\<close>

definition stream_of :: "udp_flow \<Rightarrow> bytes" where
  "stream_of f = pending f @ concat (map flow_frame (fl_in f))"

lemma flow_Read_stream:
  assumes "flow_Read now n f = (r, f')"
  shows "case r of ReadBytes b \<Rightarrow> stream_of f = b @ stream_of f' \<and> (0 < n \<longrightarrow> b \<noteq> [])
    | ReadEOF \<Rightarrow> stream_of f = [] \<and> fl_done f \<and> f' = f
    | Blocked \<Rightarrow> stream_of f = [] \<and> \<not> fl_done f \<and> f' = f"
  using assms
  by (auto simp: flow_Read_def stream_of_def flow_frame_def Let_def split: if_splits list.splits)

fun read_seq :: "int \<Rightarrow> nat list \<Rightarrow> udp_flow \<Rightarrow> bytes \<times> udp_flow" where
  "read_seq now [] f = ([], f)"
| "read_seq now (n # ns) f =
     (case flow_Read now n f of
        (ReadBytes b, f1) \<Rightarrow> (case read_seq now ns f1 of (bs, f2) \<Rightarrow> (b @ bs, f2))
      | (_, f1) \<Rightarrow> ([], f1))"

lemma read_seq_stream:
  assumes "\<forall>n \<in> set ns. 0 < n" "length (stream_of f) \<le> length ns"
  shows "fst (read_seq now ns f) = stream_of f"
  using assms
proof (induction ns arbitrary: f)
  case (Cons n ns)
  obtain r f1 where r: "flow_Read now n f = (r, f1)" by (cases "flow_Read now n f")
  show ?case
  proof (cases r)
    case (ReadBytes b)
    then have b: "stream_of f = b @ stream_of f1" "b \<noteq> []"
      using flow_Read_stream [OF r] Cons.prems(1) by auto
    then have "length (stream_of f1) \<le> length ns" using Cons.prems(2) by (cases b) auto
    then show ?thesis using Cons.IH [of f1] Cons.prems(1) r ReadBytes b by (auto split: prod.splits)
  qed (use flow_Read_stream [OF r] r in auto)
qed simp

lemma deliver_all:
  assumes "\<not> fl_done f" "length (fl_in f) + length ds \<le> udpFlowQueue"
  shows "fold (deliver now coin) ds f = f\<lparr>fl_in := fl_in f @ ds, lastSeen := (if ds = [] then lastSeen f else now)\<rparr>"
  using assms
proof (induction ds arbitrary: f)
  case (Cons d ds)
  then show ?case by (simp add: deliver_def)
qed simp

lemma tunnelToBackend_frames:
  assumes "\<forall>d \<in> set ds. length d \<le> MaxDatagram" "\<And>j. \<not> fails j"
  shows "tunnelToBackend fails k (concat (map datagram_frame ds)) = ds"
  using assms(1)
proof (induction ds arbitrary: k)
  case Nil
  then show ?case by (simp add: tunnelToBackend.simps ReadDatagram_def read_full_def)
next
  case (Cons d ds)
  then show ?case
    using dgram.dec_enc [of d "concat (map datagram_frame ds)"] assms(2) by (simp add: tunnelToBackend.simps)
qed

lemma backendToTunnel_frames:
  assumes "\<forall>d \<in> set ds. length d \<le> MaxDatagram" "\<And>j. \<not> fails j"
  shows "backendToTunnel fails k ds = map datagram_frame ds"
  using assms by (induction ds arbitrary: k) (simp_all add: WriteDatagram_Inr)

lemma parse_datagrams:
  assumes "\<forall>d \<in> set ds. length d \<le> MaxDatagram"
  shows "parse_frames (concat (map datagram_frame ds)) = (ds, [])"
  using assms
proof (induction ds)
  case (Cons d ds)
  have "unat (be16 (len16 d) ! 0) * 256 + unat (be16 (len16 d) ! 1) = length d"
  proof -
    have h: "be16 (len16 d) = [word_of_nat (length d div 256), word_of_nat (length d)]"
      using flow_frame_datagram [of d] by (simp add: flow_frame_def datagram_frame_def)
    have "length d div 256 mod 256 = length d div 256"
      using Cons.prems by (intro mod_less) (simp add: MaxDatagram_def less_mult_imp_div_less)
    then show ?thesis unfolding h by (simp add: unat_of_nat)
  qed
  then show ?case
    using parse_complete [of "be16 (len16 d)" d "concat (map datagram_frame ds)"] Cons
    by (simp add: datagram_frame_def [of d])
qed (simp add: parse_short)

text \<open>(C4) A forwarded UDP flow carries datagrams unchanged in both directions.  Datagrams filed under a
  flow (as many as its queue holds) and read by the transport through buffers of any sizes reach the
  backend as the same datagrams in the same order once the transport has made enough reads; and the
  backend's datagrams, framed by the client and handed to the flow in chunks cut anywhere, are sent
  to the source as the same datagrams in the same order, with nothing left over.\<close>

theorem udp_flow_end_to_end:
  assumes "\<forall>d \<in> set ds. length d \<le> MaxDatagram" "length ds \<le> udpFlowQueue"
    and "\<forall>n \<in> set ns. 0 < n" "(\<Sum>d\<leftarrow>ds. 2 + length d) \<le> length ns"
    and "concat chunks = concat (backendToTunnel (\<lambda>_. False) 0 ds)"
  shows "tunnelToBackend (\<lambda>_. False) 0 (fst (read_seq now ns (fold (deliver now coin) ds (newUDPFlow now key)))) = ds \<and>
    sent (snd (write_all (\<lambda>_. False) now chunks (newUDPFlow now key))) = ds \<and>
    buffered (snd (write_all (\<lambda>_. False) now chunks (newUDPFlow now key))) = []"
proof
  let ?f = "newUDPFlow now key"
  let ?g = "fold (deliver now coin) ds ?f"
  have frames: "flow_frame = datagram_frame" by (rule ext) (rule flow_frame_datagram)
  have "?g = ?f\<lparr>fl_in := ds, lastSeen := (if ds = [] then lastSeen ?f else now)\<rparr>"
    using deliver_all [of ?f ds now coin] assms(2) by (simp add: newUDPFlow_def)
  then have s: "stream_of ?g = concat (map datagram_frame ds)"
    by (simp add: stream_of_def newUDPFlow_def frames)
  have "length (concat (map datagram_frame ds)) = (\<Sum>d\<leftarrow>ds. 2 + length d)"
    by (induction ds) (simp_all add: datagram_frame_def)
  then have "fst (read_seq now ns ?g) = concat (map datagram_frame ds)"
    using read_seq_stream [OF assms(3), of ?g now] assms(4) s by simp
  then show "tunnelToBackend (\<lambda>_. False) 0 (fst (read_seq now ns ?g)) = ds"
    using tunnelToBackend_frames [OF assms(1), of "\<lambda>_. False"] by simp
  have "write_inv ?f" "\<not> fl_done ?f" "buffered ?f = []" "sent ?f = []"
    by (simp_all add: newUDPFlow_def write_inv_def buffered_def)
  moreover have "concat chunks = concat (map datagram_frame ds)"
    using assms(5) backendToTunnel_frames [OF assms(1), of "\<lambda>_. False" 0] by simp
  ultimately show "sent (snd (write_all (\<lambda>_. False) now chunks ?f)) = ds \<and>
      buffered (snd (write_all (\<lambda>_. False) now chunks ?f)) = []"
    using write_all_parsed [of ?f "\<lambda>_. False" chunks now] parse_datagrams [OF assms(1)]
    by (auto split: prod.splits)
qed

theorem udp_flow_end_to_end_witness:
  "sent (snd (write_all (\<lambda>_. False) 5 [[0], [1, 9, 0], [0]] (newUDPFlow 5 ''k''))) = [[9], []]"
  using udp_flow_end_to_end [of "[[9], []]" "replicate 5 1" "[[0], [1, 9, 0], [0]]" 5 True "''k''"]
  by (simp add: MaxDatagram_def udpFlowQueue_def WriteDatagram_def be16_def len16_def)

end
