(* ===== verification/Tunnel_Limits.thy ===== *)
theory Tunnel_Limits
  imports Go_Prelude
begin

text \<open>
  The per-tunnel limits (\<open>internal/server/transport/limits.go\<close>): a cap on forwarded connections, taken
  and given back by the goroutines that carry them, and a bandwidth cap charged to a token bucket.

  \<open>acquire\<close> is two atomic additions with a comparison between them, so several goroutines can be between
  the two; the step relation below has one step per addition.  The counter is an \<open>int32\<close> that counts
  goroutines, and is modelled as an integer.  The token bucket is \<open>golang.org/x/time/rate\<close>: what is
  modelled is how much is asked of it, in which pieces, and that it may answer with an error.
\<close>

record Limits =
  MaxConnections :: int
  BandwidthMbps :: int

definition int32 :: "int \<Rightarrow> int" where
  "int32 x = (x + 2 ^ 31) mod 2 ^ 32 - 2 ^ 31"

text \<open>\<open>bucket\<close> is the burst of the token bucket, one second of the rate, when there is one.\<close>

record limiter =
  maxConns :: int
  active :: int
  bucket :: "int option"

definition newLimiter :: "Limits \<Rightarrow> limiter option" where
  "newLimiter l =
     (if MaxConnections l \<le> 0 \<and> BandwidthMbps l \<le> 0 then None
      else Some \<lparr>maxConns = int32 (MaxConnections l), active = 0,
        bucket = (if 0 < BandwidthMbps l then Some (BandwidthMbps l * 1000000 div 8) else None)\<rparr>)"

text \<open>\<open>acquire\<close> and \<open>release\<close> run without another goroutine in between.\<close>

definition acquire :: "limiter option \<Rightarrow> bool \<times> limiter option" where
  "acquire lo =
     (case lo of
        None \<Rightarrow> (True, None)
      | Some l \<Rightarrow>
          (if maxConns l \<le> 0 then (True, Some l)
           else
             (let l1 = l\<lparr>active := active l + 1\<rparr> in
              if active l1 > maxConns l then (False, Some (l1\<lparr>active := active l1 - 1\<rparr>))
              else (True, Some l1))))"

definition release :: "limiter option \<Rightarrow> limiter option" where
  "release lo =
     (case lo of
        None \<Rightarrow> None
      | Some l \<Rightarrow> if maxConns l \<le> 0 then Some l else Some (l\<lparr>active := active l - 1\<rparr>))"

text \<open>\<open>wait\<close>: the amounts asked of the bucket, until it answers with an error.\<close>

function wait_chunks :: "(nat \<Rightarrow> bool) \<Rightarrow> nat \<Rightarrow> int \<Rightarrow> int \<Rightarrow> int list" where
  "wait_chunks fails k burst n =
     (if n \<le> 0 then []
      else
        (let chunk = (if 0 < burst \<and> n > burst then burst else n) in
         if fails k then [chunk] else chunk # wait_chunks fails (Suc k) burst (n - chunk)))"
  by pat_completeness auto
termination by (relation "measure (\<lambda>(_, _, _, n). nat n)") (auto split: if_splits)

declare wait_chunks.simps [simp del]

section \<open>Interleaved use\<close>

record lim_state =
  lim :: limiter
  holding :: "nat set"
  rejecting :: "nat set"

inductive lim_step :: "lim_state \<Rightarrow> lim_state \<Rightarrow> bool" where
  add_ok: "\<lbrakk>g \<notin> holding s; g \<notin> rejecting s; active (lim s) + 1 \<le> maxConns (lim s)\<rbrakk>
    \<Longrightarrow> lim_step s (s\<lparr>lim := (lim s)\<lparr>active := active (lim s) + 1\<rparr>, holding := insert g (holding s)\<rparr>)"
| add_over: "\<lbrakk>g \<notin> holding s; g \<notin> rejecting s; active (lim s) + 1 > maxConns (lim s)\<rbrakk>
    \<Longrightarrow> lim_step s (s\<lparr>lim := (lim s)\<lparr>active := active (lim s) + 1\<rparr>, rejecting := insert g (rejecting s)\<rparr>)"
| undo: "g \<in> rejecting s
    \<Longrightarrow> lim_step s (s\<lparr>lim := (lim s)\<lparr>active := active (lim s) - 1\<rparr>, rejecting := rejecting s - {g}\<rparr>)"
| give_back: "g \<in> holding s
    \<Longrightarrow> lim_step s (s\<lparr>lim := (lim s)\<lparr>active := active (lim s) - 1\<rparr>, holding := holding s - {g}\<rparr>)"

definition lim_init :: "limiter \<Rightarrow> lim_state" where
  "lim_init l = \<lparr>lim = l, holding = {}, rejecting = {}\<rparr>"

definition lim_inv :: "int \<Rightarrow> lim_state \<Rightarrow> bool" where
  "lim_inv m s =
     (finite (holding s) \<and> finite (rejecting s) \<and> maxConns (lim s) = m \<and>
      active (lim s) = int (card (holding s)) + int (card (rejecting s)) \<and> int (card (holding s)) \<le> m)"

lemma lim_inv_step: "lim_step s s' \<Longrightarrow> lim_inv m s \<Longrightarrow> lim_inv m s'"
proof (induction rule: lim_step.induct)
  case (undo g s)
  then have "0 < card (rejecting s)" by (auto simp: lim_inv_def card_gt_0_iff)
  with undo show ?case by (simp add: lim_inv_def card_Diff_singleton of_nat_diff)
next
  case (give_back g s)
  then have "0 < card (holding s)" by (auto simp: lim_inv_def card_gt_0_iff)
  with give_back show ?case by (simp add: lim_inv_def card_Diff_singleton of_nat_diff)
qed (auto simp: lim_inv_def)

interpretation cap: invariant "\<lambda>s. \<exists>l. s = lim_init l \<and> maxConns l = m \<and> active l = 0 \<and> 0 \<le> m" lim_step "lim_inv m"
  for m
  by (unfold_locales; (erule (1) lim_inv_step)?) (auto simp: lim_inv_def lim_init_def)

text \<open>The connection cap holds under concurrency.  Whatever the interleaving of goroutines taking and
  returning slots, no more than the configured number hold one; the counter is the number of holders
  plus those about to withdraw; and when nobody is about to withdraw, a slot is refused exactly when
  all of them are held.\<close>

theorem limit_never_exceeded:
  assumes "newLimiter cfg = Some l" "0 < MaxConnections cfg" "MaxConnections cfg < 2 ^ 31"
    and "lim_step\<^sup>*\<^sup>* (lim_init l) s"
  shows "int (card (holding s)) \<le> MaxConnections cfg \<and>
    active (lim s) = int (card (holding s)) + int (card (rejecting s)) \<and>
    (rejecting s = {} \<longrightarrow>
       (fst (acquire (Some (lim s))) \<longleftrightarrow> int (card (holding s)) < MaxConnections cfg))"
proof -
  have m: "maxConns l = MaxConnections cfg" "active l = 0"
    using assms(1-3) by (auto simp: newLimiter_def int32_def split: if_splits)
  have "lim_inv (MaxConnections cfg) s"
    by (rule cap.inv_reachable [OF _ assms(4)]) (use m assms(2) in auto)
  then show ?thesis using assms(2) by (auto simp: lim_inv_def acquire_def Let_def)
qed

theorem limit_never_exceeded_witness:
  "\<exists>l s. newLimiter \<lparr>MaxConnections = 1, BandwidthMbps = 0\<rparr> = Some l \<and> lim_step\<^sup>*\<^sup>* (lim_init l) s \<and>
     holding s = {7} \<and> \<not> fst (acquire (Some (lim s)))"
proof -
  let ?cfg = "\<lparr>MaxConnections = 1, BandwidthMbps = 0\<rparr>"
  let ?l = "\<lparr>maxConns = 1, active = 0, bucket = None\<rparr>"
  let ?s = "\<lparr>lim = ?l\<lparr>active := 1\<rparr>, holding = {7}, rejecting = {}\<rparr>"
  have l: "newLimiter ?cfg = Some ?l" by (simp add: newLimiter_def int32_def)
  have "lim_step (lim_init ?l) ?s" using add_ok [of 7 "lim_init ?l"] by (simp add: lim_init_def)
  then have "lim_step\<^sup>*\<^sup>* (lim_init ?l) ?s" by blast
  with limit_never_exceeded [OF l _ _ this] l show ?thesis by fastforce
qed

text \<open>(C22) Every byte is charged, in pieces the bucket can grant.  A read or write of \<open>n\<close> bytes asks the bucket
  for exactly \<open>n\<close> tokens in total when it grants them; no piece is empty or larger than the burst; and
  there are no more pieces than bytes, so the loop ends.\<close>

theorem bandwidth_charged_exactly:
  assumes "0 < burst" "0 \<le> n"
  shows "(\<forall>c \<in> set (wait_chunks fails k burst n). 0 < c \<and> c \<le> burst) \<and>
    int (length (wait_chunks fails k burst n)) \<le> n \<and>
    ((\<forall>j. \<not> fails j) \<longrightarrow> sum_list (wait_chunks fails k burst n) = n)"
  using assms
proof (induction fails k burst n rule: wait_chunks.induct)
  case (1 fails k burst n)
  show ?case
  proof (cases "n \<le> 0 \<or> fails k")
    case True
    then have eq: "wait_chunks fails k burst n = (if n \<le> 0 then [] else [if n > burst then burst else n])"
      using "1.prems"(1) by (auto simp: wait_chunks.simps [of fails k burst n])
    show ?thesis unfolding eq using True "1.prems" by auto
  next
    case False
    define c where "c = (if 0 < burst \<and> n > burst then burst else n)"
    have c: "0 < c" "c \<le> burst" "c \<le> n" using False "1.prems" by (auto simp: c_def)
    have eq: "wait_chunks fails k burst n = c # wait_chunks fails (Suc k) burst (n - c)"
      using False by (simp add: wait_chunks.simps [of fails k burst n] Let_def c_def)
    define ws where "ws = wait_chunks fails (Suc k) burst (n - c)"
    have "(\<forall>x \<in> set ws. 0 < x \<and> x \<le> burst) \<and> int (length ws) \<le> n - c \<and>
        ((\<forall>j. \<not> fails j) \<longrightarrow> sum_list ws = n - c)"
      unfolding ws_def by (rule "1.IH" [OF _ c_def]) (use False c "1.prems" in auto)
    then show ?thesis unfolding eq ws_def [symmetric] using c by auto
  qed
qed

theorem bandwidth_charged_exactly_witness:
  "sum_list (wait_chunks (\<lambda>_. False) 0 125000 300000) = 300000"
  using bandwidth_charged_exactly [of 125000 300000 "\<lambda>_. False" 0] by simp

end
