(* ===== verification/Udp_Forwarder.thy ===== *)
theory Udp_Forwarder
  imports Udp_Flow Tunnel_Limits
begin

text \<open>
  The forwarder that owns the UDP socket of a forwarded port (\<open>internal/server/transport/udpforward.go\<close>):
  which flow a datagram is filed under, how a flow is offered to the transport, and how flows end.

  The goroutine of \<open>run\<close>, the reaper, the shutdown and the transport all close flows, and closing is two
  steps: the \<open>done\<close> channel is closed once, then the flow is removed from the table if it is still the
  one registered.  Flows are objects, so they live in a store and the table holds references; the step
  relation interleaves the critical sections.
\<close>

section \<open>State\<close>

datatype run_pc = Reading | Deliver nat bool bytes | Admit nat

record forwarder =
  flow_store :: "nat \<Rightarrow> udp_flow"
  next_flow :: nat
  flows :: "string \<Rightarrow> nat option"
  fw_closed :: bool
  closing :: "nat set"
  pc :: run_pc

definition init_forwarder :: forwarder where
  "init_forwarder = \<lparr>flow_store = (\<lambda>_. newUDPFlow 0 []), next_flow = 0, flows = (\<lambda>_. None),
     fw_closed = False, closing = {}, pc = Reading\<rparr>"

abbreviation upd_flow :: "nat \<Rightarrow> (udp_flow \<Rightarrow> udp_flow) \<Rightarrow> forwarder \<Rightarrow> forwarder" where
  "upd_flow i h s \<equiv> s\<lparr>flow_store := (flow_store s)(i := h (flow_store s i))\<rparr>"

text \<open>The critical section of \<open>run\<close> for a datagram from \<open>key\<close>.\<close>

definition file_datagram :: "int \<Rightarrow> string \<Rightarrow> bytes \<Rightarrow> forwarder \<Rightarrow> forwarder option" where
  "file_datagram now key payload s =
     (case flows s key of
        Some i \<Rightarrow> Some (s\<lparr>pc := Deliver i True payload\<rparr>)
      | None \<Rightarrow>
          (if fw_closed s then None
           else Some (s\<lparr>flow_store := (flow_store s)(next_flow s := newUDPFlow now key),
             flows := (flows s)(key \<mapsto> next_flow s), next_flow := Suc (next_flow s),
             pc := Deliver (next_flow s) False payload\<rparr>)))"

definition deliver_datagram :: "int \<Rightarrow> bool \<Rightarrow> nat \<Rightarrow> bool \<Rightarrow> bytes \<Rightarrow> forwarder \<Rightarrow> forwarder" where
  "deliver_datagram now coin i known payload s =
     (upd_flow i (deliver now coin payload) s)\<lparr>pc := (if known then Reading else Admit i)\<rparr>"

text \<open>\<open>udpFlow.Close\<close>: closing \<open>done\<close>, once, and \<open>forget\<close>.\<close>

definition close_done :: "nat \<Rightarrow> forwarder \<Rightarrow> forwarder" where
  "close_done i s =
     (if fl_done (flow_store s i) then s
      else (upd_flow i flow_close s)\<lparr>closing := insert i (closing s)\<rparr>)"

definition forget :: "nat \<Rightarrow> forwarder \<Rightarrow> forwarder" where
  "forget i s =
     (let key = fl_key (flow_store s i) in
      s\<lparr>flows := (if flows s key = Some i then (flows s)(key := None) else flows s),
        closing := closing s - {i}\<rparr>)"

text \<open>What the reaper takes: the registered flows idle for longer than the timeout.\<close>

definition stale :: "int \<Rightarrow> forwarder \<Rightarrow> nat set" where
  "stale now s = {i \<in> ran (flows s). lastSeen (flow_store s i) < now - udpIdleTimeout}"

inductive fw_step :: "forwarder \<Rightarrow> forwarder \<Rightarrow> bool" where
  receive: "pc s = Reading \<Longrightarrow> file_datagram now key payload s = Some s' \<Longrightarrow> fw_step s s'"
| deliver: "pc s = Deliver i known payload \<Longrightarrow> fw_step s (deliver_datagram now coin i known payload s)"
| admitted: "pc s = Admit i \<Longrightarrow> fw_step s (s\<lparr>pc := Reading\<rparr>)"
| refused: "pc s = Admit i \<Longrightarrow> fw_step s ((close_done i s)\<lparr>pc := Reading\<rparr>)"
| reap: "i \<in> stale now s \<Longrightarrow> fw_step s (close_done i s)"
| transport_close: "i < next_flow s \<Longrightarrow> fw_step s (close_done i s)"
| shutdown: "fw_step s (s\<lparr>fw_closed := True\<rparr>)"
| shutdown_flow: "fw_closed s \<Longrightarrow> i \<in> ran (flows s) \<Longrightarrow> fw_step s (close_done i s)"
| forget: "i \<in> closing s \<Longrightarrow> fw_step s (forget i s)"
| transport_read: "i < next_flow s \<Longrightarrow> flow_Read now n (flow_store s i) = (r, f) \<Longrightarrow>
    fw_step s (s\<lparr>flow_store := (flow_store s)(i := f)\<rparr>)"
| transport_write: "i < next_flow s \<Longrightarrow> flow_Write fails now p (flow_store s i) = (r, f) \<Longrightarrow>
    fw_step s (s\<lparr>flow_store := (flow_store s)(i := f)\<rparr>)"

definition fw_reachable :: "forwarder \<Rightarrow> bool" where
  "fw_reachable s = fw_step\<^sup>*\<^sup>* init_forwarder s"

lemma fw_reachable_init: "fw_reachable init_forwarder"
  by (simp add: fw_reachable_def)

lemma fw_reachable_step: "fw_reachable s \<Longrightarrow> fw_step s s' \<Longrightarrow> fw_reachable s'"
  unfolding fw_reachable_def by (rule rtranclp.rtrancl_into_rtrancl)

section \<open>The admitter\<close>

text \<open>\<open>udpAdmitter\<close> on a channel with room for \<open>cap\<close> connections; the result is whether the flow was taken.\<close>

definition udpAdmitter ::
    "nat \<Rightarrow> nat \<Rightarrow> limiter option \<Rightarrow> (nat \<times> string) list \<Rightarrow> nat \<Rightarrow> nat \<times> string \<Rightarrow>
     bool \<times> limiter option \<times> (nat \<times> string) list \<times> nat" where
  "udpAdmitter cap reqCap l local req flow =
     (case acquire l of
        (False, l1) \<Rightarrow> (False, l1, local, req)
      | (True, l1) \<Rightarrow>
          (if length local < cap
           then (True, l1, local @ [flow], if req < reqCap then Suc req else req)
           else (False, release l1, local, req)))"

section \<open>Invariant\<close>

text \<open>What no operation of a flow changes.\<close>

definition same_identity :: "udp_flow \<Rightarrow> udp_flow \<Rightarrow> bool" where
  "same_identity f g = (fl_key g = fl_key f \<and> fl_done g = fl_done f \<and> length (fl_in g) \<le> max (length (fl_in f)) udpFlowQueue)"

lemma flow_send_identity:
  "flow_send fails now p f = (b, g) \<Longrightarrow> fl_key g = fl_key f \<and> fl_done g = fl_done f \<and> fl_in g = fl_in f"
  by (auto simp: flow_send_def Let_def split: if_splits)

lemma write_loop_identity:
  "write_loop fails now p f = (r, e, g) \<Longrightarrow> fl_key g = fl_key f \<and> fl_done g = fl_done f \<and> fl_in g = fl_in f"
proof (induction fails now p f rule: write_loop.induct)
  case (1 fails now p f)
  define n h w where "n = min (2 - length (fl_hdr f)) (length p)" and "h = fl_hdr f @ take n p"
    and "w = unat (h ! 0) * 256 + unat (h ! 1)"
  define f1 where "f1 = f\<lparr>fl_hdr := h, fl_want := w, fl_body := []\<rparr>"
  define m b where "m = min (fl_want f - length (fl_body f)) (length p)" and "b = fl_body f @ take m p"
  define f2 where "f2 = f\<lparr>fl_body := b\<rparr>"
  note eqs = n_def h_def w_def f1_def
  note eqs' = m_def b_def f2_def
  have run: "(if p = [] then ([], None, f) else if fl_done f then (p, Some ErrClosed, f)
      else if length (fl_hdr f) < 2 then
        (if length h < 2 then (drop n p, None, f\<lparr>fl_hdr := h\<rparr>)
         else if w = 0 then
           (case flow_send fails now [] f1 of
              (False, k) \<Rightarrow> (drop n p, Some SendError, k)
            | (True, k) \<Rightarrow> write_loop fails now (drop n p) (k\<lparr>fl_hdr := []\<rparr>))
         else write_loop fails now (drop n p) f1)
      else if fl_want f < length (fl_body f) then (p, Some SliceBounds, f)
      else if length b = fl_want f then
        (case flow_send fails now b f2 of
           (False, k) \<Rightarrow> (drop m p, Some SendError, k)
         | (True, k) \<Rightarrow> write_loop fails now (drop m p) (k\<lparr>fl_hdr := [], fl_want := 0, fl_body := []\<rparr>))
      else write_loop fails now (drop m p) f2) = (r, e, g)"
    using "1.prems" unfolding write_loop.simps [of fails now p f] Let_def eqs [symmetric] eqs' [symmetric]
    by simp
  consider (stop) "p = [] \<or> fl_done f"
    | (hdr) "p \<noteq> []" "\<not> fl_done f" "length (fl_hdr f) < 2"
    | (body) "p \<noteq> []" "\<not> fl_done f" "\<not> length (fl_hdr f) < 2" by blast
  then show ?case
  proof cases
    case stop
    then show ?thesis using run by (auto split: if_splits)
  next
    case hdr
    obtain ok k where k: "flow_send fails now [] f1 = (ok, k)" by fastforce
    then have "fl_key k = fl_key f \<and> fl_done k = fl_done f \<and> fl_in k = fl_in f"
      using flow_send_identity [OF k] by (simp add: f1_def)
    then show ?thesis
      using run hdr k "1.IH"(1) [OF hdr n_def h_def refl _ w_def f1_def _ k [symmetric]]
        "1.IH"(2) [OF hdr n_def h_def refl _ w_def f1_def]
      by (cases ok) (auto simp: f1_def split: if_splits)
  next
    case body
    obtain ok k where k: "flow_send fails now b f2 = (ok, k)" by fastforce
    then have "fl_key k = fl_key f \<and> fl_done k = fl_done f \<and> fl_in k = fl_in f"
      using flow_send_identity [OF k] by (simp add: f2_def)
    then show ?thesis
      using run body k "1.IH"(3) [OF body _ m_def b_def refl f2_def _ k [symmetric]]
        "1.IH"(4) [OF body _ m_def b_def refl f2_def]
      by (cases ok) (auto simp: f2_def split: if_splits)
  qed
qed

lemma operations_keep_identity:
  "flow_Write fails now p f = (r, g) \<Longrightarrow> same_identity f g"
  "flow_Read now n f = (r', g) \<Longrightarrow> same_identity f g"
  "same_identity f (Udp_Flow.deliver now coin p f)"
  by (auto simp: same_identity_def flow_Write_def flow_Read_def deliver_def Let_def dest!: write_loop_identity
      split: prod.splits if_splits list.splits)

text \<open>The table against the store: an open flow is registered under its key, a registered flow belongs
  under its key, and a closed one is registered only while its \<open>Close\<close> has yet to remove it.\<close>

definition table_inv :: "(nat \<Rightarrow> udp_flow) \<Rightarrow> nat \<Rightarrow> (string \<Rightarrow> nat option) \<Rightarrow> nat set \<Rightarrow> bool" where
  "table_inv st n t cl =
     ((\<forall>i < n. \<not> fl_done (st i) \<longrightarrow> t (fl_key (st i)) = Some i) \<and>
      (\<forall>k i. t k = Some i \<longrightarrow> i < n \<and> fl_key (st i) = k \<and> (fl_done (st i) \<longrightarrow> i \<in> cl)) \<and>
      (\<forall>i \<in> cl. i < n \<and> fl_done (st i)))"

definition pc_below :: "nat \<Rightarrow> run_pc \<Rightarrow> bool" where
  "pc_below n p = (case p of Reading \<Rightarrow> True | Deliver i _ _ \<Rightarrow> i < n | Admit i \<Rightarrow> i < n)"

definition fw_inv :: "forwarder \<Rightarrow> bool" where
  "fw_inv s =
     (table_inv (flow_store s) (next_flow s) (flows s) (closing s) \<and> pc_below (next_flow s) (pc s) \<and>
      (\<forall>i < next_flow s. length (fl_in (flow_store s i)) \<le> udpFlowQueue))"

lemma fw_inv_pc: "fw_inv s \<Longrightarrow> pc_below (next_flow s) p \<Longrightarrow> fw_inv (s\<lparr>pc := p\<rparr>)"
  by (simp add: fw_inv_def)

lemma fw_inv_operation:
  assumes "fw_inv s" "same_identity (flow_store s i) f"
  shows "fw_inv (s\<lparr>flow_store := (flow_store s)(i := f)\<rparr>)"
proof -
  have f: "fl_key f = fl_key (flow_store s i)" "fl_done f = fl_done (flow_store s i)"
    "length (fl_in f) \<le> max (length (fl_in (flow_store s i))) udpFlowQueue"
    using assms(2) by (auto simp: same_identity_def)
  then have "length (fl_in f) \<le> udpFlowQueue" if "i < next_flow s"
    using assms(1) that unfolding fw_inv_def by (metis max_absorb2)
  moreover have "table_inv ((flow_store s)(i := f)) (next_flow s) (flows s) (closing s)"
    using assms(1) f unfolding fw_inv_def table_inv_def by auto
  ultimately show ?thesis using assms(1) by (simp add: fw_inv_def)
qed

lemma fw_inv_close_done:
  assumes "fw_inv s" "i < next_flow s"
  shows "fw_inv (close_done i s)"
proof (cases "fl_done (flow_store s i)")
  case True
  then show ?thesis using assms by (simp add: close_done_def)
next
  case False
  have "table_inv ((flow_store s)(i := flow_close (flow_store s i))) (next_flow s) (flows s) (insert i (closing s))"
    using assms unfolding fw_inv_def table_inv_def flow_close_def by auto
  moreover have "fl_in (flow_close (flow_store s i)) = fl_in (flow_store s i)" by (simp add: flow_close_def)
  ultimately show ?thesis using assms False by (simp add: close_done_def fw_inv_def)
qed

lemma fw_inv_forget:
  assumes "fw_inv s" "i \<in> closing s"
  shows "fw_inv (forget i s)"
proof -
  define k where "k = fl_key (flow_store s i)"
  have t: "table_inv (flow_store s) (next_flow s) (flows s) (closing s)" using assms(1) by (simp add: fw_inv_def)
  then have d: "fl_done (flow_store s i)" "i < next_flow s" using assms(2) by (auto simp: table_inv_def)
  have "table_inv (flow_store s) (next_flow s) (if flows s k = Some i then (flows s)(k := None) else flows s)
      (closing s - {i})"
    using t d unfolding table_inv_def k_def by (smt (verit) DiffD1 DiffI fun_upd_apply insertE empty_iff option.inject option.discI)
  then show ?thesis using assms(1) unfolding k_def by (simp add: fw_inv_def forget_def Let_def)
qed

lemma fw_inv_file:
  assumes inv: "fw_inv s" and f: "file_datagram now key payload s = Some s'"
  shows "fw_inv s'"
proof (cases "flows s key")
  case None
  let ?st = "(flow_store s)(next_flow s := newUDPFlow now key)"
  have t: "table_inv (flow_store s) (next_flow s) (flows s) (closing s)" using inv by (simp add: fw_inv_def)
  have new: "fl_key (newUDPFlow now key) = key" "\<not> fl_done (newUDPFlow now key)" "fl_in (newUDPFlow now key) = []"
    by (simp_all add: newUDPFlow_def)
  have "table_inv ?st (Suc (next_flow s)) ((flows s)(key \<mapsto> next_flow s)) (closing s)"
    unfolding table_inv_def
  proof (intro conjI allI impI ballI)
    fix i assume "i < Suc (next_flow s)" "\<not> fl_done (?st i)"
    then show "((flows s)(key \<mapsto> next_flow s)) (fl_key (?st i)) = Some i"
      using t None new unfolding table_inv_def by (auto simp: less_Suc_eq)
  next
    fix k i assume "((flows s)(key \<mapsto> next_flow s)) k = Some i"
    then show "i < Suc (next_flow s)" "fl_key (?st i) = k"
      using t new unfolding table_inv_def by (auto split: if_splits simp: less_Suc_eq)
    assume "fl_done (?st i)"
    with \<open>((flows s)(key \<mapsto> next_flow s)) k = Some i\<close> show "i \<in> closing s"
      using t new unfolding table_inv_def by (auto split: if_splits)
  next
    fix i assume "i \<in> closing s"
    then show "i < Suc (next_flow s)" "fl_done (?st i)" using t unfolding table_inv_def by auto
  qed
  then show ?thesis
    using inv f None new by (auto simp: file_datagram_def fw_inv_def pc_below_def less_Suc_eq split: if_splits)
next
  case (Some i)
  then have "i < next_flow s" using inv by (auto simp: fw_inv_def table_inv_def)
  then show ?thesis using inv f Some by (auto simp: file_datagram_def fw_inv_def pc_below_def)
qed

lemma flows_below: "fw_inv s \<Longrightarrow> i \<in> ran (flows s) \<Longrightarrow> i < next_flow s"
  by (auto simp: fw_inv_def table_inv_def ran_def)

lemma fw_inv_step: "fw_step s s' \<Longrightarrow> fw_inv s \<Longrightarrow> fw_inv s'"
proof (induction rule: fw_step.induct)
  case (deliver s i known payload now coin)
  have i: "i < next_flow s" using deliver by (simp add: fw_inv_def pc_below_def)
  have "fw_inv (upd_flow i (Udp_Flow.deliver now coin payload) s)"
    using deliver by (intro fw_inv_operation operations_keep_identity)
  then show ?case unfolding deliver_datagram_def by (rule fw_inv_pc) (simp add: i pc_below_def)
next
  case (refused s i)
  then have "fw_inv (close_done i s)" by (intro fw_inv_close_done) (auto simp: fw_inv_def pc_below_def)
  then show ?case by (rule fw_inv_pc) (simp add: pc_below_def)
next
  case (reap i now s)
  then show ?case by (intro fw_inv_close_done) (auto simp: stale_def dest: flows_below)
next
  case (admitted s i)
  then show ?case by (intro fw_inv_pc) (simp_all add: pc_below_def)
next
  case (shutdown s)
  then show ?case by (simp add: fw_inv_def)
qed (auto intro: fw_inv_file fw_inv_close_done fw_inv_forget fw_inv_operation flows_below
    operations_keep_identity)

interpretation fw: invariant "\<lambda>s. s = init_forwarder" fw_step fw_inv
  by (unfold_locales; (erule (1) fw_inv_step)?) (auto simp: fw_inv_def table_inv_def pc_below_def init_forwarder_def)

lemma fw_inv_reachable: "fw_reachable s \<Longrightarrow> fw_inv s"
  unfolding fw_reachable_def by (rule fw.inv_reachable) simp


text \<open>A run: a first datagram starts a flow, the transport refuses it, and the next one starts another.\<close>

lemma refused_run:
  "\<exists>s. fw_reachable s \<and> pc s = Reading \<and> closing s = {} \<and> next_flow s = 1 \<and> \<not> fw_closed s \<and>
     fl_done (flow_store s 0) \<and> flows s = (\<lambda>_. None)"
proof -
  define s1 where "s1 = the (file_datagram 0 ''k'' [1] init_forwarder)"
  define s2 where "s2 = deliver_datagram 0 True 0 False [1] s1"
  define s3 where "s3 = (close_done 0 s2)\<lparr>pc := Reading\<rparr>"
  have f1: "file_datagram 0 ''k'' [1] init_forwarder = Some s1" "pc s1 = Deliver 0 False [1]"
    by (simp_all add: s1_def file_datagram_def init_forwarder_def)
  have "fw_step init_forwarder s1" by (rule fw_step.receive [OF _ f1(1)]) (simp add: init_forwarder_def)
  then have "fw_reachable s1" by (rule fw_reachable_step [OF fw_reachable_init])
  then have "fw_reachable s2" unfolding s2_def by (rule fw_reachable_step) (rule fw_step.deliver [OF f1(2)])
  then have "fw_reachable s3"
    unfolding s3_def by (rule fw_reachable_step) (rule fw_step.refused, simp add: s2_def deliver_datagram_def)
  moreover have "0 \<in> closing s3"
    by (simp add: s3_def s2_def s1_def close_done_def deliver_datagram_def file_datagram_def init_forwarder_def
        deliver_def newUDPFlow_def)
  ultimately have "fw_reachable (forget 0 s3)" by (blast intro: fw_reachable_step fw_step.forget)
  then show ?thesis
    by (intro exI [of _ "forget 0 s3"])
      (simp add: forget_def s3_def s2_def s1_def close_done_def deliver_datagram_def file_datagram_def
        init_forwarder_def deliver_def newUDPFlow_def flow_close_def udpFlowQueue_def fun_eq_iff)
qed


text \<open>A refused flow gives back what it took.  The admitter takes a flow exactly when the limiter has a
  slot and the channel has room; a flow it takes is queued once, and a flow it refuses leaves the limiter
  and both channels as they were.\<close>

theorem admitter_balanced:
  "udpAdmitter cap reqCap l local req flow = (ok, l', local', req') \<Longrightarrow>
    ok = (fst (acquire l) \<and> length local < cap) \<and>
    (if ok then l' = snd (acquire l) \<and> local' = local @ [flow] \<and> req' = (if req < reqCap then req + 1 else req)
     else l' = l \<and> local' = local \<and> req' = req)"
  by (cases l) (auto simp: udpAdmitter_def acquire_def release_def Let_def split: if_splits prod.splits)

theorem admitter_balanced_witness:
  "snd (udpAdmitter 0 1 (newLimiter \<lparr>MaxConnections = 1, BandwidthMbps = 0\<rparr>) [] 0 (7, ''t''))
     = (newLimiter \<lparr>MaxConnections = 1, BandwidthMbps = 0\<rparr>, [], 0)"
proof -
  obtain ok l' local' req' where r: "udpAdmitter 0 1 (newLimiter \<lparr>MaxConnections = 1, BandwidthMbps = 0\<rparr>) [] 0 (7, ''t'')
      = (ok, l', local', req')" by (metis prod_cases4)
  from admitter_balanced [OF this] r show ?thesis by simp
qed


end
