(* ===== verification/Packet_Protocol.thy ===== *)
theory Packet_Protocol
  imports Go_Strings
begin

text \<open>
  The packet engine's stream protocol (\<open>internal/packet/engine/protocol/protocol.go\<close>) with the TCP flag
  combinations it carries (\<open>conf/tcp.go\<close>): a stream opens with one message that says what it is for.
\<close>

section \<open>TCP flag combinations: \<open>conf/tcp.go\<close>\<close>

record TCPF =
  FIN :: bool
  SYN :: bool
  RST :: bool
  PSH :: bool
  ACK :: bool
  URG :: bool
  ECE :: bool
  CWR :: bool
  NS :: bool

definition no_flags :: TCPF where
  "no_flags = \<lparr>FIN = False, SYN = False, RST = False, PSH = False, ACK = False, URG = False,
     ECE = False, CWR = False, NS = False\<rparr>"

text \<open>\<open>strTCPF\<close> returns the flags set so far along with the error.\<close>

fun strTCPF_from :: "TCPF \<Rightarrow> string \<Rightarrow> TCPF \<times> char option" where
  "strTCPF_from f [] = (f, None)"
| "strTCPF_from f (c # cs) =
     (if c = CHR ''F'' then strTCPF_from (f\<lparr>FIN := True\<rparr>) cs
      else if c = CHR ''S'' then strTCPF_from (f\<lparr>SYN := True\<rparr>) cs
      else if c = CHR ''R'' then strTCPF_from (f\<lparr>RST := True\<rparr>) cs
      else if c = CHR ''P'' then strTCPF_from (f\<lparr>PSH := True\<rparr>) cs
      else if c = CHR ''A'' then strTCPF_from (f\<lparr>ACK := True\<rparr>) cs
      else if c = CHR ''U'' then strTCPF_from (f\<lparr>URG := True\<rparr>) cs
      else if c = CHR ''E'' then strTCPF_from (f\<lparr>ECE := True\<rparr>) cs
      else if c = CHR ''C'' then strTCPF_from (f\<lparr>CWR := True\<rparr>) cs
      else if c = CHR ''N'' then strTCPF_from (f\<lparr>NS := True\<rparr>) cs
      else (f, Some c))"

definition strTCPF :: "string \<Rightarrow> TCPF \<times> char option" where
  "strTCPF s = strTCPF_from no_flags s"

record tcp_conf =
  LF_strs :: "string list"
  RF_strs :: "string list"
  LF :: "TCPF list"
  RF :: "TCPF list"

definition tcp_setDefaults :: "tcp_conf \<Rightarrow> tcp_conf" where
  "tcp_setDefaults t =
     (let t1 = (if LF_strs t = [] then t\<lparr>LF_strs := [''PA'']\<rparr> else t) in
      if RF_strs t1 = [] then t1\<lparr>RF_strs := [''PA'']\<rparr> else t1)"

datatype tcpf_error = InvalidFlag char | NoCombination | LocalTooMany | RemoteTooMany

definition tcp_validate :: "tcp_conf \<Rightarrow> tcp_conf \<times> tcpf_error list" where
  "tcp_validate t =
     (let errs = (\<lambda>l. concat (map (\<lambda>s. case snd (strTCPF s) of None \<Rightarrow> [] | Some c \<Rightarrow> [InvalidFlag c]) l));
          t1 = (if LF_strs t \<noteq> [] then t\<lparr>LF := map (fst \<circ> strTCPF) (LF_strs t)\<rparr> else t);
          t2 = (if RF_strs t1 \<noteq> [] then t1\<lparr>RF := map (fst \<circ> strTCPF) (RF_strs t1)\<rparr> else t1) in
      (t2, errs (LF_strs t) @ errs (RF_strs t) @
         (if LF t2 = [] \<or> RF t2 = [] then [NoCombination] else []) @
         (if 64 < length (LF_strs t) then [LocalTooMany] else []) @
         (if 64 < length (RF_strs t) then [RemoteTooMany] else [])))"

section \<open>Messages: \<open>protocol.go\<close>\<close>

definition MAGIC :: byte where "MAGIC = 0x50"
definition VERSION :: byte where "VERSION = 0x01"
definition PPING :: byte where "PPING = 1"
definition PPONG :: byte where "PPONG = 2"
definition PTCPF :: byte where "PTCPF = 3"
definition PTCP :: byte where "PTCP = 4"
definition PUDP :: byte where "PUDP = 5"
definition maxHostLen :: nat where "maxHostLen = 253"
definition maxTCPFLen :: nat where "maxTCPFLen = 64"

lemmas proto_consts = MAGIC_def VERSION_def PPING_def PPONG_def PTCPF_def PTCP_def PUDP_def
  maxHostLen_def maxTCPFLen_def

record Addr =
  Host :: bytes
  Port :: int

record Proto =
  Type :: byte
  p_Addr :: "Addr option"
  p_TCPF :: "TCPF list"

definition flag_bit :: "bool \<Rightarrow> nat \<Rightarrow> 16 word" where
  "flag_bit b k = (if b then push_bit k 1 else 0)"

definition encodeTCPF :: "TCPF \<Rightarrow> 16 word" where
  "encodeTCPF f =
     flag_bit (FIN f) 0 OR flag_bit (SYN f) 1 OR flag_bit (RST f) 2 OR flag_bit (PSH f) 3 OR
     flag_bit (ACK f) 4 OR flag_bit (URG f) 5 OR flag_bit (ECE f) 6 OR flag_bit (CWR f) 7 OR
     flag_bit (NS f) 8"

definition has_flag :: "16 word \<Rightarrow> nat \<Rightarrow> bool" where
  "has_flag v k = (v AND push_bit k 1 \<noteq> 0)"

definition decodeTCPF :: "16 word \<Rightarrow> TCPF" where
  "decodeTCPF v =
     \<lparr>FIN = has_flag v 0, SYN = has_flag v 1, RST = has_flag v 2, PSH = has_flag v 3,
      ACK = has_flag v 4, URG = has_flag v 5, ECE = has_flag v 6, CWR = has_flag v 7, NS = has_flag v 8\<rparr>"

datatype proto_error =
    AddressRequired
  | HostTooLong nat
  | PortOutOfRange int
  | TooManyFlags nat
  | UnknownType
  | BadMagic byte
  | BadVersion byte
  | ProtoRead io_error

definition proto_Write :: "Proto \<Rightarrow> proto_error + bytes" where
  "proto_Write p =
     (let buf = [MAGIC, VERSION, Type p] in
      if Type p = PPING \<or> Type p = PPONG then Inr buf
      else if Type p = PTCP \<or> Type p = PUDP then
        (case p_Addr p of
           None \<Rightarrow> Inl AddressRequired
         | Some a \<Rightarrow>
             (if maxHostLen < length (Host a) then Inl (HostTooLong (length (Host a)))
              else if Port a < 0 \<or> Port a > 65535 then Inl (PortOutOfRange (Port a))
              else Inr (buf @ [word_of_nat (length (Host a))] @ Host a @ be16 (word_of_int (Port a)))))
      else if Type p = PTCPF then
        (if maxTCPFLen < length (p_TCPF p) then Inl (TooManyFlags (length (p_TCPF p)))
         else Inr (buf @ [word_of_nat (length (p_TCPF p))] @ concat (map (be16 \<circ> encodeTCPF) (p_TCPF p))))
      else Inl UnknownType)"

fun decode_flags :: "bytes \<Rightarrow> TCPF list" where
  "decode_flags (a # b # r) = decodeTCPF (of_be16 a b) # decode_flags r"
| "decode_flags _ = []"

definition proto_Read :: "bytes \<Rightarrow> proto_error + (Proto \<times> bytes)" where
  "proto_Read s =
     (case read_full 3 s of
        Inl e \<Rightarrow> Inl (ProtoRead e)
      | Inr (hdr, s1) \<Rightarrow>
          (if hdr ! 0 \<noteq> MAGIC then Inl (BadMagic (hdr ! 0))
           else if hdr ! 1 \<noteq> VERSION then Inl (BadVersion (hdr ! 1))
           else
             (let t = hdr ! 2; p = \<lparr>Type = t, p_Addr = None, p_TCPF = []\<rparr> in
              if t = PPING \<or> t = PPONG then Inr (p, s1)
              else if t = PTCP \<or> t = PUDP then
                (case read_full 1 s1 of
                   Inl e \<Rightarrow> Inl (ProtoRead e)
                 | Inr (hl, s2) \<Rightarrow>
                     (let n = unat (hl ! 0) in
                      if maxHostLen < n then Inl (HostTooLong n)
                      else case read_full (n + 2) s2 of
                          Inl e \<Rightarrow> Inl (ProtoRead e)
                        | Inr (body, s3) \<Rightarrow>
                            Inr (p\<lparr>p_Addr := Some \<lparr>Host = take n body, Port = uint (u16_at body n)\<rparr>\<rparr>, s3)))
              else if t = PTCPF then
                (case read_full 1 s1 of
                   Inl e \<Rightarrow> Inl (ProtoRead e)
                 | Inr (cnt, s2) \<Rightarrow>
                     (let c = unat (cnt ! 0) in
                      if maxTCPFLen < c then Inl (TooManyFlags c)
                      else if c = 0 then Inr (p, s2)
                      else case read_full (c * 2) s2 of
                          Inl e \<Rightarrow> Inl (ProtoRead e)
                        | Inr (raw, s3) \<Rightarrow> Inr (p\<lparr>p_TCPF := decode_flags raw\<rparr>, s3)))
              else Inl UnknownType)))"

text \<open>A message that says nothing but what its type carries.\<close>

definition proto_valid :: "Proto \<Rightarrow> bool" where
  "proto_valid p =
     (if Type p = PPING \<or> Type p = PPONG then p_Addr p = None \<and> p_TCPF p = []
      else if Type p = PTCP \<or> Type p = PUDP then
        p_TCPF p = [] \<and>
        (case p_Addr p of None \<Rightarrow> False | Some a \<Rightarrow> length (Host a) \<le> maxHostLen \<and> 0 \<le> Port a \<and> Port a \<le> 65535)
      else Type p = PTCPF \<and> p_Addr p = None \<and> length (p_TCPF p) \<le> maxTCPFLen)"

text \<open>What of a message its type carries.\<close>

definition carried :: "Proto \<Rightarrow> Proto" where
  "carried p =
     (if Type p = PTCP \<or> Type p = PUDP then p\<lparr>p_TCPF := []\<rparr>
      else if Type p = PTCPF then p\<lparr>p_Addr := None\<rparr>
      else p\<lparr>p_Addr := None, p_TCPF := []\<rparr>)"

section \<open>Round trips\<close>

lemma bit_flag_bit: "bit (flag_bit b k) n = (b \<and> k < 16 \<and> n = k)"
  by (auto simp: flag_bit_def bit_simps)

lemma has_flag_bit: "k < 16 \<Longrightarrow> has_flag v k = bit v k"
  by (simp add: has_flag_def bit_iff_and_push_bit_not_eq_0)

lemma decode_encode_TCPF: "decodeTCPF (encodeTCPF f) = f"
  by (cases f) (simp add: decodeTCPF_def encodeTCPF_def has_flag_bit bit_or_iff bit_flag_bit)

lemma decode_flags_concat: "decode_flags (concat (map (be16 \<circ> encodeTCPF) fs)) = fs"
  by (induction fs) (simp_all add: be16_def of_be16_be16 decode_encode_TCPF)

lemma length_flags: "length (concat (map (be16 \<circ> encodeTCPF) fs)) = 2 * length fs"
  by (induction fs) simp_all

lemma length_decode_flags: "length (decode_flags b) = length b div 2"
  by (induction b rule: decode_flags.induct) auto

abbreviation proto_bytes :: "Proto \<Rightarrow> bytes" where
  "proto_bytes p \<equiv> projr (proto_Write p)"

lemma proto_Write_valid: "proto_valid p \<Longrightarrow> \<exists>b. proto_Write p = Inr b"
  by (auto simp: proto_valid_def proto_Write_def Let_def split: if_splits option.splits)

lemma proto_valid_cases:
  assumes "proto_valid p"
  obtains (ping) t where "t = PPING \<or> t = PPONG" "p = \<lparr>Type = t, p_Addr = None, p_TCPF = []\<rparr>"
  | (target) t h q where "t = PTCP \<or> t = PUDP" "length h \<le> maxHostLen" "0 \<le> q" "q \<le> 65535"
      "p = \<lparr>Type = t, p_Addr = Some \<lparr>Host = h, Port = q\<rparr>, p_TCPF = []\<rparr>"
  | (flags) fs where "length fs \<le> maxTCPFLen" "p = \<lparr>Type = PTCPF, p_Addr = None, p_TCPF = fs\<rparr>"
proof -
  obtain t a fs where p: "p = \<lparr>Type = t, p_Addr = a, p_TCPF = fs\<rparr>" by (cases p)
  consider "t = PPING \<or> t = PPONG" | "t = PTCP \<or> t = PUDP" "\<not> (t = PPING \<or> t = PPONG)"
    | "\<not> (t = PPING \<or> t = PPONG)" "\<not> (t = PTCP \<or> t = PUDP)" by blast
  then show ?thesis
  proof cases
    case 1
    then show ?thesis using assms p ping by (auto simp: proto_valid_def)
  next
    case 2
    then obtain x where x: "a = Some x" "length (Host x) \<le> maxHostLen" "0 \<le> Port x" "Port x \<le> 65535" "fs = []"
      using assms p by (auto simp: proto_valid_def split: option.splits)
    obtain h q where "x = \<lparr>Host = h, Port = q\<rparr>" by (cases x)
    then show ?thesis using target [of t h q] 2 p x by simp
  next
    case 3
    then show ?thesis using assms p flags [of fs] by (auto simp: proto_valid_def)
  qed
qed

lemma proto_bytes_forms:
  "t = PPING \<or> t = PPONG \<Longrightarrow> proto_bytes \<lparr>Type = t, p_Addr = None, p_TCPF = []\<rparr> = [MAGIC, VERSION, t]"
  "t = PTCP \<or> t = PUDP \<Longrightarrow> length h \<le> maxHostLen \<Longrightarrow> 0 \<le> q \<Longrightarrow> q \<le> 65535 \<Longrightarrow>
    proto_bytes \<lparr>Type = t, p_Addr = Some \<lparr>Host = h, Port = q\<rparr>, p_TCPF = []\<rparr>
      = [MAGIC, VERSION, t, word_of_nat (length h)] @ h @ be16 (word_of_int q)"
  "length fs \<le> maxTCPFLen \<Longrightarrow>
    proto_bytes \<lparr>Type = PTCPF, p_Addr = None, p_TCPF = fs\<rparr>
      = [MAGIC, VERSION, PTCPF, word_of_nat (length fs)] @ concat (map (be16 \<circ> encodeTCPF) fs)"
  by (auto simp: proto_Write_def Let_def proto_consts)

lemma read_full_take: "k < n \<Longrightarrow> \<exists>e. read_full n (take k s) = Inl e"
  by (simp add: read_full_def)

text \<open>What \<open>Read\<close> makes of each form when the bytes after the fixed part are \<open>s\<close>.\<close>

lemma proto_Read_forms:
  "t = PPING \<or> t = PPONG \<Longrightarrow> proto_Read ([MAGIC, VERSION, t] @ s) = Inr (\<lparr>Type = t, p_Addr = None, p_TCPF = []\<rparr>, s)"
  "t = PTCP \<or> t = PUDP \<Longrightarrow> n \<le> maxHostLen \<Longrightarrow>
    proto_Read ([MAGIC, VERSION, t, word_of_nat n] @ s) =
      (case read_full (n + 2) s of
         Inl e \<Rightarrow> Inl (ProtoRead e)
       | Inr (body, r) \<Rightarrow>
           Inr (\<lparr>Type = t, p_Addr = Some \<lparr>Host = take n body, Port = uint (u16_at body n)\<rparr>, p_TCPF = []\<rparr>, r))"
  "n \<le> maxTCPFLen \<Longrightarrow>
    proto_Read ([MAGIC, VERSION, PTCPF, word_of_nat n] @ s) =
      (if n = 0 then Inr (\<lparr>Type = PTCPF, p_Addr = None, p_TCPF = []\<rparr>, s)
       else case read_full (n * 2) s of
           Inl e \<Rightarrow> Inl (ProtoRead e)
         | Inr (raw, r) \<Rightarrow> Inr (\<lparr>Type = PTCPF, p_Addr = None, p_TCPF = decode_flags raw\<rparr>, r))"
proof -
  have u: "unat (word_of_nat n :: byte) = n" if "n \<le> 253" for n using that by (simp add: unat_of_nat)
  have r3: "read_full 3 (a # b # c # s) = Inr ([a, b, c], s)" for a b c :: byte and s
    by (simp add: read_full_def)
  have r1: "read_full (Suc 0) (a # s) = Inr ([a], s)" for a :: byte and s by (simp add: read_full_def)
  show "t = PPING \<or> t = PPONG \<Longrightarrow> proto_Read ([MAGIC, VERSION, t] @ s) = Inr (\<lparr>Type = t, p_Addr = None, p_TCPF = []\<rparr>, s)"
    by (auto simp: proto_Read_def r3 Let_def)
  show "proto_Read ([MAGIC, VERSION, t, word_of_nat n] @ s) =
      (case read_full (n + 2) s of
         Inl e \<Rightarrow> Inl (ProtoRead e)
       | Inr (body, r) \<Rightarrow>
           Inr (\<lparr>Type = t, p_Addr = Some \<lparr>Host = take n body, Port = uint (u16_at body n)\<rparr>, p_TCPF = []\<rparr>, r))"
    if "t = PTCP \<or> t = PUDP" "n \<le> maxHostLen"
    using that u [of n] by (auto simp: proto_Read_def r3 r1 Let_def proto_consts split: sum.splits)
  show "proto_Read ([MAGIC, VERSION, PTCPF, word_of_nat n] @ s) =
      (if n = 0 then Inr (\<lparr>Type = PTCPF, p_Addr = None, p_TCPF = []\<rparr>, s)
       else case read_full (n * 2) s of
           Inl e \<Rightarrow> Inl (ProtoRead e)
         | Inr (raw, r) \<Rightarrow> Inr (\<lparr>Type = PTCPF, p_Addr = None, p_TCPF = decode_flags raw\<rparr>, r))"
    if "n \<le> maxTCPFLen"
    using that u [of n] by (auto simp: proto_Read_def r3 r1 Let_def proto_consts split: sum.splits)
qed

lemma proto_Read_short:
  "length s < 3 \<Longrightarrow> \<exists>e. proto_Read s = Inl e"
  "length s = 3 \<Longrightarrow> s ! 2 = t \<Longrightarrow> t \<noteq> PPING \<Longrightarrow> t \<noteq> PPONG \<Longrightarrow> \<exists>e. proto_Read s = Inl e"
  by (auto simp: proto_Read_def read_full_def Let_def)

interpretation proto: codec proto_bytes proto_Read proto_valid
proof
  fix p rest assume "proto_valid p"
  then show "proto_Read (proto_bytes p @ rest) = Inr (p, rest)"
  proof (cases rule: proto_valid_cases)
    case (ping t)
    then show ?thesis using proto_bytes_forms(1) [of t] proto_Read_forms(1) [of t rest] by simp
  next
    case (target t h q)
    then show ?thesis
      using proto_bytes_forms(2) [of t h q]
        proto_Read_forms(2) [of t "length h" "h @ be16 (word_of_int q) @ rest"]
        read_full_append [of "h @ be16 (word_of_int q)" "length h + 2" rest]
      by (simp add: uint_word_of_int)
  next
    case (flags fs)
    then show ?thesis
      using proto_bytes_forms(3) [of fs]
        proto_Read_forms(3) [of "length fs" "concat (map (be16 \<circ> encodeTCPF) fs) @ rest"]
        read_full_append [of "concat (map (be16 \<circ> encodeTCPF) fs)" "length fs * 2" rest]
      by (auto simp: decode_flags_concat [unfolded comp_def] length_flags [unfolded comp_def] comp_def)
  qed
next
  fix p k assume v: "proto_valid p" and k: "k < length (proto_bytes p)"
  from v show "\<exists>e. proto_Read (take k (proto_bytes p)) = Inl e"
  proof (cases rule: proto_valid_cases)
    case (ping t)
    then show ?thesis using k proto_bytes_forms(1) [of t] proto_Read_short(1) [of "take k (proto_bytes p)"] by simp
  next
    case (target t h q)
    define body where "body = h @ be16 (word_of_int q)"
    have b: "proto_bytes p = [MAGIC, VERSION, t, word_of_nat (length h)] @ body"
      using target proto_bytes_forms(2) [of t h q] by (simp add: body_def)
    have pp: "t \<noteq> PPING" "t \<noteq> PPONG" using target(1) by (auto simp: proto_consts)
    consider "k < 3" | "k = 3" | "4 \<le> k" by linarith
    then show ?thesis
    proof cases
      case 3
      then have t: "take k (proto_bytes p) = [MAGIC, VERSION, t, word_of_nat (length h)] @ take (k - 4) body"
        unfolding b by (simp add: take_Cons' numeral_eq_Suc)
      have "k - 4 < length h + 2" using k b 3 by (simp add: body_def)
      then obtain e where "read_full (length h + 2) (take (k - 4) body) = Inl e" using read_full_take by blast
      then show ?thesis unfolding t using proto_Read_forms(2) [OF target(1,2)] by simp
    qed (use b pp proto_Read_short [of "take k (proto_bytes p)"] in \<open>auto simp: numeral_3_eq_3\<close>)
  next
    case (flags fs)
    define body where "body = concat (map (be16 \<circ> encodeTCPF) fs)"
    have b: "proto_bytes p = [MAGIC, VERSION, PTCPF, word_of_nat (length fs)] @ body"
      using flags proto_bytes_forms(3) [of fs] by (simp add: body_def)
    have pp: "PTCPF \<noteq> PPING" "PTCPF \<noteq> PPONG" by (auto simp: proto_consts)
    consider "k < 3" | "k = 3" | "4 \<le> k" by linarith
    then show ?thesis
    proof cases
      case 3
      then have t: "take k (proto_bytes p) = [MAGIC, VERSION, PTCPF, word_of_nat (length fs)] @ take (k - 4) body"
        unfolding b by (simp add: take_Cons' numeral_eq_Suc)
      have "k - 4 < length fs * 2" using k b 3 length_flags [of fs] by (simp add: body_def)
      moreover from this obtain e where "read_full (length fs * 2) (take (k - 4) body) = Inl e"
        using read_full_take by blast
      ultimately show ?thesis unfolding t using proto_Read_forms(3) [OF flags(1), of "take (k - 4) body"] by auto
    qed (use b pp proto_Read_short [of "take k (proto_bytes p)"] in \<open>auto simp: numeral_3_eq_3\<close>)
  qed
qed

lemma uint16_le: "uint (w :: 16 word) \<le> 65535"
proof -
  have "uint w < 2 ^ LENGTH(16)" by (rule unsigned_less)
  then show ?thesis by simp
qed

lemma proto_Read_valid: "proto_Read s = Inr (p, r) \<Longrightarrow> proto_valid p"
  by (auto simp: proto_Read_def proto_valid_def Let_def length_decode_flags u16_at_def uint16_le dest!: read_full_InrD
      split: sum.splits if_splits)

lemma proto_Write_carried: "proto_Write p = Inr b \<Longrightarrow> proto_Write (carried p) = Inr b \<and> proto_valid (carried p)"
  by (auto simp: proto_Write_def carried_def proto_valid_def Let_def proto_consts split: if_splits option.splits)

lemma proto_Write_Read:
  assumes "proto_Write p = Inr b"
  shows "proto_Read (b @ s) = Inr (carried p, s)"
  using proto.dec_enc [of "carried p" s] proto_Write_carried [OF assms] by simp

text \<open>(C13) The packet engine's stream messages.  \<open>Write\<close> accepts every well-formed message, and whatever it accepts
  reads back as what the message's type carries, with the rest of the stream untouched; any sequence of them
  is read back message by message with the stream left at its end; a message cut short is an error;
  whatever the peer sends, a message \<open>Read\<close> returns is well formed, so its host, port and number of
  flags are within bounds; and the flag combinations of a validated configuration make a well-formed
  message.\<close>

theorem proto_messages:
  assumes "\<forall>p \<in> set ps. proto_valid p"
  shows "(\<forall>p \<in> set ps. \<exists>b. proto_Write p = Inr b) \<and>
    decode_n (length ps) proto_Read (concat (map (\<lambda>p. projr (proto_Write p)) ps) @ rest) = Inr (ps, rest) \<and>
    (\<forall>p \<in> set ps. \<forall>k < length (projr (proto_Write p)). \<exists>e. proto_Read (take k (projr (proto_Write p))) = Inl e) \<and>
    (\<forall>p b s. proto_Write p = Inr b \<longrightarrow> proto_Read (b @ s) = Inr (carried p, s)) \<and>
    (\<forall>s p r. proto_Read s = Inr (p, r) \<longrightarrow> proto_valid p) \<and>
    (\<forall>t t'. tcp_validate (tcp_setDefaults t) = (t', []) \<longrightarrow>
       proto_valid \<lparr>Type = PTCPF, p_Addr = None, p_TCPF = LF t'\<rparr> \<and> LF t' \<noteq> [] \<and> RF t' \<noteq> [])"
proof (intro conjI allI impI)
  show "\<forall>p \<in> set ps. \<exists>b. proto_Write p = Inr b" using assms proto_Write_valid by blast
  show "decode_n (length ps) proto_Read (concat (map (\<lambda>p. projr (proto_Write p)) ps) @ rest) = Inr (ps, rest)"
    by (rule proto.decode_n_concat [OF assms])
  show "\<forall>p \<in> set ps. \<forall>k < length (projr (proto_Write p)). \<exists>e. proto_Read (take k (projr (proto_Write p))) = Inl e"
    using assms proto.dec_trunc by blast
  show "proto_Read (b @ s) = Inr (carried p, s)" if "proto_Write p = Inr b" for p b s
    by (rule proto_Write_Read [OF that])
  show "proto_valid p" if "proto_Read s = Inr (p, r)" for s p r
    by (rule proto_Read_valid [OF that])
next
  fix t t' assume v: "tcp_validate (tcp_setDefaults t) = (t', [])"
  show "proto_valid \<lparr>Type = PTCPF, p_Addr = None, p_TCPF = LF t'\<rparr>" "LF t' \<noteq> []" "RF t' \<noteq> []"
    using v by (auto simp: tcp_validate_def tcp_setDefaults_def proto_valid_def proto_consts Let_def split: if_splits)
qed

theorem proto_messages_witness:
  "decode_n 2 proto_Read
     (projr (proto_Write \<lparr>Type = PUDP, p_Addr = Some \<lparr>Host = [104], Port = 53\<rparr>, p_TCPF = []\<rparr>) @
      projr (proto_Write \<lparr>Type = PPING, p_Addr = None, p_TCPF = []\<rparr>) @ [7])
     = Inr ([\<lparr>Type = PUDP, p_Addr = Some \<lparr>Host = [104], Port = 53\<rparr>, p_TCPF = []\<rparr>,
         \<lparr>Type = PPING, p_Addr = None, p_TCPF = []\<rparr>], [7])"
proof -
  have "\<forall>p \<in> set [\<lparr>Type = PUDP, p_Addr = Some \<lparr>Host = [104], Port = 53\<rparr>, p_TCPF = []\<rparr>,
      \<lparr>Type = PPING, p_Addr = None, p_TCPF = []\<rparr>]. proto_valid p"
    by (simp add: proto_valid_def proto_consts)
  from proto_messages [OF this, of "[7]"] show ?thesis by (simp add: numeral_2_eq_2)
qed

end
