(* ===== verification/Pools.thy ===== *)
theory Pools
  imports Complex_Main Go_Strings "HOL-Library.Signed_Division"
begin

text \<open>
  The client's pools: the health-checked set of local backends of a forwarded port
  (\<open>internal/client/transport/backendpool.go\<close>) and the size of the pool of tunnel connections
  (\<open>poolload.go\<close> and \<open>poolMaintainer\<close> of \<open>tcp.go\<close>).

  Probes and the throughput measurement are arguments.  Throughput is a floating-point quotient in the
  source and a rational one here.  The round-robin counter is a 64-bit integer that counts picks.
\<close>

section \<open>Backends: \<open>backendpool.go\<close>\<close>

definition backendSep :: char where
  "backendSep = CHR ''|''"

definition backendMaxFailed :: nat where
  "backendMaxFailed = 3"

definition splitBackends :: "string \<Rightarrow> string list" where
  "splitBackends l = filter (\<lambda>p. p \<noteq> []) (map TrimSpace (Split backendSep l))"

definition firstBackend :: "string \<Rightarrow> string" where
  "firstBackend target = (case splitBackends target of [] \<Rightarrow> target | b # _ \<Rightarrow> b)"

record backendGroup =
  bg_list :: "string list"
  healthy :: "bool list"
  bg_fails :: "nat list"
  bg_next :: nat

text \<open>The loop of \<open>pick\<close>: up to \<open>k\<close> more candidates.\<close>

fun pick_loop :: "nat \<Rightarrow> backendGroup \<Rightarrow> string option \<times> backendGroup" where
  "pick_loop 0 g = (None, g)"
| "pick_loop (Suc k) g =
     (let idx = bg_next g mod length (bg_list g);
          g' = g\<lparr>bg_next := Suc (bg_next g)\<rparr> in
      if healthy g ! idx then (Some (bg_list g ! idx), g') else pick_loop k g')"

definition group_pick :: "backendGroup \<Rightarrow> string \<times> backendGroup" where
  "group_pick g =
     (let n = length (bg_list g) in
      if n = 0 then ([], g)
      else case pick_loop n g of
          (Some b, g') \<Rightarrow> (b, g')
        | (None, g') \<Rightarrow> (bg_list g' ! (bg_next g' mod n), g'\<lparr>bg_next := Suc (bg_next g')\<rparr>))"

text \<open>One probe of \<open>run\<close>, of backend \<open>i\<close>.\<close>

definition note_probe :: "nat \<times> bool \<Rightarrow> backendGroup \<Rightarrow> backendGroup" where
  "note_probe = (\<lambda>(i, ok) g.
     if ok then g\<lparr>healthy := (healthy g)[i := True], bg_fails := (bg_fails g)[i := 0]\<rparr>
     else
       (let f = Suc (bg_fails g ! i) in
        g\<lparr>bg_fails := (bg_fails g)[i := f],
          healthy := (if backendMaxFailed \<le> f then (healthy g)[i := False] else healthy g)\<rparr>))"

definition new_group :: "string \<Rightarrow> backendGroup" where
  "new_group target =
     (let l = splitBackends target in
      \<lparr>bg_list = l, healthy = replicate (length l) True, bg_fails = replicate (length l) 0, bg_next = 0\<rparr>)"

type_synonym backendPool = "string \<Rightarrow> backendGroup option"

definition pool_group :: "string \<Rightarrow> backendPool \<Rightarrow> backendGroup" where
  "pool_group target p = (case p target of Some g \<Rightarrow> g | None \<Rightarrow> new_group target)"

definition pool_pick :: "string \<Rightarrow> backendPool \<Rightarrow> string \<times> backendPool" where
  "pool_pick target p =
     (if backendSep \<notin> set target then (target, p)
      else if length (splitBackends target) < 2 then (firstBackend target, p)
      else (case group_pick (pool_group target p) of (b, g) \<Rightarrow> (b, p(target \<mapsto> g))))"

section \<open>Pool size: \<open>poolload.go\<close> and \<open>poolMaintainer\<close>\<close>

definition poolScaleMbpsPerConn :: int where "poolScaleMbpsPerConn = 12"
definition poolGrowthLimit :: int where "poolGrowthLimit = 4"

record poolLoad =
  lastIn :: nat
  lastOut :: nat
  lastAt :: "rat option"

text \<open>\<open>mbps\<close> with the counters read and the time in seconds.\<close>

definition pl_mbps :: "nat \<Rightarrow> nat \<Rightarrow> rat \<Rightarrow> poolLoad \<Rightarrow> int \<times> poolLoad" where
  "pl_mbps tin tout now p =
     (let p' = \<lparr>lastIn = tin, lastOut = tout, lastAt = Some now\<rparr> in
      case lastAt p of
        None \<Rightarrow> (0, p')
      | Some prev \<Rightarrow>
          (if tin < lastIn p \<or> tout < lastOut p then (0, p')
           else
             (let secs = now - prev in
              if secs \<le> 0 then (0, p')
              else
                (let bits = of_nat ((tin - lastIn p) + (tout - lastOut p)) * 8 in
                 (\<lfloor>bits / secs / 1000000\<rfloor>, p')))))"

definition poolCanGrow :: "int \<Rightarrow> int \<Rightarrow> bool" where
  "poolCanGrow poolSize configuredSize =
     (if configuredSize \<le> 0 then False else poolSize < configuredSize * poolGrowthLimit)"

text \<open>Go's integer division truncates; both operands are positive where it is reached.\<close>

definition wantsMore :: "int \<Rightarrow> int \<Rightarrow> int \<Rightarrow> int \<Rightarrow> bool" where
  "wantsMore mbps liveConns poolSize configuredSize =
     (if mbps \<le> 0 \<or> liveConns \<le> 0 then False
      else if \<not> poolCanGrow poolSize configuredSize then False
      else mbps div liveConns \<ge> poolScaleMbpsPerConn)"

datatype pool_action = DialOne | DropOne | Keep

text \<open>The load tick of \<open>poolMaintainer\<close>: the requests of the last ten seconds, the sum of ten samples of the
  pool, and the throughput.\<close>

definition pool_tick :: "bool \<Rightarrow> int \<Rightarrow> int \<times> int \<times> int \<Rightarrow> int \<Rightarrow> pool_action \<times> int" where
  "pool_tick aggressive configured = (\<lambda>(requests, samples, mbps) sz.
     let (a, b, x, y) = (if aggressive then (1, 2, 0, 3 / 4) else (4, 5, 3, 4 :: rat));
         loadConnections = (requests + 9) sdiv 10;
         avg = (samples + 9) sdiv 10 in
     if (loadConnections + a > avg * b \<and> poolCanGrow sz configured) \<or> wantsMore mbps avg sz configured
     then (DialOne, sz + 1)
     else if of_int (loadConnections + x) < of_int avg * y \<and> sz > configured
     then (DropOne, sz - 1)
     else (Keep, sz))"

section \<open>Fair picks\<close>

definition group_ok :: "backendGroup \<Rightarrow> bool" where
  "group_ok g = (length (healthy g) = length (bg_list g) \<and> length (bg_fails g) = length (bg_list g) \<and> bg_list g \<noteq> [])"

abbreviation up_at :: "backendGroup \<Rightarrow> nat \<Rightarrow> bool" where
  "up_at g i \<equiv> healthy g ! (i mod length (bg_list g))"

lemma pick_loop_first:
  assumes "\<And>i. bg_next g \<le> i \<Longrightarrow> i < q \<Longrightarrow> \<not> up_at g i" "up_at g q" "bg_next g \<le> q" "q < bg_next g + k"
  shows "pick_loop k g = (Some (bg_list g ! (q mod length (bg_list g))), g\<lparr>bg_next := Suc q\<rparr>)"
  using assms
proof (induction k arbitrary: g)
  case (Suc k)
  show ?case
  proof (cases "bg_next g = q")
    case True
    then show ?thesis using Suc.prems(2) by (simp add: Let_def)
  next
    case False
    then have "\<not> up_at g (bg_next g)" using Suc.prems(1,3) by simp
    then show ?thesis
      using Suc.IH [of "g\<lparr>bg_next := Suc (bg_next g)\<rparr>"] Suc.prems False by (simp add: Let_def)
  qed
qed simp

lemma next_up:
  assumes "group_ok g" "j < length (bg_list g)" "healthy g ! j"
  shows "\<exists>q. bg_next g \<le> q \<and> q < bg_next g + length (bg_list g) \<and> up_at g q \<and>
    (\<forall>i. bg_next g \<le> i \<longrightarrow> i < q \<longrightarrow> \<not> up_at g i)"
proof -
  let ?n = "length (bg_list g)" and ?p = "bg_next g"
  define m where "m = ?p + (j + ?n - ?p mod ?n) mod ?n"
  have n: "0 < ?n" using assms(1) by (simp add: group_ok_def)
  have "m mod ?n = (?p mod ?n + (j + ?n - ?p mod ?n)) mod ?n"
    by (simp add: m_def mod_add_right_eq mod_add_left_eq)
  also have "?p mod ?n + (j + ?n - ?p mod ?n) = j + ?n"
    using mod_less_divisor [OF n, of ?p] by linarith
  finally have "up_at g m" using assms(2,3) by simp
  moreover have "?p \<le> m" "m < ?p + ?n" using n by (auto simp: m_def)
  ultimately have ex: "\<exists>q. ?p \<le> q \<and> up_at g q" by blast
  define q where "q = (LEAST q. ?p \<le> q \<and> up_at g q)"
  have "?p \<le> q \<and> up_at g q" unfolding q_def by (rule LeastI_ex [OF ex])
  moreover have "q \<le> m" unfolding q_def by (rule Least_le) (use \<open>up_at g m\<close> \<open>?p \<le> m\<close> in simp)
  moreover have "\<not> up_at g i" if "?p \<le> i" "i < q" for i
    using not_less_Least [of i "\<lambda>q. ?p \<le> q \<and> up_at g q"] that by (auto simp: q_def)
  ultimately show ?thesis using \<open>m < ?p + ?n\<close> by (intro exI [of _ q]) auto
qed

fun pick_seq :: "nat \<Rightarrow> backendGroup \<Rightarrow> string list \<times> backendGroup" where
  "pick_seq 0 g = ([], g)"
| "pick_seq (Suc k) g =
     (case group_pick g of (b, g1) \<Rightarrow> (case pick_seq k g1 of (bs, g2) \<Rightarrow> (b # bs, g2)))"

text \<open>The healthy positions between two values of the counter.\<close>

definition ups :: "backendGroup \<Rightarrow> nat \<Rightarrow> nat \<Rightarrow> nat list" where
  "ups g p q = filter (\<lambda>i. up_at g i) [p..<q]"

lemma group_pick_up:
  assumes "group_ok g" "j < length (bg_list g)" "healthy g ! j"
  shows "\<exists>q. bg_next g < q \<and> q \<le> bg_next g + length (bg_list g) \<and> ups g (bg_next g) q = [q - 1] \<and>
    group_pick g = (bg_list g ! ((q - 1) mod length (bg_list g)), g\<lparr>bg_next := q\<rparr>)"
proof -
  obtain q where q: "bg_next g \<le> q" "q < bg_next g + length (bg_list g)" "up_at g q"
      "\<And>i. bg_next g \<le> i \<Longrightarrow> i < q \<Longrightarrow> \<not> up_at g i"
    using next_up [OF assms] by blast
  have "group_pick g = (bg_list g ! (q mod length (bg_list g)), g\<lparr>bg_next := Suc q\<rparr>)"
    using pick_loop_first [OF q(4,3,1,2)] assms(1) by (auto simp: group_pick_def group_ok_def Let_def)
  moreover have "ups g (bg_next g) (Suc q) = [q]" using q by (auto simp: ups_def filter_empty_conv)
  ultimately show ?thesis using q by (intro exI [of _ "Suc q"]) auto
qed

lemma ups_append: "p \<le> q \<Longrightarrow> q \<le> r \<Longrightarrow> ups g p q @ ups g q r = ups g p r"
  using upt_add_eq_append [of p q "r - q"] by (simp add: ups_def flip: filter_append)

lemma ups_next [simp]: "ups (g\<lparr>bg_next := m\<rparr>) p q = ups g p q"
  by (simp add: ups_def)

lemma pick_seq_ups:
  assumes "group_ok g" "j < length (bg_list g)" "healthy g ! j"
  shows "\<exists>q. bg_next g \<le> q \<and> length (ups g (bg_next g) q) = k \<and>
    pick_seq k g = (map (\<lambda>i. bg_list g ! (i mod length (bg_list g))) (ups g (bg_next g) q), g\<lparr>bg_next := q\<rparr>)"
  using assms
proof (induction k arbitrary: g)
  case 0
  then show ?case by (intro exI [of _ "bg_next g"]) (simp add: ups_def)
next
  case (Suc k)
  obtain q where q: "bg_next g < q" "ups g (bg_next g) q = [q - 1]"
      "group_pick g = (bg_list g ! ((q - 1) mod length (bg_list g)), g\<lparr>bg_next := q\<rparr>)"
    using group_pick_up [OF Suc.prems] by blast
  let ?g = "g\<lparr>bg_next := q\<rparr>"
  have "group_ok ?g" "j < length (bg_list ?g)" "healthy ?g ! j"
    using Suc.prems by (simp_all add: group_ok_def)
  from Suc.IH [OF this] obtain r where r: "q \<le> r" "length (ups g q r) = k"
      "pick_seq k ?g = (map (\<lambda>i. bg_list g ! (i mod length (bg_list g))) (ups g q r), g\<lparr>bg_next := r\<rparr>)"
    by auto
  have "ups g (bg_next g) r = (q - 1) # ups g q r"
    using ups_append [of "bg_next g" q r g] q(1,2) r(1) by simp
  then show ?case using q r by (intro exI [of _ r]) simp
qed

text \<open>The failures of backend \<open>i\<close> since its last success, from the probes in order.\<close>

definition misses :: "nat \<Rightarrow> (nat \<times> bool) list \<Rightarrow> nat" where
  "misses i h = length (takeWhile (\<lambda>(_, ok). \<not> ok) (filter (\<lambda>(j, _). j = i) (rev h)))"

lemma misses_snoc: "misses i (h @ [(j, ok)]) = (if j \<noteq> i then misses i h else if ok then 0 else Suc (misses i h))"
  by (simp add: misses_def)

lemma note_probes:
  assumes "\<forall>(i, _) \<in> set h. i < length (splitBackends target)"
  shows "let g = fold note_probe h (new_group target) in
    bg_list g = splitBackends target \<and> length (healthy g) = length (splitBackends target) \<and>
    length (bg_fails g) = length (splitBackends target) \<and> bg_next g = 0 \<and>
    (\<forall>i < length (splitBackends target). bg_fails g ! i = misses i h \<and> (healthy g ! i \<longleftrightarrow> misses i h < 3))"
  using assms
proof (induction h rule: rev_induct)
  case Nil
  then show ?case by (simp add: new_group_def misses_def Let_def)
next
  case (snoc p h)
  obtain j ok where p: "p = (j, ok)" by (cases p)
  define g where "g = fold note_probe h (new_group target)"
  have ih: "bg_list g = splitBackends target" "length (healthy g) = length (splitBackends target)"
      "length (bg_fails g) = length (splitBackends target)" "bg_next g = 0"
      "\<And>i. i < length (splitBackends target) \<Longrightarrow> bg_fails g ! i = misses i h"
      "\<And>i. i < length (splitBackends target) \<Longrightarrow> healthy g ! i \<longleftrightarrow> misses i h < 3"
    using snoc by (auto simp: g_def Let_def)
  have "fold note_probe (h @ [p]) (new_group target) = note_probe (j, ok) g" by (simp add: g_def p)
  moreover have "j < length (splitBackends target)" using snoc.prems p by simp
  ultimately show ?case
    using ih by (auto simp: p note_probe_def Let_def misses_snoc nth_list_update backendMaxFailed_def)
qed

text \<open>(C14) Load balancing over the backends that are up.  After any history of probes, a backend is in rotation
  exactly when fewer than three probes in a row have failed since its last success.  While at least
  one is in rotation, successive picks hand out exactly the backends in rotation, in cyclic order, so
  as many picks as there are backends reach every one of them and none that is out.\<close>

theorem backends_balanced:
  fixes target h k
  defines "g \<equiv> fold note_probe h (new_group target)"
  defines "n \<equiv> length (splitBackends target)"
  assumes h: "\<forall>(i, _) \<in> set h. i < n" and up: "j < n" "misses j h < 3"
  shows "(\<forall>i < n. healthy g ! i \<longleftrightarrow> misses i h < 3) \<and>
    (\<exists>q. fst (pick_seq k g) = map (\<lambda>i. splitBackends target ! (i mod n)) (filter (\<lambda>i. misses (i mod n) h < 3) [0..<q]) \<and>
       length (fst (pick_seq k g)) = k) \<and>
    (n \<le> k \<longrightarrow> (\<forall>i < n. misses i h < 3 \<longrightarrow> splitBackends target ! i \<in> set (fst (pick_seq k g)))) \<and>
    set (fst (pick_seq k g)) \<subseteq> {splitBackends target ! i | i. i < n \<and> misses i h < 3}"
proof -
  have inv: "bg_list g = splitBackends target" "length (healthy g) = n" "length (bg_fails g) = n" "bg_next g = 0"
      "\<And>i. i < n \<Longrightarrow> healthy g ! i \<longleftrightarrow> misses i h < 3"
    using note_probes [OF h [unfolded n_def]] by (auto simp: g_def n_def Let_def)
  have n: "0 < n" using up by simp
  have ok: "group_ok g" "j < length (bg_list g)" "healthy g ! j"
    using inv up n by (auto simp: group_ok_def n_def)
  obtain q where q: "length (ups g 0 q) = k"
      "pick_seq k g = (map (\<lambda>i. bg_list g ! (i mod length (bg_list g))) (ups g 0 q), g\<lparr>bg_next := q\<rparr>)"
    using pick_seq_ups [OF ok, of k] inv(4) by auto
  have ups: "ups g 0 q = filter (\<lambda>i. misses (i mod n) h < 3) [0..<q]"
    unfolding ups_def using inv(1,5) n by (intro filter_cong) (auto simp: n_def)
  have picks: "fst (pick_seq k g) = map (\<lambda>i. splitBackends target ! (i mod n)) (filter (\<lambda>i. misses (i mod n) h < 3) [0..<q])"
    using q(2) ups inv(1) by (simp add: n_def)
  have "k \<le> q" using q(1) unfolding ups_def by (metis diff_zero length_filter_le length_upt)
  then have "splitBackends target ! i \<in> set (fst (pick_seq k g))" if "n \<le> k" "i < n" "misses i h < 3" for i
    unfolding picks using that by (force intro!: image_eqI [of _ _ i])
  moreover have "set (fst (pick_seq k g)) \<subseteq> {splitBackends target ! i | i. i < n \<and> misses i h < 3}"
    unfolding picks using n by (auto intro!: exI mod_less_divisor)
  moreover have "length (fst (pick_seq k g)) = k" using q by simp
  ultimately show ?thesis using inv(5) picks by blast
qed

theorem backends_balanced_witness:
  "\<exists>q. fst (pick_seq 2 (fold note_probe [(0, False), (0, False), (0, False)] (new_group ''a|b''))) =
     map (\<lambda>i. [''a'', ''b''] ! (i mod 2)) (filter (\<lambda>i. misses (i mod 2) [(0, False), (0, False), (0, False)] < 3) [0..<q])"
proof -
  have "splitBackends ''a|b'' = [''a'', ''b'']"
    by (simp add: splitBackends_def backendSep_def TrimSpace_def is_space_def)
  then show ?thesis
    using backends_balanced [of "[(0, False), (0, False), (0, False)]" "''a|b''" 1 2] by (auto simp: misses_def numeral_2_eq_2)
qed

section \<open>Bounded growth\<close>

fun pool_run :: "bool \<Rightarrow> int \<Rightarrow> (int \<times> int \<times> int) list \<Rightarrow> int \<Rightarrow> pool_action list \<times> int" where
  "pool_run aggressive configured [] sz = ([], sz)"
| "pool_run aggressive configured (t # ts) sz =
     (case pool_tick aggressive configured t sz of
        (a, sz1) \<Rightarrow> (case pool_run aggressive configured ts sz1 of (as, sz2) \<Rightarrow> (a # as, sz2)))"

lemma pool_tick_step:
  assumes "0 < configured" "configured \<le> sz" "sz \<le> 4 * configured"
    and "pool_tick aggressive configured t sz = (a, sz')"
  shows "configured \<le> sz' \<and> sz' \<le> 4 * configured \<and>
    sz' - sz = (case a of DialOne \<Rightarrow> 1 | DropOne \<Rightarrow> - 1 | Keep \<Rightarrow> 0)"
  using assms
  by (cases t) (auto simp: pool_tick_def poolCanGrow_def wantsMore_def poolGrowthLimit_def Let_def split: if_splits)

text \<open>The pool of tunnel connections stays within its bounds.  Whatever the load, it never falls below the
  configured size nor grows beyond four times it, and its size is the configured size plus the
  connections dialled minus those dropped.\<close>

theorem pool_size_bounded:
  assumes "0 < configured" "pool_run aggressive configured ts configured = (as, sz)"
  shows "configured \<le> sz \<and> sz \<le> 4 * configured \<and>
    sz = configured + int (count_list as DialOne) - int (count_list as DropOne)"
proof -
  have "configured \<le> s' \<and> s' \<le> 4 * configured \<and> s' = s + int (count_list as DialOne) - int (count_list as DropOne)"
    if "configured \<le> s" "s \<le> 4 * configured" "pool_run aggressive configured ts s = (as, s')" for s s' as
    using that
  proof (induction ts arbitrary: s as)
    case (Cons t ts)
    obtain a s1 where a: "pool_tick aggressive configured t s = (a, s1)" by fastforce
    obtain bs where bs: "pool_run aggressive configured ts s1 = (bs, s')" "as = a # bs"
      using Cons.prems(3) a by (auto split: prod.splits)
    show ?case
      using pool_tick_step [OF assms(1) Cons.prems(1,2) a] Cons.IH [OF _ _ bs(1)] bs(2) by (cases a) auto
  qed simp
  from this [OF _ _ assms(2)] show ?thesis using assms(1) by simp
qed

theorem pool_size_bounded_witness:
  "\<exists>as sz. pool_run False 2 [(100, 0, 0), (100, 0, 0), (0, 100, 0)] 2 = (as, sz) \<and> sz \<le> 8"
proof -
  obtain as sz where "pool_run False 2 [(100, 0, 0), (100, 0, 0), (0, 100, 0)] 2 = (as, sz)" by fastforce
  with pool_size_bounded [OF _ this] show ?thesis by auto
qed

end
