(* ===== verification/Secure_Stream.thy ===== *)
theory Secure_Stream
  imports Go_Prelude
begin

text \<open>
  The encrypted stream of the hedioum engine: \<open>internal/hedioum/engine/securestream\<close>, its handshake,
  record layer (\<open>securestream.go\<close>) and replay filter (\<open>replay.go\<close>).

  The AEAD (ChaCha20-Poly1305) and the key derivation are not part of the repository and are arguments.
  \<open>aead_ok\<close> states what is used of the AEAD, which is true of its definition: sealing adds a 16-byte
  tag, opening inverts it, and what opens is exactly what sealing under that key and nonce yields.
  Random draws (salts, padding) and the clock are arguments.  An AEAD object is its key.
\<close>

section \<open>Parameters\<close>

record aead =
  Seal :: "bytes \<Rightarrow> bytes \<Rightarrow> bytes \<Rightarrow> bytes"
  Open :: "bytes \<Rightarrow> bytes \<Rightarrow> bytes \<Rightarrow> bytes option"

definition saltSize :: nat where "saltSize = 32"
definition tagSize :: nat where "tagSize = 16"
definition nonceSize :: nat where "nonceSize = 12"
definition maxChunk :: nat where "maxChunk = 16383"
definition maxPad :: nat where "maxPad = 255"
definition lenHdrLen :: nat where "lenHdrLen = 4"

definition sc_magic :: bytes where
  "sc_magic = str_bytes ''HEDIOUM1''"

lemmas sc_consts = saltSize_def tagSize_def nonceSize_def maxChunk_def maxPad_def lenHdrLen_def

definition aead_ok :: "aead \<Rightarrow> bool" where
  "aead_ok a =
     ((\<forall>k n p. length (Seal a k n p) = length p + tagSize) \<and>
      (\<forall>k n p. Open a k n (Seal a k n p) = Some p) \<and>
      (\<forall>k n c p. Open a k n c = Some p \<longrightarrow> c = Seal a k n p))"

section \<open>Record layer: \<open>securestream.go\<close>\<close>

datatype sc_error = ScRead io_error | ErrAuth | BadHeader

record SecureConn =
  rKey :: bytes
  rNonce :: bytes
  leftover :: bytes
  wKey :: bytes
  wNonce :: bytes

definition newSecureConn :: SecureConn where
  "newSecureConn =
     \<lparr>rKey = [], rNonce = replicate nonceSize 0, leftover = [], wKey = [], wNonce = replicate nonceSize 0\<rparr>"

fun incrementNonce :: "bytes \<Rightarrow> bytes" where
  "incrementNonce [] = []"
| "incrementNonce (b # bs) = (if b + 1 \<noteq> 0 then (b + 1) # bs else (b + 1) # incrementNonce bs)"

text \<open>\<open>pad\<close> is the padding drawn for this frame.\<close>

definition writeChunk :: "aead \<Rightarrow> bytes \<Rightarrow> bytes \<Rightarrow> SecureConn \<Rightarrow> bytes \<times> SecureConn" where
  "writeChunk a pad plaintext c =
     (let lenHdr = be16 (len16 plaintext) @ be16 (len16 pad);
          out = Seal a (wKey c) (wNonce c) lenHdr;
          c1 = c\<lparr>wNonce := incrementNonce (wNonce c)\<rparr>;
          out = out @ Seal a (wKey c1) (wNonce c1) plaintext;
          c2 = c1\<lparr>wNonce := incrementNonce (wNonce c1)\<rparr> in
      (out @ pad, c2))"

text \<open>The loop of \<open>Write\<close> from offset \<open>sent\<close>; \<open>rnd k\<close> is the padding of the \<open>k\<close>-th chunk and \<open>fails k\<close> says
  that the connection refuses it.  The result is the count returned, whether an error was returned, and
  the bytes the connection took.\<close>

function sc_write_loop ::
    "aead \<Rightarrow> (nat \<Rightarrow> bytes) \<Rightarrow> (nat \<Rightarrow> bool) \<Rightarrow> nat \<Rightarrow> bytes \<Rightarrow> nat \<Rightarrow> SecureConn \<Rightarrow> nat \<times> bool \<times> bytes \<times> SecureConn" where
  "sc_write_loop a rnd fails k p sent c =
     (if sent < length p then
        (let stop = min (sent + maxChunk) (length p) in
         case writeChunk a (rnd k) (take (stop - sent) (drop sent p)) c of
           (frame, c1) \<Rightarrow>
             (if fails k then (sent, True, [], c1)
              else case sc_write_loop a rnd fails (Suc k) p stop c1 of
                  (n, err, out, c2) \<Rightarrow> (n, err, frame @ out, c2)))
      else (sent, False, [], c))"
  by pat_completeness auto
termination
  by (relation "measure (\<lambda>(_, _, _, _, p, sent, _). length p - sent)") (auto simp: maxChunk_def)

declare sc_write_loop.simps [simp del]

definition sc_Write ::
    "aead \<Rightarrow> (nat \<Rightarrow> bytes) \<Rightarrow> (nat \<Rightarrow> bool) \<Rightarrow> bytes \<Rightarrow> SecureConn \<Rightarrow> nat \<times> bool \<times> bytes \<times> SecureConn" where
  "sc_Write a rnd fails p c = sc_write_loop a rnd fails 0 p 0 c"

definition readChunk :: "aead \<Rightarrow> bytes \<Rightarrow> SecureConn \<Rightarrow> (sc_error + bytes) \<times> bytes \<times> SecureConn" where
  "readChunk a s c =
     (case read_full (lenHdrLen + tagSize) s of
        Inl e \<Rightarrow> (Inl (ScRead e), [], c)
      | Inr (lenBuf, s1) \<Rightarrow>
          (case Open a (rKey c) (rNonce c) lenBuf of
             None \<Rightarrow> (Inl ErrAuth, s1, c)
           | Some hdr \<Rightarrow>
               (let c1 = c\<lparr>rNonce := incrementNonce (rNonce c)\<rparr>;
                    payloadLen = unat (u16_at hdr 0);
                    padLen = unat (u16_at hdr 2) in
                if payloadLen = 0 \<or> maxChunk < payloadLen \<or> maxPad < padLen then (Inl BadHeader, s1, c1)
                else case read_full (payloadLen + tagSize) s1 of
                    Inl e \<Rightarrow> (Inl (ScRead e), [], c1)
                  | Inr (enc, s2) \<Rightarrow>
                      (case Open a (rKey c1) (rNonce c1) enc of
                         None \<Rightarrow> (Inl ErrAuth, s2, c1)
                       | Some plain \<Rightarrow>
                           (let c2 = c1\<lparr>rNonce := incrementNonce (rNonce c1)\<rparr> in
                            if 0 < padLen then
                              (case read_full padLen s2 of
                                 Inl e \<Rightarrow> (Inl (ScRead e), [], c2)
                               | Inr (_, s3) \<Rightarrow> (Inr plain, s3, c2))
                            else (Inr plain, s2, c2))))))"

text \<open>\<open>Read\<close> into a buffer of \<open>n\<close> bytes; the result is what was copied to it.\<close>

definition sc_Read :: "aead \<Rightarrow> nat \<Rightarrow> bytes \<Rightarrow> SecureConn \<Rightarrow> (sc_error + bytes) \<times> bytes \<times> SecureConn" where
  "sc_Read a n s c =
     (if leftover c \<noteq> [] then (Inr (take n (leftover c)), s, c\<lparr>leftover := drop n (leftover c)\<rparr>)
      else case readChunk a s c of
          (Inl e, s1, c1) \<Rightarrow> (Inl e, s1, c1)
        | (Inr plain, s1, c1) \<Rightarrow>
            (Inr (take n plain), s1, if n < length plain then c1\<lparr>leftover := drop n plain\<rparr> else c1))"

section \<open>Replay filter: \<open>replay.go\<close>\<close>

text \<open>Times are in nanoseconds; the Go map is a list of its entries.\<close>

definition replayTTL :: int where
  "replayTTL = 24 * 3600 * 1000000000"

record ReplayFilter =
  seen :: "(bytes \<times> int) list"
  maxSize :: int

definition NewReplayFilter :: "int \<Rightarrow> ReplayFilter" where
  "NewReplayFilter m = \<lparr>seen = [], maxSize = (if m \<le> 0 then 50000 else m)\<rparr>"

definition evict :: "int \<Rightarrow> ReplayFilter \<Rightarrow> ReplayFilter" where
  "evict now f =
     (let live = filter (\<lambda>(_, exp). \<not> exp < now) (seen f) in
      f\<lparr>seen := (if maxSize f \<le> int (length live) then [] else live)\<rparr>)"

definition Accept :: "int \<Rightarrow> bytes \<Rightarrow> ReplayFilter \<Rightarrow> bool \<times> ReplayFilter" where
  "Accept now salt f =
     (if salt \<in> fst ` set (seen f) then (False, f)
      else
        (let f1 = (if maxSize f \<le> int (length (seen f)) then evict now f else f) in
         (True, f1\<lparr>seen := (salt, now + replayTTL) # seen f1\<rparr>)))"

section \<open>Handshakes\<close>

type_synonym derive = "bytes \<Rightarrow> bytes \<Rightarrow> bytes"

text \<open>The client: what it sends, given the bytes that will arrive, and its connection with the bytes after the
  handshake.\<close>

definition ClientHandshake ::
    "aead \<Rightarrow> derive \<Rightarrow> bytes \<Rightarrow> bytes \<Rightarrow> bytes \<Rightarrow> bytes \<Rightarrow> bytes \<times> (sc_error + (SecureConn \<times> bytes))" where
  "ClientHandshake a deriveKey psk saltC pad s =
     (let sc = newSecureConn\<lparr>wKey := deriveKey psk saltC\<rparr>;
          (frame, sc) = writeChunk a pad sc_magic sc;
          out = saltC @ frame in
      case read_full saltSize s of
        Inl e \<Rightarrow> (out, Inl (ScRead e))
      | Inr (saltS, s1) \<Rightarrow> (out, Inr (sc\<lparr>rKey := deriveKey psk saltS\<rparr>, s1)))"

definition ServerHandshake ::
    "aead \<Rightarrow> derive \<Rightarrow> bytes \<Rightarrow> ReplayFilter option \<Rightarrow> int \<Rightarrow> bytes \<Rightarrow> bytes \<Rightarrow>
     bytes \<times> (sc_error + (SecureConn \<times> bytes)) \<times> ReplayFilter option" where
  "ServerHandshake a deriveKey psk fo now saltS s =
     (case read_full saltSize s of
        Inl e \<Rightarrow> ([], Inl (ScRead e), fo)
      | Inr (saltC, s1) \<Rightarrow>
          (let sc = newSecureConn\<lparr>rKey := deriveKey psk saltC\<rparr> in
           case readChunk a s1 sc of
             (Inl _, _, _) \<Rightarrow> ([], Inl ErrAuth, fo)
           | (Inr authPlaintext, s2, sc) \<Rightarrow>
               (if length authPlaintext \<noteq> 8 then ([], Inl ErrAuth, fo)
                else if authPlaintext \<noteq> sc_magic then ([], Inl ErrAuth, fo)
                else
                  (let (fresh, fo) = (case fo of None \<Rightarrow> (True, None)
                         | Some f \<Rightarrow> (case Accept now saltC f of (b, f) \<Rightarrow> (b, Some f))) in
                   if \<not> fresh then ([], Inl ErrAuth, fo)
                   else (saltS, Inr (sc\<lparr>wKey := deriveKey psk saltS\<rparr>, s2), fo)))))"

section \<open>One frame\<close>

definition frame :: "aead \<Rightarrow> bytes \<Rightarrow> bytes \<Rightarrow> bytes \<times> bytes \<Rightarrow> bytes" where
  "frame a key n = (\<lambda>(p, pad).
     Seal a key n (be16 (len16 p) @ be16 (len16 pad)) @ Seal a key (incrementNonce n) p @ pad)"

definition next_nonce :: "bytes \<Rightarrow> bytes" where
  "next_nonce n = incrementNonce (incrementNonce n)"

definition chunk_ok :: "bytes \<times> bytes \<Rightarrow> bool" where
  "chunk_ok = (\<lambda>(p, pad). 0 < length p \<and> length p \<le> maxChunk \<and> length pad \<le> maxPad)"

lemma writeChunk_frame:
  "writeChunk a pad p c = (frame a (wKey c) (wNonce c) (p, pad), c\<lparr>wNonce := next_nonce (wNonce c)\<rparr>)"
  by (simp add: writeChunk_def frame_def next_nonce_def Let_def)

lemma aead_okD:
  assumes "aead_ok a"
  shows "length (Seal a k n p) = length p + 16" "Open a k n (Seal a k n p) = Some p"
    "Open a k n c = Some p \<Longrightarrow> c = Seal a k n p"
  using assms by (auto simp: aead_ok_def tagSize_def)

lemma readChunk_frame:
  assumes "aead_ok a" "chunk_ok (p, pad)"
  shows "readChunk a (frame a (rKey c) (rNonce c) (p, pad) @ rest) c =
    (Inr p, rest, c\<lparr>rNonce := next_nonce (rNonce c)\<rparr>)"
  using assms(2)
  by (simp add: readChunk_def frame_def next_nonce_def chunk_ok_def sc_consts aead_okD [OF assms(1)] Let_def
      u16_at_append_left [of 0 "be16 _"])

lemma readChunk_only_frames:
  assumes "aead_ok a" "readChunk a s c = (Inr p, rest, c')"
  shows "\<exists>pad. chunk_ok (p, pad) \<and> s = frame a (rKey c) (rNonce c) (p, pad) @ rest \<and>
    c' = c\<lparr>rNonce := next_nonce (rNonce c)\<rparr>"
  using assms(2)
proof -
  obtain lenBuf s1 where 1: "read_full 20 s = Inr (lenBuf, s1)"
    using assms(2) by (auto simp: readChunk_def sc_consts split: sum.splits)
  obtain hdr where 2: "Open a (rKey c) (rNonce c) lenBuf = Some hdr"
    using assms(2) 1 by (auto simp: readChunk_def sc_consts split: option.splits)
  let ?c1 = "c\<lparr>rNonce := incrementNonce (rNonce c)\<rparr>"
  let ?n = "unat (u16_at hdr 0)" and ?m = "unat (u16_at hdr 2)"
  have b: "0 < ?n" "?n \<le> 16383" "?m \<le> 255"
    using assms(2) 1 2 by (auto simp: readChunk_def sc_consts Let_def split: if_splits)
  obtain enc s2 where 3: "read_full (?n + 16) s1 = Inr (enc, s2)"
    using assms(2) 1 2 b by (auto simp: readChunk_def sc_consts Let_def split: if_splits sum.splits)
  have 4: "Open a (rKey c) (incrementNonce (rNonce c)) enc = Some p"
      "c' = c\<lparr>rNonce := next_nonce (rNonce c)\<rparr>" "\<exists>pad. read_full ?m s2 = Inr (pad, rest)"
    using assms(2) 1 2 3 b
    by (auto simp: readChunk_def next_nonce_def sc_consts Let_def read_full_def
        split: if_splits sum.splits option.splits)
  obtain pad where 5: "read_full ?m s2 = Inr (pad, rest)" using 4(3) by blast
  have hdr: "lenBuf = Seal a (rKey c) (rNonce c) hdr" "enc = Seal a (rKey c) (incrementNonce (rNonce c)) p"
    using 2 4(1) by (simp_all add: aead_okD(3) [OF assms(1)])
  have len: "length hdr = 4" "length p = ?n" "length pad = ?m"
    using read_full_InrD [OF 1] read_full_InrD [OF 3] read_full_InrD [OF 5] hdr
    by (simp_all add: aead_okD(1) [OF assms(1)])
  have "hdr = be16 (u16_at hdr 0) @ be16 (u16_at hdr 2)"
    using len(1) by (auto simp: u16_at_def be16_of_be16 numeral_eq_Suc length_Suc_conv)
  also have "\<dots> = be16 (len16 p) @ be16 (len16 pad)"
    using len b by (simp add: len16_def)
  finally have "lenBuf = Seal a (rKey c) (rNonce c) (be16 (len16 p) @ be16 (len16 pad))"
    using hdr(1) by simp
  then have "s = frame a (rKey c) (rNonce c) (p, pad) @ rest"
    using read_full_InrD [OF 1] read_full_InrD [OF 3] read_full_InrD [OF 5] hdr(2) by (simp add: frame_def)
  then show ?thesis using 4(2) len b by (intro exI [of _ pad]) (auto simp: chunk_ok_def sc_consts)
qed

section \<open>Streams of frames\<close>

fun frames :: "aead \<Rightarrow> bytes \<Rightarrow> bytes \<Rightarrow> (bytes \<times> bytes) list \<Rightarrow> bytes" where
  "frames a key n [] = []"
| "frames a key n (x # xs) = frame a key n x @ frames a key (next_nonce n) xs"

lemma funpow_split: "(f ^^ (m + n)) x = (f ^^ n) ((f ^^ m) x)"
  by (metis add.commute comp_apply funpow_add)

lemma frames_append:
  "frames a key n (xs @ ys) = frames a key n xs @ frames a key ((next_nonce ^^ length xs) n) ys"
  by (induction xs arbitrary: n) (simp_all add: funpow_swap1)

text \<open>\<open>Write\<close> without errors sends its argument as frames.\<close>

lemma sc_write_loop_frames:
  assumes "\<And>k. \<not> fails k" "\<And>k. length (rnd k) \<le> maxPad" "sent \<le> length p"
    and "sc_write_loop a rnd fails k p sent c = (n, err, out, c')"
  shows "n = length p \<and> \<not> err \<and>
    (\<exists>xs. list_all chunk_ok xs \<and> concat (map fst xs) = drop sent p \<and> out = frames a (wKey c) (wNonce c) xs \<and>
       c' = c\<lparr>wNonce := (next_nonce ^^ length xs) (wNonce c)\<rparr>)"
  using assms
proof (induction a rnd fails k p sent c arbitrary: n err out rule: sc_write_loop.induct)
  case (1 a rnd fails k p sent c)
  show ?case
  proof (cases "sent < length p")
    case False
    then have "(n, err, out, c') = (sent, False, [], c)" "drop sent p = []" "sent = length p"
      using "1.prems"(3,4) by (simp_all add: sc_write_loop.simps [of a rnd fails k])
    then show ?thesis by (auto intro!: exI [of _ "[]"])
  next
    case True
    define stop where "stop = min (sent + maxChunk) (length p)"
    let ?x = "(take (stop - sent) (drop sent p), rnd k)"
    let ?c = "c\<lparr>wNonce := next_nonce (wNonce c)\<rparr>"
    have "\<not> fails k" by (rule "1.prems"(1))
    obtain n1 err1 out1 c1 where r: "sc_write_loop a rnd fails (Suc k) p stop ?c = (n1, err1, out1, c1)"
      by (metis prod.exhaust)
    have e: "(n, err, out, c') = (n1, err1, frame a (wKey c) (wNonce c) ?x @ out1, c1)"
      using "1.prems"(4) True r \<open>\<not> fails k\<close>
      by (simp add: sc_write_loop.simps [of a rnd fails k] writeChunk_frame Let_def stop_def [symmetric])
    have s: "sent < stop" "stop \<le> length p" "stop - sent \<le> maxChunk"
      using True by (auto simp: stop_def maxChunk_def)
    have "sc_write_loop a rnd fails (Suc k) p stop ?c = (n1, err1, out1, c')" using r e by simp
    from "1.IH" [OF True stop_def writeChunk_frame [symmetric] \<open>\<not> fails k\<close> "1.prems"(1,2) s(2) this] obtain xs where
      "n1 = length p" "\<not> err1" "list_all chunk_ok xs" "concat (map fst xs) = drop stop p"
      "out1 = frames a (wKey c) (next_nonce (wNonce c)) xs"
      "c' = c\<lparr>wNonce := (next_nonce ^^ length xs) (next_nonce (wNonce c))\<rparr>"
      by auto
    moreover have "chunk_ok ?x" using s "1.prems"(2) True by (simp add: chunk_ok_def)
    moreover have "drop sent p = fst ?x @ drop stop p"
      using s by (metis add_diff_inverse_nat append_take_drop_id drop_drop fst_conv less_imp_le not_less add.commute)
    ultimately show ?thesis using e by (intro conjI exI [of _ "?x # xs"]) (auto simp: funpow_swap1)
  qed
qed


lemma sc_Read_step:
  assumes "aead_ok a" "list_all chunk_ok xs" "0 < n" "leftover c \<noteq> [] \<or> xs \<noteq> []"
  shows "\<exists>b s1 c1 ys. sc_Read a n (frames a (rKey c) (rNonce c) xs) c = (Inr b, s1, c1) \<and> list_all chunk_ok ys \<and>
    rKey c1 = rKey c \<and> s1 = frames a (rKey c1) (rNonce c1) ys \<and>
    leftover c @ concat (map fst xs) = b @ leftover c1 @ concat (map fst ys) \<and> b \<noteq> []"
proof (cases "leftover c = []")
  case False
  then show ?thesis
    using assms(2,3)
    by (intro exI [of _ "take n (leftover c)"] exI [of _ "frames a (rKey c) (rNonce c) xs"]
        exI [of _ "c\<lparr>leftover := drop n (leftover c)\<rparr>"] exI [of _ xs]) (simp add: sc_Read_def)
next
  case True
  then obtain p pad ys where xs: "xs = (p, pad) # ys" using assms(4) by (cases xs) auto
  let ?c = "c\<lparr>rNonce := next_nonce (rNonce c)\<rparr>"
  have ok: "chunk_ok (p, pad)" "list_all chunk_ok ys" "p \<noteq> []" using assms(2) xs by (auto simp: chunk_ok_def)
  have "readChunk a (frames a (rKey c) (rNonce c) xs) c = (Inr p, frames a (rKey c) (next_nonce (rNonce c)) ys, ?c)"
    using readChunk_frame [OF assms(1) ok(1)] xs by simp
  then show ?thesis
    using True ok assms(3) xs
    by (intro exI [of _ "take n p"] exI [of _ "frames a (rKey c) (next_nonce (rNonce c)) ys"]
        exI [of _ "if n < length p then ?c\<lparr>leftover := drop n p\<rparr> else ?c"] exI [of _ ys]) (simp add: sc_Read_def)
qed

fun sc_reads :: "aead \<Rightarrow> nat list \<Rightarrow> bytes \<Rightarrow> SecureConn \<Rightarrow> bytes \<times> sc_error option \<times> bytes \<times> SecureConn" where
  "sc_reads a [] s c = ([], None, s, c)"
| "sc_reads a (n # ns) s c =
     (case sc_Read a n s c of
        (Inl e, s1, c1) \<Rightarrow> ([], Some e, s1, c1)
      | (Inr b, s1, c1) \<Rightarrow> (case sc_reads a ns s1 c1 of (bs, r) \<Rightarrow> (b @ bs, r)))"

text \<open>What the receiver will still deliver: what it has buffered, then the chunks on their way.\<close>

lemma sc_reads_frames:
  assumes "aead_ok a" "list_all chunk_ok xs" "\<forall>n \<in> set ns. 0 < n" "s = frames a (rKey c) (rNonce c) xs"
    and "sc_reads a ns s c = (bs, err, s', c')"
  shows "\<exists>rest. leftover c @ concat (map fst xs) = bs @ rest \<and>
    (err = None \<or> rest = [] \<and> err = Some (ScRead EOF)) \<and>
    (length (leftover c @ concat (map fst xs)) \<le> length ns \<longrightarrow> rest = []) \<and>
    (err = None \<longrightarrow> rKey c' = rKey c \<and>
      (\<exists>ys. list_all chunk_ok ys \<and> s' = frames a (rKey c) (rNonce c') ys \<and> rest = leftover c' @ concat (map fst ys)))"
  using assms(2-5)
proof (induction ns arbitrary: s c xs bs)
  case (Cons n ns)
  have n: "0 < n" "\<forall>n \<in> set ns. 0 < n" using Cons.prems(2) by simp_all
  let ?pending = "leftover c @ concat (map fst xs)"
  show ?case
  proof (cases "leftover c = [] \<and> xs = []")
    case True
    then have "sc_Read a n s c = (Inl (ScRead EOF), [], c)"
      using Cons.prems(3) by (simp add: sc_Read_def readChunk_def read_full_def sc_consts)
    then show ?thesis using Cons.prems(4) True by auto
  next
    case False
    then have "leftover c \<noteq> [] \<or> xs \<noteq> []" by simp
    from sc_Read_step [OF assms(1) Cons.prems(1) n(1) this]
    obtain b s1 c1 ys where r: "sc_Read a n s c = (Inr b, s1, c1)" "list_all chunk_ok ys" "rKey c1 = rKey c"
        "s1 = frames a (rKey c1) (rNonce c1) ys" "?pending = b @ leftover c1 @ concat (map fst ys)" "b \<noteq> []"
      unfolding Cons.prems(3) by blast
    obtain cs where cs: "sc_reads a ns s1 c1 = (cs, err, s', c')" "bs = b @ cs"
      using Cons.prems(4) r(1) by (auto split: prod.splits)
    from Cons.IH [OF r(2) n(2) r(4) cs(1)] obtain rest where rest:
      "leftover c1 @ concat (map fst ys) = cs @ rest" "err = None \<or> rest = [] \<and> err = Some (ScRead EOF)"
      "length (leftover c1 @ concat (map fst ys)) \<le> length ns \<longrightarrow> rest = []"
      "err = None \<longrightarrow> rKey c' = rKey c1 \<and>
        (\<exists>ys. list_all chunk_ok ys \<and> s' = frames a (rKey c1) (rNonce c') ys \<and> rest = leftover c' @ concat (map fst ys))"
      by blast
    have "length ?pending \<le> length (n # ns) \<longrightarrow> rest = []"
    proof
      assume "length ?pending \<le> length (n # ns)"
      moreover have "length ?pending = length b + length (leftover c1 @ concat (map fst ys))"
        using r(5) by (metis length_append)
      moreover have "0 < length b" using r(6) by simp
      ultimately have "length (leftover c1 @ concat (map fst ys)) \<le> length ns"
        by (simp del: length_append length_concat length_greater_0_conv)
      then show "rest = []" using rest(3) by blast
    qed
    then show ?thesis
      using rest r(3,5) cs(2) by (intro exI [of _ rest]) (simp del: length_append length_concat)
  qed
qed (auto intro!: exI [of _ "leftover c @ concat (map fst xs)"])


section \<open>Nonces\<close>

text \<open>The number a nonce encodes, least significant byte first.\<close>

fun nonce_val :: "bytes \<Rightarrow> nat" where
  "nonce_val [] = 0"
| "nonce_val (b # bs) = unat b + 256 * nonce_val bs"

lemma nonce_val_less: "nonce_val n < 256 ^ length n"
proof (induction n)
  case (Cons b n)
  have "unat b < 256" using unsigned_less [of b, where ?'a = nat] by simp
  then have "nonce_val (b # n) < 256 * Suc (nonce_val n)" by simp
  also have "\<dots> \<le> 256 * 256 ^ length n" using Cons by (intro mult_le_mono2) simp
  finally show ?case by simp
qed simp

lemma length_incrementNonce [simp]: "length (incrementNonce n) = length n"
  by (induction n) auto

lemma nonce_val_increment: "nonce_val (incrementNonce n) = (nonce_val n + 1) mod 256 ^ length n"
proof (induction n)
  case (Cons b n)
  show ?case
  proof (cases "b + 1 = 0")
    case False
    have "unat (b + 1) = unat b + 1" using False unatSuc [of b] by (simp add: add.commute)
    then have "nonce_val (incrementNonce (b # n)) = nonce_val (b # n) + 1" using False by simp
    moreover from this have "nonce_val (b # n) + 1 < 256 ^ length (b # n)"
      using nonce_val_less [of "incrementNonce (b # n)"] by (simp del: incrementNonce.simps)
    ultimately show ?thesis by simp
  next
    case True
    then have b: "b = -1" by (simp add: eq_neg_iff_add_eq_0)
    then have "unat b = 255" by (simp add: unsigned_minus_1_eq_mask mask_eq_exp_minus_1)
    then have "(nonce_val (b # n) + 1) mod 256 ^ length (b # n) = 256 * ((nonce_val n + 1) mod 256 ^ length n)"
      by (simp add: mult_mod_right algebra_simps)
    then show ?thesis using True Cons by simp
  qed
qed simp

lemma nonce_val_iterate:
  "nonce_val ((incrementNonce ^^ k) n) = (nonce_val n + k) mod 256 ^ length n"
proof (induction k)
  case (Suc k)
  have "length ((incrementNonce ^^ k) n) = length n" by (induction k) simp_all
  then show ?case using Suc by (simp add: nonce_val_increment mod_Suc_eq)
qed (simp add: nonce_val_less)

lemma nonce_val_zero [simp]: "nonce_val (replicate k 0) = 0"
  by (induction k) simp_all

lemma next_nonce_iterate: "(next_nonce ^^ k) n = (incrementNonce ^^ (2 * k)) n"
  by (induction k) (simp_all add: next_nonce_def)


section \<open>Handshake and delivery\<close>

fun sc_writes :: "aead \<Rightarrow> ((nat \<Rightarrow> bytes) \<times> bytes) list \<Rightarrow> SecureConn \<Rightarrow> bytes \<times> SecureConn" where
  "sc_writes a [] c = ([], c)"
| "sc_writes a ((rnd, p) # ps) c =
     (case sc_Write a rnd (\<lambda>_. False) p c of
        (_, _, out, c1) \<Rightarrow> (case sc_writes a ps c1 of (outs, c2) \<Rightarrow> (out @ outs, c2)))"

definition pads_ok :: "((nat \<Rightarrow> bytes) \<times> bytes) list \<Rightarrow> bool" where
  "pads_ok ps = (\<forall>(rnd, p) \<in> set ps. \<forall>k. length (rnd k) \<le> 255)"

lemma sc_writes_frames:
  "pads_ok ps \<Longrightarrow> \<exists>xs. list_all chunk_ok xs \<and> concat (map fst xs) = concat (map snd ps) \<and>
     sc_writes a ps c = (frames a (wKey c) (wNonce c) xs, c\<lparr>wNonce := (next_nonce ^^ length xs) (wNonce c)\<rparr>)"
proof (induction ps arbitrary: c)
  case Nil
  then show ?case by (intro exI [of _ "[]"]) simp
next
  case (Cons x ps)
  obtain rnd p where x: "x = (rnd, p)" by (cases x)
  obtain n err out c1 where w: "sc_Write a rnd (\<lambda>_. False) p c = (n, err, out, c1)" by (metis prod.exhaust)
  from w obtain xs where xs: "list_all chunk_ok xs" "concat (map fst xs) = p" "out = frames a (wKey c) (wNonce c) xs"
      "c1 = c\<lparr>wNonce := (next_nonce ^^ length xs) (wNonce c)\<rparr>"
    using sc_write_loop_frames [of "\<lambda>_. False" rnd 0 p a 0 c n err out c1] Cons.prems x
    by (auto simp: sc_Write_def pads_ok_def maxPad_def)
  from Cons.prems have "pads_ok ps" by (simp add: pads_ok_def)
  from Cons.IH [OF this, of c1] obtain ys where ys: "list_all chunk_ok ys" "concat (map fst ys) = concat (map snd ps)"
      "sc_writes a ps c1 = (frames a (wKey c1) (wNonce c1) ys, c1\<lparr>wNonce := (next_nonce ^^ length ys) (wNonce c1)\<rparr>)"
    by blast
  show ?case
    using xs ys w x
    by (intro exI [of _ "xs @ ys"]) (simp add: frames_append funpow_split)
qed

lemma client_hello:
  "fst (ClientHandshake a d psk saltC pad s) = saltC @ frame a (d psk saltC) (replicate nonceSize 0) (sc_magic, pad)"
  by (simp add: ClientHandshake_def newSecureConn_def writeChunk_frame Let_def split: sum.splits)

lemma client_ready:
  "length saltS = 32 \<Longrightarrow> snd (ClientHandshake a d psk saltC pad (saltS @ s)) =
     Inr (newSecureConn\<lparr>wKey := d psk saltC, wNonce := next_nonce (replicate nonceSize 0), rKey := d psk saltS\<rparr>, s)"
  by (simp add: ClientHandshake_def newSecureConn_def writeChunk_frame Let_def saltSize_def)

lemma magic_chunk: "chunk_ok (sc_magic, pad) \<longleftrightarrow> length pad \<le> 255"
  by (simp add: chunk_ok_def sc_magic_def str_bytes_def sc_consts)

definition fresh_salt :: "ReplayFilter option \<Rightarrow> bytes \<Rightarrow> bool" where
  "fresh_salt fo salt = (case fo of None \<Rightarrow> True | Some f \<Rightarrow> salt \<notin> fst ` set (seen f))"

lemma server_accepts:
  assumes "aead_ok a" "length saltC = 32" "length pad \<le> 255" "fresh_salt fo saltC"
  shows "\<exists>fo'. ServerHandshake a d psk fo now saltS (fst (ClientHandshake a d psk saltC pad t) @ rest) =
    (saltS, Inr (newSecureConn\<lparr>rKey := d psk saltC, rNonce := next_nonce (replicate nonceSize 0), wKey := d psk saltS\<rparr>, rest), fo')"
proof -
  let ?c = "newSecureConn\<lparr>rKey := d psk saltC\<rparr>"
  have "readChunk a (frame a (d psk saltC) (replicate nonceSize 0) (sc_magic, pad) @ rest) ?c =
      (Inr sc_magic, rest, ?c\<lparr>rNonce := next_nonce (replicate nonceSize 0)\<rparr>)"
    using readChunk_frame [OF assms(1) magic_chunk [THEN iffD2, OF assms(3)], of ?c rest] by (simp add: newSecureConn_def)
  then show ?thesis
    using assms(2,4)
    by (auto simp: ServerHandshake_def client_hello saltSize_def fresh_salt_def sc_magic_def str_bytes_def Let_def
        Accept_def split: option.splits)
qed

text \<open>(C23) The encrypted stream delivers.  When both ends hold the same token, the client's hello is accepted by
  a server that has not seen its salt, whatever the padding; both handshakes leave the stream exactly
  after their last byte; and then, in either direction, any writes, of any sizes and with any padding,
  come out of any sequence of reads into non-empty buffers as the same bytes in the same order: the
  reads return a prefix, an error only at the end of the stream and after everything was delivered, and
  everything once there were as many reads as bytes.\<close>

theorem secure_stream_delivers:
  assumes "aead_ok a" "length saltC = 32" "length saltS = 32" "length pad \<le> 255" "fresh_salt fo saltC"
  shows "\<exists>cl sv fo'.
    ServerHandshake a d psk fo now saltS (fst (ClientHandshake a d psk saltC pad (saltS @ down)) @ up) = (saltS, Inr (sv, up), fo') \<and>
    snd (ClientHandshake a d psk saltC pad (saltS @ down)) = Inr (cl, down) \<and>
    (\<forall>w r ps ns bs err s' r'. (w, r) \<in> {(cl, sv), (sv, cl)} \<and> pads_ok ps \<and> (\<forall>n \<in> set ns. 0 < n) \<and>
       sc_reads a ns (fst (sc_writes a ps w)) r = (bs, err, s', r') \<longrightarrow>
       (\<exists>rest. concat (map snd ps) = bs @ rest \<and> (err = None \<or> rest = [] \<and> err = Some (ScRead EOF)) \<and>
          (length (concat (map snd ps)) \<le> length ns \<longrightarrow> rest = [])))"
proof -
  let ?cl = "newSecureConn\<lparr>wKey := d psk saltC, wNonce := next_nonce (replicate nonceSize 0), rKey := d psk saltS\<rparr>"
  let ?sv = "newSecureConn\<lparr>rKey := d psk saltC, rNonce := next_nonce (replicate nonceSize 0), wKey := d psk saltS\<rparr>"
  have data: "\<exists>rest. concat (map snd ps) = bs @ rest \<and> (err = None \<or> rest = [] \<and> err = Some (ScRead EOF)) \<and>
      (length (concat (map snd ps)) \<le> length ns \<longrightarrow> rest = [])"
    if sent: "(w, r) \<in> {(?cl, ?sv), (?sv, ?cl)}" "pads_ok ps" "\<forall>n \<in> set ns. 0 < n"
      "sc_reads a ns (fst (sc_writes a ps w)) r = (bs, err, s', r')" for w r ps ns bs err s' r'
  proof -
    have sync: "leftover r = []" "rKey r = wKey w" "rNonce r = wNonce w"
      using sent(1) by (auto simp: newSecureConn_def)
    obtain xs where "list_all chunk_ok xs" "concat (map fst xs) = concat (map snd ps)"
        "fst (sc_writes a ps w) = frames a (rKey r) (rNonce r) xs"
      using sc_writes_frames [OF sent(2), of a w] sync by auto
    then show ?thesis using sc_reads_frames [OF assms(1) _ sent(3) _ sent(4)] sync(1) by fastforce
  qed
  obtain fo' where server:
    "ServerHandshake a d psk fo now saltS (fst (ClientHandshake a d psk saltC pad (saltS @ down)) @ up) = (saltS, Inr (?sv, up), fo')"
    using server_accepts [OF assms(1,2,4,5)] by blast
  show ?thesis
    by (rule exI [of _ ?cl], rule exI [of _ ?sv], rule exI [of _ fo'])
      (intro conjI server client_ready [OF assms(3)] allI impI, elim conjE, rule data)
qed


text \<open>A concrete AEAD with a checkable tag, for the examples.\<close>

definition tag_of :: "bytes \<Rightarrow> bytes \<Rightarrow> bytes" where
  "tag_of k n = take 16 (k @ n @ replicate 16 0)"

definition tag_aead :: aead where
  "tag_aead = \<lparr>Seal = \<lambda>k n p. p @ tag_of k n,
     Open = \<lambda>k n c. if 16 \<le> length c \<and> drop (length c - 16) c = tag_of k n then Some (take (length c - 16) c) else None\<rparr>"

lemma tag_aead_ok: "aead_ok tag_aead"
  by (auto simp: aead_ok_def tag_aead_def tag_of_def tagSize_def split: if_splits)
    (metis append_take_drop_id)

theorem secure_stream_delivers_witness:
  "\<exists>cl sv fo'.
    ServerHandshake tag_aead (@) [7] (Some (NewReplayFilter 10)) 0 (replicate 32 1)
      (fst (ClientHandshake tag_aead (@) [7] (replicate 32 2) [9, 9] (replicate 32 1))) = (replicate 32 1, Inr (sv, []), fo') \<and>
    (\<forall>bs err s' r'. sc_reads tag_aead [2, 2, 2] (fst (sc_writes tag_aead [(\<lambda>_. [], [1, 2]), (\<lambda>_. [5], [3])] cl)) sv
       = (bs, err, s', r') \<longrightarrow> bs = [1, 2, 3])"
proof -
  have fresh: "fresh_salt (Some (NewReplayFilter 10)) (replicate 32 2)"
    by (simp add: fresh_salt_def NewReplayFilter_def)
  have pad: "length [9, 9 :: byte] \<le> 255" by simp
  obtain cl sv fo' where h:
    "ServerHandshake tag_aead (@) [7] (Some (NewReplayFilter 10)) 0 (replicate 32 1)
      (fst (ClientHandshake tag_aead (@) [7] (replicate 32 2) [9, 9] (replicate 32 1 @ [])) @ []) =
        (replicate 32 1, Inr (sv, []), fo')" and
    data: "\<forall>w r ps ns bs err s' r'. (w, r) \<in> {(cl, sv), (sv, cl)} \<and> pads_ok ps \<and> (\<forall>n \<in> set ns. 0 < n) \<and>
       sc_reads tag_aead ns (fst (sc_writes tag_aead ps w)) r = (bs, err, s', r') \<longrightarrow>
       (\<exists>rest. concat (map snd ps) = bs @ rest \<and> (err = None \<or> rest = [] \<and> err = Some (ScRead EOF)) \<and>
          (length (concat (map snd ps)) \<le> length ns \<longrightarrow> rest = []))"
    using secure_stream_delivers [OF tag_aead_ok length_replicate length_replicate pad fresh,
        of "(@)" "[7]" 0 1 "[]" "[]"] by blast
  have "bs = [1, 2, 3]"
    if "sc_reads tag_aead [2, 2, 2] (fst (sc_writes tag_aead [(\<lambda>_. [], [1, 2]), (\<lambda>_. [5], [3])] cl)) sv = (bs, err, s', r')"
    for bs err s' r'
    using data [rule_format, of cl sv "[(\<lambda>_. [], [1, 2]), (\<lambda>_. [5], [3])]" "[2, 2, 2]" bs err s' r'] that
    by (auto simp: pads_ok_def)
  moreover have "ServerHandshake tag_aead (@) [7] (Some (NewReplayFilter 10)) 0 (replicate 32 1)
      (fst (ClientHandshake tag_aead (@) [7] (replicate 32 2) [9, 9] (replicate 32 1))) = (replicate 32 1, Inr (sv, []), fo')"
    using h by simp
  ultimately show ?thesis by blast
qed




text \<open>No nonce is used twice under a key.  Whatever is written, the frames of one direction are sealed under
  consecutive values of a 96-bit little-endian counter, two for each frame, starting where the
  connection's counter stands; and the first \<open>2\<^sup>9\<^sup>6\<close> values of a new connection's counter are pairwise distinct.\<close>

theorem nonces_never_repeat:
  assumes "pads_ok ps" "i < j" "j < 2 ^ 96"
  shows "(\<exists>xs. concat (map fst xs) = concat (map snd ps) \<and>
      fst (sc_writes a ps c) = concat (map (\<lambda>k. frame a (wKey c) ((incrementNonce ^^ (2 * k)) (wNonce c)) (xs ! k)) [0..<length xs]) \<and>
      wNonce (snd (sc_writes a ps c)) = (incrementNonce ^^ (2 * length xs)) (wNonce c)) \<and>
    (incrementNonce ^^ i) (wNonce newSecureConn) \<noteq> (incrementNonce ^^ j) (wNonce newSecureConn)"
proof
  have frames: "frames a key n xs = concat (map (\<lambda>k. frame a key ((incrementNonce ^^ (2 * k)) n) (xs ! k)) [0..<length xs])"
    for key n xs
  proof (induction xs rule: rev_induct)
    case (snoc x xs)
    have "map (\<lambda>k. frame a key ((incrementNonce ^^ (2 * k)) n) ((xs @ [x]) ! k)) [0..<length xs] =
        map (\<lambda>k. frame a key ((incrementNonce ^^ (2 * k)) n) (xs ! k)) [0..<length xs]"
      by (simp add: nth_append)
    with snoc show ?case by (simp add: frames_append next_nonce_iterate del: map_eq_conv)
  qed simp
  show "\<exists>xs. concat (map fst xs) = concat (map snd ps) \<and>
      fst (sc_writes a ps c) = concat (map (\<lambda>k. frame a (wKey c) ((incrementNonce ^^ (2 * k)) (wNonce c)) (xs ! k)) [0..<length xs]) \<and>
      wNonce (snd (sc_writes a ps c)) = (incrementNonce ^^ (2 * length xs)) (wNonce c)"
    using sc_writes_frames [OF assms(1), of a c] by (auto simp: frames next_nonce_iterate)
  have v: "nonce_val ((incrementNonce ^^ k) (wNonce newSecureConn)) = k" if "k < 2 ^ 96" for k
    using that by (simp add: nonce_val_iterate newSecureConn_def nonceSize_def)
  show "(incrementNonce ^^ i) (wNonce newSecureConn) \<noteq> (incrementNonce ^^ j) (wNonce newSecureConn)"
  proof
    assume "(incrementNonce ^^ i) (wNonce newSecureConn) = (incrementNonce ^^ j) (wNonce newSecureConn)"
    then have "i = j" using v [of i] v [of j] assms(2,3) by simp
    with assms(2) show False by simp
  qed
qed

theorem nonces_never_repeat_witness:
  "(incrementNonce ^^ 255) (wNonce newSecureConn) \<noteq> (incrementNonce ^^ 256) (wNonce newSecureConn)"
  using nonces_never_repeat [of "[(\<lambda>_. [], [1])]" 255 256] by (simp add: pads_ok_def)

section \<open>Replays\<close>

definition filter_inv :: "ReplayFilter \<Rightarrow> bool" where
  "filter_inv f = (0 < maxSize f \<and> int (length (seen f)) \<le> maxSize f \<and> distinct (map fst (seen f)))"

definition offer :: "bytes \<times> int \<Rightarrow> ReplayFilter \<Rightarrow> ReplayFilter" where
  "offer = (\<lambda>(salt, now) f. snd (Accept now salt f))"

definition after_offers :: "int \<Rightarrow> (bytes \<times> int) list \<Rightarrow> ReplayFilter" where
  "after_offers m es = fold offer es (NewReplayFilter m)"

text \<open>Whether the \<open>i\<close>-th handshake of a history is accepted.\<close>

definition accepted :: "int \<Rightarrow> (bytes \<times> int) list \<Rightarrow> nat \<Rightarrow> bool" where
  "accepted m es i = fst (Accept (snd (es ! i)) (fst (es ! i)) (after_offers m (take i es)))"

lemma distinct_map_filter: "distinct (map f xs) \<Longrightarrow> distinct (map f (filter P xs))"
  by (simp add: distinct_map inj_on_subset [of f "set xs"])

interpretation replay: machine "\<lambda>f. \<exists>m. f = NewReplayFilter m" offer filter_inv
proof
  show "filter_inv f" if "\<exists>m. f = NewReplayFilter m" for f
    using that by (auto simp: filter_inv_def NewReplayFilter_def)
  show "filter_inv (offer e f)" if "filter_inv f" for e f
    using that
    by (cases e) (auto simp: filter_inv_def offer_def Accept_def evict_def Let_def distinct_map_filter image_iff)
qed

lemma maxSize_offers [simp]: "maxSize (after_offers m es) = maxSize (NewReplayFilter m)"
proof -
  have "maxSize (fold offer es f) = maxSize f" for f
    by (induction es arbitrary: f) (auto simp: offer_def Accept_def evict_def Let_def)
  then show ?thesis by (simp add: after_offers_def)
qed

lemma after_offers_snoc: "after_offers m (es @ [e]) = offer e (after_offers m es)"
  by (simp add: after_offers_def)

lemma after_offers_Suc: "i < length es \<Longrightarrow> after_offers m (take (Suc i) es) = offer (es ! i) (after_offers m (take i es))"
  by (simp add: after_offers_snoc take_Suc_conv_app_nth)

text \<open>Every entry stems from an accepted handshake.\<close>

lemma seen_accepted:
  "n \<le> length es \<Longrightarrow> (salt, exp) \<in> set (seen (after_offers m (take n es))) \<Longrightarrow>
     \<exists>i < n. accepted m es i \<and> es ! i = (salt, exp - replayTTL)"
proof (induction n arbitrary: salt exp)
  case 0
  then show ?case by (simp add: after_offers_def NewReplayFilter_def)
next
  case (Suc n)
  obtain sn tn where e: "es ! n = (sn, tn)" by fastforce
  let ?f = "after_offers m (take n es)"
  have "(salt, exp) \<in> set (seen (snd (Accept tn sn ?f)))"
    using Suc.prems by (simp add: after_offers_Suc offer_def e)
  then have "(salt, exp) \<in> set (seen ?f) \<or> (accepted m es n \<and> salt = sn \<and> exp = tn + replayTTL)"
    by (auto simp: Accept_def evict_def accepted_def e Let_def split: if_splits)
  then show ?case
  proof
    assume "(salt, exp) \<in> set (seen ?f)"
    from Suc.IH [OF _ this] Suc.prems(1) show ?thesis by (auto intro: less_SucI)
  qed (use e in auto)
qed


text \<open>The handshakes accepted within the filter's memory when the \<open>k\<close>-th one comes in.\<close>

definition recent :: "int \<Rightarrow> (bytes \<times> int) list \<Rightarrow> nat \<Rightarrow> nat set" where
  "recent m es k = {i. i < k \<and> accepted m es i \<and> snd (es ! k) \<le> snd (es ! i) + replayTTL}"

text \<open>An unexpired entry survives a handshake unless the filter is cleared, and it is cleared only when it is
  full of recent ones.\<close>

lemma entry_survives:
  assumes k: "k < length es" and mem: "(salt, exp) \<in> set (seen (after_offers m (take k es)))"
    and live: "snd (es ! k) \<le> exp" and room: "int (card (recent m es k)) < maxSize (NewReplayFilter m)"
  shows "(salt, exp) \<in> set (seen (after_offers m (take (Suc k) es)))"
proof -
  let ?f = "after_offers m (take k es)"
  obtain sk tk where e: "es ! k = (sk, tk)" by fastforce
  define l where "l = filter (\<lambda>(_, exp). \<not> exp < tk) (seen ?f)"
  have "filter_inv ?f" unfolding after_offers_def by (rule replay.inv_run) blast
  then have d: "distinct (map fst l)" by (auto simp: l_def filter_inv_def intro: distinct_map_filter)
  have "\<exists>i. i \<in> recent m es k \<and> fst (es ! i) = s" if "s \<in> set (map fst l)" for s
  proof -
    from that obtain x where "(s, x) \<in> set (seen ?f)" "tk \<le> x" by (auto simp: l_def not_less)
    with seen_accepted [of k es s x m] k show ?thesis by (force simp: recent_def e)
  qed
  then have "set (map fst l) \<subseteq> (\<lambda>i. fst (es ! i)) ` recent m es k" by blast
  moreover have "finite (recent m es k)" by (simp add: recent_def)
  ultimately have "card (set (map fst l)) \<le> card (recent m es k)"
    by (meson card_image_le card_mono finite_imageI order_trans)
  then have "int (length l) < maxSize ?f" using distinct_card [OF d] room by simp
  then have "(salt, exp) \<in> set (seen (evict tk ?f))"
    using mem live by (auto simp: evict_def Let_def e simp flip: l_def) (simp add: l_def)
  then show ?thesis using mem k by (auto simp: after_offers_Suc offer_def Accept_def Let_def e)
qed

text \<open>Replay protection.  The filter never holds more than its capacity.  In any history of handshakes (with a
  clock that does not run backwards), a salt that was accepted is accepted again only after its 24 hours
  are over, or after the filter overflowed in between, which takes as many accepted handshakes within 24
  hours as the filter has room for.\<close>

theorem replay_protection:
  assumes "sorted (map snd es)" "i < j" "j < length es" "accepted m es i" "accepted m es j" "fst (es ! i) = fst (es ! j)"
  shows "int (length (seen (after_offers m es))) \<le> maxSize (NewReplayFilter m) \<and>
    (snd (es ! i) + replayTTL < snd (es ! j) \<or>
     (\<exists>k. i < k \<and> k < j \<and> maxSize (NewReplayFilter m) \<le> int (card (recent m es k))))"
proof
  have "filter_inv (after_offers m es)" unfolding after_offers_def by (rule replay.inv_run) blast
  then show "int (length (seen (after_offers m es))) \<le> maxSize (NewReplayFilter m)" by (simp add: filter_inv_def)
  obtain salt t where e: "es ! i = (salt, t)" by fastforce
  show "snd (es ! i) + replayTTL < snd (es ! j) \<or>
     (\<exists>k. i < k \<and> k < j \<and> maxSize (NewReplayFilter m) \<le> int (card (recent m es k)))"
  proof (rule ccontr)
    assume "\<not> ?thesis"
    then have live: "snd (es ! j) \<le> t + replayTTL"
      and room: "\<And>k. i < k \<Longrightarrow> k < j \<Longrightarrow> int (card (recent m es k)) < maxSize (NewReplayFilter m)"
      by (auto simp: e not_le)
    have "(salt, t + replayTTL) \<in> set (seen (after_offers m (take k es)))" if "Suc i \<le> k" "k \<le> j" for k
      using that
    proof (induction k rule: dec_induct)
      case base
      then show ?case
        using assms(2-4) by (auto simp: after_offers_Suc offer_def accepted_def Accept_def e Let_def split: if_splits)
    next
      case (step k)
      have "snd (es ! k) \<le> snd (es ! j)" using assms(1,3) step.prems by (simp add: sorted_iff_nth_mono)
      then show ?case
        using entry_survives [of k es salt "t + replayTTL" m] step room live assms(3) by simp
    qed
    from this [of j] have "salt \<in> fst ` set (seen (after_offers m (take j es)))" using assms(2) by force
    then show False using assms(5,6) by (simp add: accepted_def Accept_def e)
  qed
qed

theorem replay_protection_witness:
  "\<exists>k. 0 < k \<and> k < 2 \<and> 1 \<le> int (card (recent 1 [([1], 0), ([2], 0), ([1], 0)] k))"
proof -
  let ?es = "[([1], 0), ([2], 0), ([1], 0)] :: (bytes \<times> int) list"
  have "accepted 1 ?es 0" "accepted 1 ?es 2"
    by (simp_all add: accepted_def after_offers_def offer_def Accept_def evict_def NewReplayFilter_def Let_def
        replayTTL_def numeral_2_eq_2)
  then show ?thesis
    using replay_protection [of ?es 0 2 1] by (simp add: NewReplayFilter_def replayTTL_def numeral_2_eq_2)
qed

text \<open>What overflowing costs.  When one more handshake than the filter has room for is accepted at the same
  instant, all salts but the last are forgotten, and the first of them is accepted a second time at that
  very instant.\<close>

theorem replay_after_overflow:
  assumes "0 < m" "distinct salts" "int (length salts) = m + 1"
  shows "accepted m (map (\<lambda>s. (s, t)) salts @ [(hd salts, t)]) 0 \<and>
    accepted m (map (\<lambda>s. (s, t)) salts @ [(hd salts, t)]) (length salts)"
proof -
  obtain ss l where s: "salts = ss @ [l]" "int (length ss) = m"
    using assms(3) \<open>0 < m\<close> by (cases salts rule: rev_cases) auto
  have fill: "seen (after_offers m (map (\<lambda>s. (s, t)) xs)) = rev (map (\<lambda>s. (s, t + replayTTL)) xs)"
    if "distinct xs" "int (length xs) \<le> m" for xs
    using that
  proof (induction xs rule: rev_induct)
    case Nil
    then show ?case by (simp add: after_offers_def NewReplayFilter_def)
  next
    case (snoc x xs)
    let ?f = "after_offers m (map (\<lambda>s. (s, t)) xs)"
    have "maxSize ?f = m" using assms(1) by (simp add: NewReplayFilter_def)
    moreover have "after_offers m (map (\<lambda>s. (s, t)) (xs @ [x])) = offer (x, t) ?f" by (simp add: after_offers_def)
    ultimately show ?case using snoc by (auto simp: offer_def Accept_def Let_def)
  qed
  let ?f = "after_offers m (map (\<lambda>s. (s, t)) ss)"
  have f: "seen ?f = rev (map (\<lambda>s. (s, t + replayTTL)) ss)" "maxSize ?f = m" "l \<notin> set ss"
    using fill [of ss] s assms(1,2) by (auto simp: NewReplayFilter_def)
  have "filter (\<lambda>(_, exp). \<not> exp < t) (seen ?f) = seen ?f"
    unfolding f by (auto simp: filter_id_conv replayTTL_def)
  then have "after_offers m (map (\<lambda>s. (s, t)) salts) = ?f\<lparr>seen := [(l, t + replayTTL)]\<rparr>"
    using f s by (auto simp: after_offers_snoc offer_def Accept_def evict_def Let_def)
  moreover have "hd salts \<noteq> l" "salts \<noteq> []" using s assms(1,2) by (cases ss; auto)+
  ultimately show ?thesis
    by (auto simp: accepted_def Accept_def Let_def nth_append after_offers_def [of m "[]"] NewReplayFilter_def)
qed

theorem replay_after_overflow_witness:
  "accepted 2 [([1], 5), ([2], 5), ([3], 5), ([1], 5)] 0 \<and> accepted 2 [([1], 5), ([2], 5), ([3], 5), ([1], 5)] 3"
  using replay_after_overflow [of 2 "[[1], [2], [3]]" 5] by (simp add: numeral_3_eq_3)


end
