(* ===== verification/Socks.thy ===== *)
theory Socks
  imports Checksum
begin

text \<open>
  SOCKS5.  The program has a client (\<open>internal/socks/dialer.go\<close>) and two servers: the built-in proxy
  (\<open>internal/socks/socks5.go\<close>, \<open>udpassociate.go\<close>) and the proxy of the packet engine
  (\<open>internal/packet/engine/socks\<close>).  A connection is its byte stream: a server maps what it reads to
  what it writes and what it then does; the client maps the proxy's bytes to what it writes and the
  bytes left for its caller.

  Hosts are kept as the bytes on the wire, with whether they are an address or a name, instead of
  the text \<open>net.JoinHostPort\<close> makes of them.  Whether a dial succeeds is an argument.
\<close>

definition ver5 :: byte where "ver5 = 5"
definition authUP :: byte where "authUP = 2"
definition authNone :: byte where "authNone = 0"
definition cmdConn :: byte where "cmdConn = 1"
definition cmdUDP :: byte where "cmdUDP = 3"
definition atypIPv4 :: byte where "atypIPv4 = 1"
definition atypHost :: byte where "atypHost = 3"
definition atypIPv6 :: byte where "atypIPv6 = 4"
definition repOK :: byte where "repOK = 0"

lemmas socks_consts = ver5_def authUP_def authNone_def cmdConn_def cmdUDP_def atypIPv4_def atypHost_def
  atypIPv6_def repOK_def

datatype socks_host = IPHost bytes | NameHost bytes

datatype socks_outcome =
    Dropped
  | Connected socks_host "16 word" bytes
  | Associating socks_host "16 word" bytes

type_synonym socks_auth = "bytes \<Rightarrow> bytes \<Rightarrow> bool"
type_synonym socks_dial = "socks_host \<Rightarrow> 16 word \<Rightarrow> bool"

section \<open>The built-in proxy: \<open>internal/socks\<close>\<close>

definition hasMethod :: "bytes \<Rightarrow> byte \<Rightarrow> bool" where
  "hasMethod methods m = (m \<in> set methods)"

definition socks_reply :: "byte \<Rightarrow> bytes" where
  "socks_reply code = [ver5, code, 0, atypIPv4, 0, 0, 0, 0, 0, 0]"

definition socks_readAuth :: "socks_auth \<Rightarrow> bytes \<Rightarrow> bool \<times> bytes" where
  "socks_readAuth auth s =
     (case read_full 2 s of
        Inl _ \<Rightarrow> (False, [])
      | Inr (h, s1) \<Rightarrow>
          (if h ! 0 \<noteq> 1 then (False, s1)
           else case read_full (unat (h ! 1)) s1 of
               Inl _ \<Rightarrow> (False, [])
             | Inr (user, s2) \<Rightarrow>
                 (case read_full 1 s2 of
                    Inl _ \<Rightarrow> (False, [])
                  | Inr (pl, s3) \<Rightarrow>
                      (case read_full (unat (pl ! 0)) s3 of
                         Inl _ \<Rightarrow> (False, [])
                       | Inr (pass, s4) \<Rightarrow> (auth user pass, s4)))))"

definition socks_readAddr :: "byte \<Rightarrow> bytes \<Rightarrow> (socks_host \<times> bytes) option" where
  "socks_readAddr atyp s =
     (if atyp = atypIPv4 then
        (case read_full 4 s of Inl _ \<Rightarrow> None | Inr (b, s1) \<Rightarrow> Some (IPHost b, s1))
      else if atyp = atypIPv6 then
        (case read_full 16 s of Inl _ \<Rightarrow> None | Inr (b, s1) \<Rightarrow> Some (IPHost b, s1))
      else if atyp = atypHost then
        (case read_full 1 s of
           Inl _ \<Rightarrow> None
         | Inr (l, s1) \<Rightarrow>
             (case read_full (unat (l ! 0)) s1 of Inl _ \<Rightarrow> None | Inr (b, s2) \<Rightarrow> Some (NameHost b, s2)))
      else None)"

text \<open>The request part of \<open>handle\<close>, after the methods are settled; \<open>w\<close> is what has been written.\<close>

definition handle_request :: "socks_dial \<Rightarrow> bytes \<Rightarrow> bytes \<Rightarrow> bytes \<times> socks_outcome" where
  "handle_request dial w s =
     (case read_full 4 s of
        Inl _ \<Rightarrow> (w @ socks_reply 7, Dropped)
      | Inr (head, s1) \<Rightarrow>
          (if head ! 0 \<noteq> ver5 then (w @ socks_reply 7, Dropped)
           else case socks_readAddr (head ! 3) s1 of
               None \<Rightarrow> (w @ socks_reply 8, Dropped)
             | Some (host, s2) \<Rightarrow>
                 (case read_full 2 s2 of
                    Inl _ \<Rightarrow> (w @ socks_reply 1, Dropped)
                  | Inr (portBuf, s3) \<Rightarrow>
                      (let port = u16_at portBuf 0 in
                       if head ! 1 = cmdConn then
                         (if dial host port then (w @ socks_reply repOK, Connected host port s3)
                          else (w @ socks_reply 5, Dropped))
                       else if head ! 1 = cmdUDP then (w, Associating host port s3)
                       else (w @ socks_reply 7, Dropped)))))"

definition handle :: "socks_auth option \<Rightarrow> socks_dial \<Rightarrow> bytes \<Rightarrow> bytes \<times> socks_outcome" where
  "handle auth dial s =
     (case read_full 2 s of
        Inl _ \<Rightarrow> ([], Dropped)
      | Inr (br, s1) \<Rightarrow>
          (if br ! 0 \<noteq> ver5 then ([], Dropped)
           else case read_full (unat (br ! 1)) s1 of
               Inl _ \<Rightarrow> ([], Dropped)
             | Inr (methods, s2) \<Rightarrow>
                 (case auth of
                    None \<Rightarrow>
                      (if \<not> hasMethod methods authNone then ([ver5, 255], Dropped)
                       else handle_request dial [ver5, authNone] s2)
                  | Some f \<Rightarrow>
                      (if \<not> hasMethod methods authUP then ([ver5, 255], Dropped)
                       else case socks_readAuth f s2 of
                           (False, _) \<Rightarrow> ([ver5, authUP, 1, 1], Dropped)
                         | (True, s3) \<Rightarrow> handle_request dial [ver5, authUP, 1, 0] s3))))"

section \<open>The client: \<open>Negotiate\<close>\<close>

datatype socks_error = ShortRead io_error | MethodRejected | AuthFailed | ConnectFailed byte | BadReplyType byte

text \<open>\<open>Negotiate\<close> on the bytes the proxy sends: what it writes, and the error or the bytes left over.\<close>

definition socks_greeting :: "bytes \<Rightarrow> bytes \<Rightarrow> bytes" where
  "socks_greeting user pass = [ver5, 1, if user = [] \<and> pass = [] then authNone else authUP]"

definition socks_credentials :: "bytes \<Rightarrow> bytes \<Rightarrow> bytes" where
  "socks_credentials user pass =
     [1, word_of_nat (length user)] @ user @ [word_of_nat (length pass)] @ pass"

definition socks_connect :: "bytes \<Rightarrow> int \<Rightarrow> bytes" where
  "socks_connect host port =
     [ver5, cmdConn, 0, atypHost, word_of_nat (length host)] @ host @ be16 (word_of_int port)"

definition negotiate_reply :: "bytes \<Rightarrow> socks_error + bytes" where
  "negotiate_reply s =
     (case read_full 4 s of
        Inl e \<Rightarrow> Inl (ShortRead e)
      | Inr (head, s1) \<Rightarrow>
          (if head ! 1 \<noteq> repOK then Inl (ConnectFailed (head ! 1))
           else
             (let tail = (\<lambda>skip s. case read_full skip s of Inl e \<Rightarrow> Inl (ShortRead e) | Inr (_, r) \<Rightarrow> Inr r) in
              if head ! 3 = atypIPv4 then tail 6 s1
              else if head ! 3 = atypIPv6 then tail 18 s1
              else if head ! 3 = atypHost then
                (case read_full 1 s1 of
                   Inl e \<Rightarrow> Inl (ShortRead e)
                 | Inr (l, s2) \<Rightarrow> tail (unat (l ! 0) + 2) s2)
              else Inl (BadReplyType (head ! 3)))))"

definition Negotiate :: "bytes \<Rightarrow> bytes \<Rightarrow> bytes \<Rightarrow> int \<Rightarrow> bytes \<Rightarrow> bytes \<times> (socks_error + bytes)" where
  "Negotiate user pass host port s =
     (let noAuth = (user = [] \<and> pass = []);
          want = (if noAuth then authNone else authUP);
          w1 = socks_greeting user pass;
          w2 = w1 @ socks_credentials user pass;
          req = socks_connect host port in
      case read_full 2 s of
        Inl e \<Rightarrow> (w1, Inl (ShortRead e))
      | Inr (resp, s1) \<Rightarrow>
          (if resp ! 0 \<noteq> ver5 \<or> resp ! 1 \<noteq> want then (w1, Inl MethodRejected)
           else if noAuth then (w1 @ req, negotiate_reply s1)
           else case read_full 2 s1 of
               Inl e \<Rightarrow> (w2, Inl (ShortRead e))
             | Inr (ar, s2) \<Rightarrow>
                 (if ar ! 1 \<noteq> 0 then (w2, Inl AuthFailed) else (w2 @ req, negotiate_reply s2))))"

section \<open>The packet engine's proxy: \<open>internal/packet/engine/socks\<close>\<close>

record pe_server =
  username :: bytes
  password :: bytes

definition pe_readAddr :: "bytes \<Rightarrow> (byte \<times> bytes \<times> bytes \<times> bytes) option" where
  "pe_readAddr s =
     (case read_full 1 s of
        Inl _ \<Rightarrow> None
      | Inr (b, s1) \<Rightarrow>
          (let atyp = b ! 0;
               rest = (\<lambda>n s. case read_full n s of
                   Inl _ \<Rightarrow> None
                 | Inr (addr, s2) \<Rightarrow>
                     (case read_full 2 s2 of Inl _ \<Rightarrow> None | Inr (port, s3) \<Rightarrow> Some (atyp, addr, port, s3))) in
           if atyp = atypIPv4 then rest 4 s1
           else if atyp = atypIPv6 then rest 16 s1
           else if atyp = atypHost then
             (case read_full 1 s1 of Inl _ \<Rightarrow> None | Inr (l, s2) \<Rightarrow> rest (unat (l ! 0)) s2)
           else None))"

text \<open>\<open>putAddr\<close> for an address of 4 or 16 bytes, which is what a socket has.\<close>

definition putAddr :: "bytes \<Rightarrow> 16 word \<Rightarrow> bytes" where
  "putAddr ip port =
     (if To4 ip \<noteq> [] then [atypIPv4] @ To4 ip else [atypIPv6] @ ip) @ be16 port"

definition authenticate :: "pe_server \<Rightarrow> bytes \<Rightarrow> bytes \<times> bytes option" where
  "authenticate srv s =
     (case read_full 2 s of
        Inl _ \<Rightarrow> ([], None)
      | Inr (b, s1) \<Rightarrow>
          (if b ! 0 \<noteq> 1 then ([], None)
           else case read_full (unat (b ! 1)) s1 of
               Inl _ \<Rightarrow> ([], None)
             | Inr (user, s2) \<Rightarrow>
                 (case read_full 1 s2 of
                    Inl _ \<Rightarrow> ([], None)
                  | Inr (l, s3) \<Rightarrow>
                      (case read_full (unat (l ! 0)) s3 of
                         Inl _ \<Rightarrow> ([], None)
                       | Inr (pass, s4) \<Rightarrow>
                           (if user = username srv \<and> pass = password srv then ([1, 0], Some s4)
                            else ([1, 1], None))))))"

definition pe_negotiate :: "pe_server \<Rightarrow> bytes \<Rightarrow> bytes \<times> bytes option" where
  "pe_negotiate srv s =
     (case read_full 2 s of
        Inl _ \<Rightarrow> ([], None)
      | Inr (hdr, s1) \<Rightarrow>
          (if hdr ! 0 \<noteq> ver5 then ([], None)
           else case read_full (unat (hdr ! 1)) s1 of
               Inl _ \<Rightarrow> ([], None)
             | Inr (methods, s2) \<Rightarrow>
                 (let want = (if username srv \<noteq> [] \<or> password srv \<noteq> [] then authUP else authNone) in
                  if want \<in> set methods then
                    (if want = authUP then
                       (case authenticate srv s2 of (w, r) \<Rightarrow> ([ver5, want] @ w, r))
                     else ([ver5, want], Some s2))
                  else ([ver5, 255], None))))"

definition pe_read :: "bytes \<Rightarrow> (byte \<times> byte \<times> bytes \<times> bytes \<times> bytes) option" where
  "pe_read s =
     (case read_full 3 s of
        Inl _ \<Rightarrow> None
      | Inr (hdr, s1) \<Rightarrow>
          (if hdr ! 0 \<noteq> ver5 then None
           else case pe_readAddr s1 of
               None \<Rightarrow> None
             | Some (atyp, addr, port, s2) \<Rightarrow> Some (hdr ! 1, atyp, addr, port, s2)))"

definition pe_host :: "byte \<Rightarrow> bytes \<Rightarrow> socks_host" where
  "pe_host atyp addr = (if atyp = atypIPv4 \<or> atyp = atypIPv6 then IPHost addr else NameHost addr)"

text \<open>\<open>handleTCPConn\<close> with \<open>handleConnect\<close>; \<open>laddr\<close> is the local address of the connection.\<close>

definition handleTCPConn ::
    "pe_server \<Rightarrow> bytes \<times> 16 word \<Rightarrow> socks_dial \<Rightarrow> bytes \<Rightarrow> bytes \<times> socks_outcome" where
  "handleTCPConn srv laddr dial s =
     (case pe_negotiate srv s of
        (w, None) \<Rightarrow> (w, Dropped)
      | (w, Some s1) \<Rightarrow>
          (case pe_read s1 of
             None \<Rightarrow> (w, Dropped)
           | Some (cmd, atyp, addr, port, s2) \<Rightarrow>
               (let host = pe_host atyp addr; p = u16_at port 0 in
                if cmd = cmdConn then
                  (if dial host p
                   then (w @ [ver5, repOK, 0] @ putAddr (fst laddr) (snd laddr), Connected host p s2)
                   else (w @ socks_reply 1, Dropped))
                else if cmd = cmdUDP then (w, Associating host p s2)
                else (w @ socks_reply 7, Dropped))))"

section \<open>Interface: a proxy the client can talk to\<close>

definition socks_open :: "bytes \<Rightarrow> bytes \<Rightarrow> bytes" where
  "socks_open user pass =
     socks_greeting user pass @ (if user = [] \<and> pass = [] then [] else socks_credentials user pass)"

definition short :: "bytes \<Rightarrow> bool" where
  "short b = (length b \<le> 255)"

text \<open>What \<open>Negotiate\<close> relies on: a proxy with credentials \<open>user\<close> and \<open>pass\<close> (none when both are empty) answers
  a well-formed exchange with the settled method, the acceptance and its bound address, and drops
  wrong credentials after saying so.\<close>

locale socks_proxy =
  fixes serve :: "bytes \<Rightarrow> bytes \<times> socks_outcome"
    and user pass :: bytes
    and dial :: socks_dial
    and bound :: bytes
  assumes bound_reply: "negotiate_reply ([ver5, repOK, 0] @ bound @ rest) = Inr rest"
    and accepts: "short user \<Longrightarrow> short pass \<Longrightarrow> short host \<Longrightarrow> dial (NameHost host) p \<Longrightarrow>
      serve (socks_open user pass @ socks_connect host (uint p) @ rest)
        = ((if user = [] \<and> pass = [] then [ver5, authNone] else [ver5, authUP, 1, 0]) @ [ver5, repOK, 0] @ bound,
           Connected (NameHost host) p rest)"
    and refuses: "short u \<Longrightarrow> short w \<Longrightarrow> (u, w) \<noteq> (user, pass) \<Longrightarrow> \<not> (u = [] \<and> w = []) \<Longrightarrow>
      \<not> (user = [] \<and> pass = []) \<Longrightarrow> serve (socks_open u w @ rest) = ([ver5, authUP, 1, 1], Dropped)"
begin

lemma negotiation_succeeds:
  assumes "short user" "short pass" "short host" "dial (NameHost host) p"
  shows "case serve (socks_open user pass @ socks_connect host (uint p)) of (reply, out) \<Rightarrow>
    out = Connected (NameHost host) p [] \<and>
    Negotiate user pass host (uint p) reply = (socks_open user pass @ socks_connect host (uint p), Inr [])"
  using accepts [OF assms, of "[]"] bound_reply [of "[]"]
  by (simp add: Negotiate_def socks_open_def Let_def read_full_def ver5_def)

lemma negotiation_refused:
  assumes "short u" "short w" "(u, w) \<noteq> (user, pass)" "\<not> (u = [] \<and> w = [])" "\<not> (user = [] \<and> pass = [])"
  shows "case serve (socks_open u w) of (reply, out) \<Rightarrow>
    out = Dropped \<and> Negotiate u w host port reply = (socks_open u w, Inl AuthFailed)"
  using refuses [OF assms, of "[]"] assms(4)
  by (auto simp: Negotiate_def socks_open_def Let_def read_full_def ver5_def authUP_def)

end

lemma unat_length_short: "length b \<le> 255 \<Longrightarrow> unat (word_of_nat (length b) :: byte) = length b"
  by (simp add: unat_of_nat)

lemma read_full_Cons: "read_full (Suc n) (x # xs) =
  (case read_full n xs of Inl e \<Rightarrow> Inl (if xs = [] then UnexpectedEOF else e) | Inr (a, r) \<Rightarrow> Inr (x # a, r))"
  by (auto simp: read_full_def split: if_splits)

lemma read_full_0 [simp]: "read_full 0 s = Inr ([], s)"
  by (simp add: read_full_def)

lemmas read_full_heads = numeral_2_eq_2 numeral_3_eq_3 read_full_Cons

lemma read_full_4: "read_full 4 (a # b # c # d # s) = Inr ([a, b, c, d], s)"
  by (simp add: read_full_def)

definition credentials_check :: "bytes \<Rightarrow> bytes \<Rightarrow> socks_auth option" where
  "credentials_check user pass =
     (if user = [] \<and> pass = [] then None else Some (\<lambda>u w. u = user \<and> w = pass))"

lemma socks_readAuth_credentials:
  assumes "short u" "short w"
  shows "socks_readAuth f (socks_credentials u w @ rest) = (f u w, rest)"
  using assms
  by (simp add: socks_readAuth_def socks_credentials_def short_def read_full_def unat_length_short)

lemma authenticate_credentials:
  assumes "short u" "short w"
  shows "authenticate srv (socks_credentials u w @ rest)
    = (if u = username srv \<and> w = password srv then ([1, 0], Some rest) else ([1, 1], None))"
  using assms
  by (simp add: authenticate_def socks_credentials_def short_def read_full_def unat_length_short)

lemma handle_request_connect:
  assumes "short host" "dial (NameHost host) p"
  shows "handle_request dial w (socks_connect host (uint p) @ rest)
    = (w @ socks_reply repOK, Connected (NameHost host) p rest)"
  using assms
  by (simp add: handle_request_def socks_connect_def short_def read_full_def socks_readAddr_def
      unat_length_short Let_def socks_consts)

lemma pe_read_connect:
  assumes "short host"
  shows "pe_read (socks_connect host (uint p) @ rest) = Some (cmdConn, atypHost, host, be16 p, rest)"
  using assms
  by (simp add: pe_read_def pe_readAddr_def socks_connect_def short_def read_full_def
      unat_length_short Let_def socks_consts)

interpretation builtin: socks_proxy "handle (credentials_check user pass) dial" user pass dial
  "[atypIPv4, 0, 0, 0, 0, 0, 0]" for user pass dial
proof
  show "negotiate_reply ([ver5, repOK, 0] @ [atypIPv4, 0, 0, 0, 0, 0, 0] @ rest) = Inr rest" for rest
    by (simp add: negotiate_reply_def read_full_def socks_consts)
  show "handle (credentials_check user pass) dial (socks_open user pass @ socks_connect host (uint p) @ rest)
        = ((if user = [] \<and> pass = [] then [ver5, authNone] else [ver5, authUP, 1, 0]) @
            [ver5, repOK, 0] @ [atypIPv4, 0, 0, 0, 0, 0, 0], Connected (NameHost host) p rest)"
    if "short user" "short pass" "short host" "dial (NameHost host) p" for host p rest
    using handle_request_connect [where host = host and dial = dial and p = p and rest = rest, OF that(3,4)]
      socks_readAuth_credentials [OF that(1,2), of "\<lambda>u w. u = user \<and> w = pass" "socks_connect host (uint p) @ rest"]
    by (simp add: handle_def socks_open_def socks_greeting_def read_full_def credentials_check_def hasMethod_def
        socks_reply_def ver5_def authUP_def authNone_def)
  show "handle (credentials_check user pass) dial (socks_open u w @ rest) = ([ver5, authUP, 1, 1], Dropped)"
    if "short u" "short w" "(u, w) \<noteq> (user, pass)" "\<not> (u = [] \<and> w = [])" "\<not> (user = [] \<and> pass = [])" for u w rest
    using that socks_readAuth_credentials [OF that(1,2), of "\<lambda>u w. u = user \<and> w = pass" rest]
    by (auto simp: handle_def socks_open_def socks_greeting_def read_full_def credentials_check_def hasMethod_def
        ver5_def authUP_def)
qed

definition local_address :: "bytes \<times> 16 word \<Rightarrow> bool" where
  "local_address laddr = (length (fst laddr) = 4 \<or> length (fst laddr) = 16)"

lemma putAddr_reply:
  "local_address laddr \<Longrightarrow> negotiate_reply ([ver5, repOK, 0] @ putAddr (fst laddr) (snd laddr) @ rest) = Inr rest"
  using length_To4 [of "fst laddr"]
  by (auto simp: local_address_def negotiate_reply_def putAddr_def read_full_def socks_consts To4_def split: if_splits)

lemma engine_proxy:
  assumes "local_address laddr"
  shows "socks_proxy (handleTCPConn \<lparr>username = user, password = pass\<rparr> laddr dial) user pass dial
    (putAddr (fst laddr) (snd laddr))"
proof
  show "negotiate_reply ([ver5, repOK, 0] @ putAddr (fst laddr) (snd laddr) @ rest) = Inr rest" for rest
    by (rule putAddr_reply [OF assms])
  let ?srv = "\<lparr>username = user, password = pass\<rparr>"
  show "handleTCPConn ?srv laddr dial (socks_open user pass @ socks_connect host (uint p) @ rest)
        = ((if user = [] \<and> pass = [] then [ver5, authNone] else [ver5, authUP, 1, 0]) @
            [ver5, repOK, 0] @ putAddr (fst laddr) (snd laddr), Connected (NameHost host) p rest)"
    if "short user" "short pass" "short host" "dial (NameHost host) p" for host p rest
    using that(4) pe_read_connect [OF that(3), of p rest]
      authenticate_credentials [OF that(1,2), of ?srv "socks_connect host (uint p) @ rest"]
    by (simp add: handleTCPConn_def pe_negotiate_def socks_open_def socks_greeting_def read_full_def Let_def
        pe_host_def socks_consts)
  show "handleTCPConn ?srv laddr dial (socks_open u w @ rest) = ([ver5, authUP, 1, 1], Dropped)"
    if "short u" "short w" "(u, w) \<noteq> (user, pass)" "\<not> (u = [] \<and> w = [])" "\<not> (user = [] \<and> pass = [])" for u w rest
    using that authenticate_credentials [OF that(1,2), of ?srv rest]
    by (auto simp: handleTCPConn_def pe_negotiate_def socks_open_def socks_greeting_def read_full_def Let_def
        ver5_def authUP_def)
qed

interpretation engine: socks_proxy "handleTCPConn \<lparr>username = user, password = pass\<rparr> (be32 ip, port) dial"
  user pass dial "putAddr (be32 ip) port" for user pass ip port dial
  using engine_proxy [of "(be32 ip, port)" user pass dial] by (simp add: local_address_def)



text \<open>A host name of 256 bytes is not refused but sent with length 0.  The proxy then reads the first
  two bytes of the name as the port of an empty host, connects there, and takes the rest of the name
  for the first bytes of the connection.\<close>

theorem socks_length_wraps:
  assumes "length host = 254"
  shows "handle None (\<lambda>_ _. True) (socks_open [] [] @ socks_connect (a # b # host) port)
    = ([ver5, authNone] @ socks_reply repOK,
       Connected (NameHost []) (of_be16 a b) (host @ be16 (word_of_int port)))"
  using assms
  by (simp add: handle_def handle_request_def socks_open_def socks_greeting_def socks_connect_def read_full_def
      hasMethod_def socks_readAddr_def u16_at_def Let_def socks_consts)

theorem socks_length_wraps_witness:
  "snd (handle None (\<lambda>_ _. True) (socks_open [] [] @ socks_connect (1 # 187 # replicate 254 120) 80))
    = Connected (NameHost []) (of_be16 1 187) (replicate 254 120 @ be16 80)"
  using socks_length_wraps [of "replicate 254 120" 1 187 80] by simp

end
