(* ===== verification/Socks_Udp.thy ===== *)
theory Socks_Udp
  imports Socks
begin

text \<open>
  UDP through the SOCKS proxies: the datagram header of \<open>internal/socks/udpassociate.go\<close> and its relay,
  and the header of \<open>internal/packet/engine/socks/proto.go\<close> with the source check of \<open>associate.go\<close>.
\<close>

section \<open>Headers\<close>

definition udpBindReply :: "bytes \<Rightarrow> 16 word \<Rightarrow> bytes" where
  "udpBindReply ip port =
     [ver5, repOK, 0] @ (if To4 ip \<noteq> [] then [atypIPv4] @ To4 ip else [atypIPv6] @ ip) @ be16 port"

text \<open>Host, port, payload and the header to prepend to replies; \<^const>\<open>None\<close> is \<open>ok = false\<close>.\<close>

definition parseUDPDatagram :: "bytes \<Rightarrow> (socks_host \<times> 16 word \<times> bytes \<times> bytes) option" where
  "parseUDPDatagram b =
     (if length b < 4 \<or> b ! 2 \<noteq> 0 then None
      else
        (let atyp = b ! 3;
             finish = (\<lambda>host pos. Some (host, u16_at b pos, drop (pos + 2) b, take (pos + 2) b)) in
         if atyp = atypIPv4 then
           (if length b < 10 then None else finish (IPHost (take 4 (drop 4 b))) 8)
         else if atyp = atypIPv6 then
           (if length b < 22 then None else finish (IPHost (take 16 (drop 4 b))) 20)
         else if atyp = atypHost then
           (if length b < 5 then None
            else
              (let l = unat (b ! 4) in
               if length b < 5 + l + 2 then None else finish (NameHost (take l (drop 5 b))) (5 + l)))
         else None))"

record datagram =
  d_atyp :: byte
  d_addr :: bytes
  d_port :: bytes
  d_data :: bytes

definition datagram_bytes :: "datagram \<Rightarrow> bytes" where
  "datagram_bytes d =
     [0, 0, 0, d_atyp d] @ (if d_atyp d = atypHost then [word_of_nat (length (d_addr d))] else []) @
     d_addr d @ d_port d @ d_data d"

definition decodeDatagram :: "bytes \<Rightarrow> datagram option" where
  "decodeDatagram p =
     (if length p < 4 \<or> p ! 2 \<noteq> 0 then None
      else
        (let atyp = p ! 3; rest = drop 4 p;
             finish = (\<lambda>addr rest. Some \<lparr>d_atyp = atyp, d_addr = addr, d_port = take 2 rest, d_data = drop 2 rest\<rparr>) in
         if atyp = atypIPv4 then
           (if length rest < 4 + 2 then None else finish (take 4 rest) (drop 4 rest))
         else if atyp = atypIPv6 then
           (if length rest < 16 + 2 then None else finish (take 16 rest) (drop 16 rest))
         else if atyp = atypHost then
           (if length rest < 1 \<or> length rest < 1 + unat (rest ! 0) + 2 then None
            else
              (let n = unat (rest ! 0) in finish (take n (drop 1 rest)) (drop (1 + n) rest)))
         else None))"

section \<open>The relay\<close>

type_synonym udp_addr = "bytes \<times> 16 word"

record udp_relay =
  client :: "udp_addr option"
  relay_flows :: "(socks_host \<times> 16 word) \<Rightarrow> bytes option"

text \<open>One turn of \<open>serve\<close> with \<open>forward\<close>: the datagram sent on, if any.  \<open>opens\<close> says whether a socket to a
  new destination can be opened.\<close>

definition forward :: "(socks_host \<times> 16 word \<Rightarrow> bool) \<Rightarrow> socks_host \<times> 16 word \<Rightarrow> bytes \<Rightarrow> bytes \<Rightarrow> udp_relay \<Rightarrow>
    ((socks_host \<times> 16 word) \<times> bytes) option \<times> udp_relay" where
  "forward opens dst data header r =
     (case relay_flows r dst of
        Some _ \<Rightarrow> (Some (dst, data), r)
      | None \<Rightarrow>
          (if \<not> opens dst then (None, r)
           else (Some (dst, data), r\<lparr>relay_flows := (relay_flows r)(dst \<mapsto> header)\<rparr>)))"

definition relay_turn :: "(socks_host \<times> 16 word \<Rightarrow> bool) \<Rightarrow> udp_addr \<times> bytes \<Rightarrow> udp_relay \<Rightarrow>
    ((socks_host \<times> 16 word) \<times> bytes) option \<times> udp_relay" where
  "relay_turn opens = (\<lambda>(from, b) r.
     let r1 = (if client r = None then r\<lparr>client := Some from\<rparr> else r);
         c = the (client r1) in
     if client r \<noteq> None \<and> (snd from \<noteq> snd c \<or> \<not> ip_equal (fst from) (fst c)) then (None, r)
     else case parseUDPDatagram b of
         None \<Rightarrow> (None, r1)
       | Some (host, port, data, hdr) \<Rightarrow> forward opens (host, port) data hdr r1)"

text \<open>A reply read by \<open>pumpReplies\<close>, and the end of its flow.\<close>

definition pump_reply :: "socks_host \<times> 16 word \<Rightarrow> bytes \<Rightarrow> udp_relay \<Rightarrow> (udp_addr \<times> bytes) option" where
  "pump_reply dst data r =
     (case (client r, relay_flows r dst) of
        (Some c, Some hdr) \<Rightarrow> Some (c, hdr @ data)
      | _ \<Rightarrow> None)"

definition pump_end :: "socks_host \<times> 16 word \<Rightarrow> udp_relay \<Rightarrow> udp_relay" where
  "pump_end dst r = r\<lparr>relay_flows := (relay_flows r)(dst := None)\<rparr>"

text \<open>The packet engine pins the address it expects, and the port of the first datagram if it expects none.\<close>

definition associate_accept :: "udp_addr \<Rightarrow> udp_addr \<Rightarrow> bool \<times> udp_addr" where
  "associate_accept cAddr expect =
     (if \<not> ip_equal (fst cAddr) (fst expect) then (False, expect)
      else
        (let e = (if snd expect = 0 then (fst expect, snd cAddr) else expect) in
         (snd cAddr = snd e, e)))"

section \<open>The two header parsers\<close>

text \<open>The three address forms, for both parsers: where the address ends, with a header of \<open>k\<close> bytes before it.\<close>

definition addr_form :: "bytes \<Rightarrow> (socks_host \<times> nat) option" where
  "addr_form b =
     (if length b < 4 \<or> b ! 2 \<noteq> 0 then None
      else if b ! 3 = atypIPv4 \<and> 10 \<le> length b then Some (IPHost (take 4 (drop 4 b)), 8)
      else if b ! 3 = atypIPv6 \<and> 22 \<le> length b then Some (IPHost (take 16 (drop 4 b)), 20)
      else if b ! 3 = atypHost \<and> 5 \<le> length b \<and> 7 + unat (b ! 4) \<le> length b
        then Some (NameHost (take (unat (b ! 4)) (drop 5 b)), 5 + unat (b ! 4))
      else None)"

lemma parse_form:
  "parseUDPDatagram b =
     (case addr_form b of
        None \<Rightarrow> None
      | Some (host, pos) \<Rightarrow> Some (host, u16_at b pos, drop (pos + 2) b, take (pos + 2) b))"
  by (auto simp: parseUDPDatagram_def addr_form_def Let_def socks_consts)

lemma decode_form:
  "map_option (\<lambda>d. (pe_host (d_atyp d) (d_addr d), d_port d, d_data d)) (decodeDatagram b) =
     map_option (\<lambda>(host, pos). (host, take 2 (drop pos b), drop (pos + 2) b)) (addr_form b)"
  by (auto simp: decodeDatagram_def addr_form_def pe_host_def Let_def socks_consts nth_append add.commute)

lemma addr_form_bounds: "addr_form b = Some (host, pos) \<Longrightarrow> pos + 2 \<le> length b \<and> 4 \<le> pos"
  by (auto simp: addr_form_def split: if_splits)

lemma take_drop_prefix:
  "k + n \<le> m \<Longrightarrow> m \<le> length b \<Longrightarrow> take n (drop k (take m b @ x)) = take n (drop k b)"
  by (auto simp: drop_take min_def)

lemma nth_prefix: "i < m \<Longrightarrow> m \<le> length b \<Longrightarrow> (take m b @ x) ! i = b ! i"
  by (simp add: nth_append)

lemma addr_form_reply:
  assumes "addr_form b = Some (host, pos)"
  shows "addr_form (take (pos + 2) b @ x) = Some (host, pos)"
proof -
  define t where "t = take (pos + 2) b @ x"
  have bd: "pos + 2 \<le> length b" "4 \<le> pos" using addr_form_bounds [OF assms] by auto
  then have len: "pos + 2 \<le> length t" by (simp add: t_def)
  have nth: "t ! i = b ! i" if "i < pos + 2" for i
    unfolding t_def using that bd by (intro nth_prefix) auto
  have sub: "take n (drop k t) = take n (drop k b)" if "k + n \<le> pos + 2" for n k
    unfolding t_def using that bd by (intro take_drop_prefix) auto
  have "4 \<le> length t" "t ! 2 = b ! 2" "t ! 3 = b ! 3" "4 < pos + 2 \<longrightarrow> t ! 4 = b ! 4"
    using len bd nth by auto
  then show ?thesis
    using assms len sub unfolding addr_form_def t_def [symmetric]
    by (auto simp: socks_consts split: if_splits)
qed

lemma u16_at_take:
  "pos + 2 \<le> length b \<Longrightarrow> u16_at (take (pos + 2) b @ x) pos = u16_at b pos"
  by (simp add: u16_at_def nth_append)

lemma u16_at_take_drop: "pos + 2 \<le> length b \<Longrightarrow> u16_at (take 2 (drop pos b)) 0 = u16_at b pos"
  by (simp add: u16_at_def)

text \<open>UDP headers.  The two proxies accept exactly the same client datagrams and see the same host, port and
  payload in them; header and payload together are the datagram; and a reply that carries the header
  parses to the same host and port with the reply as payload, so the client can tell which
  destination answered.\<close>

theorem udp_headers_agree:
  "map_option (\<lambda>d. (pe_host (d_atyp d) (d_addr d), u16_at (d_port d) 0, d_data d)) (decodeDatagram b)
     = map_option (\<lambda>(host, port, data, hdr). (host, port, data)) (parseUDPDatagram b) \<and>
   (case parseUDPDatagram b of
      None \<Rightarrow> True
    | Some (host, port, data, hdr) \<Rightarrow>
        hdr @ data = b \<and> (\<forall>x. parseUDPDatagram (hdr @ x) = Some (host, port, x, hdr)))"
proof (cases "addr_form b")
  case None
  then show ?thesis using decode_form [of b] by (simp add: parse_form)
next
  case (Some f)
  obtain host pos where f: "addr_form b = Some (host, pos)" using Some by (cases f) auto
  note bd = addr_form_bounds [OF f]
  obtain d where d: "decodeDatagram b = Some d" "pe_host (d_atyp d) (d_addr d) = host"
      "d_port d = take 2 (drop pos b)" "d_data d = drop (pos + 2) b"
    using decode_form [of b] f by auto
  have "parseUDPDatagram (take (pos + 2) b @ x) = Some (host, u16_at b pos, x, take (pos + 2) b)" for x
    using addr_form_reply [OF f, of x] bd u16_at_take [of pos b x] by (simp add: parse_form)
  then show ?thesis using d bd f u16_at_take_drop [of pos b] by (simp add: parse_form)
qed

section \<open>The relay serves one client\<close>

fun relay_run :: "(socks_host \<times> 16 word \<Rightarrow> bool) \<Rightarrow> (udp_addr \<times> bytes) list \<Rightarrow> udp_relay \<Rightarrow>
    ((socks_host \<times> 16 word) \<times> bytes) option list \<times> udp_relay" where
  "relay_run opens [] r = ([], r)"
| "relay_run opens (d # ds) r =
     (case relay_turn opens d r of (o1, r1) \<Rightarrow> (case relay_run opens ds r1 of (os, r2) \<Rightarrow> (o1 # os, r2)))"

definition same_sender :: "udp_addr \<Rightarrow> udp_addr \<Rightarrow> bool" where
  "same_sender c src = (snd src = snd c \<and> ip_equal (fst src) (fst c))"

text \<open>What the relay sends on for a datagram of its client when every destination can be reached.\<close>

definition forwards :: "bytes \<Rightarrow> ((socks_host \<times> 16 word) \<times> bytes) option" where
  "forwards b = map_option (\<lambda>(host, port, data, _). ((host, port), data)) (parseUDPDatagram b)"

definition relay_inv :: "udp_relay \<Rightarrow> bool" where
  "relay_inv r = (\<forall>dst hdr. relay_flows r dst = Some hdr \<longrightarrow>
     (\<forall>x. parseUDPDatagram (hdr @ x) = Some (fst dst, snd dst, x, hdr)))"

lemma parse_header: "parseUDPDatagram b = Some (host, port, data, hdr) \<Longrightarrow>
    parseUDPDatagram (hdr @ x) = Some (host, port, x, hdr)"
  using addr_form_bounds [of b] addr_form_reply [of b] u16_at_take [of _ b x]
  by (auto simp: parse_form split: option.splits prod.splits)

lemma relay_turn_pinned:
  assumes "client r = Some c" "relay_inv r" "\<And>dst. opens dst"
  shows "fst (relay_turn opens (src, b) r) = (if same_sender c src then forwards b else None) \<and>
    client (snd (relay_turn opens (src, b) r)) = Some c \<and> relay_inv (snd (relay_turn opens (src, b) r))"
  using assms
  by (auto simp: relay_turn_def same_sender_def forwards_def forward_def relay_inv_def Let_def parse_header
      split: option.splits)

lemma relay_run_pinned:
  assumes "client r = Some c" "relay_inv r" "\<And>dst. opens dst"
  shows "fst (relay_run opens ds r) = map (\<lambda>(src, b). if same_sender c src then forwards b else None) ds \<and>
    client (snd (relay_run opens ds r)) = Some c \<and> relay_inv (snd (relay_run opens ds r))"
  using assms(1,2)
proof (induction ds arbitrary: r)
  case (Cons d ds)
  obtain src b where d: "d = (src, b)" by (cases d)
  show ?case
    using relay_turn_pinned [where opens = opens and src = src and b = b, OF Cons.prems assms(3)] Cons.IH [of "snd (relay_turn opens d r)"] d
    by (auto simp: split_def)
qed simp

text \<open>(C12) A UDP association serves its first sender and nobody else.  After the first datagram, the
  relay sends on exactly the well-formed datagrams of that first sender, each to the destination its
  header names; datagrams src any other address are ignored; and every reply it passes back goes
  to that client with a header that names the destination it came src.\<close>

theorem relay_serves_first_sender:
  assumes "\<And>dst. opens dst"
  shows "case relay_run opens ((src, b) # ds) \<lparr>client = None, relay_flows = (\<lambda>_. None)\<rparr> of (outs, r) \<Rightarrow>
    outs = map (\<lambda>(f, b). if same_sender src f then forwards b else None) ((src, b) # ds) \<and>
    (\<forall>dst x. case pump_reply dst x r of
       None \<Rightarrow> True
     | Some (to, q) \<Rightarrow> to = src \<and> (\<exists>hdr. parseUDPDatagram q = Some (fst dst, snd dst, x, hdr)))"
proof -
  let ?r0 = "\<lparr>client = None, relay_flows = (\<lambda>_. None)\<rparr>"
  define r1 where "r1 = snd (relay_turn opens (src, b) ?r0)"
  have first: "fst (relay_turn opens (src, b) ?r0) = forwards b" "client r1 = Some src" "relay_inv r1"
    using assms
    by (auto simp: r1_def relay_turn_def forwards_def forward_def relay_inv_def Let_def parse_header
        split: option.splits)
  note rest = relay_run_pinned [where ds = ds and opens = opens, OF first(2,3) assms]
  have "case pump_reply dst x (snd (relay_run opens ds r1)) of None \<Rightarrow> True
      | Some (to, q) \<Rightarrow> to = src \<and> (\<exists>hdr. parseUDPDatagram q = Some (fst dst, snd dst, x, hdr))" for dst x
    using rest by (cases dst) (auto simp: pump_reply_def relay_inv_def split: option.splits)
  then show ?thesis
    using first rest by (auto simp: split_def r1_def same_sender_def ip_equal_def)
qed

theorem relay_serves_first_sender_witness:
  "fst (relay_run (\<lambda>_. True) [(([1, 2, 3, 4], 5), [0, 0, 0, 1, 8, 8, 8, 8, 0, 53, 7]),
      (([9, 9, 9, 9], 5), [0, 0, 0, 1, 8, 8, 8, 8, 0, 53, 7])] \<lparr>client = None, relay_flows = (\<lambda>_. None)\<rparr>)
    = [Some ((IPHost [8, 8, 8, 8], of_be16 0 53), [7]), None]"
  using relay_serves_first_sender [of "\<lambda>_. True" "([1, 2, 3, 4], 5)" "[0, 0, 0, 1, 8, 8, 8, 8, 0, 53, 7]"
      "[(([9, 9, 9, 9], 5), [0, 0, 0, 1, 8, 8, 8, 8, 0, 53, 7])]"]
  by (simp add: ip_equal_def same_sender_def forwards_def parseUDPDatagram_def socks_consts u16_at_def split_def Let_def)


end
