(* ===== verification/Tunproto.thy ===== *)
theory Tunproto
  imports Socks_Udp Wire_Framing
begin

text \<open>
  The framing inside the streams of the hedioum engine: \<open>internal/hedioum/engine/tunproto/tunproto.go\<close>, the
  stream headers, the UDP datagram records and the SOCKS UDP headers the hub converts them from and to.

  A nil IP is the empty list.  Encoding writes into a zeroed buffer, as \<open>make\<close> returns it.
\<close>

section \<open>Stream headers\<close>

definition StreamTCP :: byte where "StreamTCP = 0x01"
definition StreamUDP :: byte where "StreamUDP = 0x03"
definition StreamSpeedtest :: byte where "StreamSpeedtest = 0x05"
definition maxTargetLen :: nat where "maxTargetLen = 2048"
definition maxRecord :: nat where "maxRecord = 65535"

datatype tp_error = TpRead io_error | TargetLen | RecordLen | ShortAddr | BadAtyp | EmptyChunk | Fragmented byte

definition WriteSpeedtestHeader :: "byte \<Rightarrow> 16 word \<Rightarrow> bytes" where
  "WriteSpeedtestHeader dir seconds = put16 2 seconds ((replicate 4 0)[0 := StreamSpeedtest, 1 := dir])"

definition ReadSpeedtestHeader :: "bytes \<Rightarrow> tp_error + ((byte \<times> 16 word) \<times> bytes)" where
  "ReadSpeedtestHeader s =
     (case read_full 3 s of
        Inl e \<Rightarrow> Inl (TpRead e)
      | Inr (b, s1) \<Rightarrow> Inr ((b ! 0, u16_at b 1), s1))"

definition ReadStreamType :: "bytes \<Rightarrow> tp_error + (byte \<times> bytes)" where
  "ReadStreamType s = (case read_full 1 s of Inl e \<Rightarrow> Inl (TpRead e) | Inr (b, s1) \<Rightarrow> Inr (b ! 0, s1))"

definition WriteTCPHeader :: "bytes \<Rightarrow> tp_error + bytes" where
  "WriteTCPHeader target =
     (if length target = 0 \<or> maxTargetLen < length target then Inl TargetLen
      else
        (let buf = (replicate (1 + 2 + length target) 0)[0 := StreamTCP];
             buf = put16 1 (len16 target) buf in
         Inr (copy_at 3 (length buf - 3) target buf)))"

definition ReadTCPTarget :: "bytes \<Rightarrow> tp_error + (bytes \<times> bytes)" where
  "ReadTCPTarget s =
     (case read_full 2 s of
        Inl e \<Rightarrow> Inl (TpRead e)
      | Inr (lenBuf, s1) \<Rightarrow>
          (let n = unat (u16_at lenBuf 0) in
           if n = 0 \<or> maxTargetLen < n then Inl TargetLen
           else case read_full n s1 of Inl e \<Rightarrow> Inl (TpRead e) | Inr (buf, s2) \<Rightarrow> Inr (buf, s2)))"

definition WriteUDPHeader :: bytes where
  "WriteUDPHeader = [StreamUDP]"

section \<open>Addresses\<close>

record tp_addr =
  tp_IP :: bytes
  tp_Domain :: bytes
  tp_Port :: "16 word"

text \<open>\<open>net.IP.To16\<close>.\<close>

definition To16 :: "bytes \<Rightarrow> bytes" where
  "To16 ip = (if length ip = 4 then replicate 10 0 @ [255, 255] @ ip else if length ip = 16 then ip else [])"

definition encodedLen :: "tp_addr \<Rightarrow> nat" where
  "encodedLen a =
     (if tp_Domain a \<noteq> [] then 1 + 1 + length (tp_Domain a) + 2
      else if To4 (tp_IP a) \<noteq> [] then 1 + 4 + 2
      else 1 + 16 + 2)"

definition encode :: "tp_addr \<Rightarrow> bytes \<Rightarrow> bytes \<times> nat" where
  "encode a dst =
     (let (dst, n) =
        (if tp_Domain a \<noteq> [] then
           (copy_at 2 (length dst - 2) (tp_Domain a) (dst[0 := atypHost, 1 := word_of_nat (length (tp_Domain a))]),
            2 + min (length dst - 2) (length (tp_Domain a)))
         else if To4 (tp_IP a) \<noteq> [] then
           (copy_at 1 (length dst - 1) (To4 (tp_IP a)) (dst[0 := atypIPv4]), 1 + min (length dst - 1) (length (To4 (tp_IP a))))
         else
           (copy_at 1 (length dst - 1) (To16 (tp_IP a)) (dst[0 := atypIPv6]), 1 + min (length dst - 1) (length (To16 (tp_IP a)))))
      in (put16 n (tp_Port a) dst, n + 2))"

definition decodeAddr :: "bytes \<Rightarrow> tp_error + (tp_addr \<times> nat)" where
  "decodeAddr b =
     (if length b < 1 then Inl ShortAddr
      else if b ! 0 = atypIPv4 then
        (if length b < 1 + 4 + 2 then Inl ShortAddr
         else Inr (\<lparr>tp_IP = take 4 (drop 1 b), tp_Domain = [], tp_Port = u16_at b 5\<rparr>, 7))
      else if b ! 0 = atypIPv6 then
        (if length b < 1 + 16 + 2 then Inl ShortAddr
         else Inr (\<lparr>tp_IP = take 16 (drop 1 b), tp_Domain = [], tp_Port = u16_at b 17\<rparr>, 19))
      else if b ! 0 = atypHost then
        (if length b < 2 then Inl ShortAddr
         else
           (let dlen = unat (b ! 1); stop = 2 + dlen + 2 in
            if length b < stop then Inl ShortAddr
            else Inr (\<lparr>tp_IP = [], tp_Domain = take dlen (drop 2 b), tp_Port = u16_at b (2 + dlen)\<rparr>, stop)))
      else Inl BadAtyp)"

section \<open>Datagrams\<close>

definition tp_WriteDatagram :: "tp_addr \<Rightarrow> bytes \<Rightarrow> tp_error + bytes" where
  "tp_WriteDatagram a payload =
     (let recordLen = encodedLen a + length payload in
      if recordLen = 0 then Inl EmptyChunk
      else if maxRecord < recordLen then Inl RecordLen
      else
        (let buf = put16 0 (word_of_nat recordLen) (replicate (2 + recordLen) 0);
             (enc, n) = encode a (drop 2 buf);
             buf = take 2 buf @ enc in
         Inr (copy_at (2 + n) (length buf - (2 + n)) payload buf)))"

definition tp_ReadDatagram :: "bytes \<Rightarrow> tp_error + ((tp_addr \<times> bytes) \<times> bytes)" where
  "tp_ReadDatagram s =
     (case read_full 2 s of
        Inl e \<Rightarrow> Inl (TpRead e)
      | Inr (lenBuf, s1) \<Rightarrow>
          (let recordLen = unat (u16_at lenBuf 0) in
           if recordLen = 0 then Inl EmptyChunk
           else case read_full recordLen s1 of
               Inl e \<Rightarrow> Inl (TpRead e)
             | Inr (rcd, s2) \<Rightarrow>
                 (case decodeAddr rcd of
                    Inl e \<Rightarrow> Inl e
                  | Inr (addr, n) \<Rightarrow> Inr ((addr, copy_at 0 (recordLen - n) (drop n rcd) (replicate (recordLen - n) 0)), s2))))"

definition ParseSocksUDPHeader :: "bytes \<Rightarrow> tp_error + (tp_addr \<times> nat)" where
  "ParseSocksUDPHeader b =
     (if length b < 3 then Inl ShortAddr
      else if b ! 2 \<noteq> 0 then Inl (Fragmented (b ! 2))
      else case decodeAddr (drop 3 b) of Inl e \<Rightarrow> Inl e | Inr (addr, n) \<Rightarrow> Inr (addr, 3 + n))"

definition BuildSocksUDPHeader :: "tp_addr \<Rightarrow> bytes \<Rightarrow> bytes" where
  "BuildSocksUDPHeader a payload =
     (let out = replicate (3 + encodedLen a + length payload) 0;
          (enc, n) = encode a (drop 3 out);
          out = take 3 out @ enc in
      copy_at (3 + n) (length out - (3 + n)) payload out)"

section \<open>What is written\<close>

definition addr_ok :: "tp_addr \<Rightarrow> bool" where
  "addr_ok a =
     (if tp_Domain a \<noteq> [] then tp_IP a = [] \<and> length (tp_Domain a) \<le> 255
      else length (tp_IP a) = 4 \<or> length (tp_IP a) = 16)"

text \<open>The address as the other end will see it: an IPv4-mapped address becomes its four bytes.\<close>

definition plain :: "tp_addr \<Rightarrow> tp_addr" where
  "plain a = (if To4 (tp_IP a) \<noteq> [] then a\<lparr>tp_IP := To4 (tp_IP a)\<rparr> else a)"

definition addr_bytes :: "tp_addr \<Rightarrow> bytes" where
  "addr_bytes a =
     (if tp_Domain a \<noteq> [] then atypHost # word_of_nat (length (tp_Domain a)) # tp_Domain a
      else if To4 (tp_IP a) \<noteq> [] then atypIPv4 # To4 (tp_IP a)
      else atypIPv6 # To16 (tp_IP a)) @ be16 (tp_Port a)"

lemma length_To16: "length ip = 4 \<or> length ip = 16 \<Longrightarrow> length (To16 ip) = 16"
  by (auto simp: To16_def)

lemma length_addr_bytes: "addr_ok a \<Longrightarrow> length (addr_bytes a) = encodedLen a"
  using length_To4 [of "tp_IP a"] length_To16 [of "tp_IP a"]
  by (auto simp: addr_ok_def addr_bytes_def encodedLen_def split: if_splits)

lemma put16_zeros: "n = length x \<Longrightarrow> put16 n w (x @ replicate (Suc (Suc k)) 0) = x @ be16 w @ replicate k 0"
  by (simp add: put16_def be16_def list_update_append)

lemma copy_zeros:
  "m = length h \<Longrightarrow> length src \<le> n \<Longrightarrow> copy_at m n src (h @ replicate (length src + k) 0) = h @ src @ replicate k 0"
  by (simp add: copy_at_def)

lemma encode_zeros:
  assumes "addr_ok a"
  shows "encode a (replicate (encodedLen a + k) 0) = (addr_bytes a @ replicate k 0, encodedLen a)"
proof -
  have body: "put16 (length h + length src) w (copy_at (length h) n src (h @ replicate (length src + 2 + k) 0)) =
      (h @ src @ be16 w) @ replicate k 0" if "length src \<le> n" for h src w n
  proof -
    have "copy_at (length h) n src (h @ replicate (length src + 2 + k) 0) = (h @ src) @ replicate (Suc (Suc k)) 0"
      using copy_zeros [OF refl that, of h "Suc (Suc k)"] by simp
    then show ?thesis using put16_zeros [of "length h + length src" "h @ src" w k] by simp
  qed
  show ?thesis
  proof (cases "tp_Domain a = []")
    case False
    have "(replicate (encodedLen a + k) 0)[0 := atypHost, 1 := word_of_nat (length (tp_Domain a))] =
        [atypHost, word_of_nat (length (tp_Domain a))] @ replicate (length (tp_Domain a) + 2 + k) 0"
      using False by (simp add: encodedLen_def)
    then show ?thesis
      using False body [of "tp_Domain a" "length (tp_Domain a) + 2 + k" "[atypHost, word_of_nat (length (tp_Domain a))]"]
      by (simp add: encode_def encodedLen_def addr_bytes_def Let_def numeral_2_eq_2)
  next
    case True
    define ip where "ip = (if To4 (tp_IP a) \<noteq> [] then To4 (tp_IP a) else To16 (tp_IP a))"
    define t where "t = (if To4 (tp_IP a) \<noteq> [] then atypIPv4 else atypIPv6)"
    have len: "encodedLen a = 1 + length ip + 2"
      using True assms length_To4 [of "tp_IP a"] length_To16 [of "tp_IP a"]
      by (auto simp: encodedLen_def ip_def addr_ok_def)
    then have "(replicate (encodedLen a + k) 0)[0 := t] = [t] @ replicate (length ip + 2 + k) 0" by simp
    then show ?thesis
      using True len body [of ip "length ip + 2 + k" "[t]"]
      by (simp add: encode_def addr_bytes_def Let_def ip_def t_def split: if_splits)
  qed
qed

lemma tp_WriteDatagram_bytes:
  assumes "addr_ok a" "encodedLen a + length payload \<le> 65535"
  shows "tp_WriteDatagram a payload = Inr (be16 (word_of_nat (encodedLen a + length payload)) @ addr_bytes a @ payload)"
proof -
  have "encodedLen a \<noteq> 0" by (simp add: encodedLen_def)
  moreover have "put16 0 w (replicate (2 + n) 0) = be16 w @ replicate n 0" for w n
    using put16_zeros [of 0 "[]" w n] by simp
  moreover have "copy_at (2 + encodedLen a) (length payload) payload (be16 w @ addr_bytes a @ replicate (length payload) 0) =
      be16 w @ addr_bytes a @ payload" for w
    using copy_zeros [of "2 + encodedLen a" "be16 w @ addr_bytes a" payload "length payload" 0]
    by (simp add: length_addr_bytes [OF assms(1)])
  ultimately show ?thesis
    using assms(2) encode_zeros [OF assms(1), of "length payload"]
    by (simp add: tp_WriteDatagram_def Let_def maxRecord_def length_addr_bytes [OF assms(1)])
qed

lemma BuildSocksUDPHeader_bytes:
  assumes "addr_ok a"
  shows "BuildSocksUDPHeader a payload = [0, 0, 0] @ addr_bytes a @ payload"
proof -
  have "copy_at (3 + encodedLen a) (length payload) payload ([0, 0, 0] @ addr_bytes a @ replicate (length payload) 0) =
      [0, 0, 0] @ addr_bytes a @ payload"
    using copy_zeros [of "3 + encodedLen a" "[0, 0, 0] @ addr_bytes a" payload "length payload" 0]
    by (simp add: length_addr_bytes [OF assms])
  then show ?thesis
    using encode_zeros [OF assms, of "length payload"]
    by (simp add: BuildSocksUDPHeader_def Let_def numeral_3_eq_3 length_addr_bytes [OF assms])
qed

lemma decodeAddr_bytes:
  assumes "addr_ok a"
  shows "decodeAddr (addr_bytes a @ rest) = Inr (plain a, length (addr_bytes a))"
proof (cases "tp_Domain a = []")
  case False
  have "unat (word_of_nat (length (tp_Domain a)) :: byte) = length (tp_Domain a)" "tp_IP a = []"
    using assms False by (auto simp: addr_ok_def unat_of_nat)
  then show ?thesis
    using False
    by (simp add: decodeAddr_def addr_bytes_def plain_def To4_def Let_def socks_consts)
next
  case True
  show ?thesis
  proof (cases "To4 (tp_IP a) = []")
    case False
    then show ?thesis
      using True length_To4 [OF False] by (simp add: decodeAddr_def addr_bytes_def plain_def Let_def socks_consts)
  next
    case to4: True
    then have "length (tp_IP a) = 16" "To16 (tp_IP a) = tp_IP a"
      using assms True by (auto simp: addr_ok_def To4_def To16_def split: if_splits)
    then show ?thesis
      using True to4 by (simp add: decodeAddr_def addr_bytes_def plain_def Let_def socks_consts)
  qed
qed


section \<open>Records are a codec\<close>

lemma length_addr_le: "addr_ok a \<Longrightarrow> length (addr_bytes a) \<le> 259"
  by (auto simp: length_addr_bytes) (auto simp: encodedLen_def addr_ok_def split: if_splits)

lemma unat_small16: "n \<le> 65535 \<Longrightarrow> unat (word_of_nat n :: 16 word) = n"
  by (simp add: unat_of_nat)

lemma tp_ReadDatagram_bytes:
  assumes "addr_ok a" "encodedLen a + length p \<le> 65535"
  shows "tp_ReadDatagram (be16 (word_of_nat (encodedLen a + length p)) @ addr_bytes a @ p @ rest) = Inr ((plain a, p), rest)"
proof -
  let ?n = "encodedLen a + length p"
  have "unat (word_of_nat ?n :: 16 word) = ?n" by (rule unat_small16 [OF assms(2)])
  moreover have "?n \<noteq> 0" by (simp add: encodedLen_def)
  moreover have "read_full ?n (addr_bytes a @ p @ rest) = Inr (addr_bytes a @ p, rest)"
    using read_full_append [of "addr_bytes a @ p" ?n rest] by (simp add: length_addr_bytes [OF assms(1)])
  ultimately show ?thesis
    by (auto simp: tp_ReadDatagram_def decodeAddr_bytes [OF assms(1)] length_addr_bytes [OF assms(1)] copy_at_def Let_def)
qed

definition record_ok :: "tp_addr \<times> bytes \<Rightarrow> bool" where
  "record_ok = (\<lambda>(a, p). addr_ok a \<and> plain a = a \<and> encodedLen a + length p \<le> 65535)"

abbreviation record_bytes :: "tp_addr \<times> bytes \<Rightarrow> bytes" where
  "record_bytes \<equiv> \<lambda>(a, p). projr (tp_WriteDatagram a p)"

interpretation dgrams: codec record_bytes tp_ReadDatagram record_ok
proof
  fix x rest assume v: "record_ok x"
  obtain a p where x: "x = (a, p)" by (cases x)
  with v have ok: "addr_ok a" "plain a = a" "encodedLen a + length p \<le> 65535" by (simp_all add: record_ok_def)
  show "tp_ReadDatagram (record_bytes x @ rest) = Inr (x, rest)"
    using tp_ReadDatagram_bytes [OF ok(1,3)] ok by (simp add: x tp_WriteDatagram_bytes)
next
  fix x k assume v: "record_ok x" and k: "k < length (record_bytes x)"
  obtain a p where x: "x = (a, p)" by (cases x)
  with v have ok: "addr_ok a" "encodedLen a + length p \<le> 65535" by (simp_all add: record_ok_def)
  let ?n = "encodedLen a + length p" and ?b = "addr_bytes a @ p"
  have n: "unat (word_of_nat ?n :: 16 word) = ?n" "?n \<noteq> 0" "length ?b = ?n"
    using unat_small16 [OF ok(2)] by (auto simp: encodedLen_def length_addr_bytes [OF ok(1)])
  have b: "record_bytes x = be16 (word_of_nat ?n) @ ?b" using ok by (simp add: x tp_WriteDatagram_bytes)
  show "\<exists>e. tp_ReadDatagram (take k (record_bytes x)) = Inl e"
    using prefixed_trunc [of k ?b "word_of_nat ?n"] k n unfolding b
    by (auto simp: tp_ReadDatagram_def)
qed

section \<open>From the SOCKS client to the egress and back\<close>

definition addr_host :: "tp_addr \<Rightarrow> socks_host" where
  "addr_host a = (if tp_Domain a \<noteq> [] then NameHost (tp_Domain a) else IPHost (tp_IP a))"

lemma parse_hub:
  assumes "ParseSocksUDPHeader b = Inr (a, off)"
  shows "\<exists>pos host. addr_form b = Some (host, pos) \<and> off = pos + 2 \<and> tp_Port a = u16_at b pos \<and>
    (tp_IP a \<noteq> [] \<or> tp_Domain a \<noteq> [] \<longrightarrow> host = addr_host a \<and> addr_ok a \<and> encodedLen a + 3 \<le> off)"
  using assms
  by (auto simp: ParseSocksUDPHeader_def decodeAddr_def addr_form_def addr_host_def addr_ok_def encodedLen_def Let_def
      u16_at_drop socks_consts To4_def add.commute split: if_splits)

lemma plain_idem: "addr_ok a \<Longrightarrow> addr_ok (plain a) \<and> plain (plain a) = plain a \<and> encodedLen (plain a) = encodedLen a"
  using length_To4 [of "tp_IP a"]
  by (auto simp: addr_ok_def plain_def encodedLen_def To4_def)

text \<open>(C25) A UDP datagram through the hub.  A datagram from the SOCKS client with a destination is understood by the
  hub exactly as by the built-in proxy; the record the hub writes is read by the egress, whatever follows
  it, as the same destination (an IPv4-mapped address as its four bytes) and the same payload; and a
  reply that the hub wraps for that destination parses back to it with the reply as payload.\<close>

theorem hub_carries_datagrams:
  assumes "ParseSocksUDPHeader b = Inr (a, off)" "tp_IP a \<noteq> [] \<or> tp_Domain a \<noteq> []" "length b \<le> 65535"
  shows "parseUDPDatagram b = Some (addr_host a, tp_Port a, drop off b, take off b) \<and>
    (\<exists>w. tp_WriteDatagram a (drop off b) = Inr w \<and>
      (\<forall>rest. tp_ReadDatagram (w @ rest) = Inr ((plain a, drop off b), rest))) \<and>
    (\<forall>reply. ParseSocksUDPHeader (BuildSocksUDPHeader (plain a) reply) = Inr (plain a, 3 + encodedLen a) \<and>
       drop (3 + encodedLen a) (BuildSocksUDPHeader (plain a) reply) = reply)"
proof (intro conjI allI)
  obtain pos where f: "addr_form b = Some (addr_host a, pos)" "off = pos + 2" "tp_Port a = u16_at b pos"
      "addr_ok a" "encodedLen a + 3 \<le> off"
    using parse_hub [OF assms(1)] assms(2) by blast
  then show "parseUDPDatagram b = Some (addr_host a, tp_Port a, drop off b, take off b)" by (simp add: parse_form)
  have fits: "encodedLen a + length (drop off b) \<le> 65535" using f(2,5) assms(3) addr_form_bounds [OF f(1)] by simp
  show "\<exists>w. tp_WriteDatagram a (drop off b) = Inr w \<and>
      (\<forall>rest. tp_ReadDatagram (w @ rest) = Inr ((plain a, drop off b), rest))"
    by (intro exI conjI allI, rule tp_WriteDatagram_bytes [OF f(4) fits])
      (simp only: append_assoc tp_ReadDatagram_bytes [OF f(4) fits])
  fix reply
  have p: "addr_ok (plain a)" "plain (plain a) = plain a" "length (addr_bytes (plain a)) = encodedLen a"
    using plain_idem [OF f(4)] length_addr_bytes by auto
  have h: "BuildSocksUDPHeader (plain a) reply = [0, 0, 0] @ addr_bytes (plain a) @ reply"
    by (rule BuildSocksUDPHeader_bytes [OF p(1)])
  show "ParseSocksUDPHeader (BuildSocksUDPHeader (plain a) reply) = Inr (plain a, 3 + encodedLen a)"
    using decodeAddr_bytes [OF p(1), of reply] p by (simp add: h ParseSocksUDPHeader_def numeral_3_eq_3)
  show "drop (3 + encodedLen a) (BuildSocksUDPHeader (plain a) reply) = reply"
    using p(3) by (simp add: h numeral_3_eq_3)
qed

theorem hub_carries_datagrams_witness:
  "parseUDPDatagram [0, 0, 0, 3, 1, 104, 0, 53, 9] = Some (NameHost [104], 53, [9], [0, 0, 0, 3, 1, 104, 0, 53])"
proof -
  have "ParseSocksUDPHeader [0, 0, 0, 3, 1, 104, 0, 53, 9] = Inr (\<lparr>tp_IP = [], tp_Domain = [104], tp_Port = 53\<rparr>, 8)"
    by (simp add: ParseSocksUDPHeader_def decodeAddr_def socks_consts u16_at_def of_be16_def Let_def)
  from hub_carries_datagrams [OF this] show ?thesis by (simp add: addr_host_def)
qed

text \<open>Streams of records.  Any sequence of well-formed records is read back record by record, and a record cut
  short is an error; and a TCP stream header is written exactly for a target of 1 to 2048 bytes and read
  back to it.\<close>

theorem tunproto_streams:
  assumes "\<forall>x \<in> set xs. record_ok x"
  shows "decode_n (length xs) tp_ReadDatagram (concat (map record_bytes xs) @ rest) = Inr (xs, rest) \<and>
    (\<forall>x \<in> set xs. \<forall>k < length (record_bytes x). \<exists>e. tp_ReadDatagram (take k (record_bytes x)) = Inl e) \<and>
    ((\<exists>h. WriteTCPHeader target = Inr h) \<longleftrightarrow> 0 < length target \<and> length target \<le> 2048) \<and>
    (\<forall>h. WriteTCPHeader target = Inr h \<longrightarrow>
       (\<exists>s. ReadStreamType (h @ rest) = Inr (StreamTCP, s) \<and> ReadTCPTarget s = Inr (target, rest)))"
proof (intro conjI)
  show "decode_n (length xs) tp_ReadDatagram (concat (map record_bytes xs) @ rest) = Inr (xs, rest)"
    by (rule dgrams.decode_n_concat [OF assms])
  show "\<forall>x \<in> set xs. \<forall>k < length (record_bytes x). \<exists>e. tp_ReadDatagram (take k (record_bytes x)) = Inl e"
    using assms dgrams.dec_trunc by blast
  show "(\<exists>h. WriteTCPHeader target = Inr h) \<longleftrightarrow> 0 < length target \<and> length target \<le> 2048"
    by (auto simp: WriteTCPHeader_def maxTargetLen_def Let_def)
  have h: "WriteTCPHeader target = Inr (StreamTCP # be16 (len16 target) @ target)"
    if t: "0 < length target" "length target \<le> 2048"
  proof -
    have "put16 1 (len16 target) (StreamTCP # replicate (2 + length target) 0) = (StreamTCP # be16 (len16 target)) @ replicate (length target) 0"
      using put16_zeros [of 1 "[StreamTCP]" "len16 target" "length target"] by simp
    moreover have "copy_at 3 (length target) target ((StreamTCP # be16 (len16 target)) @ replicate (length target) 0) =
        StreamTCP # be16 (len16 target) @ target"
      using copy_zeros [of 3 "StreamTCP # be16 (len16 target)" target "length target" 0] by simp
    ultimately show ?thesis using t by (simp add: WriteTCPHeader_def maxTargetLen_def Let_def)
  qed
  show "\<forall>h. WriteTCPHeader target = Inr h \<longrightarrow>
       (\<exists>s. ReadStreamType (h @ rest) = Inr (StreamTCP, s) \<and> ReadTCPTarget s = Inr (target, rest))"
  proof (intro allI impI)
    fix hd assume w: "WriteTCPHeader target = Inr hd"
    then have t: "0 < length target" "length target \<le> 2048" by (auto simp: WriteTCPHeader_def maxTargetLen_def split: if_splits)
    with w h have "hd = StreamTCP # be16 (len16 target) @ target" by simp
    then show "\<exists>s. ReadStreamType (hd @ rest) = Inr (StreamTCP, s) \<and> ReadTCPTarget s = Inr (target, rest)"
      using t by (auto simp: ReadStreamType_def ReadTCPTarget_def maxTargetLen_def read_full_def Let_def)
  qed
qed

theorem tunproto_streams_witness:
  "decode_n 1 tp_ReadDatagram (record_bytes (\<lparr>tp_IP = [1, 2, 3, 4], tp_Domain = [], tp_Port = 53\<rparr>, [9]) @ [7])
     = Inr ([(\<lparr>tp_IP = [1, 2, 3, 4], tp_Domain = [], tp_Port = 53\<rparr>, [9])], [7])"
  using tunproto_streams [of "[(\<lparr>tp_IP = [1, 2, 3, 4], tp_Domain = [], tp_Port = 53\<rparr>, [9])]" "[7]" "[]"]
  by (simp add: record_ok_def addr_ok_def plain_def To4_def encodedLen_def)

text \<open>An empty domain misroutes.  A SOCKS datagram whose destination is a domain of length 0 is accepted by the
  hub, and the record it writes has its payload in the place of the address: the egress reads the port
  and the first 14 payload bytes as an IPv6 destination, the next two as its port, and drops them from the
  payload.\<close>

theorem empty_domain_misroutes:
  assumes "length payload = 16 + n" "length payload \<le> 65000"
  shows "\<exists>a. ParseSocksUDPHeader ([0, 0, 0, 3, 0] @ be16 port @ payload) = Inr (a, 7) \<and>
    (\<exists>w. tp_WriteDatagram a payload = Inr w \<and>
       tp_ReadDatagram w = Inr ((\<lparr>tp_IP = be16 port @ take 14 payload, tp_Domain = [], tp_Port = u16_at payload 14\<rparr>,
         drop 16 payload @ replicate 16 0), []))"
proof -
  let ?a = "\<lparr>tp_IP = [], tp_Domain = [], tp_Port = port\<rparr>"
  let ?r = "atypIPv6 # be16 port @ payload @ replicate 16 0"
  have "ParseSocksUDPHeader ([0, 0, 0, 3, 0] @ be16 port @ payload) = Inr (?a, 7)"
    by (simp add: ParseSocksUDPHeader_def decodeAddr_def socks_consts Let_def numeral_3_eq_3)
  moreover have "tp_WriteDatagram ?a payload = Inr (be16 (word_of_nat (19 + length payload)) @ ?r)"
  proof -
    let ?w = "word_of_nat (19 + length payload) :: 16 word" and ?z = "replicate (19 + length payload) 0 :: bytes"
    have buf: "put16 0 ?w (replicate (2 + (19 + length payload)) 0) = be16 ?w @ ?z"
      using put16_zeros [of 0 "[]" ?w "19 + length payload"] by simp
    have enc: "encode ?a ?z = ((atypIPv6 # be16 port) @ replicate (length payload + 16) 0, 3)"
    proof -
      have "?z = 0 # replicate (18 + length payload) 0"
        using replicate_Suc [of "18 + length payload" "0 :: byte"] by (simp del: replicate_Suc)
      then have "?z[0 := atypIPv6] = [atypIPv6] @ replicate (18 + length payload) 0" by simp
      then have "copy_at 1 (length ?z - 1) [] (?z[0 := atypIPv6]) = [atypIPv6] @ replicate (Suc (Suc (16 + length payload))) 0"
        by (simp add: copy_at_def)
      then show ?thesis
        using put16_zeros [of 1 "[atypIPv6]" port "16 + length payload"]
        by (simp add: encode_def To4_def To16_def Let_def add.commute)
    qed
    have "copy_at 5 (16 + length payload) payload (be16 ?w @ (atypIPv6 # be16 port) @ replicate (length payload + 16) 0) =
        be16 ?w @ ?r"
      using copy_zeros [of 5 "be16 ?w @ atypIPv6 # be16 port" payload "16 + length payload" 16] by simp
    with buf enc assms(2) show ?thesis
      by (simp add: tp_WriteDatagram_def encodedLen_def To4_def maxRecord_def Let_def del: of_nat_add replicate.simps)
  qed
  moreover have "tp_ReadDatagram (be16 (word_of_nat (19 + length payload)) @ ?r) =
      Inr ((\<lparr>tp_IP = be16 port @ take 14 payload, tp_Domain = [], tp_Port = u16_at payload 14\<rparr>, drop 16 payload @ replicate 16 0), [])"
  proof -
    have "unat (word_of_nat (19 + length payload) :: 16 word) = 19 + length payload"
      using assms(2) by (intro unat_small16) simp
    moreover have "read_full (19 + length payload) ?r = Inr (?r, [])" by (rule read_full_exact) simp
    moreover have "decodeAddr ?r = Inr (\<lparr>tp_IP = be16 port @ take 14 payload, tp_Domain = [], tp_Port = u16_at payload 14\<rparr>, 19)"
      using assms(1) by (simp add: decodeAddr_def socks_consts u16_at_append_left)
    moreover have "drop 19 ?r = drop 16 payload @ replicate 16 0" using assms(1) by simp
    ultimately show ?thesis by (simp add: tp_ReadDatagram_def copy_at_def Let_def del: of_nat_add)
  qed
  ultimately show ?thesis by blast
qed

theorem empty_domain_misroutes_witness:
  "\<exists>a w. ParseSocksUDPHeader ([0, 0, 0, 3, 0] @ be16 53 @ replicate 20 7) = Inr (a, 7) \<and>
     tp_WriteDatagram a (replicate 20 7) = Inr w \<and>
     fst (fst (projr (tp_ReadDatagram w))) = \<lparr>tp_IP = be16 53 @ replicate 14 7, tp_Domain = [], tp_Port = of_be16 7 7\<rparr>"
  using empty_domain_misroutes [of "replicate 20 7" 4 53] by (fastforce simp: u16_at_def)

end
