(* ===== verification/Egress.thy ===== *)
theory Egress
  imports Tunproto Go_Strings
begin

text \<open>
  The egress of the hedioum engine: which addresses it agrees to reach
  (\<open>internal/hedioum/engine/egress/server.go\<close>) and its table of UDP flows (\<open>egress/udp.go\<close>).

  The resolver (\<open>net.ParseIP\<close>, \<open>net.LookupIP\<close>), the text form of an address (\<open>net.IP.String\<close>) and whether a
  dial to a vetted address succeeds are arguments.  The table is a step relation: the receiving loop of a
  stream, one reader for each flow and the idle timers take turns, each step being one section under the
  lock or one system call.
\<close>

section \<open>Address policy: \<open>server.go\<close>\<close>

text \<open>The predicates of \<open>net.IP\<close>.\<close>

definition IPv6loopback :: bytes where "IPv6loopback = replicate 15 0 @ [1]"

definition IsUnspecified :: "bytes \<Rightarrow> bool" where
  "IsUnspecified ip = (ip_equal ip (replicate 4 0) \<or> ip_equal ip (replicate 16 0))"

definition IsLoopback :: "bytes \<Rightarrow> bool" where
  "IsLoopback ip = (if To4 ip \<noteq> [] then To4 ip ! 0 = 127 else ip_equal ip IPv6loopback)"

definition IsPrivate :: "bytes \<Rightarrow> bool" where
  "IsPrivate ip =
     (let ip4 = To4 ip in
      if ip4 \<noteq> [] then ip4 ! 0 = 10 \<or> (ip4 ! 0 = 172 \<and> ip4 ! 1 AND 0xf0 = 16) \<or> (ip4 ! 0 = 192 \<and> ip4 ! 1 = 168)
      else length ip = 16 \<and> ip ! 0 AND 0xfe = 0xfc)"

definition IsMulticast :: "bytes \<Rightarrow> bool" where
  "IsMulticast ip =
     (let ip4 = To4 ip in if ip4 \<noteq> [] then ip4 ! 0 AND 0xf0 = 0xe0 else length ip = 16 \<and> ip ! 0 = 0xff)"

definition IsLinkLocalUnicast :: "bytes \<Rightarrow> bool" where
  "IsLinkLocalUnicast ip =
     (let ip4 = To4 ip in
      if ip4 \<noteq> [] then ip4 ! 0 = 169 \<and> ip4 ! 1 = 254
      else length ip = 16 \<and> ip ! 0 = 0xfe \<and> ip ! 1 AND 0xc0 = 0x80)"

definition IsGlobalUnicast :: "bytes \<Rightarrow> bool" where
  "IsGlobalUnicast ip =
     ((length ip = 4 \<or> length ip = 16) \<and> \<not> ip_equal ip (replicate 4 255) \<and> \<not> IsUnspecified ip \<and>
      \<not> IsLoopback ip \<and> \<not> IsMulticast ip \<and> \<not> IsLinkLocalUnicast ip)"

definition isDialableIP :: "bytes \<Rightarrow> bool" where
  "isDialableIP ip =
     (if \<not> IsGlobalUnicast ip then False
      else if IsPrivate ip then False
      else if To4 ip \<noteq> [] \<and> To4 ip ! 0 = 100 \<and> 64 \<le> To4 ip ! 1 \<and> To4 ip ! 1 \<le> 127 then False
      else True)"

datatype dial_error = BlockedTarget | ResolveFailed | NoAddress | InvalidTarget | InvalidPort

text \<open>The loop of \<open>pickFamily\<close>: the first address of each family.\<close>

fun pick_loop_ips :: "bytes list \<Rightarrow> bytes \<times> bytes \<Rightarrow> bytes \<times> bytes" where
  "pick_loop_ips [] v = v"
| "pick_loop_ips (ip # ips) (v4, v6) =
     pick_loop_ips ips
       (if To4 ip \<noteq> [] then (if v4 = [] then To4 ip else v4, v6) else (v4, if v6 = [] then ip else v6))"

definition pickFamily :: "string \<Rightarrow> bytes list \<Rightarrow> dial_error + (bytes \<times> bool)" where
  "pickFamily egressMode ips =
     (case pick_loop_ips ips ([], []) of
        (v4, v6) \<Rightarrow>
          (if egressMode = ''ipv6'' then (if v6 \<noteq> [] then Inr (v6, False) else Inl NoAddress)
           else if egressMode = ''dual'' then
             (if v4 \<noteq> [] then Inr (v4, True) else if v6 \<noteq> [] then Inr (v6, False) else Inl NoAddress)
           else (if v4 \<noteq> [] then Inr (v4, True) else Inl NoAddress)))"

record resolver =
  ParseIP_of :: "string \<Rightarrow> bytes option"
  LookupIP :: "string \<Rightarrow> bytes list option"

definition vetted :: "string \<Rightarrow> resolver \<Rightarrow> string \<Rightarrow> dial_error + (bytes \<times> bool)" where
  "vetted egressMode net host =
     (case ParseIP_of net host of
        Some ip \<Rightarrow> (if \<not> isDialableIP ip then Inl BlockedTarget else pickFamily egressMode [ip])
      | None \<Rightarrow>
          (case LookupIP net host of
             None \<Rightarrow> Inl ResolveFailed
           | Some ips \<Rightarrow> (if \<exists>ip \<in> set ips. \<not> isDialableIP ip then Inl BlockedTarget else pickFamily egressMode ips)))"

text \<open>What a dial is asked for: the source address to bind, if any, and the destination.\<close>

definition bindAddrTCP :: "bytes \<Rightarrow> bool \<Rightarrow> bytes option" where
  "bindAddrTCP egressBindIP isV4 =
     (if egressBindIP \<noteq> [] \<and> (To4 egressBindIP \<noteq> []) = isV4 then Some egressBindIP else None)"

definition safeDialTarget ::
    "string \<Rightarrow> bytes \<Rightarrow> resolver \<Rightarrow> string \<Rightarrow> dial_error + (bytes option \<times> bool \<times> bytes \<times> string)" where
  "safeDialTarget egressMode egressBindIP net target =
     (case SplitHostPort target of
        None \<Rightarrow> Inl InvalidTarget
      | Some (host, port) \<Rightarrow>
          (case vetted egressMode net host of
             Inl e \<Rightarrow> Inl e
           | Inr (ip, isV4) \<Rightarrow> Inr (bindAddrTCP egressBindIP isV4, isV4, ip, port)))"

definition safeDialUDP ::
    "string \<Rightarrow> bytes \<Rightarrow> resolver \<Rightarrow> string \<Rightarrow> dial_error + (bytes option \<times> bool \<times> bytes \<times> int)" where
  "safeDialUDP egressMode egressBindIP net target =
     (case SplitHostPort target of
        None \<Rightarrow> Inl InvalidTarget
      | Some (host, port) \<Rightarrow>
          (case vetted egressMode net host of
             Inl e \<Rightarrow> Inl e
           | Inr (ip, isV4) \<Rightarrow>
               (case Atoi port of
                  None \<Rightarrow> Inl InvalidPort
                | Some p \<Rightarrow>
                    Inr (if egressBindIP \<noteq> [] \<and> (To4 egressBindIP \<noteq> []) = isV4 then Some egressBindIP else None,
                         isV4, ip, p))))"

section \<open>No private address is reached\<close>

text \<open>The IPv4 ranges that are not public, as the policy names them.\<close>

fun private_range :: "nat \<Rightarrow> nat \<Rightarrow> nat \<Rightarrow> nat \<Rightarrow> bool" where
  "private_range a b c d =
     (a = 10 \<or> a = 127 \<or> (a = 172 \<and> 16 \<le> b \<and> b \<le> 31) \<or> (a = 192 \<and> b = 168) \<or> (a = 169 \<and> b = 254) \<or>
      (a = 100 \<and> 64 \<le> b \<and> b \<le> 127) \<or> (224 \<le> a \<and> a \<le> 239) \<or> (a = 0 \<and> b = 0 \<and> c = 0 \<and> d = 0) \<or>
      (a = 255 \<and> b = 255 \<and> c = 255 \<and> d = 255))"

lemma and_high_bits:
  fixes x :: byte
  shows "unat (x AND NOT (mask n)) = 2 ^ n * (unat x div 2 ^ n)"
proof -
  have "x AND NOT (mask n) = push_bit n (drop_bit n x)"
    by (rule bit_word_eqI) (auto simp: bit_simps)
  moreover have "unat (push_bit n (drop_bit n x)) = 2 ^ n * (unat x div 2 ^ n)"
  proof -
    have d: "unat (drop_bit n x) = unat x div 2 ^ n"
      using unat_drop_bit_eq [of n x] by (simp add: drop_bit_eq_div)
    have "2 ^ n * (unat x div 2 ^ n) < 256"
      by (rule le_less_trans [OF times_div_less_eq_dividend]) (use unsigned_less [of x, where ?'a = nat] in simp)
    then have "take_bit 8 (2 ^ n * (unat x div 2 ^ n)) = 2 ^ n * (unat x div 2 ^ n)" by (simp add: take_bit_eq_mod)
    then show ?thesis
      using unsigned_push_bit_eq [of n "drop_bit n x", where ?'a = nat] push_bit_eq_mult [of n "unat x div 2 ^ n"]
      by (simp add: d mult.commute)
  qed
  ultimately show ?thesis by simp
qed

lemma not_masks: "NOT (mask 4 :: byte) = 0xf0" "NOT (mask 1 :: byte) = 0xfe" "NOT (mask 6 :: byte) = 0xc0"
  by (simp_all add: mask_eq_exp_minus_1)

lemma and_masks:
  fixes x :: byte
  shows "unat (x AND 0xf0) = 16 * (unat x div 16)" "unat (x AND 0xfe) = 2 * (unat x div 2)"
    "unat (x AND 0xc0) = 64 * (unat x div 64)"
  using and_high_bits [of x 4, unfolded not_masks] and_high_bits [of x 1, unfolded not_masks]
    and_high_bits [of x 6, unfolded not_masks] by simp_all

lemma replicate4: "replicate 4 x = [x, x, x, x]"
  by (simp add: numeral_eq_Suc)

lemma byte_cmp_numeral [simp]:
  fixes x :: byte
  assumes "numeral k < (256 :: nat)"
  shows "unat x = numeral k \<longleftrightarrow> x = numeral k" "unat x \<le> numeral k \<longleftrightarrow> x \<le> numeral k"
    "numeral k \<le> unat x \<longleftrightarrow> numeral k \<le> x"
proof -
  have "unat (of_nat (numeral k) :: byte) = numeral k mod 256" by (subst unat_of_nat) simp
  also have "\<dots> = numeral k" by (rule mod_less [OF assms])
  finally have "unat (numeral k :: byte) = numeral k" by (simp only: of_nat_numeral)
  then show "unat x = numeral k \<longleftrightarrow> x = numeral k" "unat x \<le> numeral k \<longleftrightarrow> x \<le> numeral k"
      "numeral k \<le> unat x \<longleftrightarrow> numeral k \<le> x"
    by (simp_all add: word_unat_eq_iff word_le_nat_alt)
qed

lemma div_range: "0 < k \<Longrightarrow> k * (n div k) = k * q \<longleftrightarrow> k * q \<le> n \<and> n < k * q + k" for k n q :: nat
proof -
  assume "0 < k"
  then have "k * (n div k) = k * q \<longleftrightarrow> q \<le> n div k \<and> n div k < Suc q" by auto
  also have "\<dots> \<longleftrightarrow> k * q \<le> n \<and> n < k * q + k"
    using \<open>0 < k\<close> by (simp add: less_eq_div_iff_mult_less_eq div_less_iff_less_mult algebra_simps)
  finally show ?thesis .
qed

lemma div_ranges:
  fixes n :: nat
  shows "16 * (n div 16) = 16 \<longleftrightarrow> 16 \<le> n \<and> n \<le> 31" "16 * (n div 16) = 224 \<longleftrightarrow> 224 \<le> n \<and> n \<le> 239"
    "2 * (n div 2) = 252 \<longleftrightarrow> 252 \<le> n \<and> n \<le> 253" "64 * (n div 64) = 128 \<longleftrightarrow> 128 \<le> n \<and> n \<le> 191"
  using div_range [of 16 n 1] div_range [of 16 n 14] div_range [of 2 n 126] div_range [of 64 n 2] by auto

lemma mask_ranges:
  fixes x :: byte
  shows "x AND 0xf0 = 16 \<longleftrightarrow> 16 \<le> x \<and> x \<le> 31" "x AND 0xf0 = 0xe0 \<longleftrightarrow> 224 \<le> x \<and> x \<le> 239"
    "x AND 0xfe = 0xfc \<longleftrightarrow> 252 \<le> x \<and> x \<le> 253" "x AND 0xc0 = 0x80 \<longleftrightarrow> 128 \<le> x \<and> x \<le> 191"
proof -
  have "x AND 0xf0 = 16 \<longleftrightarrow> unat (x AND 0xf0) = 16" "x AND 0xf0 = 0xe0 \<longleftrightarrow> unat (x AND 0xf0) = 224"
      "x AND 0xfe = 0xfc \<longleftrightarrow> unat (x AND 0xfe) = 252" "x AND 0xc0 = 0x80 \<longleftrightarrow> unat (x AND 0xc0) = 128" by simp_all
  then show "x AND 0xf0 = 16 \<longleftrightarrow> 16 \<le> x \<and> x \<le> 31" "x AND 0xf0 = 0xe0 \<longleftrightarrow> 224 \<le> x \<and> x \<le> 239"
      "x AND 0xfe = 0xfc \<longleftrightarrow> 252 \<le> x \<and> x \<le> 253" "x AND 0xc0 = 0x80 \<longleftrightarrow> 128 \<le> x \<and> x \<le> 191"
    unfolding and_masks div_ranges by simp_all
qed

text \<open>On an IPv4 address, the policy is exactly the complement of these ranges.\<close>

lemma isDialableIP_v4:
  "isDialableIP [a, b, c, d] \<longleftrightarrow> \<not> private_range (unat a) (unat b) (unat c) (unat d)"
  by (simp add: isDialableIP_def IsGlobalUnicast_def IsPrivate_def IsMulticast_def IsLinkLocalUnicast_def IsLoopback_def
      IsUnspecified_def ip_equal_def To4_def Let_def mask_ranges replicate4 unat_gt_0)

lemma mapped_split: "length ip = 16 \<Longrightarrow> take 12 ip = p \<Longrightarrow> ip = p @ drop 12 ip"
  by (metis append_take_drop_id)

lemma isDialableIP_To4: "isDialableIP ip \<Longrightarrow> To4 ip \<noteq> [] \<Longrightarrow> isDialableIP (To4 ip)"
  by (auto simp: isDialableIP_def IsGlobalUnicast_def IsPrivate_def IsMulticast_def IsLinkLocalUnicast_def IsLoopback_def
      IsUnspecified_def ip_equal_def To4_def Let_def split: if_splits)

text \<open>The IPv6 addresses that are not public.\<close>

definition private6 :: "bytes \<Rightarrow> bool" where
  "private6 ip =
     (ip = replicate 16 0 \<or> ip = IPv6loopback \<or> (252 \<le> unat (ip ! 0) \<and> unat (ip ! 0) \<le> 253) \<or> unat (ip ! 0) = 255 \<or>
      (unat (ip ! 0) = 254 \<and> 128 \<le> unat (ip ! 1) \<and> unat (ip ! 1) \<le> 191))"

lemma isDialableIP_v6: "isDialableIP ip \<Longrightarrow> To4 ip = [] \<Longrightarrow> length ip = 16 \<and> \<not> private6 ip"
  by (auto simp: isDialableIP_def IsGlobalUnicast_def IsPrivate_def IsMulticast_def IsLinkLocalUnicast_def IsLoopback_def
      IsUnspecified_def private6_def ip_equal_def IPv6loopback_def To4_def Let_def mask_ranges split: if_splits)

lemma pick_loop_ips_from:
  "pick_loop_ips ips v = (v4, v6) \<Longrightarrow>
    (v4 = fst v \<or> (\<exists>ip \<in> set ips. v4 = To4 ip \<and> To4 ip \<noteq> [])) \<and> (v6 = snd v \<or> (\<exists>ip \<in> set ips. v6 = ip \<and> To4 ip = []))"
  by (induction ips v rule: pick_loop_ips.induct) (auto split: if_splits)

lemma pick_loop_ips_complete:
  "pick_loop_ips ips v = (v4, v6) \<Longrightarrow> (v4 = [] \<longleftrightarrow> fst v = [] \<and> (\<forall>ip \<in> set ips. To4 ip = []))"
  by (induction ips v rule: pick_loop_ips.induct) (auto split: if_splits)

lemma vetted_public:
  assumes "vetted mode net host = Inr (ip, v4)"
  shows "isDialableIP ip" "if v4 then length ip = 4 else To4 ip = []" "mode = ''ipv6'' \<Longrightarrow> \<not> v4" "mode \<noteq> ''ipv6'' \<Longrightarrow> mode \<noteq> ''dual'' \<Longrightarrow> v4"
proof -
  obtain ips where ips: "pickFamily mode ips = Inr (ip, v4)" "\<forall>i \<in> set ips. isDialableIP i"
    using assms by (auto simp: vetted_def split: option.splits if_splits)
  obtain a b where p: "pick_loop_ips ips ([], []) = (a, b)" by fastforce
  have "(v4 \<and> ip = a \<and> a \<noteq> []) \<or> (\<not> v4 \<and> ip = b \<and> b \<noteq> [])"
    and m: "mode = ''ipv6'' \<Longrightarrow> \<not> v4" "mode \<noteq> ''ipv6'' \<Longrightarrow> mode \<noteq> ''dual'' \<Longrightarrow> v4"
    using ips(1) p by (auto simp: pickFamily_def split: if_splits)
  then consider (four) i where "v4" "i \<in> set ips" "ip = To4 i" "To4 i \<noteq> []" | (six) "\<not> v4" "ip \<in> set ips" "To4 ip = []"
    using pick_loop_ips_from [OF p] by auto
  then have "isDialableIP ip \<and> (if v4 then length ip = 4 else To4 ip = [])"
  proof cases
    case four
    then show ?thesis using ips(2) isDialableIP_To4 length_To4 by simp
  qed (use ips(2) in auto)
  then show "isDialableIP ip" "if v4 then length ip = 4 else To4 ip = []" by auto
  show "mode = ''ipv6'' \<Longrightarrow> \<not> v4" "mode \<noteq> ''ipv6'' \<Longrightarrow> mode \<noteq> ''dual'' \<Longrightarrow> v4" by (fact m)+
qed

definition asked_to_reach :: "string \<Rightarrow> bytes \<Rightarrow> resolver \<Rightarrow> string \<Rightarrow> bytes option \<times> bool \<times> bytes \<Rightarrow> bool" where
  "asked_to_reach mode bindIP net target = (\<lambda>(src, v4, ip).
     (\<exists>port. safeDialTarget mode bindIP net target = Inr (src, v4, ip, port)) \<or>
     (\<exists>p. safeDialUDP mode bindIP net target = Inr (src, v4, ip, p)))"

text \<open>(C6) The egress reaches public addresses only.  Whatever target the hub asks for and whatever the resolver
  answers, the address dialled for it, by TCP or UDP, is outside every private, loopback, link-local,
  shared, multicast, unspecified and broadcast range, IPv4-mapped forms included; its family is the one
  the egress mode allows, so an egress that is not in IPv6 or dual mode never uses IPv6; and a bound source
  address has the family of the destination.  A single non-public address among a name's answers blocks the
  name.\<close>

theorem egress_reaches_public_only:
  assumes "asked_to_reach mode bindIP net target (src, v4, ip)"
  shows "(if v4 then \<exists>a b c d. ip = [a, b, c, d] \<and> \<not> private_range (unat a) (unat b) (unat c) (unat d)
      else length ip = 16 \<and> To4 ip = [] \<and> \<not> private6 ip) \<and>
    (mode = ''ipv6'' \<longrightarrow> \<not> v4) \<and> (mode \<noteq> ''ipv6'' \<and> mode \<noteq> ''dual'' \<longrightarrow> v4) \<and>
    (\<forall>s. src = Some s \<longrightarrow> s = bindIP \<and> (To4 s \<noteq> []) = v4) \<and>
    (\<exists>host port. SplitHostPort target = Some (host, port) \<and>
       (\<forall>ips x. ParseIP_of net host = None \<and> LookupIP net host = Some ips \<and> x \<in> set ips \<longrightarrow> isDialableIP x))"
proof -
  obtain host port where h: "SplitHostPort target = Some (host, port)" "vetted mode net host = Inr (ip, v4)"
      "src = (if bindIP \<noteq> [] \<and> (To4 bindIP \<noteq> []) = v4 then Some bindIP else None)"
    using assms by (auto simp: asked_to_reach_def safeDialTarget_def safeDialUDP_def bindAddrTCP_def
        split: option.splits sum.splits prod.splits)
  note p = vetted_public [OF h(2)]
  have "\<exists>a b c d. ip = [a, b, c, d] \<and> \<not> private_range (unat a) (unat b) (unat c) (unat d)" if v4
  proof -
    have "length ip = 4" using p(2) that by simp
    then obtain a b c d where ip: "ip = [a, b, c, d]" by (auto simp: numeral_eq_Suc length_Suc_conv)
    then show ?thesis using p(1) isDialableIP_v4 by blast
  qed
  moreover have "length ip = 16 \<and> To4 ip = [] \<and> \<not> private6 ip" if "\<not> v4"
    using isDialableIP_v6 [OF p(1)] p(2) that by simp
  moreover have "\<forall>ips x. ParseIP_of net host = None \<and> LookupIP net host = Some ips \<and> x \<in> set ips \<longrightarrow> isDialableIP x"
    using h(2) by (auto simp: vetted_def split: if_splits)
  ultimately show ?thesis using h p(3,4) by (auto split: if_splits)
qed

theorem egress_reaches_public_only_witness:
  "\<exists>net. asked_to_reach ''ipv4'' [] net ''x:80'' (None, True, [8, 8, 8, 8]) \<and> \<not> private_range 8 8 8 8"
proof -
  let ?net = "\<lparr>ParseIP_of = \<lambda>_. None, LookupIP = \<lambda>h. if h = ''x'' then Some [[8, 8, 8, 8]] else None\<rparr>"
  have "isDialableIP [8, 8, 8, 8]" by (simp add: isDialableIP_v4)
  moreover have "SplitHostPort ''x:80'' = Some (''x'', ''80'')" by (simp add: SplitHostPort_def)
  ultimately have "asked_to_reach ''ipv4'' [] ?net ''x:80'' (None, True, [8, 8, 8, 8])"
    by (simp add: asked_to_reach_def safeDialTarget_def vetted_def pickFamily_def bindAddrTCP_def To4_def)
  with egress_reaches_public_only [OF this] show ?thesis by auto
qed


end
