(* ===== verification/Egress_Udp.thy ===== *)
theory Egress_Udp
  imports Egress
begin

text \<open>
  The UDP flows of an egress stream: \<open>handleUDPStream\<close> and \<open>udpResponseReader\<close> of
  \<open>internal/hedioum/engine/egress/udp.go\<close>.

  A flow is a number; its socket, idle timer and reader are members of sets.  The receiving loop, the
  readers and the timer callbacks interleave; a step is a section under the lock or a system call outside
  it.  The text form of an IP and the success of a dial are arguments.  What was sent to which socket and
  what was written back on the stream are recorded.
\<close>

section \<open>Model\<close>

definition udpMaxFlows :: nat where "udpMaxFlows = 256"

text \<open>\<open>Addr.HostPort\<close> of \<open>tunproto.go\<close>.\<close>

definition HostPort :: "(bytes \<Rightarrow> string) \<Rightarrow> tp_addr \<Rightarrow> string" where
  "HostPort ip_string a =
     (let host = map (char_of \<circ> unat) (tp_Domain a);
          host = (if host = [] \<and> tp_IP a \<noteq> [] then ip_string (tp_IP a) else host) in
      JoinHostPort host (Itoa_nat (unat (tp_Port a))))"

datatype loop_pc = Waiting | Sending tp_addr nat bytes | Ended

record nat_table =
  nt_flows :: "string \<Rightarrow> nat option"
  nt_key :: "nat \<Rightarrow> string"
  nt_target :: "nat \<Rightarrow> tp_addr"
  nt_next :: nat
  nt_open :: "nat set"
  nt_armed :: "nat set"
  nt_fired :: "nat set"
  nt_readers :: "nat set"
  nt_pc :: loop_pc
  nt_sent :: "(tp_addr \<times> nat \<times> bytes) list"
  nt_back :: "(nat \<times> tp_addr \<times> bytes) list"

record nat_env =
  text_of :: "bytes \<Rightarrow> string"
  dials :: "string \<Rightarrow> bool"

definition nat_init :: nat_table where
  "nat_init = \<lparr>nt_flows = Map.empty, nt_key = \<lambda>_. [], nt_target = \<lambda>_. \<lparr>tp_IP = [], tp_Domain = [], tp_Port = 0\<rparr>,
     nt_next = 0, nt_open = {}, nt_armed = {}, nt_fired = {}, nt_readers = {}, nt_pc = Waiting, nt_sent = [], nt_back = []\<rparr>"

definition closeFlow :: "string \<Rightarrow> nat_table \<Rightarrow> nat_table" where
  "closeFlow key s =
     (case nt_flows s key of
        None \<Rightarrow> s
      | Some f \<Rightarrow> s\<lparr>nt_flows := (nt_flows s)(key := None), nt_armed := nt_armed s - {f}, nt_open := nt_open s - {f}\<rparr>)"

text \<open>The part of the loop under the lock, for a datagram read from the stream.\<close>

definition find_flow :: "nat_env \<Rightarrow> tp_addr \<Rightarrow> bytes \<Rightarrow> nat_table \<Rightarrow> nat_table" where
  "find_flow e addr payload s =
     (let key = HostPort (text_of e) addr in
      case nt_flows s key of
        Some f \<Rightarrow> s\<lparr>nt_pc := Sending addr f payload\<rparr>
      | None \<Rightarrow>
          (if udpMaxFlows \<le> card (dom (nt_flows s)) then s
           else if \<not> dials e key then s
           else
             (let f = nt_next s in
              s\<lparr>nt_flows := (nt_flows s)(key \<mapsto> f), nt_key := (nt_key s)(f := key), nt_target := (nt_target s)(f := addr),
                nt_next := Suc f, nt_open := insert f (nt_open s), nt_armed := insert f (nt_armed s),
                nt_readers := insert f (nt_readers s), nt_pc := Sending addr f payload\<rparr>)))"

text \<open>After the lock: the timer is reset and the payload written; \<open>ok\<close> is whether the write succeeds on a
  socket that is open.\<close>

definition send_on :: "nat_env \<Rightarrow> bool \<Rightarrow> tp_addr \<Rightarrow> nat \<Rightarrow> bytes \<Rightarrow> nat_table \<Rightarrow> nat_table" where
  "send_on e ok addr f payload s =
     (let s = s\<lparr>nt_armed := insert f (nt_armed s)\<rparr> in
      if ok \<and> f \<in> nt_open s then s\<lparr>nt_sent := nt_sent s @ [(addr, f, payload)], nt_pc := Waiting\<rparr>
      else (closeFlow (HostPort (text_of e) addr) s)\<lparr>nt_pc := Waiting\<rparr>)"

inductive nat_step :: "nat_env \<Rightarrow> nat_table \<Rightarrow> nat_table \<Rightarrow> bool" for e where
  datagram: "nt_pc s = Waiting \<Longrightarrow> nat_step e s (find_flow e addr payload s)"
| send: "nt_pc s = Sending addr f payload \<Longrightarrow> nat_step e s (send_on e ok addr f payload s)"
| timer_fires: "f \<in> nt_armed s \<Longrightarrow> nat_step e s (s\<lparr>nt_armed := nt_armed s - {f}, nt_fired := insert f (nt_fired s)\<rparr>)"
| timer_closes: "f \<in> nt_fired s \<Longrightarrow>
    nat_step e s ((closeFlow (nt_key s f) s)\<lparr>nt_fired := nt_fired s - {f}\<rparr>)"
| reply: "f \<in> nt_readers s \<Longrightarrow> f \<in> nt_open s \<Longrightarrow>
    nat_step e s (s\<lparr>nt_armed := insert f (nt_armed s), nt_back := nt_back s @ [(f, nt_target s f, data)]\<rparr>)"
| reader_ends: "f \<in> nt_readers s \<Longrightarrow>
    nat_step e s ((closeFlow (nt_key s f) s)\<lparr>nt_readers := nt_readers s - {f}\<rparr>)"
| stream_ends: "nt_pc s = Waiting \<Longrightarrow>
    nat_step e s (s\<lparr>nt_open := nt_open s - ran (nt_flows s), nt_armed := nt_armed s - ran (nt_flows s), nt_pc := Ended\<rparr>)"

inductive_cases nat_stepE: "nat_step e s s'"

section \<open>Invariant\<close>

definition flows_ok :: "nat_env \<Rightarrow> nat_table \<Rightarrow> bool" where
  "flows_ok e s =
     (finite (dom (nt_flows s)) \<and> card (dom (nt_flows s)) \<le> udpMaxFlows \<and>
      (\<forall>k f. nt_flows s k = Some f \<longrightarrow> f < nt_next s \<and> nt_key s f = k) \<and>
      (\<forall>f < nt_next s. dials e (nt_key s f) \<and> nt_key s f = HostPort (text_of e) (nt_target s f)) \<and>
      (\<forall>f \<in> nt_open s. nt_flows s (nt_key s f) = Some f))"

definition ids_ok :: "nat_table \<Rightarrow> bool" where
  "ids_ok s = (nt_readers s \<union> nt_armed s \<union> nt_fired s \<subseteq> {..<nt_next s})"

definition log_ok :: "nat_env \<Rightarrow> nat_table \<Rightarrow> bool" where
  "log_ok e s =
     ((\<forall>addr f p. nt_pc s = Sending addr f p \<longrightarrow> f < nt_next s \<and> nt_key s f = HostPort (text_of e) addr) \<and>
      (\<forall>(addr, f, p) \<in> set (nt_sent s). f < nt_next s \<and> nt_key s f = HostPort (text_of e) addr) \<and>
      (\<forall>(f, addr, p) \<in> set (nt_back s). f < nt_next s \<and> addr = nt_target s f))"

definition nat_inv :: "nat_env \<Rightarrow> nat_table \<Rightarrow> bool" where
  "nat_inv e s = (flows_ok e s \<and> ids_ok s \<and> log_ok e s)"

lemmas nat_inv_defs = flows_ok_def ids_ok_def log_ok_def

lemma closeFlow_same [simp]:
  "nt_key (closeFlow k s) = nt_key s" "nt_target (closeFlow k s) = nt_target s" "nt_next (closeFlow k s) = nt_next s"
  "nt_readers (closeFlow k s) = nt_readers s" "nt_fired (closeFlow k s) = nt_fired s" "nt_pc (closeFlow k s) = nt_pc s"
  "nt_sent (closeFlow k s) = nt_sent s" "nt_back (closeFlow k s) = nt_back s"
  by (simp_all add: closeFlow_def split: option.splits)

lemma closeFlow_flows: "nt_flows (closeFlow k s) = (nt_flows s)(k := None)"
  by (auto simp: closeFlow_def split: option.splits)

lemma closeFlow_sets:
  "nt_open (closeFlow k s) = nt_open s - {f. nt_flows s k = Some f}"
  "nt_armed (closeFlow k s) = nt_armed s - {f. nt_flows s k = Some f}"
  by (auto simp: closeFlow_def split: option.splits)

lemma card_dom_remove: "finite (dom m) \<Longrightarrow> card (dom (m(k := None))) \<le> card (dom m)"
  by (simp add: card_Diff1_le)

lemma nat_inv_close: "nat_inv e s \<Longrightarrow> nat_inv e (closeFlow k s)"
proof -
  assume inv: "nat_inv e s"
  then have "flows_ok e (closeFlow k s)"
    using card_dom_remove [of "nt_flows s" k]
    by (auto simp: nat_inv_def flows_ok_def closeFlow_flows closeFlow_sets split: if_splits)
  moreover have "ids_ok (closeFlow k s)" using inv by (auto simp: nat_inv_def ids_ok_def closeFlow_sets)
  moreover have "log_ok e (closeFlow k s)" using inv by (simp add: nat_inv_def log_ok_def)
  ultimately show ?thesis by (simp add: nat_inv_def)
qed

text \<open>Changes that leave the table alone.\<close>

lemma nat_inv_update:
  assumes "nat_inv e s"
  shows "nat_inv e (s\<lparr>nt_pc := Waiting\<rparr>)" "nat_inv e (s\<lparr>nt_fired := nt_fired s - A\<rparr>)"
    "nat_inv e (s\<lparr>nt_readers := nt_readers s - A\<rparr>)" "f < nt_next s \<Longrightarrow> nat_inv e (s\<lparr>nt_armed := insert f (nt_armed s)\<rparr>)"
  using assms by (auto simp: nat_inv_def nat_inv_defs)

lemma nat_inv_find:
  assumes inv: "nat_inv e s" and pc: "nt_pc s = Waiting"
  shows "nat_inv e (find_flow e addr payload s)"
proof (cases "nt_flows s (HostPort (text_of e) addr)")
  case (Some f)
  then show ?thesis using inv by (auto simp: nat_inv_def nat_inv_defs find_flow_def Let_def)
next
  case None
  let ?k = "HostPort (text_of e) addr"
  show ?thesis
  proof (cases "udpMaxFlows \<le> card (dom (nt_flows s)) \<or> \<not> dials e ?k")
    case True
    then show ?thesis using inv None by (auto simp: find_flow_def Let_def)
  next
    case False
    let ?s = "find_flow e addr payload s"
    have new: "nt_flows ?s = (nt_flows s)(?k \<mapsto> nt_next s)" "nt_key ?s = (nt_key s)(nt_next s := ?k)"
        "nt_target ?s = (nt_target s)(nt_next s := addr)" "nt_next ?s = Suc (nt_next s)"
        "nt_open ?s = insert (nt_next s) (nt_open s)" "nt_armed ?s = insert (nt_next s) (nt_armed s)"
        "nt_readers ?s = insert (nt_next s) (nt_readers s)" "nt_fired ?s = nt_fired s"
        "nt_pc ?s = Sending addr (nt_next s) payload" "nt_sent ?s = nt_sent s" "nt_back ?s = nt_back s"
      using None False by (simp_all add: find_flow_def Let_def)
    have old: "f < nt_next s" if "f \<in> nt_open s" for f
      using inv that by (auto simp: nat_inv_def flows_ok_def)
    have "card (dom ((nt_flows s)(?k \<mapsto> nt_next s))) \<le> udpMaxFlows"
      using inv None False by (simp add: nat_inv_def flows_ok_def card_insert_if domIff)
    then have "flows_ok e ?s"
      using inv None False old unfolding flows_ok_def new by (auto simp: nat_inv_def flows_ok_def less_Suc_eq)
    moreover have "ids_ok ?s" using inv unfolding ids_ok_def new by (auto simp: nat_inv_def ids_ok_def)
    moreover have "log_ok e ?s" using inv unfolding log_ok_def new by (auto simp: nat_inv_def log_ok_def)
    ultimately show ?thesis by (simp add: nat_inv_def)
  qed
qed

lemma nat_inv_step:
  assumes "nat_step e s s'" "nat_inv e s"
  shows "nat_inv e s'"
  using assms(1)
proof cases
  case (datagram addr payload)
  then show ?thesis using assms(2) nat_inv_find by simp
next
  case (send addr f payload ok)
  let ?s = "s\<lparr>nt_armed := insert f (nt_armed s)\<rparr>"
  have f: "f < nt_next s" "nt_key s f = HostPort (text_of e) addr"
    using assms(2) send by (simp_all add: nat_inv_def log_ok_def)
  note inv = nat_inv_update(4) [OF assms(2) f(1)]
  show ?thesis
  proof (cases "ok \<and> f \<in> nt_open s")
    case True
    then have s': "s' = ?s\<lparr>nt_sent := nt_sent s @ [(addr, f, payload)], nt_pc := Waiting\<rparr>"
      using send by (simp add: send_on_def Let_def)
    have "flows_ok e s' \<and> ids_ok s'" unfolding s' using inv by (auto simp: nat_inv_def flows_ok_def ids_ok_def)
    moreover have "log_ok e s'" unfolding s' using inv f by (simp add: nat_inv_def log_ok_def)
    ultimately show ?thesis by (simp add: nat_inv_def)
  next
    case False
    then show ?thesis
      using nat_inv_update(1) [OF nat_inv_close [OF inv]] send by (auto simp: send_on_def Let_def)
  qed
next
  case (timer_closes f)
  then show ?thesis using nat_inv_update(2) [OF nat_inv_close [OF assms(2), of "nt_key s f"], of "{f}"] by simp
next
  case (reader_ends f)
  then show ?thesis using nat_inv_update(3) [OF nat_inv_close [OF assms(2), of "nt_key s f"], of "{f}"] by simp
next
  case (reply f data)
  then have "f < nt_next s" using assms(2) by (auto simp: nat_inv_def ids_ok_def)
  then show ?thesis using reply assms(2) by (auto simp: nat_inv_def nat_inv_defs)
qed (use assms(2) in \<open>auto simp: nat_inv_def nat_inv_defs\<close>)

interpretation nat_flows: invariant "\<lambda>s. s = nat_init" "nat_step e" "nat_inv e" for e
  by (unfold_locales; (erule (1) nat_inv_step)?) (simp add: nat_inv_def nat_inv_defs nat_init_def)

text \<open>(C24) The egress's flow table.  In every reachable state at most 256 sockets are open for a stream, each listed
  in the table under its own destination, and each destination passed the address policy; every datagram
  that was sent left through the socket of its own destination; and every reply that was written back
  carries the address the datagram that opened the socket was sent to.\<close>

theorem egress_flows_separate:
  assumes "(nat_step e)\<^sup>*\<^sup>* nat_init s"
  shows "card (nt_open s) \<le> 256 \<and>
    (\<forall>f \<in> nt_open s. nt_flows s (nt_key s f) = Some f \<and> dials e (nt_key s f)) \<and>
    (\<forall>(addr, f, p) \<in> set (nt_sent s). nt_key s f = HostPort (text_of e) addr \<and> dials e (nt_key s f)) \<and>
    (\<forall>(f, addr, p) \<in> set (nt_back s). nt_key s f = HostPort (text_of e) addr)"
proof -
  have inv: "nat_inv e s" by (rule nat_flows.inv_reachable [OF refl assms])
  then have "nt_open s \<subseteq> (the \<circ> nt_flows s) ` dom (nt_flows s)"
    by (force simp: nat_inv_def flows_ok_def intro: image_eqI [where x = "nt_key s _"])
  then have "card (nt_open s) \<le> card (dom (nt_flows s))"
    using inv by (meson card_image_le card_mono finite_imageI flows_ok_def nat_inv_def order_trans)
  then have "card (nt_open s) \<le> 256" using inv by (simp add: nat_inv_def flows_ok_def udpMaxFlows_def)
  moreover have key: "dials e (nt_key s f)" "nt_key s f = HostPort (text_of e) (nt_target s f)" if "f < nt_next s" for f
    using inv that by (auto simp: nat_inv_def flows_ok_def)
  have "\<forall>f \<in> nt_open s. nt_flows s (nt_key s f) = Some f \<and> f < nt_next s"
    using inv by (auto simp: nat_inv_def flows_ok_def)
  then have "\<forall>f \<in> nt_open s. nt_flows s (nt_key s f) = Some f \<and> dials e (nt_key s f)" using key(1) by blast
  moreover have "nt_key s f = HostPort (text_of e) addr \<and> dials e (nt_key s f)" if "(addr, f, p) \<in> set (nt_sent s)" for addr f p
    using inv that key(1) [of f] by (auto simp: nat_inv_def log_ok_def)
  moreover have "nt_key s f = HostPort (text_of e) addr" if "(f, addr, p) \<in> set (nt_back s)" for addr f p
    using inv that key(2) [of f] by (auto simp: nat_inv_def log_ok_def)
  ultimately show ?thesis by blast
qed


section \<open>A stale reader\<close>

text \<open>An executable run: each event with its choices.\<close>

datatype nat_event = Datagram tp_addr bytes | Send bool | TimerFires nat | TimerCloses nat | Reply nat bytes | ReaderEnds nat

definition nat_run :: "nat_env \<Rightarrow> nat_event \<Rightarrow> nat_table \<Rightarrow> nat_table option" where
  "nat_run e ev s =
     (case ev of
        Datagram addr p \<Rightarrow> if nt_pc s = Waiting then Some (find_flow e addr p s) else None
      | Send ok \<Rightarrow> (case nt_pc s of Sending addr f p \<Rightarrow> Some (send_on e ok addr f p s) | _ \<Rightarrow> None)
      | TimerFires f \<Rightarrow> if f \<in> nt_armed s then Some (s\<lparr>nt_armed := nt_armed s - {f}, nt_fired := insert f (nt_fired s)\<rparr>) else None
      | TimerCloses f \<Rightarrow> if f \<in> nt_fired s then Some ((closeFlow (nt_key s f) s)\<lparr>nt_fired := nt_fired s - {f}\<rparr>) else None
      | Reply f data \<Rightarrow> if f \<in> nt_readers s \<and> f \<in> nt_open s
          then Some (s\<lparr>nt_armed := insert f (nt_armed s), nt_back := nt_back s @ [(f, nt_target s f, data)]\<rparr>) else None
      | ReaderEnds f \<Rightarrow> if f \<in> nt_readers s then Some ((closeFlow (nt_key s f) s)\<lparr>nt_readers := nt_readers s - {f}\<rparr>) else None)"

fun nat_runs :: "nat_env \<Rightarrow> nat_event list \<Rightarrow> nat_table \<Rightarrow> nat_table option" where
  "nat_runs e [] s = Some s"
| "nat_runs e (ev # evs) s = Option.bind (nat_run e ev s) (nat_runs e evs)"

lemma nat_run_step: "nat_run e ev s = Some s' \<Longrightarrow> nat_step e s s'"
  by (cases ev) (auto simp: nat_run_def split: if_splits loop_pc.splits intro: nat_step.intros)

lemma nat_runs_steps: "nat_runs e evs s = Some s' \<Longrightarrow> (nat_step e)\<^sup>*\<^sup>* s s'"
proof (induction evs arbitrary: s)
  case (Cons ev evs)
  then obtain t where "nat_run e ev s = Some t" "nat_runs e evs t = Some s'"
    by (auto simp: Option.bind_eq_Some_conv)
  then show ?case using Cons.IH nat_run_step by (blast intro: converse_rtranclp_into_rtranclp)
qed simp

theorem egress_flows_separate_witness:
  "\<exists>s. (nat_step \<lparr>text_of = \<lambda>_. ''1'', dials = \<lambda>_. True\<rparr>)\<^sup>*\<^sup>* nat_init s \<and> nt_open s = {0} \<and> length (nt_back s) = 1 \<and>
     card (nt_open s) \<le> 256"
proof -
  let ?e = "\<lparr>text_of = \<lambda>_. ''1'', dials = \<lambda>_. True\<rparr>" and ?a = "\<lparr>tp_IP = [1, 1, 1, 1], tp_Domain = [], tp_Port = 53\<rparr>"
  obtain s where s: "nat_runs ?e [Datagram ?a [7], Send True, Reply 0 [8]] nat_init = Some s" "nt_open s = {0}"
      "length (nt_back s) = 1"
    by (simp add: nat_run_def nat_init_def find_flow_def send_on_def Let_def udpMaxFlows_def)
  from nat_runs_steps [OF s(1)] egress_flows_separate [OF nat_runs_steps [OF s(1)]] s(2,3) show ?thesis by blast
qed

text \<open>A stale reader closes a live flow.  \<open>closeFlow\<close> looks a flow up by its destination only.  When a flow was
  closed as idle and a new one for the same destination was opened before the reader of the old one came to
  its own \<open>closeFlow\<close>, that call closes the new flow: its socket was open and in the table, its own reader
  still runs, and after the step it is closed, so replies to what was just sent are lost.\<close>

theorem stale_reader_closes_new_flow:
  assumes "dials e (HostPort (text_of e) addr)"
  shows "\<exists>s s'. (nat_step e)\<^sup>*\<^sup>* nat_init s \<and> nt_sent s = [(addr, 0, p), (addr, 1, q)] \<and>
    nt_open s = {1} \<and> nt_readers s = {0, 1} \<and> 1 \<notin> nt_fired s \<and>
    nat_step e s s' \<and> nt_open s' = {} \<and> nt_readers s' = {1}"
proof -
  let ?evs = "[Datagram addr p, Send True, TimerFires 0, TimerCloses 0, Datagram addr q, Send True]"
  obtain s where s: "nat_runs e ?evs nat_init = Some s" "nt_sent s = [(addr, 0, p), (addr, 1, q)]" "nt_open s = {1}"
      "nt_readers s = {0, 1}" "nt_fired s = {}" "nt_key s 0 = HostPort (text_of e) addr"
      "nt_flows s (HostPort (text_of e) addr) = Some 1"
    using assms
    by (auto simp: nat_run_def nat_init_def find_flow_def send_on_def closeFlow_def Let_def udpMaxFlows_def)
  let ?s' = "(closeFlow (nt_key s 0) s)\<lparr>nt_readers := nt_readers s - {0}\<rparr>"
  have "nat_step e s ?s'" by (rule nat_step.reader_ends) (simp add: s)
  moreover have "nt_open ?s' = {}" "nt_readers ?s' = {1}" using s by (auto simp: closeFlow_sets)
  ultimately show ?thesis using nat_runs_steps [OF s(1)] s by blast
qed

theorem stale_reader_closes_new_flow_witness:
  "\<exists>s s'. (nat_step \<lparr>text_of = \<lambda>_. ''1'', dials = \<lambda>_. True\<rparr>)\<^sup>*\<^sup>* nat_init s \<and> nt_open s = {1} \<and>
     nat_step \<lparr>text_of = \<lambda>_. ''1'', dials = \<lambda>_. True\<rparr> s s' \<and> nt_open s' = {}"
  using stale_reader_closes_new_flow [of "\<lparr>text_of = \<lambda>_. ''1'', dials = \<lambda>_. True\<rparr>"
      "\<lparr>tp_IP = [1, 1, 1, 1], tp_Domain = [], tp_Port = 53\<rparr>" "[7]" "[8]"] by (auto; blast)

end
