(* ===== verification/Hub_Pool.thy ===== *)
theory Hub_Pool
  imports Complex_Main Go_Prelude
begin

text \<open>
  The pool of camouflaged connections a hub keeps to a foreign node:
  \<open>internal/hedioum/engine/pool\<close> (\<open>lifecycle.go\<close>, \<open>session.go\<close>, \<open>manager.go\<close>).

  A session is a record with an identity; the yamux session inside it is its number of streams and whether it
  is closed, both of which change outside the pool's control.  The watchdog's work is three kinds of section
  under the pool's lock (analysing all sessions, admitting a dialled one, cleaning up), with anything happening
  to the sessions in between.  A section has one reading of the clock.  Floating-point scale factors are
  rational numbers, truncated where the code converts to an integer; random draws and the SHA-256 of the
  token are arguments.  Times are nanoseconds.
\<close>

section \<open>Lifecycle policy: \<open>lifecycle.go\<close>\<close>

definition seconds :: "int \<Rightarrow> int" where "seconds n = n * 1000000000"
definition gib :: int where "gib = 2 ^ 30"
definition auxMinLifetime :: int where "auxMinLifetime = seconds (5 * 60)"
definition auxMaxLifetime :: int where "auxMaxLifetime = seconds (60 * 60)"
definition auxMinBudget :: int where "auxMinBudget = gib"
definition auxMaxBudget :: int where "auxMaxBudget = 5 * gib"
definition sshMinLifetime :: int where "sshMinLifetime = seconds (6 * 3600)"
definition sshMaxLifetime :: int where "sshMaxLifetime = seconds (24 * 3600)"

record LifecyclePolicy =
  auxLifetimeBase :: int
  auxBudgetBase :: int
  sshLifetimeBase :: int

definition lerp :: "rat \<Rightarrow> int \<Rightarrow> int \<Rightarrow> int" where
  "lerp f lo hi = lo + \<lfloor>f * of_int (hi - lo)\<rfloor>"

definition clamp :: "int \<Rightarrow> int \<Rightarrow> int \<Rightarrow> int" where
  "clamp v lo hi = (if v < lo then lo else if v > hi then hi else v)"

definition jitter :: "rat \<Rightarrow> rat \<Rightarrow> rat \<Rightarrow> rat" where
  "jitter draw lo hi = lo + draw * (hi - lo)"

definition scale :: "rat \<Rightarrow> int \<Rightarrow> rat \<Rightarrow> rat \<Rightarrow> int" where
  "scale draw base lo hi = \<lfloor>of_int base * jitter draw lo hi\<rfloor>"

text \<open>\<open>binary.BigEndian.Uint64(h[i:i+8])\<close> as a fraction of \<open>2^64\<close>.\<close>

definition frac64 :: "bytes \<Rightarrow> nat \<Rightarrow> rat" where
  "frac64 h i = of_nat (fold (\<lambda>b n. 256 * n + unat b) (take 8 (drop i h)) 0) / 2 ^ 64"

definition NewLifecyclePolicy :: "bytes \<Rightarrow> LifecyclePolicy" where
  "NewLifecyclePolicy h =
     \<lparr>auxLifetimeBase = lerp (frac64 h 0) (auxMinLifetime + seconds 600) (auxMaxLifetime - seconds 900),
      auxBudgetBase = lerp (frac64 h 8) (2 * gib) (4 * gib),
      sshLifetimeBase = lerp (frac64 h 16) (sshMinLifetime + seconds (4 * 3600)) (sshMaxLifetime - seconds (6 * 3600))\<rparr>"

definition roll :: "LifecyclePolicy \<Rightarrow> rat \<Rightarrow> rat \<Rightarrow> string \<Rightarrow> int \<times> int" where
  "roll p d1 d2 mimicType =
     (if mimicType = ''ssh'' then (clamp (scale d1 (sshLifetimeBase p) (1/2) (3/2)) sshMinLifetime sshMaxLifetime, 0)
      else (clamp (scale d1 (auxLifetimeBase p) (4/10) (16/10)) auxMinLifetime auxMaxLifetime,
            clamp (scale d2 (auxBudgetBase p) (1/2) (3/2)) auxMinBudget auxMaxBudget))"

section \<open>Sessions: \<open>session.go\<close>\<close>

record ysession =
  ys_id :: nat
  ys_closed :: bool
  ys_streams :: nat
  ys_draining :: bool
  ys_bytes :: "64 word"
  ys_cumulative :: "64 word"
  ys_mimic :: string
  ys_bornAt :: int
  ys_retireAfter :: int
  ys_byteBudget :: int
  ys_drainingSince :: "int option"
  ys_base :: int
  ys_jitter :: int
  ys_cap :: int
  ys_lastActivity :: int

text \<open>\<open>draw\<close> is what \<open>rand.Intn(2*jitter+1)\<close> returns.\<close>

definition UpdateChaosLimit :: "int \<Rightarrow> ysession \<Rightarrow> ysession" where
  "UpdateChaosLimit draw s =
     (let c = (if ys_jitter s = 0 then ys_base s else ys_base s + (draw - ys_jitter s)) in
      s\<lparr>ys_cap := (if c < 1 then 1 else c)\<rparr>)"

definition NewYamuxSession ::
    "nat \<Rightarrow> int \<Rightarrow> int \<Rightarrow> int \<Rightarrow> string \<Rightarrow> LifecyclePolicy \<Rightarrow> rat \<Rightarrow> rat \<Rightarrow> int \<Rightarrow> ysession" where
  "NewYamuxSession i now base jit mimicType policy d1 d2 draw =
     (let (retireAfter, byteBudget) = roll policy d1 d2 mimicType in
      UpdateChaosLimit draw
        \<lparr>ys_id = i, ys_closed = False, ys_streams = 0, ys_draining = False, ys_bytes = 0, ys_cumulative = 0,
         ys_mimic = mimicType, ys_bornAt = now, ys_retireAfter = retireAfter, ys_byteBudget = byteBudget,
         ys_drainingSince = None, ys_base = base, ys_jitter = jit, ys_cap = 0, ys_lastActivity = now\<rparr>)"

definition ShouldRetire :: "int \<Rightarrow> ysession \<Rightarrow> bool" where
  "ShouldRetire now s =
     (if ys_retireAfter s > 0 \<and> now - ys_bornAt s \<ge> ys_retireAfter s then True
      else if ys_byteBudget s > 0 \<and> uint (ys_cumulative s) \<ge> ys_byteBudget s then True
      else False)"

definition SetDraining :: "int \<Rightarrow> ysession \<Rightarrow> ysession" where
  "SetDraining now s = s\<lparr>ys_drainingSince := Some now, ys_draining := True\<rparr>"

definition DrainingFor :: "int \<Rightarrow> ysession \<Rightarrow> int" where
  "DrainingFor now s = (case ys_drainingSince s of None \<Rightarrow> 0 | Some t \<Rightarrow> now - t)"

definition IsActive :: "ysession \<Rightarrow> bool" where
  "IsActive s = (\<not> ys_draining s)"

definition ActiveStreams :: "ysession \<Rightarrow> nat" where
  "ActiveStreams s = (if ys_closed s then 0 else ys_streams s)"

definition IdleTime :: "int \<Rightarrow> ysession \<Rightarrow> int" where
  "IdleTime now s = now - ys_lastActivity s"

text \<open>The counting of \<open>monitoredStream\<close>'s \<open>Read\<close> and \<open>Write\<close>, and of \<open>OpenStream\<close>.\<close>

definition count_io :: "nat \<Rightarrow> ysession \<Rightarrow> ysession" where
  "count_io n s = s\<lparr>ys_bytes := ys_bytes s + word_of_nat n, ys_cumulative := ys_cumulative s + word_of_nat n\<rparr>"

definition OpenStream :: "int \<Rightarrow> ysession \<Rightarrow> ysession option" where
  "OpenStream now s =
     (if ys_closed s then None else Some (s\<lparr>ys_streams := Suc (ys_streams s), ys_lastActivity := now\<rparr>))"

section \<open>The pool: \<open>manager.go\<close>\<close>

definition drainSoftGrace :: int where "drainSoftGrace = seconds 90"
definition drainHardCeiling :: int where "drainHardCeiling = seconds (30 * 60)"
definition maxTotalFactor :: nat where "maxTotalFactor = 2"

definition shouldCloseDraining :: "nat \<Rightarrow> int \<Rightarrow> bool \<Rightarrow> bool" where
  "shouldCloseDraining streams drainedFor idle =
     (if streams = 0 then True
      else if idle \<and> drainedFor > drainSoftGrace then True
      else drainedFor > drainHardCeiling)"

definition pool_size :: "int \<Rightarrow> int \<Rightarrow> int \<times> int" where
  "pool_size cfgMin cfgMax =
     (let minConns = (if cfgMin < 1 then 10 else cfgMin);
          maxConns = (if cfgMax < minConns then minConns + 5 else cfgMax) in
      (minConns, maxConns))"

fun least_loop :: "ysession list \<Rightarrow> nat \<Rightarrow> ysession option \<Rightarrow> ysession option" where
  "least_loop [] minStreams best = best"
| "least_loop (s # ss) minStreams best =
     (if ys_closed s \<or> ys_draining s then least_loop ss minStreams best
      else if ActiveStreams s < minStreams then least_loop ss (ActiveStreams s) (Some s)
      else least_loop ss minStreams best)"

definition getStreamLeastLoaded :: "ysession list \<Rightarrow> ysession option" where
  "getStreamLeastLoaded ss = least_loop ss (2 ^ 63 - 1) None"

definition mbps_of :: "64 word \<Rightarrow> int" where
  "mbps_of b = uint ((b * 8) div (1024 * 1024 * 10))"

text \<open>What one turn of the loop does with a session that is not closed: the session, whether it is kept, the
  count of active sessions so far, and whether it asks for another connection.  \<open>draw\<close> is its draw of the cap.\<close>

definition examine ::
    "int \<Rightarrow> int \<Rightarrow> int \<Rightarrow> int \<Rightarrow> ysession \<Rightarrow> int \<Rightarrow> ysession \<times> bool \<times> int \<times> bool" where
  "examine now idleLimit minConns draw s activeCount =
     (let mbps = mbps_of (ys_bytes s);
          s = UpdateChaosLimit draw (s\<lparr>ys_bytes := 0\<rparr>);
          cap = ys_cap s in
      if IsActive s then
        (let activeCount = activeCount + 1 in
         if ShouldRetire now s then (SetDraining now s, True, activeCount - 1, False)
         else
           (let up = (mbps \<ge> cap * 4 div 5) in
            if activeCount > minConns \<and> mbps < 1 \<and> IdleTime now s > idleLimit
            then (SetDraining now s, True, activeCount - 1, up)
            else (s, True, activeCount, up)))
      else if shouldCloseDraining (ActiveStreams s) (DrainingFor now s) (mbps < 1) then (s, False, activeCount, False)
      else (s, True, activeCount, False))"

text \<open>The loop over the sessions: those retained, those closed, and whether to scale up.\<close>

fun analyse ::
    "int \<Rightarrow> int \<Rightarrow> int \<Rightarrow> (nat \<Rightarrow> int) \<Rightarrow> ysession list \<Rightarrow> int \<Rightarrow> ysession list \<times> ysession list \<times> bool" where
  "analyse now idleLimit minConns draws [] activeCount = ([], [], False)"
| "analyse now idleLimit minConns draws (s # ss) activeCount =
     (if ys_closed s then analyse now idleLimit minConns draws ss activeCount
      else
        (case examine now idleLimit minConns (draws (ys_id s)) s activeCount of
           (s', keep, activeCount, up) \<Rightarrow>
             (case analyse now idleLimit minConns draws ss activeCount of
                (kept, shut, scale_up) \<Rightarrow>
                  (if keep then (s' # kept, shut, up \<or> scale_up) else (kept, s' # shut, up \<or> scale_up)))))"

definition activeCountLocked :: "ysession list \<Rightarrow> nat" where
  "activeCountLocked ss = length (filter IsActive ss)"

text \<open>The position of the session that has been draining longest; the first of them where several have.\<close>

fun oldest_draining :: "int \<Rightarrow> ysession list \<Rightarrow> nat \<Rightarrow> (nat \<times> int) option \<Rightarrow> (nat \<times> int) option" where
  "oldest_draining now [] i best = best"
| "oldest_draining now (s # ss) i best =
     oldest_draining now ss (Suc i)
       (if ys_draining s \<and> (case best of None \<Rightarrow> True | Some (_, d) \<Rightarrow> DrainingFor now s > d)
        then Some (i, DrainingFor now s) else best)"

definition evictOldestDrainingLocked :: "int \<Rightarrow> ysession list \<Rightarrow> (ysession \<times> ysession list) option" where
  "evictOldestDrainingLocked now ss =
     (case oldest_draining now ss 0 None of
        None \<Rightarrow> None
      | Some (idx, _) \<Rightarrow> Some (ss ! idx, take idx ss @ drop (Suc idx) ss))"

text \<open>The section of \<open>replenishPool\<close> under the lock, for a session dialled: the sessions and those closed.\<close>

definition admit :: "int \<Rightarrow> int \<Rightarrow> ysession \<Rightarrow> ysession list \<Rightarrow> ysession list \<times> ysession list" where
  "admit now maxConns new ss =
     (if int (activeCountLocked ss) \<ge> maxConns then (ss, [new])
      else if int (length ss) \<ge> int maxTotalFactor * maxConns then
        (case evictOldestDrainingLocked now ss of
           None \<Rightarrow> (ss, [new])
         | Some (old, ss') \<Rightarrow> (ss' @ [new], [old]))
      else (ss @ [new], []))"

text \<open>A dial: what happened to the sessions meanwhile, the time at which it returned, and the session dialled,
  or \<^const>\<open>None\<close> on an error.\<close>

record dial =
  dl_change :: "ysession \<Rightarrow> ysession"
  dl_now :: int
  dl_result :: "ysession option"

fun replenishPool :: "int \<Rightarrow> dial list \<Rightarrow> ysession list \<Rightarrow> ysession list \<times> ysession list" where
  "replenishPool maxConns [] ss = (ss, [])"
| "replenishPool maxConns (d # ds) ss =
     (let ss = map (dl_change d) ss;
          (ss, shut) = (case dl_result d of None \<Rightarrow> (ss, []) | Some new \<Rightarrow> admit (dl_now d) maxConns new ss);
          (ss, shut') = replenishPool maxConns ds ss in
      (ss, shut @ shut'))"

text \<open>\<open>evaluateHealthAndScale\<close>; \<open>dials n k\<close> are the \<open>k\<close> dials of its \<open>n\<close>-th round.\<close>

definition evaluateHealthAndScale ::
    "int \<Rightarrow> int \<Rightarrow> int \<Rightarrow> int \<Rightarrow> (nat \<Rightarrow> int) \<Rightarrow> (nat \<Rightarrow> nat \<Rightarrow> dial list) \<Rightarrow> ysession list \<Rightarrow> ysession list" where
  "evaluateHealthAndScale now idleLimit minConns maxConns draws dials ss =
     (let (ss, shut, needsScaleUp) = analyse now idleLimit minConns draws ss 0;
          ss = (if needsScaleUp \<and> int (activeCountLocked ss) < maxConns
                then fst (replenishPool maxConns (dials 0 1) ss) else ss);
          currentActive = int (activeCountLocked ss) in
      if currentActive < minConns then fst (replenishPool maxConns (dials 1 (nat (minConns - currentActive))) ss)
      else ss)"

record PoolStats =
  ActiveConns :: nat
  DrainingConns :: nat

definition pool_stats :: "ysession list \<Rightarrow> PoolStats" where
  "pool_stats ss = \<lparr>ActiveConns = length (filter IsActive ss),
     DrainingConns = length (filter (\<lambda>s. \<not> IsActive s \<and> ys_draining s) ss)\<rparr>"

section \<open>Lemmas\<close>

text \<open>What happens to a session outside the pool's lock leaves its state and its lifecycle alone.\<close>

definition outside :: "(ysession \<Rightarrow> ysession) \<Rightarrow> bool" where
  "outside g =
     (\<forall>s. ys_id (g s) = ys_id s \<and> ys_draining (g s) = ys_draining s \<and> ys_drainingSince (g s) = ys_drainingSince s \<and>
          ys_bornAt (g s) = ys_bornAt s \<and> ys_retireAfter (g s) = ys_retireAfter s \<and> (ys_closed s \<longrightarrow> ys_closed (g s)))"

lemma count_io_outside: "outside (count_io n)"
  by (simp add: outside_def count_io_def)

lemma activeCount_outside: "outside g \<Longrightarrow> activeCountLocked (map g ss) = activeCountLocked ss"
  by (induction ss) (simp_all add: activeCountLocked_def IsActive_def outside_def)

lemma activeCount_le: "activeCountLocked ss \<le> length ss"
  by (simp add: activeCountLocked_def)

lemma activeCount_append [simp]: "activeCountLocked (xs @ ys) = activeCountLocked xs + activeCountLocked ys"
  by (simp add: activeCountLocked_def)

lemma activeCount_Cons [simp]: "activeCountLocked (s # ss) = (if ys_draining s then 0 else 1) + activeCountLocked ss"
  by (simp add: activeCountLocked_def IsActive_def)

lemma activeCount_Nil [simp]: "activeCountLocked [] = 0"
  by (simp add: activeCountLocked_def)

text \<open>The oldest draining session.\<close>

definition oldest_ok :: "int \<Rightarrow> ysession list \<Rightarrow> (nat \<times> int) option \<Rightarrow> bool" where
  "oldest_ok now ss best =
     (case best of
        None \<Rightarrow> \<forall>s \<in> set ss. \<not> ys_draining s
      | Some (i, d) \<Rightarrow> i < length ss \<and> ys_draining (ss ! i) \<and> d = DrainingFor now (ss ! i) \<and>
          (\<forall>s \<in> set ss. ys_draining s \<longrightarrow> DrainingFor now s \<le> d))"

lemma oldest_draining_ok:
  "oldest_ok now pre best \<Longrightarrow> oldest_ok now (pre @ ss) (oldest_draining now ss (length pre) best)"
proof (induction ss arbitrary: pre best)
  case (Cons s ss)
  let ?best = "if ys_draining s \<and> (case best of None \<Rightarrow> True | Some (_, d) \<Rightarrow> DrainingFor now s > d)
      then Some (length pre, DrainingFor now s) else best"
  have "oldest_ok now (pre @ [s]) ?best"
    using Cons.prems by (auto simp: oldest_ok_def nth_append less_Suc_eq split: option.splits)
  from Cons.IH [OF this] show ?case by simp
qed simp

lemma evict_cases:
  obtains (none) "evictOldestDrainingLocked now ss = None" "\<forall>s \<in> set ss. \<not> ys_draining s"
  | (some) old pre post where "evictOldestDrainingLocked now ss = Some (old, pre @ post)" "ss = pre @ old # post"
      "ys_draining old" "\<forall>s \<in> set ss. ys_draining s \<longrightarrow> DrainingFor now s \<le> DrainingFor now old"
proof -
  have ok: "oldest_ok now ss (oldest_draining now ss 0 None)"
    using oldest_draining_ok [of now "[]" None ss] by (simp add: oldest_ok_def)
  show thesis
  proof (cases "oldest_draining now ss 0 None")
    case None
    then show thesis using ok none by (simp add: oldest_ok_def evictOldestDrainingLocked_def)
  next
    case (Some best)
    then obtain i d where "oldest_draining now ss 0 None = Some (i, d)" by (cases best) auto
    then show thesis
      using ok some [of "ss ! i" "take i ss" "drop (Suc i) ss"] id_take_nth_drop [of i ss]
      by (auto simp: oldest_ok_def evictOldestDrainingLocked_def)
  qed
qed

section \<open>Bounds\<close>

definition pool_ok :: "int \<Rightarrow> ysession list \<Rightarrow> bool" where
  "pool_ok maxConns ss = (int (activeCountLocked ss) \<le> maxConns \<and> int (length ss) \<le> 2 * maxConns)"

text \<open>An admission never finds the pool full with nothing to evict, so it always adds the session while there are
  fewer than the maximum active.\<close>

lemma admit_adds:
  assumes "pool_ok maxConns ss" "IsActive new" "int (activeCountLocked ss) < maxConns"
  shows "activeCountLocked (fst (admit now maxConns new ss)) = Suc (activeCountLocked ss)"
    "pool_ok maxConns (fst (admit now maxConns new ss))"
proof -
  have new: "\<not> ys_draining new" using assms(2) by (simp add: IsActive_def)
  have both: "activeCountLocked (fst (admit now maxConns new ss)) = Suc (activeCountLocked ss) \<and>
      int (length (fst (admit now maxConns new ss))) \<le> 2 * maxConns"
  proof (cases "2 * maxConns \<le> int (length ss)")
    case False
    then show ?thesis using assms(3) new by (simp add: admit_def maxTotalFactor_def)
  next
    case full: True
    show ?thesis
    proof (cases rule: evict_cases [of now ss])
      case none
      then have "activeCountLocked ss = length ss" by (simp add: activeCountLocked_def IsActive_def filter_id_conv)
      then show ?thesis using full assms(3) by simp
    next
      case (some old pre post)
      then show ?thesis using full assms new by (auto simp: admit_def maxTotalFactor_def pool_ok_def)
    qed
  qed
  then show "activeCountLocked (fst (admit now maxConns new ss)) = Suc (activeCountLocked ss)" by blast
  show "pool_ok maxConns (fst (admit now maxConns new ss))" using both assms(3) by (simp add: pool_ok_def)
qed

lemma admit_ok:
  assumes "pool_ok maxConns ss" "IsActive new"
  shows "pool_ok maxConns (fst (admit now maxConns new ss))"
    "activeCountLocked ss \<le> activeCountLocked (fst (admit now maxConns new ss))"
proof -
  show "pool_ok maxConns (fst (admit now maxConns new ss))"
    using assms admit_adds(2) [OF assms] by (cases "int (activeCountLocked ss) < maxConns") (auto simp: admit_def)
  show "activeCountLocked ss \<le> activeCountLocked (fst (admit now maxConns new ss))"
    using admit_adds(1) [OF assms, of now] by (cases "int (activeCountLocked ss) < maxConns") (auto simp: admit_def)
qed

lemma examine_state:
  assumes "examine now idle m draw s a = (s', keep, a', up)"
  shows "ys_draining s \<longrightarrow> ys_draining s'" "ys_id s' = ys_id s"
    "\<not> keep \<longrightarrow> ys_draining s \<and> shouldCloseDraining (ActiveStreams s) (DrainingFor now s) (mbps_of (ys_bytes s) < 1)"
    "\<not> ys_draining s' \<longrightarrow> \<not> ShouldRetire now s"
  using assms
  by (auto simp: examine_def UpdateChaosLimit_def SetDraining_def IsActive_def ActiveStreams_def DrainingFor_def
      ShouldRetire_def Let_def split: if_splits option.splits)

lemma analyse_bounds:
  "analyse now idle m draws ss a = (kept, shut, up) \<Longrightarrow>
     activeCountLocked kept \<le> activeCountLocked ss \<and> length kept \<le> length ss"
proof (induction ss arbitrary: a kept shut up)
  case (Cons s ss)
  show ?case
  proof (cases "ys_closed s")
    case True
    then have "analyse now idle m draws ss a = (kept, shut, up)" using Cons.prems by simp
    from Cons.IH [OF this] show ?thesis by simp
  next
    case False
    obtain s' keep a' up1 where e: "examine now idle m (draws (ys_id s)) s a = (s', keep, a', up1)"
      by (metis prod.exhaust)
    obtain kept1 shut1 up2 where r: "analyse now idle m draws ss a' = (kept1, shut1, up2)" by (metis prod.exhaust)
    have "kept = (if keep then s' # kept1 else kept1)" using Cons.prems False e r by (auto split: if_splits)
    then show ?thesis using Cons.IH [OF r] examine_state(1) [OF e] by auto
  qed
qed simp

text \<open>What happens to a pool, in any order.\<close>

inductive pool_step :: "int \<Rightarrow> ysession list \<Rightarrow> ysession list \<Rightarrow> bool" for maxConns where
  analysed: "analyse now idle m draws ss 0 = (kept, shut, up) \<Longrightarrow> pool_step maxConns ss kept"
| admitted: "IsActive new \<Longrightarrow> pool_step maxConns ss (fst (admit now maxConns new ss))"
| elsewhere: "outside g \<Longrightarrow> pool_step maxConns ss (map g ss)"
| cleaned: "pool_step maxConns ss []"

inductive_cases pool_stepE: "pool_step maxConns ss ss'"

lemma pool_ok_step: "pool_step maxConns ss ss' \<Longrightarrow> pool_ok maxConns ss \<Longrightarrow> pool_ok maxConns ss'"
proof (induction rule: pool_step.induct)
  case (analysed now idle m draws ss kept shut up)
  from analyse_bounds [OF this(1)] this(2) show ?case by (simp add: pool_ok_def)
next
  case (admitted new ss now)
  then show ?case by (intro admit_ok(1))
next
  case (elsewhere g ss)
  then show ?case by (simp add: pool_ok_def activeCount_outside)
next
  case (cleaned ss)
  then show ?case by (simp add: pool_ok_def)
qed

interpretation hub: invariant "\<lambda>ss. ss = [] \<and> 0 \<le> maxConns" "pool_step maxConns" "pool_ok maxConns" for maxConns
  by (unfold_locales; (erule (1) pool_ok_step)?) (simp add: pool_ok_def)

text \<open>(C28) Whatever happens to a pool's connections, the pool never holds more than its maximum of active ones
  and never more than twice the maximum in all; the maximum the code derives from any configuration is at least
  the minimum, and that is at least one.\<close>

theorem hub_pool_bounded:
  assumes "(pool_step (snd (pool_size cfgMin cfgMax)))\<^sup>*\<^sup>* [] ss"
  shows "1 \<le> fst (pool_size cfgMin cfgMax) \<and> fst (pool_size cfgMin cfgMax) \<le> snd (pool_size cfgMin cfgMax) \<and>
    int (ActiveConns (pool_stats ss)) \<le> snd (pool_size cfgMin cfgMax) \<and>
    int (ActiveConns (pool_stats ss)) + int (DrainingConns (pool_stats ss)) = int (length ss) \<and>
    int (length ss) \<le> 2 * snd (pool_size cfgMin cfgMax)"
proof -
  have c: "1 \<le> fst (pool_size cfgMin cfgMax)" "fst (pool_size cfgMin cfgMax) \<le> snd (pool_size cfgMin cfgMax)"
    by (simp_all add: pool_size_def Let_def)
  then have "pool_ok (snd (pool_size cfgMin cfgMax)) ss" by (intro hub.inv_reachable [OF _ assms]) simp
  moreover have "length (filter IsActive ss) + length (filter (\<lambda>s. \<not> IsActive s \<and> ys_draining s) ss) = length ss"
    by (induction ss) (auto simp: IsActive_def)
  ultimately show ?thesis using c by (simp add: pool_ok_def pool_stats_def activeCountLocked_def)
qed


definition demo_session :: "nat \<Rightarrow> ysession" where
  "demo_session i = NewYamuxSession i 0 8 2 ''tls'' (NewLifecyclePolicy (replicate 32 0)) 0 0 2"

lemma demo_session_simps:
  "IsActive (demo_session i)" "ys_id (demo_session i) = i" "\<not> ys_closed (demo_session i)" "ys_streams (demo_session i) = 0"
  by (simp_all add: demo_session_def NewYamuxSession_def UpdateChaosLimit_def IsActive_def roll_def Let_def)

theorem hub_pool_bounded_witness:
  "(pool_step (snd (pool_size 2 4)))\<^sup>*\<^sup>* [] [demo_session 0] \<and>
   int (ActiveConns (pool_stats [demo_session 0])) \<le> snd (pool_size 2 4)"
proof -
  have "fst (admit 0 4 (demo_session 0) []) = [demo_session 0]" by (simp add: admit_def maxTotalFactor_def)
  then have "pool_step (snd (pool_size 2 4)) [] [demo_session 0]"
    using admitted [where maxConns = 4 and new = "demo_session 0" and ss = "[]" and now = 0] demo_session_simps
    by (simp add: pool_size_def)
  then have s: "(pool_step (snd (pool_size 2 4)))\<^sup>*\<^sup>* [] [demo_session 0]" by (rule r_into_rtranclp)
  then show ?thesis using hub_pool_bounded [OF s] by blast
qed

section \<open>Recovery\<close>

definition good_dials :: "dial list \<Rightarrow> bool" where
  "good_dials ds = (\<forall>d \<in> set ds. outside (dl_change d) \<and> (\<exists>new. dl_result d = Some new \<and> IsActive new))"

lemma replenish_adds:
  assumes "good_dials ds" "pool_ok maxConns ss"
  shows "pool_ok maxConns (fst (replenishPool maxConns ds ss)) \<and>
    min maxConns (int (activeCountLocked ss) + int (length ds)) \<le> int (activeCountLocked (fst (replenishPool maxConns ds ss)))"
  using assms
proof (induction ds arbitrary: ss)
  case (Cons d ds)
  obtain new where d: "outside (dl_change d)" "dl_result d = Some new" "IsActive new"
    using Cons.prems(1) by (auto simp: good_dials_def)
  let ?ss = "map (dl_change d) ss"
  let ?t = "fst (admit (dl_now d) maxConns new ?ss)"
  have ss: "pool_ok maxConns ?ss" "activeCountLocked ?ss = activeCountLocked ss"
    using Cons.prems(2) d(1) by (simp_all add: pool_ok_def activeCount_outside)
  have "fst (replenishPool maxConns (d # ds) ss) = fst (replenishPool maxConns ds ?t)"
    by (simp add: d(2) split: prod.splits)
  moreover have "good_dials ds" using Cons.prems(1) by (simp add: good_dials_def)
  from Cons.IH [OF this admit_ok(1) [OF ss(1) d(3), of "dl_now d"]]
  have "pool_ok maxConns (fst (replenishPool maxConns ds ?t)) \<and>
      min maxConns (int (activeCountLocked ?t) + int (length ds)) \<le> int (activeCountLocked (fst (replenishPool maxConns ds ?t)))" .
  moreover have "min maxConns (int (activeCountLocked ss) + 1) \<le> int (activeCountLocked ?t)"
    using admit_adds(1) [OF ss(1) d(3), of "dl_now d"] admit_ok(2) [OF ss(1) d(3), of "dl_now d"] ss(2)
    by (cases "int (activeCountLocked ss) < maxConns") auto
  ultimately show ?case by auto
qed simp



section \<open>What is closed, what is used\<close>

lemma analyse_shut:
  assumes "analyse now idle m draws ss a = (kept, shut, up)"
  shows "(\<forall>s' \<in> set shut. \<exists>s \<in> set ss. ys_id s' = ys_id s \<and> \<not> ys_closed s \<and> ys_draining s \<and>
      shouldCloseDraining (ActiveStreams s) (DrainingFor now s) (mbps_of (ys_bytes s) < 1)) \<and>
    (\<forall>s \<in> set ss. \<not> ys_closed s \<longrightarrow> ys_id s \<in> ys_id ` set kept \<or> ys_id s \<in> ys_id ` set shut) \<and>
    (\<forall>s' \<in> set kept. IsActive s' \<longrightarrow> (\<exists>s \<in> set ss. ys_id s' = ys_id s \<and> IsActive s \<and> \<not> ShouldRetire now s))"
  using assms
proof (induction ss arbitrary: a kept shut up)
  case (Cons s ss)
  show ?case
  proof (cases "ys_closed s")
    case True
    then have "analyse now idle m draws ss a = (kept, shut, up)" using Cons.prems by simp
    from Cons.IH [OF this] True show ?thesis by auto
  next
    case False
    obtain s' keep a' up1 where e: "examine now idle m (draws (ys_id s)) s a = (s', keep, a', up1)"
      by (metis prod.exhaust)
    obtain kept1 shut1 up2 where r: "analyse now idle m draws ss a' = (kept1, shut1, up2)" by (metis prod.exhaust)
    have k: "kept = (if keep then s' # kept1 else kept1)" "shut = (if keep then shut1 else s' # shut1)"
      using Cons.prems False e r by (auto split: if_splits)
    show ?thesis
      using Cons.IH [OF r] examine_state [OF e] False unfolding k by (auto simp: IsActive_def)
  qed
qed simp

text \<open>A round of the watchdog closes only connections that were already draining, and one that still carries
  streams only after thirty minutes of draining, or after ninety seconds without traffic; every other open
  connection is kept.  A connection that is still active afterwards was within its lifetime and its budget.\<close>

theorem live_transfers_finish:
  assumes "analyse now idle m draws ss 0 = (kept, shut, up)"
  shows "(\<forall>s' \<in> set shut. \<exists>s \<in> set ss. ys_id s' = ys_id s \<and> \<not> ys_closed s \<and> ys_draining s \<and>
      (ys_streams s = 0 \<or> mbps_of (ys_bytes s) < 1 \<and> seconds 90 < DrainingFor now s \<or> seconds 1800 < DrainingFor now s)) \<and>
    (\<forall>s \<in> set ss. \<not> ys_closed s \<longrightarrow> ys_id s \<in> ys_id ` set kept \<or> ys_id s \<in> ys_id ` set shut) \<and>
    (\<forall>s' \<in> set kept. IsActive s' \<longrightarrow> (\<exists>s \<in> set ss. ys_id s' = ys_id s \<and> IsActive s \<and> \<not> ShouldRetire now s))"
proof -
  have "ys_streams s = 0 \<or> mbps_of (ys_bytes s) < 1 \<and> seconds 90 < DrainingFor now s \<or> seconds 1800 < DrainingFor now s"
    if "\<not> ys_closed s" "shouldCloseDraining (ActiveStreams s) (DrainingFor now s) (mbps_of (ys_bytes s) < 1)" for s
    using that by (auto simp: shouldCloseDraining_def ActiveStreams_def drainSoftGrace_def drainHardCeiling_def
        seconds_def split: if_splits)
  then show ?thesis using analyse_shut [OF assms] by meson
qed

theorem live_transfers_finish_witness:
  "\<exists>kept shut up. analyse (seconds 5000) 0 2 (\<lambda>_. 0) [SetDraining 0 (demo_session 7)] 0 = (kept, shut, up) \<and>
    (\<forall>s' \<in> set shut. ys_id s' = 7) \<and> shut \<noteq> []"
proof -
  obtain kept shut up where a: "analyse (seconds 5000) 0 2 (\<lambda>_. 0) [SetDraining 0 (demo_session 7)] 0 = (kept, shut, up)"
    by (metis prod.exhaust)
  have "shut \<noteq> []" using a demo_session_simps
    by (auto simp: examine_def SetDraining_def UpdateChaosLimit_def IsActive_def ActiveStreams_def shouldCloseDraining_def
        Let_def split: prod.splits if_splits)
  moreover have "\<forall>s' \<in> set shut. ys_id s' = 7"
    using live_transfers_finish [OF a] demo_session_simps(2) by (auto simp: SetDraining_def)
  ultimately show ?thesis using a by blast
qed

text \<open>At the limit of connections, admitting a new one closes the connection that has been draining longest,
  whatever streams and traffic it carries and however short the time it has been draining.\<close>

theorem eviction_ignores_streams:
  assumes "2 * maxConns \<le> int (length ss)" "int (activeCountLocked ss) < maxConns"
  shows "\<exists>old \<in> set ss. snd (admit now maxConns new ss) = [old] \<and> ys_draining old \<and>
    (\<forall>s \<in> set ss. ys_draining s \<longrightarrow> DrainingFor now s \<le> DrainingFor now old)"
proof (cases rule: evict_cases [of now ss])
  case none
  then have "activeCountLocked ss = length ss" by (simp add: activeCountLocked_def IsActive_def filter_id_conv)
  then show ?thesis using assms by simp
next
  case (some old pre post)
  then show ?thesis using assms by (intro bexI [of _ old]) (auto simp: admit_def maxTotalFactor_def)
qed

definition busy :: "nat \<Rightarrow> ysession" where
  "busy i = (SetDraining (seconds (int i)) (demo_session i))\<lparr>ys_streams := 5, ys_bytes := 2 ^ 30\<rparr>"

theorem eviction_ignores_streams_witness:
  "\<exists>old \<in> set [busy 0, busy 1]. snd (admit (seconds 10) 1 (demo_session 9) [busy 0, busy 1]) = [old] \<and>
    ActiveStreams old = 5 \<and> \<not> mbps_of (ys_bytes old) < 1 \<and> DrainingFor (seconds 10) old \<le> seconds 10"
proof -
  have "ActiveStreams s = 5 \<and> \<not> mbps_of (ys_bytes s) < 1 \<and> DrainingFor (seconds 10) s \<le> seconds 10"
    if "s \<in> set [busy 0, busy 1]" for s
    using that demo_session_simps by (auto simp: busy_def ActiveStreams_def SetDraining_def DrainingFor_def seconds_def mbps_of_def)
  moreover have "\<exists>old \<in> set [busy 0, busy 1]. snd (admit (seconds 10) 1 (demo_session 9) [busy 0, busy 1]) = [old]"
    using eviction_ignores_streams [of 1 "[busy 0, busy 1]" "seconds 10" "demo_session 9"]
    by (auto simp: busy_def SetDraining_def)
  ultimately show ?thesis by blast
qed


text \<open>The session of a connection of type \<open>mimic\<close> dialled at \<open>born\<close>, whatever happened to it since.\<close>

definition made :: "string \<Rightarrow> int \<Rightarrow> ysession \<Rightarrow> bool" where
  "made mimic born s =
     (\<exists>g i base jit policy d1 d2 draw. outside g \<and> s = g (NewYamuxSession i born base jit mimic policy d1 d2 draw))"

lemma clamp_bounds: "lo \<le> hi \<Longrightarrow> lo \<le> clamp v lo hi \<and> clamp v lo hi \<le> hi"
  by (simp add: clamp_def)

lemma made_lifetime:
  assumes "made mimic born s"
  shows "ys_bornAt s = born" "0 < ys_retireAfter s"
    "ys_retireAfter s \<le> (if mimic = ''ssh'' then sshMaxLifetime else auxMaxLifetime)"
proof -
  obtain g i base jit policy d1 d2 draw where g: "outside g" "s = g (NewYamuxSession i born base jit mimic policy d1 d2 draw)"
    using assms by (auto simp: made_def)
  let ?n = "NewYamuxSession i born base jit mimic policy d1 d2 draw"
  have n: "ys_bornAt ?n = born" "ys_retireAfter ?n = fst (roll policy d1 d2 mimic)"
    by (simp_all add: NewYamuxSession_def UpdateChaosLimit_def Let_def split: prod.splits)
  have "sshMinLifetime \<le> sshMaxLifetime" "auxMinLifetime \<le> auxMaxLifetime" "0 < sshMinLifetime" "0 < auxMinLifetime"
    by (simp_all add: sshMinLifetime_def sshMaxLifetime_def auxMinLifetime_def auxMaxLifetime_def seconds_def)
  then have "0 < fst (roll policy d1 d2 mimic)"
      "fst (roll policy d1 d2 mimic) \<le> (if mimic = ''ssh'' then sshMaxLifetime else auxMaxLifetime)"
    using clamp_bounds by (auto simp: roll_def intro: less_le_trans)
  then show "ys_bornAt s = born" "0 < ys_retireAfter s"
    "ys_retireAfter s \<le> (if mimic = ''ssh'' then sshMaxLifetime else auxMaxLifetime)"
    using g n by (simp_all add: outside_def)
qed

lemma pipes_rotate:
  assumes "analyse now idle m draws ss 0 = (kept, shut, up)" "s' \<in> set kept" "IsActive s'"
  shows "\<exists>s \<in> set ss. ys_id s' = ys_id s \<and> (\<forall>mimic born. made mimic born s \<longrightarrow>
    now - born < (if mimic = ''ssh'' then 24 * seconds 3600 else seconds 3600))"
proof -
  obtain s where s: "s \<in> set ss" "ys_id s' = ys_id s" "\<not> ShouldRetire now s" using analyse_shut [OF assms(1)] assms(2,3) by blast
  have "now - born < (if mimic = ''ssh'' then 24 * seconds 3600 else seconds 3600)" if "made mimic born s" for mimic born
    using made_lifetime [OF that] s(3)
    by (auto simp: ShouldRetire_def sshMaxLifetime_def auxMaxLifetime_def seconds_def split: if_splits)
  then show ?thesis using s by blast
qed

section \<open>Where new streams go\<close>

definition usable :: "ysession \<Rightarrow> bool" where
  "usable s = (\<not> ys_closed s \<and> IsActive s)"

lemma least_loop_cases:
  "least_loop ss n best = (if \<exists>s \<in> set ss. usable s \<and> ActiveStreams s < n then least_loop ss n None else best)"
proof (induction ss arbitrary: n best)
  case (Cons s ss)
  show ?case
  proof (cases "usable s \<and> ActiveStreams s < n")
    case True
    then show ?thesis using Cons.IH [of "ActiveStreams s" "Some s"] by (auto simp: usable_def IsActive_def)
  next
    case False
    then have "least_loop (s # ss) n b = least_loop ss n b" for b by (auto simp: usable_def IsActive_def)
    then show ?thesis using False Cons.IH [of n best] by auto
  qed
qed simp

lemma least_loop_Some:
  "least_loop ss n None = Some b \<Longrightarrow>
     b \<in> set ss \<and> usable b \<and> ActiveStreams b < n \<and> (\<forall>s \<in> set ss. usable s \<longrightarrow> ActiveStreams b \<le> ActiveStreams s)"
proof (induction ss arbitrary: n)
  case (Cons s ss)
  show ?case
  proof (cases "usable s \<and> ActiveStreams s < n")
    case True
    then have r: "least_loop ss (ActiveStreams s) (Some s) = Some b" using Cons.prems by (auto simp: usable_def IsActive_def)
    show ?thesis
    proof (cases "\<exists>t \<in> set ss. usable t \<and> ActiveStreams t < ActiveStreams s")
      case better: True
      then have "least_loop ss (ActiveStreams s) None = Some b" using r least_loop_cases [of ss "ActiveStreams s" "Some s"] by auto
      from Cons.IH [OF this] show ?thesis using True by auto
    next
      case False
      then have "b = s" using r least_loop_cases [of ss "ActiveStreams s" "Some s"] by (auto split: if_splits)
      then show ?thesis using True False by (auto simp: not_less)
    qed
  next
    case False
    then have "least_loop ss n None = Some b" using Cons.prems by (auto simp: usable_def IsActive_def split: if_splits)
    from Cons.IH [OF this] show ?thesis using False by auto
  qed
qed simp

text \<open>A new stream goes to an open connection that is not draining and carries the fewest streams; none is
  found only when there is no such connection.  (No connection carries \<open>2^63 - 1\<close> streams.)\<close>

theorem new_stream_least_loaded:
  assumes "\<forall>s \<in> set ss. ys_streams s < 2 ^ 63 - 1"
  shows "case getStreamLeastLoaded ss of
      None \<Rightarrow> \<forall>s \<in> set ss. ys_closed s \<or> ys_draining s
    | Some b \<Rightarrow> b \<in> set ss \<and> \<not> ys_closed b \<and> \<not> ys_draining b \<and>
        (\<forall>s \<in> set ss. \<not> ys_closed s \<and> \<not> ys_draining s \<longrightarrow> ys_streams b \<le> ys_streams s)"
proof (cases "getStreamLeastLoaded ss")
  case None
  have "\<not> usable s" if "s \<in> set ss" for s
  proof
    assume u: "usable s"
    let ?n = "2 ^ 63 - 1 :: nat"
    have "\<exists>s \<in> set ss. usable s \<and> ActiveStreams s < ?n" using u that assms by (auto simp: ActiveStreams_def)
    then have "least_loop ss ?n None = least_loop ss ?n (Some s)" using least_loop_cases [of ss ?n "Some s"] by auto
    moreover have "least_loop xs n (Some t) \<noteq> None" for xs n t by (induction xs arbitrary: n t) auto
    ultimately show False using None unfolding getStreamLeastLoaded_def by metis
  qed
  then show ?thesis using None by (auto simp: usable_def IsActive_def)
next
  case (Some b)
  from least_loop_Some [OF Some [unfolded getStreamLeastLoaded_def]] show ?thesis
    using Some by (auto simp: usable_def IsActive_def ActiveStreams_def)
qed

theorem new_stream_least_loaded_witness:
  "getStreamLeastLoaded [busy 0, demo_session 1] = Some (demo_session 1)"
  using new_stream_least_loaded [of "[busy 0, demo_session 1]"] demo_session_simps
  by (auto simp: busy_def SetDraining_def IsActive_def split: option.splits)

end
