(* ===== verification/Panel_Auth.thy ===== *)
theory Panel_Auth
  imports Go_Strings
begin

text \<open>
  Who may use the web panel: the login limiter, the two-factor store, the session store, the two
  authentication wrappers and the routes of \<open>internal/webui\<close> (\<open>server.go\<close>, \<open>handlers_security.go\<close>,
  \<open>handlers_remote.go\<close>).

  The state is the limiter, the pending logins, the sessions and the saved configuration.  A request is
  handled as a whole at one reading of the clock; what a handler takes from outside (the clock, random
  strings, whether the bot is configured and delivers, whether the configuration can be saved, the archive
  restored by a backup import, the order in which a map is iterated) is the environment of the request.
  A handler outside these files is answered \<open>Served\<close>.  Times are nanoseconds.
\<close>

section \<open>The login limiter\<close>

definition minute :: int where "minute = 60000000000"
definition loginMaxFails :: nat where "loginMaxFails = 5"
definition loginBlockPeriod :: int where "loginBlockPeriod = 10 * minute"
definition loginFailTTL :: int where "loginFailTTL = 30 * minute"

record failCount =
  fc_n :: nat
  fc_exp :: int

record loginLimiter =
  ll_fails :: "string \<rightharpoonup> failCount"
  ll_until :: "string \<rightharpoonup> int"

text \<open>Deleting from a map every entry that satisfies a test.\<close>

definition purge :: "('v \<Rightarrow> bool) \<Rightarrow> ('k \<rightharpoonup> 'v) \<Rightarrow> 'k \<rightharpoonup> 'v" where
  "purge dead m k = (case m k of None \<Rightarrow> None | Some v \<Rightarrow> if dead v then None else Some v)"

text \<open>\<open>blocked\<close>: \<^const>\<open>None\<close> is not blocked, \<open>Some left\<close> the time left.\<close>

definition blocked :: "int \<Rightarrow> string \<Rightarrow> loginLimiter \<Rightarrow> loginLimiter \<times> int option" where
  "blocked now ip l =
     (case ll_until l ip of
        None \<Rightarrow> (l, None)
      | Some t \<Rightarrow>
          (if t - now > 0 then (l, Some (t - now))
           else (l\<lparr>ll_until := (ll_until l)(ip := None), ll_fails := (ll_fails l)(ip := None)\<rparr>, None)))"

definition sweepLocked :: "int \<Rightarrow> loginLimiter \<Rightarrow> loginLimiter" where
  "sweepLocked now l =
     l\<lparr>ll_fails := purge (\<lambda>f. now > fc_exp f) (ll_fails l), ll_until := purge (\<lambda>t. now > t) (ll_until l)\<rparr>"

definition ll_fail :: "int \<Rightarrow> string \<Rightarrow> loginLimiter \<Rightarrow> loginLimiter" where
  "ll_fail now ip l =
     (let l = sweepLocked now l;
          f = (case ll_fails l ip of None \<Rightarrow> \<lparr>fc_n = 0, fc_exp = 0\<rparr> | Some f \<Rightarrow> f);
          n = Suc (if now > fc_exp f then 0 else fc_n f);
          l = l\<lparr>ll_fails := (ll_fails l)(ip \<mapsto> \<lparr>fc_n = n, fc_exp = now + loginFailTTL\<rparr>)\<rparr> in
      if n \<ge> loginMaxFails then l\<lparr>ll_until := (ll_until l)(ip \<mapsto> now + loginBlockPeriod)\<rparr> else l)"

definition ll_reset :: "string \<Rightarrow> loginLimiter \<Rightarrow> loginLimiter" where
  "ll_reset ip l = l\<lparr>ll_fails := (ll_fails l)(ip := None), ll_until := (ll_until l)(ip := None)\<rparr>"

section \<open>Pending logins\<close>

definition twoFACodeTTL :: int where "twoFACodeTTL = 5 * minute"
definition twoFAMaxAttempts :: nat where "twoFAMaxAttempts = 3"

record pendingLogin =
  pl_code :: string
  pl_expires :: int
  pl_attempts :: nat

type_synonym twoFAStore = "string \<rightharpoonup> pendingLogin"

definition tf_start :: "int \<Rightarrow> string \<Rightarrow> string \<Rightarrow> twoFAStore \<Rightarrow> twoFAStore" where
  "tf_start now token code t =
     (purge (\<lambda>p. now > pl_expires p) t)
       (token \<mapsto> \<lparr>pl_code = code, pl_expires = now + twoFACodeTTL, pl_attempts = 0\<rparr>)"

text \<open>\<open>verify\<close>: the store and \<open>(ok, dead)\<close>.\<close>

definition verify :: "int \<Rightarrow> string \<Rightarrow> string \<Rightarrow> twoFAStore \<Rightarrow> twoFAStore \<times> bool \<times> bool" where
  "verify now token given t =
     (case t token of
        None \<Rightarrow> (t(token := None), False, True)
      | Some p \<Rightarrow>
          (if now > pl_expires p then (t(token := None), False, True)
           else if given = pl_code p then (t(token := None), True, False)
           else if Suc (pl_attempts p) \<ge> twoFAMaxAttempts then (t(token := None), False, True)
           else (t(token \<mapsto> p\<lparr>pl_attempts := Suc (pl_attempts p)\<rparr>), False, False)))"

definition tf_cancel :: "string \<Rightarrow> twoFAStore \<Rightarrow> twoFAStore" where
  "tf_cancel token t = t(token := None)"

section \<open>Sessions\<close>

definition sessionLifetime :: int where "sessionLifetime = 12 * 60 * minute"

record sessionInfo =
  si_expires :: int
  si_created :: int
  si_ip :: string

type_synonym sessionStore = "string \<rightharpoonup> sessionInfo"

definition ss_create :: "int \<Rightarrow> string \<Rightarrow> string \<Rightarrow> sessionStore \<Rightarrow> sessionStore" where
  "ss_create now tok ip s =
     (purge (\<lambda>si. now > si_expires si) s)
       (tok \<mapsto> \<lparr>si_expires = now + sessionLifetime, si_created = now, si_ip = ip\<rparr>)"

definition ss_valid :: "int \<Rightarrow> string \<Rightarrow> sessionStore \<Rightarrow> sessionStore \<times> bool" where
  "ss_valid now tok s =
     (case s tok of
        None \<Rightarrow> (s, False)
      | Some si \<Rightarrow> if now > si_expires si then (s(tok := None), False) else (s, True))"

definition ss_revokeID :: "(string \<Rightarrow> string) \<Rightarrow> string list \<Rightarrow> string \<Rightarrow> sessionStore \<Rightarrow> sessionStore" where
  "ss_revokeID sessionID order sid s =
     (case find (\<lambda>tok. tok \<in> dom s \<and> sessionID tok = sid) order of
        None \<Rightarrow> s
      | Some tok \<Rightarrow> s(tok := None))"

definition ss_revokeOthers :: "string \<Rightarrow> sessionStore \<Rightarrow> sessionStore" where
  "ss_revokeOthers currentTok s tok = (if tok \<noteq> currentTok then None else s tok)"

definition ss_destroy :: "string \<Rightarrow> sessionStore \<Rightarrow> sessionStore" where
  "ss_destroy tok s = s(tok := None)"

definition ss_clear :: "sessionStore \<Rightarrow> sessionStore" where
  "ss_clear s = Map.empty"

section \<open>Requests and handlers\<close>

record panelConfig =
  pc_Password :: string
  pc_RemoteToken :: string
  pc_TwoFA :: bool
  pc_LoginNotify :: bool
  pc_HTTPS :: bool

record panel =
  pn_limiter :: loginLimiter
  pn_twoFA :: twoFAStore
  pn_sessions :: sessionStore
  pn_config :: panelConfig

record request =
  rq_method :: string
  rq_remote :: string
  rq_path :: string
  rq_session :: "string option"
  rq_pending :: "string option"
  rq_auth :: string
  rq_form :: "string \<Rightarrow> string"

record req_env =
  re_now :: int
  re_token :: string
  re_code :: string
  re_ready :: bool
  re_delivers :: bool
  re_saves :: bool
  re_restored :: "panelConfig option"
  re_sessionID :: "string \<Rightarrow> string"
  re_order :: "string list"

datatype cookie_set = SessionCookie string bool int | PendingCookie string bool int | ClearSession | ClearPending

datatype response = Error nat | TooMany int | Redirect string | Page nat | Json | Served

type_synonym reply = "cookie_set list \<times> response"

definition MinPasswordLen :: nat where "MinPasswordLen = 8"

definition clientIP :: "request \<Rightarrow> string" where
  "clientIP r = (case SplitHostPort (rq_remote r) of None \<Rightarrow> rq_remote r | Some (host, port) \<Rightarrow> host)"

definition sessionCookieFor :: "string \<Rightarrow> bool \<Rightarrow> cookie_set" where
  "sessionCookieFor tok secure = SessionCookie tok secure (sessionLifetime div 1000000000)"

text \<open>A session made for the client, and the answer that hands it over.\<close>

definition sign_in :: "req_env \<Rightarrow> request \<Rightarrow> panel \<Rightarrow> panel \<times> reply" where
  "sign_in e r p =
     (p\<lparr>pn_sessions := ss_create (re_now e) (re_token e) (clientIP r) (pn_sessions p)\<rparr>,
      [sessionCookieFor (re_token e) (pc_HTTPS (pn_config p))], Redirect ''/'')"

definition startTwoFA :: "req_env \<Rightarrow> panel \<Rightarrow> panel \<times> reply option" where
  "startTwoFA e p =
     (let t = tf_start (re_now e) (re_token e) (re_code e) (pn_twoFA p) in
      if re_delivers e then
        (p\<lparr>pn_twoFA := t\<rparr>,
         Some ([PendingCookie (re_token e) (pc_HTTPS (pn_config p)) (twoFACodeTTL div 1000000000)], Page 200))
      else (p\<lparr>pn_twoFA := tf_cancel (re_token e) t\<rparr>, None))"

definition handleLogin :: "req_env \<Rightarrow> request \<Rightarrow> panel \<Rightarrow> panel \<times> reply" where
  "handleLogin e r p =
     (if rq_method r = ''POST'' then
        (let ip = clientIP r; (l, b) = blocked (re_now e) ip (pn_limiter p); p = p\<lparr>pn_limiter := l\<rparr> in
         case b of
           Some left \<Rightarrow> (p, [], TooMany (left div minute + 1))
         | None \<Rightarrow>
             (if rq_form r ''password'' = pc_Password (pn_config p) then
                (let p = p\<lparr>pn_limiter := ll_reset ip l\<rparr> in
                 if pc_TwoFA (pn_config p) \<and> re_ready e then
                   (case startTwoFA e p of
                      (p, Some rep) \<Rightarrow> (p, rep)
                    | (p, None) \<Rightarrow> (p, [], Error 502))
                 else sign_in e r p)
              else (p\<lparr>pn_limiter := ll_fail (re_now e) ip l\<rparr>, [], Page 401)))
      else (p, [], Page 200))"

definition handleLogin2FA :: "req_env \<Rightarrow> request \<Rightarrow> panel \<Rightarrow> panel \<times> reply" where
  "handleLogin2FA e r p =
     (if rq_method r \<noteq> ''POST'' then (p, [], Redirect ''/login'')
      else
        (case rq_pending r of
           None \<Rightarrow> (p, [], Redirect ''/login'')
         | Some c \<Rightarrow>
             (let (t, ok, dead) = verify (re_now e) c (TrimSpace (rq_form r ''code'')) (pn_twoFA p);
                  p = p\<lparr>pn_twoFA := t\<rparr> in
              if ok then (case sign_in e r p of (p, cs, rsp) \<Rightarrow> (p, ClearPending # cs, rsp))
              else if dead then (p, [ClearPending], Redirect ''/login'')
              else (p, [], Page 401))))"

definition handleLogout :: "request \<Rightarrow> panel \<Rightarrow> panel \<times> reply" where
  "handleLogout r p =
     (case rq_session r of
        None \<Rightarrow> (p, [ClearSession], Redirect ''/login'')
      | Some c \<Rightarrow> (p\<lparr>pn_sessions := ss_destroy c (pn_sessions p)\<rparr>, [ClearSession], Redirect ''/login''))"

definition handlePassword :: "req_env \<Rightarrow> request \<Rightarrow> panel \<Rightarrow> panel \<times> reply" where
  "handlePassword e r p =
     (if rq_method r \<noteq> ''POST'' then (p, [], Error 405)
      else
        (let pw = TrimSpace (rq_form r ''password'') in
         if length pw < MinPasswordLen \<or> length pw > 128 then (p, [], Error 400)
         else if \<not> re_saves e then (p, [], Error 500)
         else
           (p\<lparr>pn_config := (pn_config p)\<lparr>pc_Password := pw\<rparr>, pn_sessions := ss_clear (pn_sessions p)\<rparr>, [], Json)))"

definition handleSecurity :: "req_env \<Rightarrow> request \<Rightarrow> panel \<Rightarrow> panel \<times> reply" where
  "handleSecurity e r p =
     (if rq_method r = ''GET'' then (p, [], Json)
      else if rq_method r = ''POST'' then
        (let twoFAOn = (rq_form r ''twoFA'' = ''1''); notifyOn = (rq_form r ''loginNotify'' = ''1'') in
         if (twoFAOn \<or> notifyOn) \<and> \<not> re_ready e then (p, [], Error 400)
         else if \<not> re_saves e then (p, [], Error 500)
         else (p\<lparr>pn_config := (pn_config p)\<lparr>pc_TwoFA := twoFAOn, pc_LoginNotify := notifyOn\<rparr>\<rparr>, [], Json))
      else (p, [], Error 405))"

definition handleSessions :: "req_env \<Rightarrow> request \<Rightarrow> panel \<Rightarrow> panel \<times> reply" where
  "handleSessions e r p =
     (let cur = (case rq_session r of None \<Rightarrow> [] | Some c \<Rightarrow> c) in
      if rq_method r = ''GET'' then (p, [], Json)
      else if rq_method r = ''POST'' then
        (if rq_form r ''action'' = ''revoke'' then
           (p\<lparr>pn_sessions := ss_revokeID (re_sessionID e) (re_order e) (rq_form r ''id'') (pn_sessions p)\<rparr>, [], Json)
         else if rq_form r ''action'' = ''others'' then
           (p\<lparr>pn_sessions := ss_revokeOthers cur (pn_sessions p)\<rparr>, [], Json)
         else (p, [], Error 400))
      else (p, [], Error 405))"

definition handleRemoteToken :: "req_env \<Rightarrow> request \<Rightarrow> panel \<Rightarrow> panel \<times> reply" where
  "handleRemoteToken e r p =
     (if rq_method r = ''GET'' then (p, [], Json)
      else if rq_method r = ''POST'' then
        (let save = (\<lambda>tok. if re_saves e then (p\<lparr>pn_config := (pn_config p)\<lparr>pc_RemoteToken := tok\<rparr>\<rparr>, [], Json)
                         else (p, [], Error 500)) in
         if rq_form r ''action'' = ''generate'' then save (re_token e)
         else if rq_form r ''action'' = ''revoke'' then save []
         else (p, [], Error 400))
      else (p, [], Error 405))"

text \<open>The upload that cannot be read and the restore that fails are both \<open>re_restored = None\<close>.\<close>

definition handleBackupImport :: "req_env \<Rightarrow> request \<Rightarrow> panel \<Rightarrow> panel \<times> reply" where
  "handleBackupImport e r p =
     (if rq_method r \<noteq> ''POST'' then (p, [], Error 405)
      else
        (case re_restored e of
           None \<Rightarrow> (p, [], Error 400)
         | Some c \<Rightarrow> (p\<lparr>pn_config := c, pn_sessions := ss_clear (pn_sessions p)\<rparr>, [], Json)))"

section \<open>Authentication wrappers and routes\<close>

definition requireAuth :: "(panel \<Rightarrow> panel \<times> reply) \<Rightarrow> req_env \<Rightarrow> request \<Rightarrow> panel \<Rightarrow> panel \<times> reply" where
  "requireAuth next e r p =
     (let (s, ok) = (case rq_session r of None \<Rightarrow> (pn_sessions p, False)
                     | Some c \<Rightarrow> ss_valid (re_now e) c (pn_sessions p));
          p = p\<lparr>pn_sessions := s\<rparr> in
      if \<not> ok then
        (if take 4 (rq_path r) = ''/api'' then (p, [], Error 401) else (p, [], Redirect ''/login''))
      else next p)"

definition TrimPrefix :: "string \<Rightarrow> string \<Rightarrow> string" where
  "TrimPrefix s pre = (if take (length pre) s = pre then drop (length pre) s else s)"

definition requireReadAuth :: "(panel \<Rightarrow> panel \<times> reply) \<Rightarrow> req_env \<Rightarrow> request \<Rightarrow> panel \<Rightarrow> panel \<times> reply" where
  "requireReadAuth next e r p =
     (let (s, ok) = (case rq_session r of None \<Rightarrow> (pn_sessions p, False)
                     | Some c \<Rightarrow> ss_valid (re_now e) c (pn_sessions p));
          p = p\<lparr>pn_sessions := s\<rparr>; token = pc_RemoteToken (pn_config p) in
      if ok then next p
      else if token \<noteq> [] \<and> TrimPrefix (rq_auth r) ''Bearer '' = token then next p
      else (p, [], Error 401))"

definition read_paths :: "string list" where
  "read_paths = [''/api/stats'', ''/api/tunnels'', ''/metrics'', ''/api/alerts'']"

definition open_path :: "string \<Rightarrow> bool" where
  "open_path path =
     (path \<in> {''/manifest.json'', ''/icon.svg'', ''/sw.js''} \<or> take 7 path = ''/icons/'')"

text \<open>The routes of \<open>Serve\<close>; a path without a route of its own falls to the dashboard's.\<close>

definition serve :: "req_env \<Rightarrow> request \<Rightarrow> panel \<Rightarrow> panel \<times> reply" where
  "serve e r p =
     (let path = rq_path r in
      if path = ''/login'' then handleLogin e r p
      else if path = ''/login2fa'' then handleLogin2FA e r p
      else if path = ''/logout'' then handleLogout r p
      else if open_path path then (p, [], Page 200)
      else if path \<in> set read_paths then requireReadAuth (\<lambda>p. (p, [], Served)) e r p
      else if path = ''/api/password'' then requireAuth (handlePassword e r) e r p
      else if path = ''/api/security'' then requireAuth (handleSecurity e r) e r p
      else if path = ''/api/sessions'' then requireAuth (handleSessions e r) e r p
      else if path = ''/api/remotetoken'' then requireAuth (handleRemoteToken e r) e r p
      else if path = ''/api/backup/import'' then requireAuth (handleBackupImport e r) e r p
      else requireAuth (\<lambda>p. (p, [], Served)) e r p)"

text \<open>The configuration is also written by other handlers and by the command line; a restart forgets
  everything held in memory.\<close>

datatype panel_event = Request req_env request | Saved panelConfig | Restart

definition fresh_panel :: "panelConfig \<Rightarrow> panel" where
  "fresh_panel c = \<lparr>pn_limiter = \<lparr>ll_fails = Map.empty, ll_until = Map.empty\<rparr>, pn_twoFA = Map.empty,
     pn_sessions = Map.empty, pn_config = c\<rparr>"

primrec panel_next :: "panel_event \<Rightarrow> panel \<Rightarrow> panel" where
  "panel_next (Request e r) p = fst (serve e r p)"
| "panel_next (Saved c) p = p\<lparr>pn_config := c\<rparr>"
| "panel_next Restart p = fresh_panel (pn_config p)"

definition panel_run :: "panel_event list \<Rightarrow> panelConfig \<Rightarrow> panel" where
  "panel_run es c = fold panel_next es (fresh_panel c)"

section \<open>Lemmas\<close>

lemma purge_Some [simp]: "purge dead m k = Some v \<longleftrightarrow> m k = Some v \<and> \<not> dead v"
  by (auto simp: purge_def split: option.splits)

lemma purge_None: "purge dead m k = None \<longleftrightarrow> (\<forall>v. m k = Some v \<longrightarrow> dead v)"
  by (auto simp: purge_def split: option.splits)

definition live_session :: "req_env \<Rightarrow> request \<Rightarrow> panel \<Rightarrow> bool" where
  "live_session e r p =
     (\<exists>c si. rq_session r = Some c \<and> pn_sessions p c = Some si \<and> re_now e \<le> si_expires si)"

definition read_token :: "request \<Rightarrow> panel \<Rightarrow> bool" where
  "read_token r p =
     (rq_path r \<in> set read_paths \<and> pc_RemoteToken (pn_config p) \<noteq> [] \<and>
      TrimPrefix (rq_auth r) ''Bearer '' = pc_RemoteToken (pn_config p))"

text \<open>What the wrappers pass on: the handler runs on the unchanged panel for a live session, and otherwise at
  most the expired session of the caller is dropped.\<close>

lemma requireAuth_live: "live_session e r p \<Longrightarrow> requireAuth h e r p = h p"
  by (auto simp: live_session_def requireAuth_def ss_valid_def)

lemma requireAuth_dead:
  assumes "\<not> live_session e r p"
  obtains s where "requireAuth h e r p = (p\<lparr>pn_sessions := s\<rparr>, [], if take 4 (rq_path r) = ''/api'' then Error 401
      else Redirect ''/login'')" "s \<subseteq>\<^sub>m pn_sessions p"
proof (cases "rq_session r")
  case None
  then show ?thesis using that [of "pn_sessions p"] by (simp add: requireAuth_def)
next
  case (Some c)
  show ?thesis
  proof (cases "pn_sessions p c")
    case None
    then show ?thesis using Some that [of "pn_sessions p"] by (simp add: requireAuth_def ss_valid_def)
  next
    case (Some si)
    then have "re_now e > si_expires si" using assms \<open>rq_session r = Some c\<close> by (auto simp: live_session_def)
    then show ?thesis using Some \<open>rq_session r = Some c\<close> that [of "(pn_sessions p)(c := None)"]
      by (simp add: requireAuth_def ss_valid_def map_le_def)
  qed
qed

lemma requireReadAuth_cases:
  obtains s rsp where "requireReadAuth (\<lambda>p. (p, [], Served)) e r p = (p\<lparr>pn_sessions := s\<rparr>, [], rsp)"
    "s \<subseteq>\<^sub>m pn_sessions p"
    "rsp = Served \<Longrightarrow> live_session e r p \<or>
       (pc_RemoteToken (pn_config p) \<noteq> [] \<and> TrimPrefix (rq_auth r) ''Bearer '' = pc_RemoteToken (pn_config p))"
proof (cases "live_session e r p")
  case True
  then show ?thesis using that [of "pn_sessions p" Served]
    by (auto simp: live_session_def requireReadAuth_def ss_valid_def)
next
  case dead: False
  let ?ok = "pc_RemoteToken (pn_config p) \<noteq> [] \<and> TrimPrefix (rq_auth r) ''Bearer '' = pc_RemoteToken (pn_config p)"
  let ?s = "case rq_session r of None \<Rightarrow> pn_sessions p | Some c \<Rightarrow> fst (ss_valid (re_now e) c (pn_sessions p))"
  have "requireReadAuth (\<lambda>p. (p, [], Served)) e r p
      = (p\<lparr>pn_sessions := ?s\<rparr>, [], if ?ok then Served else Error 401)"
    using dead by (auto simp: live_session_def requireReadAuth_def ss_valid_def split: option.splits)
  moreover have "?s \<subseteq>\<^sub>m pn_sessions p"
    by (auto simp: ss_valid_def map_le_def split: option.splits)
  ultimately show ?thesis using that [of ?s "if ?ok then Served else Error 401"] by (simp split: if_splits)
qed

text \<open>Where sessions come from, per handler.\<close>

definition right_password :: "req_env \<Rightarrow> request \<Rightarrow> panel \<Rightarrow> bool" where
  "right_password e r p =
     (rq_path r = ''/login'' \<and> rq_method r = ''POST'' \<and> rq_form r ''password'' = pc_Password (pn_config p) \<and>
      snd (blocked (re_now e) (clientIP r) (pn_limiter p)) = None)"

definition right_code :: "req_env \<Rightarrow> request \<Rightarrow> panel \<Rightarrow> string \<Rightarrow> pendingLogin \<Rightarrow> bool" where
  "right_code e r p c pl =
     (rq_path r = ''/login2fa'' \<and> rq_method r = ''POST'' \<and> rq_pending r = Some c \<and> pn_twoFA p c = Some pl \<and>
      re_now e \<le> pl_expires pl \<and> TrimSpace (rq_form r ''code'') = pl_code pl)"

definition grants :: "req_env \<Rightarrow> request \<Rightarrow> panel \<Rightarrow> bool" where
  "grants e r p =
     (right_password e r p \<and> \<not> (pc_TwoFA (pn_config p) \<and> re_ready e) \<or> (\<exists>c pl. right_code e r p c pl))"

definition new_session :: "req_env \<Rightarrow> request \<Rightarrow> sessionInfo" where
  "new_session e r = \<lparr>si_expires = re_now e + sessionLifetime, si_created = re_now e, si_ip = clientIP r\<rparr>"

lemma sessions_login:
  assumes "pn_sessions (fst (handleLogin e r p)) tok = Some si" "rq_path r = ''/login''"
  shows "pn_sessions p tok = Some si \<or> tok = re_token e \<and> si = new_session e r \<and> grants e r p"
  using assms
  by (auto simp: handleLogin_def Let_def startTwoFA_def sign_in_def ss_create_def grants_def right_password_def
      new_session_def split: if_splits prod.splits option.splits)

lemma sessions_login2fa:
  assumes "pn_sessions (fst (handleLogin2FA e r p)) tok = Some si" "rq_path r = ''/login2fa''"
  shows "pn_sessions p tok = Some si \<or> tok = re_token e \<and> si = new_session e r \<and> grants e r p"
  using assms
  by (auto simp: handleLogin2FA_def verify_def sign_in_def ss_create_def grants_def right_code_def right_password_def
      new_session_def split: if_splits option.splits)

lemma sessions_logout: "pn_sessions (fst (handleLogout r p)) tok = Some si \<Longrightarrow> pn_sessions p tok = Some si"
  by (auto simp: handleLogout_def ss_destroy_def split: option.splits if_splits)

lemma sessions_inner:
  "pn_sessions (fst (handlePassword e r p)) \<subseteq>\<^sub>m pn_sessions p"
  "pn_sessions (fst (handleSecurity e r p)) \<subseteq>\<^sub>m pn_sessions p"
  "pn_sessions (fst (handleSessions e r p)) \<subseteq>\<^sub>m pn_sessions p"
  "pn_sessions (fst (handleRemoteToken e r p)) \<subseteq>\<^sub>m pn_sessions p"
  "pn_sessions (fst (handleBackupImport e r p)) \<subseteq>\<^sub>m pn_sessions p"
  by (auto simp: handlePassword_def handleSecurity_def handleSessions_def handleRemoteToken_def handleBackupImport_def
      Let_def ss_clear_def ss_revokeID_def ss_revokeOthers_def map_le_def split: option.splits)

lemma twoFA_inner:
  "pn_twoFA (fst (handlePassword e r p)) = pn_twoFA p"
  "pn_twoFA (fst (handleSecurity e r p)) = pn_twoFA p"
  "pn_twoFA (fst (handleSessions e r p)) = pn_twoFA p"
  "pn_twoFA (fst (handleRemoteToken e r p)) = pn_twoFA p"
  "pn_twoFA (fst (handleBackupImport e r p)) = pn_twoFA p"
  by (auto simp: handlePassword_def handleSecurity_def handleSessions_def handleRemoteToken_def handleBackupImport_def
      Let_def split: option.splits)

lemma limiter_inner:
  "pn_limiter (fst (handlePassword e r p)) = pn_limiter p"
  "pn_limiter (fst (handleSecurity e r p)) = pn_limiter p"
  "pn_limiter (fst (handleSessions e r p)) = pn_limiter p"
  "pn_limiter (fst (handleRemoteToken e r p)) = pn_limiter p"
  "pn_limiter (fst (handleBackupImport e r p)) = pn_limiter p"
  by (auto simp: handlePassword_def handleSecurity_def handleSessions_def handleRemoteToken_def handleBackupImport_def
      Let_def split: option.splits)

text \<open>A property of the panel that every inner handler keeps, whatever the caller's expired session, is kept by
  every path but those of the login.\<close>

lemma requireAuth_keeps:
  assumes "Q (fst (h p))" "\<And>s. s \<subseteq>\<^sub>m pn_sessions p \<Longrightarrow> Q (p\<lparr>pn_sessions := s\<rparr>)"
  shows "Q (fst (requireAuth h e r p))"
proof (cases "live_session e r p")
  case True
  then show ?thesis by (simp add: requireAuth_live assms(1))
next
  case False
  then obtain s where "fst (requireAuth h e r p) = p\<lparr>pn_sessions := s\<rparr>" "s \<subseteq>\<^sub>m pn_sessions p"
    by (rule requireAuth_dead [where h = h]) auto
  then show ?thesis using assms(2) by simp
qed

lemma serve_keeps:
  assumes keep: "\<And>s. s \<subseteq>\<^sub>m pn_sessions p \<Longrightarrow> Q (p\<lparr>pn_sessions := s\<rparr>)"
    and login: "rq_path r = ''/login'' \<Longrightarrow> Q (fst (handleLogin e r p))"
      "rq_path r = ''/login2fa'' \<Longrightarrow> Q (fst (handleLogin2FA e r p))" "Q (fst (handleLogout r p))"
    and inner: "Q (fst (handlePassword e r p))" "Q (fst (handleSecurity e r p))" "Q (fst (handleSessions e r p))"
      "Q (fst (handleRemoteToken e r p))" "Q (fst (handleBackupImport e r p))"
  shows "Q (fst (serve e r p))"
proof -
  have same: "Q p" using keep [of "pn_sessions p"] by simp
  have read: "Q (fst (requireReadAuth (\<lambda>p. (p, [], Served)) e r p))"
    by (rule requireReadAuth_cases [of e r p]) (simp add: keep)
  have served: "Q (fst (requireAuth (\<lambda>p. (p, [], Served)) e r p))"
    by (rule requireAuth_keeps) (simp_all add: same keep)
  have auth: "Q (fst (requireAuth h e r p))" if "Q (fst (h p))" for h
    by (rule requireAuth_keeps [where h = h and p = p and Q = Q]) (use that keep in auto)
  show ?thesis
    using login same read served by (simp add: serve_def Let_def auth inner)
qed


lemma session_step:
  assumes "pn_sessions (panel_next ev p) tok = Some si"
  shows "pn_sessions p tok = Some si \<or>
    (\<exists>e r. ev = Request e r \<and> tok = re_token e \<and> si = new_session e r \<and> grants e r p)"
proof (cases ev)
  case (Request e r)
  define Q where "Q (p' :: panel) \<longleftrightarrow> (pn_sessions p' tok = Some si \<longrightarrow>
    pn_sessions p tok = Some si \<or> tok = re_token e \<and> si = new_session e r \<and> grants e r p)" for p'
  have sub: "Q p'" if "pn_sessions p' \<subseteq>\<^sub>m pn_sessions p" for p'
    using that by (auto simp: Q_def map_le_def dom_def)
  have login: "Q (fst (handleLogin e r p))" if "rq_path r = ''/login''"
    unfolding Q_def using sessions_login [OF _ that] by blast
  have login2: "Q (fst (handleLogin2FA e r p))" if "rq_path r = ''/login2fa''"
    unfolding Q_def using sessions_login2fa [OF _ that] by blast
  have out: "Q (fst (handleLogout r p))" unfolding Q_def using sessions_logout by blast
  have "Q (fst (serve e r p))"
    by (rule serve_keeps [where Q = Q]; (rule login login2 out sessions_inner [THEN sub])?) (simp_all add: sub)
  then show ?thesis using assms Request by (simp add: Q_def)
qed (use assms in \<open>simp_all add: fresh_panel_def\<close>)

definition opens :: "req_env \<Rightarrow> request \<Rightarrow> panel \<Rightarrow> bool" where
  "opens e r p = (right_password e r p \<and> pc_TwoFA (pn_config p) \<and> re_ready e \<and> re_delivers e)"

text \<open>A pending login keeps its code and deadline; attempts only go up, and the third wrong one ends it.\<close>

definition pending_from :: "panel \<Rightarrow> string \<Rightarrow> pendingLogin \<Rightarrow> bool" where
  "pending_from p c pl =
     (\<exists>pl'. pn_twoFA p c = Some pl' \<and> pl_code pl' = pl_code pl \<and> pl_expires pl' = pl_expires pl \<and>
        pl_attempts pl' \<le> pl_attempts pl)"

lemma pending_login:
  assumes "pn_twoFA (fst (handleLogin e r p)) c = Some pl" "rq_path r = ''/login''"
  shows "pending_from p c pl \<or>
    c = re_token e \<and> pl_code pl = re_code e \<and> pl_expires pl = re_now e + twoFACodeTTL \<and> opens e r p"
  using assms
  by (auto simp: handleLogin_def Let_def startTwoFA_def sign_in_def tf_start_def tf_cancel_def opens_def
      right_password_def pending_from_def split: if_splits prod.splits option.splits)

lemma pending_login2fa:
  assumes "pn_twoFA (fst (handleLogin2FA e r p)) c = Some pl"
  shows "pending_from p c pl"
  using assms
  by (auto simp: handleLogin2FA_def verify_def sign_in_def pending_from_def split: if_splits option.splits)

lemma pending_step:
  assumes "pn_twoFA (panel_next ev p) c = Some pl"
  shows "pending_from p c pl \<or>
    (\<exists>e r. ev = Request e r \<and> c = re_token e \<and> pl_code pl = re_code e \<and>
       pl_expires pl = re_now e + twoFACodeTTL \<and> opens e r p)"
proof (cases ev)
  case (Request e r)
  define Q where "Q (p' :: panel) \<longleftrightarrow> (pn_twoFA p' c = Some pl \<longrightarrow> pending_from p c pl \<or>
    c = re_token e \<and> pl_code pl = re_code e \<and> pl_expires pl = re_now e + twoFACodeTTL \<and> opens e r p)" for p'
  have same: "Q p'" if "pn_twoFA p' = pn_twoFA p" for p' using that by (auto simp: Q_def pending_from_def)
  have login: "Q (fst (handleLogin e r p))" if "rq_path r = ''/login''"
    unfolding Q_def using pending_login [OF _ that] by blast
  have login2: "Q (fst (handleLogin2FA e r p))" unfolding Q_def using pending_login2fa by blast
  have out: "Q (fst (handleLogout r p))" by (rule same) (simp add: handleLogout_def split: option.splits)
  have "Q (fst (serve e r p))"
    by (rule serve_keeps [where Q = Q]; (rule login login2 out twoFA_inner [THEN same])?) (simp_all add: same)
  then show ?thesis using assms Request by (simp add: Q_def)
qed (use assms in \<open>simp_all add: fresh_panel_def pending_from_def\<close>)

text \<open>What holds at the end of a run and not at its start began at some event and has held since.\<close>

lemma began_at:
  assumes "P n" "\<not> P 0"
  obtains i where "i < n" "\<not> P i" "\<And>k. i < k \<Longrightarrow> k \<le> n \<Longrightarrow> P (k::nat)"
proof -
  have "\<exists>i < n. \<not> P i \<and> (\<forall>k. i < k \<longrightarrow> k \<le> n \<longrightarrow> P k)"
    using assms
  proof (induction n)
    case (Suc n)
    show ?case
    proof (cases "P n")
      case True
      then obtain i where "i < n" "\<not> P i" "\<forall>k. i < k \<longrightarrow> k \<le> n \<longrightarrow> P k" using Suc by auto
      then show ?thesis using Suc.prems(1) by (intro exI [of _ i]) (auto simp: le_Suc_eq)
    next
      case False
      then show ?thesis using Suc.prems(1) by (intro exI [of _ n]) (auto simp: le_Suc_eq)
    qed
  qed simp
  then show ?thesis using that by blast
qed

lemma panel_run_0 [simp]: "panel_run [] c = fresh_panel c"
  by (simp add: panel_run_def)

lemma panel_run_Suc: "i < length es \<Longrightarrow> panel_run (take (Suc i) es) c = panel_next (es ! i) (panel_run (take i es) c)"
  by (simp add: panel_run_def take_Suc_conv_app_nth)

lemma pending_origin:
  assumes "pn_twoFA (panel_run (take n es) c0) c = Some pl" "n \<le> length es"
  obtains j e r where "j < n" "es ! j = Request e r" "c = re_token e" "pl_code pl = re_code e"
    "pl_expires pl = re_now e + twoFACodeTTL" "opens e r (panel_run (take j es) c0)"
proof -
  let ?P = "\<lambda>k. \<exists>pl'. pn_twoFA (panel_run (take k es) c0) c = Some pl' \<and> pl_code pl' = pl_code pl \<and>
    pl_expires pl' = pl_expires pl"
  have "?P n" using assms by blast
  moreover have "\<not> ?P 0" by (simp add: fresh_panel_def)
  ultimately obtain j where j: "j < n" "\<not> ?P j" "\<And>k. j < k \<Longrightarrow> k \<le> n \<Longrightarrow> ?P k"
    by (rule began_at [where P = ?P]) blast
  then have "?P (Suc j)" by simp
  then obtain pl' where pl': "pn_twoFA (panel_next (es ! j) (panel_run (take j es) c0)) c = Some pl'"
      "pl_code pl' = pl_code pl" "pl_expires pl' = pl_expires pl"
    using panel_run_Suc [of j es c0] j(1) assms(2) by auto
  moreover have "\<not> pending_from (panel_run (take j es) c0) c pl'"
    using j(2) pl'(2,3) by (auto simp: pending_from_def)
  ultimately obtain e r where "es ! j = Request e r" "c = re_token e" "pl_code pl' = re_code e"
      "pl_expires pl' = re_now e + twoFACodeTTL" "opens e r (panel_run (take j es) c0)"
    using pending_step by blast
  then show ?thesis using that j(1) pl' by metis
qed

lemma session_origin:
  assumes "pn_sessions (panel_run es c0) tok = Some si"
  obtains i e r where "i < length es" "es ! i = Request e r" "tok = re_token e" "si = new_session e r"
    "grants e r (panel_run (take i es) c0)"
    "\<And>k. i < k \<Longrightarrow> k \<le> length es \<Longrightarrow> pn_sessions (panel_run (take k es) c0) tok = Some si"
proof -
  let ?P = "\<lambda>k. pn_sessions (panel_run (take k es) c0) tok = Some si"
  have "?P (length es)" "\<not> ?P 0" using assms by (simp_all add: fresh_panel_def)
  then obtain i where i: "i < length es" "\<not> ?P i" "\<And>k. i < k \<Longrightarrow> k \<le> length es \<Longrightarrow> ?P k"
    by (rule began_at [where P = ?P]) blast
  then have "pn_sessions (panel_next (es ! i) (panel_run (take i es) c0)) tok = Some si"
    using panel_run_Suc [of i es c0] i(3) [of "Suc i"] by simp
  then show ?thesis using session_step i that by metis
qed

lemma login_handlers_config:
  "pn_config (fst (handleLogin e r p)) = pn_config p" "snd (snd (handleLogin e r p)) \<noteq> Served"
  "pn_config (fst (handleLogin2FA e r p)) = pn_config p" "snd (snd (handleLogin2FA e r p)) \<noteq> Served"
  "pn_config (fst (handleLogout r p)) = pn_config p" "snd (snd (handleLogout r p)) \<noteq> Served"
  by (auto simp: handleLogin_def handleLogin2FA_def handleLogout_def startTwoFA_def sign_in_def Let_def
      split: option.splits prod.splits)

lemma served_needs:
  assumes "\<not> live_session e r p"
  shows "pn_config (fst (serve e r p)) = pn_config p" "snd (snd (serve e r p)) = Served \<Longrightarrow> read_token r p"
proof -
  have auth: "pn_config (fst (requireAuth h e r p)) = pn_config p" "snd (snd (requireAuth h e r p)) \<noteq> Served" for h
    by (rule requireAuth_dead [of e r p h]; use assms in simp)+
  have read: "pn_config (fst (requireReadAuth (\<lambda>p. (p, [], Served)) e r p)) = pn_config p"
      "rq_path r \<in> set read_paths \<Longrightarrow> snd (snd (requireReadAuth (\<lambda>p. (p, [], Served)) e r p)) = Served \<Longrightarrow>
        read_token r p"
    by (rule requireReadAuth_cases [of e r p]; use assms in \<open>auto simp: read_token_def\<close>)+
  show "pn_config (fst (serve e r p)) = pn_config p"
    by (simp add: serve_def Let_def login_handlers_config auth read)
  show "read_token r p" if "snd (snd (serve e r p)) = Served"
    using that login_handlers_config auth read by (auto simp: serve_def Let_def split: if_splits)
qed

section \<open>Access to the panel\<close>

text \<open>The request carries the token of a session that an earlier event of the run opened and that has been
  in the store since: with the password alone where no second factor was in force, or with the code that was
  sent out, at most five minutes before, for the right password.\<close>

definition login_with_code :: "panel_event list \<Rightarrow> panelConfig \<Rightarrow> nat \<Rightarrow> req_env \<Rightarrow> request \<Rightarrow> bool" where
  "login_with_code es c0 i e r =
     (\<exists>j < i. \<exists>e' r'. es ! j = Request e' r' \<and> opens e' r' (panel_run (take j es) c0) \<and>
        rq_path r = ''/login2fa'' \<and> rq_pending r = Some (re_token e') \<and>
        TrimSpace (rq_form r ''code'') = re_code e' \<and> re_now e \<le> re_now e' + twoFACodeTTL)"

definition login_with_password :: "panel_event list \<Rightarrow> panelConfig \<Rightarrow> nat \<Rightarrow> req_env \<Rightarrow> request \<Rightarrow> bool" where
  "login_with_password es c0 i e r =
     (let p = panel_run (take i es) c0 in
      right_password e r p \<and> \<not> (pc_TwoFA (pn_config p) \<and> re_ready e))"

definition signed_in :: "panel_event list \<Rightarrow> panelConfig \<Rightarrow> req_env \<Rightarrow> request \<Rightarrow> bool" where
  "signed_in es c0 e r =
     (\<exists>i < length es. \<exists>e' r'. es ! i = Request e' r' \<and> rq_session r = Some (re_token e') \<and>
        re_now e \<le> re_now e' + sessionLifetime \<and>
        (login_with_password es c0 i e' r' \<or> login_with_code es c0 i e' r') \<and>
        (\<forall>k. i < k \<longrightarrow> k \<le> length es \<longrightarrow>
           pn_sessions (panel_run (take k es) c0) (re_token e') = Some (new_session e' r')))"

lemma granted_login:
  assumes "grants e r (panel_run (take i es) c0)" "i \<le> length es"
  shows "login_with_password es c0 i e r \<or> login_with_code es c0 i e r"
proof (cases "\<exists>c pl. right_code e r (panel_run (take i es) c0) c pl")
  case True
  then obtain c pl where rc: "right_code e r (panel_run (take i es) c0) c pl" by blast
  then have "pn_twoFA (panel_run (take i es) c0) c = Some pl" by (simp add: right_code_def)
  from pending_origin [OF this assms(2)] obtain j e' r' where "j < i" "es ! j = Request e' r'" "c = re_token e'"
      "pl_code pl = re_code e'" "pl_expires pl = re_now e' + twoFACodeTTL" "opens e' r' (panel_run (take j es) c0)"
    by metis
  then show ?thesis using rc unfolding login_with_code_def right_code_def by auto
next
  case False
  then show ?thesis using assms(1) by (auto simp: grants_def login_with_password_def Let_def)
qed

lemma live_signed_in:
  assumes "live_session e r (panel_run es c0)"
  shows "signed_in es c0 e r"
proof -
  obtain c si where c: "rq_session r = Some c" "pn_sessions (panel_run es c0) c = Some si" "re_now e \<le> si_expires si"
    using assms by (auto simp: live_session_def)
  from session_origin [OF c(2)] obtain i e' r' where i: "i < length es" "es ! i = Request e' r'" "c = re_token e'"
      "si = new_session e' r'" "grants e' r' (panel_run (take i es) c0)"
      "\<forall>k. i < k \<longrightarrow> k \<le> length es \<longrightarrow> pn_sessions (panel_run (take k es) c0) c = Some si"
    by metis
  then show ?thesis
    using c granted_login [OF i(5)] unfolding signed_in_def by (auto simp: new_session_def intro!: exI [of _ i])
qed


definition demo_config :: panelConfig where
  "demo_config = \<lparr>pc_Password = ''12345678'', pc_RemoteToken = [], pc_TwoFA = False, pc_LoginNotify = False, pc_HTTPS = True\<rparr>"

definition demo_request :: "string \<Rightarrow> string option \<Rightarrow> string \<Rightarrow> request" where
  "demo_request path c v =
     \<lparr>rq_method = ''POST'', rq_remote = ''203.0.113.9:4000'', rq_path = path, rq_session = c, rq_pending = c,
      rq_auth = [], rq_form = (\<lambda>_. v)\<rparr>"

definition demo_env :: "int \<Rightarrow> string \<Rightarrow> req_env" where
  "demo_env t tok =
     \<lparr>re_now = t, re_token = tok, re_code = ''424242'', re_ready = True, re_delivers = True, re_saves = True,
      re_restored = None, re_sessionID = id, re_order = []\<rparr>"

lemmas demo_panel_simps =
  demo_config_def demo_request_def demo_env_def panel_run_def fresh_panel_def serve_def handleLogin_def Let_def
  blocked_def ll_reset_def sign_in_def ss_create_def requireAuth_def ss_valid_def open_path_def read_paths_def
  sessionLifetime_def minute_def


section \<open>Codes\<close>

fun verify_all :: "string \<Rightarrow> (int \<times> string) list \<Rightarrow> twoFAStore \<Rightarrow> bool list" where
  "verify_all tok [] t = []"
| "verify_all tok ((now, given) # gs) t =
     (case verify now tok given t of (t', ok, dead) \<Rightarrow> ok # verify_all tok gs t')"

lemma verify_all_gone: "t tok = None \<Longrightarrow> k < length gs \<Longrightarrow> \<not> verify_all tok gs t ! k"
proof (induction gs arbitrary: t k)
  case (Cons g gs)
  obtain now given where g: "g = (now, given)" by (cases g)
  show ?case using Cons.prems Cons.IH by (cases k) (simp_all add: g verify_def fun_upd_idem)
qed simp

lemma All_le_Suc2: "(\<forall>j\<le>Suc m. P j) \<longleftrightarrow> P 0 \<and> (\<forall>j\<le>m. P (Suc j))"
  using All_less_Suc2 [of "Suc m" P] by (simp add: less_Suc_eq_le)

lemma verify_all_nth:
  assumes "t tok = Some p" "k < length gs" "pl_attempts p < twoFAMaxAttempts"
  shows "verify_all tok gs t ! k \<longleftrightarrow>
    pl_attempts p + k < twoFAMaxAttempts \<and> snd (gs ! k) = pl_code p \<and> (\<forall>j<k. snd (gs ! j) \<noteq> pl_code p) \<and>
    (\<forall>j\<le>k. fst (gs ! j) \<le> pl_expires p)"
  using assms
proof (induction gs arbitrary: t p k)
  case (Cons g gs)
  obtain now given where g: "g = (now, given)" by (cases g)
  show ?case
  proof (cases k)
    case 0
    then show ?thesis using Cons.prems by (auto simp: g verify_def)
  next
    case (Suc m)
    have gone: "\<not> verify_all tok gs (t(tok := None)) ! m" using Cons.prems(2) Suc verify_all_gone by simp
    show ?thesis
    proof (cases "now > pl_expires p \<or> given = pl_code p \<or> twoFAMaxAttempts \<le> Suc (pl_attempts p)")
      case True
      then have "\<not> verify_all tok (g # gs) t ! k" using Cons.prems gone by (auto simp: g verify_def Suc)
      moreover have "\<not> (pl_attempts p + k < twoFAMaxAttempts \<and> snd ((g # gs) ! 0) \<noteq> pl_code p \<and>
          fst ((g # gs) ! 0) \<le> pl_expires p)"
        using True by (auto simp: g Suc)
      ultimately show ?thesis using Suc by blast
    next
      case False
      let ?p = "p\<lparr>pl_attempts := Suc (pl_attempts p)\<rparr>"
      have "verify_all tok (g # gs) t ! k = verify_all tok gs (t(tok \<mapsto> ?p)) ! m"
        using False Cons.prems by (simp add: g verify_def Suc)
      moreover have "verify_all tok gs (t(tok \<mapsto> ?p)) ! m \<longleftrightarrow>
          pl_attempts ?p + m < twoFAMaxAttempts \<and> snd (gs ! m) = pl_code ?p \<and> (\<forall>j<m. snd (gs ! j) \<noteq> pl_code ?p) \<and>
          (\<forall>j\<le>m. fst (gs ! j) \<le> pl_expires ?p)"
        using False Cons.prems(2) Suc by (intro Cons.IH) auto
      ultimately show ?thesis using False by (simp add: Suc g All_less_Suc2 All_le_Suc2 not_less)
    qed
  qed
qed simp

text \<open>Of the codes tried against a started two-factor login, the one at position \<open>k\<close> completes the login
  exactly when it is the code sent out, it is among the first three, no earlier one was it, and neither it nor
  an earlier one came after the five minutes: a code works once, and three wrong codes end the login.\<close>

theorem code_tried_three_times:
  assumes "k < length gs"
  shows "verify_all tok gs (tf_start now tok code t) ! k \<longleftrightarrow>
    k < 3 \<and> snd (gs ! k) = code \<and> (\<forall>j<k. snd (gs ! j) \<noteq> code) \<and> (\<forall>j\<le>k. fst (gs ! j) \<le> now + twoFACodeTTL)"
  using verify_all_nth [of "tf_start now tok code t" tok "\<lparr>pl_code = code, pl_expires = now + twoFACodeTTL, pl_attempts = 0\<rparr>" k gs]
    assms by (simp add: tf_start_def twoFAMaxAttempts_def)

theorem code_tried_three_times_witness:
  "verify_all ''t'' [(1, ''000000''), (2, ''424242''), (3, ''424242'')] (tf_start 0 ''t'' ''424242'' Map.empty) ! 1 \<and>
   \<not> verify_all ''t'' [(1, ''000000''), (2, ''424242''), (3, ''424242'')] (tf_start 0 ''t'' ''424242'' Map.empty) ! 2"
  using code_tried_three_times [of 1 "[(1, ''000000''), (2, ''424242''), (3, ''424242'')]" "''t''" 0 "''424242''" Map.empty]
    code_tried_three_times [of 2 "[(1, ''000000''), (2, ''424242''), (3, ''424242'')]" "''t''" 0 "''424242''" Map.empty]
  by (auto simp: twoFACodeTTL_def minute_def less_Suc_eq_le le_Suc_eq nth_Cons' numeral_2_eq_2)

section \<open>Lockout\<close>

text \<open>The times of the failed logins of an address in a run, oldest first.\<close>

definition failed_at :: "string \<Rightarrow> panel_event \<Rightarrow> panel \<Rightarrow> int list" where
  "failed_at ip ev p =
     (case ev of
        Request e r \<Rightarrow>
          if rq_path r = ''/login'' \<and> clientIP r = ip \<and> snd (snd (serve e r p)) = Page 401 then [re_now e] else []
      | _ \<Rightarrow> [])"

fun failures :: "string \<Rightarrow> panel_event list \<Rightarrow> panel \<Rightarrow> int list" where
  "failures ip [] p = []"
| "failures ip (ev # es) p = failed_at ip ev p @ failures ip es (panel_next ev p)"

text \<open>A run in which time does not go back, the panel is not restarted and the address never logs in.\<close>

fun guessing :: "string \<Rightarrow> int \<Rightarrow> panel_event list \<Rightarrow> panel \<Rightarrow> bool" where
  "guessing ip clock [] p = True"
| "guessing ip clock (ev # es) p =
     (case ev of
        Request e r \<Rightarrow>
          clock \<le> re_now e \<and> \<not> (clientIP r = ip \<and> right_password e r p) \<and> guessing ip (re_now e) es (panel_next ev p)
      | Saved c \<Rightarrow> guessing ip clock es (panel_next ev p)
      | Restart \<Rightarrow> False)"

definition count_of :: "string \<Rightarrow> loginLimiter \<Rightarrow> nat" where
  "count_of ip l = (case ll_fails l ip of None \<Rightarrow> 0 | Some f \<Rightarrow> fc_n f)"

text \<open>\<open>fs\<close> are the failures of the address, newest first.  The failures beyond the running count are at least
  a block period old.\<close>

definition times_ok :: "int \<Rightarrow> int list \<Rightarrow> bool" where
  "times_ok clock fs = (sorted_wrt (\<ge>) (clock # fs) \<and> (\<forall>i. i + 5 < length fs \<longrightarrow> fs ! (i + 5) + loginBlockPeriod \<le> fs ! i))"

definition lim_ok :: "string \<Rightarrow> int \<Rightarrow> int list \<Rightarrow> loginLimiter \<Rightarrow> bool" where
  "lim_ok ip clock fs l =
     (times_ok clock fs \<and> count_of ip l \<le> length fs \<and>
      (count_of ip l < length fs \<longrightarrow> fs ! count_of ip l + loginBlockPeriod \<le> clock) \<and>
      (\<forall>f. ll_fails l ip = Some f \<longrightarrow> fs \<noteq> [] \<and> fc_exp f = hd fs + loginFailTTL) \<and>
      (\<forall>t. ll_until l ip = Some t \<longrightarrow> 5 \<le> length fs \<and> t = hd fs + loginBlockPeriod) \<and>
      (5 \<le> count_of ip l \<longrightarrow> ll_until l ip = Some (hd fs + loginBlockPeriod) \<or> hd fs + loginBlockPeriod \<le> clock))"

lemmas periods = loginBlockPeriod_def loginFailTTL_def minute_def loginMaxFails_def

lemma lim_ok_later: "lim_ok ip clock fs l \<Longrightarrow> clock \<le> now \<Longrightarrow> lim_ok ip now fs l"
  by (auto simp: lim_ok_def times_ok_def)

text \<open>Forgetting an address whose last failure is old keeps the invariant, and so does dropping a lapsed block.\<close>

lemma lim_ok_forget:
  assumes "lim_ok ip now fs l" "fs \<noteq> [] \<Longrightarrow> hd fs + loginBlockPeriod \<le> now"
    "ll_fails l' ip = None" "ll_until l' ip = None"
  shows "lim_ok ip now fs l'"
  using assms by (auto simp: lim_ok_def count_of_def hd_conv_nth)

lemma lim_ok_drop_block:
  assumes "lim_ok ip now fs l" "hd fs + loginBlockPeriod \<le> now" "ll_fails l' ip = ll_fails l ip" "ll_until l' ip = None"
  shows "lim_ok ip now fs l'"
  using assms by (auto simp: lim_ok_def count_of_def)

lemma lim_ok_same:
  "lim_ok ip now fs l \<Longrightarrow> ll_fails l' ip = ll_fails l ip \<Longrightarrow> ll_until l' ip = ll_until l ip \<Longrightarrow> lim_ok ip now fs l'"
  by (simp add: lim_ok_def count_of_def)

lemma lim_ok_blocked:
  assumes "lim_ok ip now fs l"
  shows "lim_ok ip now fs (fst (blocked now ip' l))"
proof (cases "ip' = ip \<and> (\<exists>t. ll_until l ip = Some t \<and> t \<le> now)")
  case True
  then have "hd fs + loginBlockPeriod \<le> now" using assms by (auto simp: lim_ok_def)
  then show ?thesis using True assms
    by (intro lim_ok_forget [OF assms]) (auto simp: blocked_def split: option.splits)
next
  case False
  then show ?thesis
    by (intro lim_ok_same [OF assms]) (auto simp: blocked_def split: option.splits)
qed

lemma lim_ok_sweep:
  assumes "lim_ok ip now fs l"
  shows "lim_ok ip now fs (sweepLocked now l)"
proof (cases "ll_fails (sweepLocked now l) ip = ll_fails l ip")
  case True
  show ?thesis
  proof (cases "ll_until (sweepLocked now l) ip = ll_until l ip")
    case False
    then have "hd fs + loginBlockPeriod \<le> now" "ll_until (sweepLocked now l) ip = None"
      using assms by (auto simp: sweepLocked_def purge_def lim_ok_def split: option.splits if_splits)
    then show ?thesis using True by (intro lim_ok_drop_block [OF assms]) auto
  qed (use True in \<open>auto intro: lim_ok_same [OF assms]\<close>)
next
  case False
  then have "ll_fails (sweepLocked now l) ip = None" "hd fs + loginFailTTL < now"
    using assms by (auto simp: sweepLocked_def purge_def lim_ok_def split: option.splits if_splits)
  moreover from this have "ll_until (sweepLocked now l) ip = None"
    using assms by (auto simp: sweepLocked_def purge_def lim_ok_def periods split: option.splits if_splits)
  ultimately show ?thesis by (intro lim_ok_forget [OF assms]) (auto simp: periods)
qed

lemma ll_fail_other: "ip' \<noteq> ip \<Longrightarrow> lim_ok ip now fs l \<Longrightarrow> lim_ok ip now fs (ll_fail now ip' l)"
  by (drule lim_ok_sweep, erule lim_ok_same) (auto simp: ll_fail_def Let_def)

lemma ll_reset_other: "ip' \<noteq> ip \<Longrightarrow> lim_ok ip now fs l \<Longrightarrow> lim_ok ip now fs (ll_reset ip' l)"
  by (erule lim_ok_same) (simp_all add: ll_reset_def)

lemma times_ok_Cons:
  assumes "times_ok now fs" "5 \<le> length fs \<Longrightarrow> fs ! 4 + loginBlockPeriod \<le> now"
  shows "times_ok now (now # fs)"
  unfolding times_ok_def
proof (intro conjI allI impI)
  show "sorted_wrt (\<ge>) (now # now # fs)" using assms(1) by (simp add: times_ok_def)
  fix i assume "i + 5 < length (now # fs)"
  then show "(now # fs) ! (i + 5) + loginBlockPeriod \<le> (now # fs) ! i"
    using assms by (cases i) (auto simp: times_ok_def add.commute)
qed

lemma lim_ok_fail:
  assumes ok: "lim_ok ip now fs l" and free: "ll_until l ip = None"
  shows "lim_ok ip now (now # fs) (ll_fail now ip l)"
proof -
  let ?l = "sweepLocked now l" and ?n = "count_of ip (sweepLocked now l)"
  have ok': "lim_ok ip now fs ?l" by (rule lim_ok_sweep [OF ok])
  have free': "ll_until ?l ip = None" using free by (simp add: sweepLocked_def purge_None)
  have desc: "fs ! j \<le> fs ! i" if "i \<le> j" "j < length fs" for i j
    using ok that sorted_wrt_nth_less [of "(\<ge>)" fs i j] by (cases "i = j") (auto simp: lim_ok_def times_ok_def)
  have n: "ll_fails (ll_fail now ip l) ip = Some \<lparr>fc_n = Suc ?n, fc_exp = now + loginFailTTL\<rparr>"
    by (auto simp: ll_fail_def Let_def count_of_def sweepLocked_def purge_def split: option.splits)
  have until: "ll_until (ll_fail now ip l) ip = (if 5 \<le> Suc ?n then Some (now + loginBlockPeriod) else None)"
    using free' by (auto simp: ll_fail_def Let_def count_of_def sweepLocked_def loginMaxFails_def purge_def split: option.splits)
  have "fs ! 4 + loginBlockPeriod \<le> now" if "5 \<le> length fs"
  proof (cases "5 \<le> ?n")
    case True
    then have "hd fs + loginBlockPeriod \<le> now" using ok' free' by (simp add: lim_ok_def)
    then show ?thesis using desc [of 0 4] that by (cases fs) auto
  next
    case False
    then have "fs ! ?n + loginBlockPeriod \<le> now" using ok' that by (simp add: lim_ok_def)
    then show ?thesis using desc [of ?n 4] that False by auto
  qed
  then have "times_ok now (now # fs)" using ok by (intro times_ok_Cons) (auto simp: lim_ok_def)
  then show ?thesis using ok' n until by (auto simp: lim_ok_def count_of_def)
qed


lemma serve_login: "rq_path r = ''/login'' \<Longrightarrow> serve e r p = handleLogin e r p"
  by (simp add: serve_def)

lemma limiter_serve:
  "pn_limiter (fst (serve e r p)) =
     (if rq_path r = ''/login'' then pn_limiter (fst (handleLogin e r p)) else pn_limiter p)"
proof (cases "rq_path r = ''/login''")
  case False
  define Q where "Q (p' :: panel) \<longleftrightarrow> pn_limiter p' = pn_limiter p" for p'
  have login2: "Q (fst (handleLogin2FA e r p))" and out: "Q (fst (handleLogout r p))"
    by (auto simp: Q_def handleLogin2FA_def handleLogout_def sign_in_def Let_def split: option.splits prod.splits)
  have "Q (fst (serve e r p))"
    by (rule serve_keeps [where Q = Q]; (rule login2 out)?) (use False in \<open>simp_all add: Q_def limiter_inner\<close>)
  then show ?thesis using False by (simp add: Q_def)
qed (simp add: serve_def)

text \<open>What a login does to the limiter and when it counts as a failure.\<close>

lemma login_limiter:
  assumes "rq_method r = ''POST''"
  shows "pn_limiter (fst (handleLogin e r p)) =
     (let l = fst (blocked (re_now e) (clientIP r) (pn_limiter p)) in
      if snd (blocked (re_now e) (clientIP r) (pn_limiter p)) \<noteq> None then l
      else if rq_form r ''password'' = pc_Password (pn_config p) then ll_reset (clientIP r) l
      else ll_fail (re_now e) (clientIP r) l)"
    "snd (snd (handleLogin e r p)) = Page 401 \<longleftrightarrow>
      snd (blocked (re_now e) (clientIP r) (pn_limiter p)) = None \<and> rq_form r ''password'' \<noteq> pc_Password (pn_config p)"
  using assms by (auto simp: handleLogin_def startTwoFA_def sign_in_def Let_def split: prod.splits option.splits)

lemma blocked_free: "snd (blocked now ip l) = None \<Longrightarrow> ll_until (fst (blocked now ip l)) ip = None"
  by (auto simp: blocked_def split: option.splits if_splits)

lemma lim_ok_request:
  assumes "lim_ok ip clock fs (pn_limiter p)" "clock \<le> re_now e" "\<not> (clientIP r = ip \<and> right_password e r p)"
  shows "lim_ok ip (re_now e) (failed_at ip (Request e r) p @ fs) (pn_limiter (fst (serve e r p)))"
proof (cases "rq_path r = ''/login'' \<and> rq_method r = ''POST''")
  case False
  then have "pn_limiter (fst (serve e r p)) = pn_limiter p" "failed_at ip (Request e r) p = []"
    by (auto simp: limiter_serve failed_at_def serve_login handleLogin_def)
  then show ?thesis using lim_ok_later [OF assms(1,2)] by simp
next
  case True
  let ?l = "fst (blocked (re_now e) (clientIP r) (pn_limiter p))"
    and ?b = "snd (blocked (re_now e) (clientIP r) (pn_limiter p))"
    and ?good = "rq_form r ''password'' = pc_Password (pn_config p)"
  have ok: "lim_ok ip (re_now e) fs ?l" by (rule lim_ok_blocked [OF lim_ok_later [OF assms(1,2)]])
  have new: "pn_limiter (fst (serve e r p)) =
      (if ?b \<noteq> None then ?l else if ?good then ll_reset (clientIP r) ?l else ll_fail (re_now e) (clientIP r) ?l)"
    using True login_limiter(1) [of r e p] by (simp add: limiter_serve Let_def)
  have at: "failed_at ip (Request e r) p = (if clientIP r = ip \<and> ?b = None \<and> \<not> ?good then [re_now e] else [])"
    using True login_limiter(2) [of r e p] by (auto simp: failed_at_def serve_login)
  show ?thesis
  proof (cases "clientIP r = ip")
    case True
    then have "?b = None \<Longrightarrow> \<not> ?good"
      using assms(3) \<open>rq_path r = ''/login'' \<and> rq_method r = ''POST''\<close> by (auto simp: right_password_def)
    then show ?thesis
      using True ok lim_ok_fail [OF ok] blocked_free [of "re_now e" ip "pn_limiter p"] by (auto simp: new at)
  next
    case False
    then show ?thesis using ok ll_fail_other ll_reset_other by (auto simp: new at)
  qed
qed

lemma lim_ok_run:
  assumes "lim_ok ip clock fs (pn_limiter p)" "guessing ip clock es p"
  shows "\<exists>now. lim_ok ip now (rev (failures ip es p) @ fs) (pn_limiter (fold panel_next es p))"
  using assms
proof (induction es arbitrary: clock fs p)
  case (Cons ev es)
  show ?case
  proof (cases ev)
    case (Request e r)
    let ?fs = "failed_at ip ev p"
    have "lim_ok ip (re_now e) (?fs @ fs) (pn_limiter (panel_next ev p))"
      using Cons.prems Request by (auto intro: lim_ok_request)
    moreover have "guessing ip (re_now e) es (panel_next ev p)" using Cons.prems(2) Request by simp
    ultimately obtain now where "lim_ok ip now (rev (failures ip es (panel_next ev p)) @ ?fs @ fs)
        (pn_limiter (fold panel_next es (panel_next ev p)))"
      using Cons.IH by blast
    moreover have "rev ?fs = ?fs" by (simp add: failed_at_def Request)
    ultimately show ?thesis by auto
  next
    case (Saved c)
    then show ?thesis using Cons.prems Cons.IH [of clock fs "panel_next ev p"] by (simp add: failed_at_def)
  next
    case Restart
    then show ?thesis using Cons.prems by simp
  qed
qed auto


definition demo_guess :: "int \<Rightarrow> panel_event" where
  "demo_guess t = Request (demo_env t ''x'') (demo_request ''/login'' None ''letmein0'')"

definition demo_guesses :: "panel_event list" where
  "demo_guesses = map demo_guess [1, 2, 3, 4, 5, 6, 11 * minute]"

lemma demo_clientIP: "clientIP (demo_request path c v) = ''203.0.113.9''"
  by (simp add: clientIP_def demo_request_def SplitHostPort_def)

lemma demo_guess_next:
  "panel_next (demo_guess t) p = fst (handleLogin (demo_env t ''x'') (demo_request ''/login'' None ''letmein0'') p)"
  "failed_at ''203.0.113.9'' (demo_guess t) p =
     (if snd (snd (handleLogin (demo_env t ''x'') (demo_request ''/login'' None ''letmein0'') p)) = Page 401 then [t] else [])"
  by (simp_all add: demo_guess_def serve_login demo_request_def failed_at_def demo_clientIP [unfolded demo_request_def]
      demo_env_def)

lemma demo_handle_guess:
  assumes "pc_Password (pn_config p) = ''12345678''"
  shows "handleLogin (demo_env t ''x'') (demo_request ''/login'' None ''letmein0'') p =
    (case blocked t ''203.0.113.9'' (pn_limiter p) of
       (l, Some left) \<Rightarrow> (p\<lparr>pn_limiter := l\<rparr>, [], TooMany (left div minute + 1))
     | (l, None) \<Rightarrow> (p\<lparr>pn_limiter := ll_fail t ''203.0.113.9'' l\<rparr>, [], Page 401))"
  using assms
  by (simp add: handleLogin_def demo_clientIP Let_def demo_env_def split: prod.splits option.splits)
    (simp add: demo_request_def)

lemma demo_guessing:
  "pc_Password (pn_config p) = ''12345678'' \<Longrightarrow> sorted (clock # ts) \<Longrightarrow> guessing ip clock (map demo_guess ts) p"
proof (induction ts arbitrary: clock p)
  case (Cons t ts)
  let ?p = "panel_next (demo_guess t) p"
  have "pn_config ?p = pn_config p" by (simp add: demo_guess_next login_handlers_config)
  then have "guessing ip t (map demo_guess ts) ?p" using Cons by simp
  moreover have "demo_guess t = Request (demo_env t ''x'') (demo_request ''/login'' None ''letmein0'')"
    by (simp add: demo_guess_def)
  moreover have "\<not> right_password (demo_env t ''x'') (demo_request ''/login'' None ''letmein0'') p"
    using Cons.prems by (simp add: right_password_def demo_request_def)
  ultimately show ?case using Cons.prems by (simp add: demo_env_def)
qed simp


section \<open>Changing the password\<close>

lemma code_signs_in:
  "right_code e r p c pl \<Longrightarrow> pn_sessions (fst (serve e r p)) (re_token e) = Some (new_session e r)"
  by (simp add: right_code_def serve_def handleLogin2FA_def verify_def sign_in_def ss_create_def new_session_def)

text \<open>A changed password ends every session, but not a login that waits for its code: whoever gave the old
  password before the change still signs in with the code sent for it, within its five minutes.\<close>

theorem waiting_login_survives_password_change:
  assumes change: "rq_path r1 = ''/api/password''" "rq_method r1 = ''POST''" "live_session e1 r1 p" "re_saves e1"
      "8 \<le> length (TrimSpace (rq_form r1 ''password''))" "length (TrimSpace (rq_form r1 ''password'')) \<le> 128"
    and waiting: "right_code e2 r2 p c pl"
    and later: "rq_session r3 = Some (re_token e2)" "re_now e3 \<le> re_now e2 + sessionLifetime"
  shows "pn_sessions (fst (serve e1 r1 p)) = Map.empty \<and>
    pc_Password (pn_config (fst (serve e1 r1 p))) = TrimSpace (rq_form r1 ''password'') \<and>
    live_session e3 r3 (fst (serve e2 r2 (fst (serve e1 r1 p))))"
proof -
  let ?p = "fst (serve e1 r1 p)"
  have p1: "?p = p\<lparr>pn_config := (pn_config p)\<lparr>pc_Password := TrimSpace (rq_form r1 ''password'')\<rparr>,
      pn_sessions := Map.empty\<rparr>"
    using change by (simp add: serve_def requireAuth_live handlePassword_def MinPasswordLen_def Let_def ss_clear_def
        read_paths_def open_path_def)
  have "right_code e2 r2 ?p c pl" using waiting by (simp add: p1 right_code_def)
  then have "pn_sessions (fst (serve e2 r2 ?p)) (re_token e2) = Some (new_session e2 r2)" by (rule code_signs_in)
  then show ?thesis using later by (simp add: p1 live_session_def new_session_def)
qed


definition waiting_panel :: panel where
  "waiting_panel = (fresh_panel demo_config)
     \<lparr>pn_sessions := [''adm'' \<mapsto> \<lparr>si_expires = 1000, si_created = 0, si_ip = []\<rparr>],
      pn_twoFA := [''w'' \<mapsto> \<lparr>pl_code = ''newsecret'', pl_expires = 1000, pl_attempts = 0\<rparr>]\<rparr>"

theorem waiting_login_survives_password_change_witness:
  "live_session (demo_env 30 ''z'') (demo_request ''/'' (Some ''b'') [])
     (fst (serve (demo_env 20 ''b'') (demo_request ''/login2fa'' (Some ''w'') ''newsecret'')
       (fst (serve (demo_env 10 ''a'') (demo_request ''/api/password'' (Some ''adm'') ''newsecret'') waiting_panel))))"
  using waiting_login_survives_password_change [of "demo_request ''/api/password'' (Some ''adm'') ''newsecret''"
      "demo_env 10 ''a''" waiting_panel "demo_env 20 ''b''" "demo_request ''/login2fa'' (Some ''w'') ''newsecret''" "''w''"
      "\<lparr>pl_code = ''newsecret'', pl_expires = 1000, pl_attempts = 0\<rparr>" "demo_request ''/'' (Some ''b'') []" "demo_env 30 ''z''"]
  by (simp add: demo_request_def demo_env_def waiting_panel_def live_session_def right_code_def TrimSpace_def
      is_space_def sessionLifetime_def minute_def)

end
