(* ===== verification/Noise.thy ===== *)
theory Noise
  imports Go_Prelude
begin

text \<open>
  The stealth transport: \<open>internal/utils/network/noise.go\<close>, its handshake, version negotiation and padded
  record layer.

  The Noise library and the key derivation are not part of the repository and are arguments: a handshake
  state writes and reads messages and yields two cipher states with the second message; a cipher state
  encrypts and decrypts.  \<open>noise_ok\<close> states what the library documents of them for two ends with the same
  prologue and key; \<open>twin\<close> relates a sending state to the receiving state of the other end.  Encryption may
  fail (the library refuses the last nonce).  Random draws are arguments.
\<close>

section \<open>Parameters\<close>

record ('h, 'c) noise_lib =
  nl_new :: "bool \<Rightarrow> bytes \<Rightarrow> bytes \<Rightarrow> nat \<Rightarrow> 'h"
  nl_WriteMessage :: "'h \<Rightarrow> bytes \<Rightarrow> ('h \<times> bytes \<times> ('c \<times> 'c) option) option"
  nl_ReadMessage :: "'h \<Rightarrow> bytes \<Rightarrow> ('h \<times> bytes \<times> ('c \<times> 'c) option) option"
  nl_Encrypt :: "'c \<Rightarrow> bytes \<Rightarrow> ('c \<times> bytes) option"
  nl_Decrypt :: "'c \<Rightarrow> bytes \<Rightarrow> ('c \<times> bytes) option"

definition noisePrologue :: bytes where "noisePrologue = str_bytes ''arange-tun-noise-v1''"
definition noiseMaxPayload :: nat where "noiseMaxPayload = 65535 - 16"
definition noiseVersion :: byte where "noiseVersion = 1"
definition noiseVersionPadding :: byte where "noiseVersionPadding = 1"
definition noiseMaxPad :: nat where "noiseMaxPad = 255"
definition noisePaddedMaxPayload :: nat where "noisePaddedMaxPayload = noiseMaxPayload - 1 - noiseMaxPad"

lemmas noise_consts = noiseMaxPayload_def noiseMaxPad_def noisePaddedMaxPayload_def noiseVersion_def
  noiseVersionPadding_def

datatype noise_error = NoiseRead io_error | EmptyFrame | TooLarge | Rejected | BuildFailed | Incomplete
  | EncryptFailed | ConnFailed | AuthFailed | EmptyRecord | BadPadding

section \<open>Frames\<close>

definition writeNoiseFrame :: "bytes \<Rightarrow> noise_error + bytes" where
  "writeNoiseFrame msg = (if length msg > 65535 then Inl TooLarge else Inr (be16 (len16 msg) @ msg))"

definition readNoiseFrame :: "bytes \<Rightarrow> noise_error + (bytes \<times> bytes)" where
  "readNoiseFrame s =
     (case read_full 2 s of
        Inl e \<Rightarrow> Inl (NoiseRead e)
      | Inr (hdr, s1) \<Rightarrow>
          (let n = unat (u16_at hdr 0) in
           if n = 0 then Inl EmptyFrame
           else case read_full n s1 of
               Inl e \<Rightarrow> Inl (NoiseRead e)
             | Inr (buf, s2) \<Rightarrow> Inr (buf, s2)))"

section \<open>Handshake\<close>

record 'c noiseConn =
  nc_pad :: bool
  nc_send :: 'c
  nc_padBuf :: bytes
  nc_recv :: 'c
  nc_readBuf :: bytes

definition versionFromPayload :: "bytes \<Rightarrow> byte" where
  "versionFromPayload payload = (if length payload = 0 then 0 else payload ! 0)"

definition noise_conn_of :: "('c \<times> 'c) option \<Rightarrow> bool \<Rightarrow> byte \<Rightarrow> bytes \<Rightarrow> noise_error + ('c noiseConn \<times> bytes)" where
  "noise_conn_of css initiator peerVersion s =
     (case css of
        None \<Rightarrow> Inl Incomplete
      | Some (cs0, cs1) \<Rightarrow>
          Inr (\<lparr>nc_pad = (noiseVersion \<ge> noiseVersionPadding \<and> peerVersion \<ge> noiseVersionPadding),
               nc_send = (if initiator then cs0 else cs1), nc_padBuf = [],
               nc_recv = (if initiator then cs1 else cs0), nc_readBuf = []\<rparr>, s))"

text \<open>What the end sends, and its connection with the bytes that follow the handshake; \<open>s\<close> are the bytes that
  will arrive and \<open>r\<close> the draw of its ephemeral key.\<close>

definition noiseHandshake ::
    "('h, 'c) noise_lib \<Rightarrow> (string \<Rightarrow> bytes) \<Rightarrow> string \<Rightarrow> bool \<Rightarrow> nat \<Rightarrow> bytes \<Rightarrow>
     bytes \<times> (noise_error + ('c noiseConn \<times> bytes))" where
  "noiseHandshake L noisePSK token initiator r s =
     (let hs = nl_new L initiator noisePrologue (noisePSK token) r in
      if initiator then
        (case nl_WriteMessage L hs [noiseVersion] of
           None \<Rightarrow> ([], Inl BuildFailed)
         | Some (hs, msg, _) \<Rightarrow>
             (case writeNoiseFrame msg of
                Inl e \<Rightarrow> ([], Inl e)
              | Inr out \<Rightarrow>
                  (case readNoiseFrame s of
                     Inl e \<Rightarrow> (out, Inl e)
                   | Inr (inm, s1) \<Rightarrow>
                       (case nl_ReadMessage L hs inm of
                          None \<Rightarrow> (out, Inl Rejected)
                        | Some (_, payload, css) \<Rightarrow>
                            (out, noise_conn_of css True (versionFromPayload payload) s1)))))
      else
        (case readNoiseFrame s of
           Inl e \<Rightarrow> ([], Inl e)
         | Inr (inm, s1) \<Rightarrow>
             (case nl_ReadMessage L hs inm of
                None \<Rightarrow> ([], Inl Rejected)
              | Some (hs, payload, _) \<Rightarrow>
                  (let peerVersion = versionFromPayload payload;
                       reply = (if peerVersion > 0 then [noiseVersion] else []) in
                   case nl_WriteMessage L hs reply of
                     None \<Rightarrow> ([], Inl BuildFailed)
                   | Some (_, msg, css) \<Rightarrow>
                       (case writeNoiseFrame msg of
                          Inl e \<Rightarrow> ([], Inl e)
                        | Inr out \<Rightarrow> (out, noise_conn_of css False peerVersion s1))))))"

section \<open>Records\<close>

text \<open>\<open>nc_padBuf\<close> is the whole backing array of the reused buffer; the record is a prefix of it.\<close>

definition plaintext :: "byte \<Rightarrow> bytes \<Rightarrow> 'c noiseConn \<Rightarrow> bytes \<times> 'c noiseConn" where
  "plaintext rnd chunk c =
     (if \<not> nc_pad c then (chunk, c)
      else
        (let padLen = unat rnd;
             need = 1 + length chunk + padLen;
             buf = (if length (nc_padBuf c) < need then replicate need 0 else nc_padBuf c);
             buf = buf[0 := word_of_nat padLen];
             buf = copy_at 1 (need - 1) chunk buf;
             buf = take (1 + length chunk) buf @ replicate padLen 0 @ drop need buf in
         (take need buf, c\<lparr>nc_padBuf := buf\<rparr>)))"

definition unpad :: "bool \<Rightarrow> bytes \<Rightarrow> noise_error + bytes" where
  "unpad pad plain =
     (if \<not> pad then Inr plain
      else if length plain < 1 then Inl EmptyRecord
      else if 1 + unat (plain ! 0) > length plain then Inl BadPadding
      else Inr (take (length plain - unat (plain ! 0) - 1) (drop 1 plain)))"

text \<open>The loop of \<open>Write\<close> on what is left of the argument; \<open>rnd k\<close> is the padding of the \<open>k\<close>-th record and
  \<open>fails k\<close> says that the connection refuses it.  The result is the count, the error and the bytes the
  connection took.\<close>

function nc_write_loop ::
    "('h, 'c) noise_lib \<Rightarrow> (nat \<Rightarrow> byte) \<Rightarrow> (nat \<Rightarrow> bool) \<Rightarrow> nat \<Rightarrow> bytes \<Rightarrow> nat \<Rightarrow> 'c noiseConn \<Rightarrow>
     nat \<times> noise_error option \<times> bytes \<times> 'c noiseConn" where
  "nc_write_loop L rnd fails k p sent c =
     (if 0 < length p then
        (let limit = (if nc_pad c then noisePaddedMaxPayload else noiseMaxPayload);
             chunk = take limit p;
             (plain, c) = plaintext (rnd k) chunk c in
         case nl_Encrypt L (nc_send c) plain of
           None \<Rightarrow> (sent, Some EncryptFailed, [], c)
         | Some (cs, enc) \<Rightarrow>
             (let c = c\<lparr>nc_send := cs\<rparr> in
              case writeNoiseFrame enc of
                Inl e \<Rightarrow> (sent, Some e, [], c)
              | Inr frame \<Rightarrow>
                  (if fails k then (sent, Some ConnFailed, [], c)
                   else case nc_write_loop L rnd fails (Suc k) (drop (length chunk) p) (sent + length chunk) c of
                       (n, err, out, c) \<Rightarrow> (n, err, frame @ out, c))))
      else (sent, None, [], c))"
  by pat_completeness auto
termination
  by (relation "measure (\<lambda>(_, _, _, _, p, _, _). length p)") (auto simp: noise_consts)

declare nc_write_loop.simps [simp del]

definition nc_Write ::
    "('h, 'c) noise_lib \<Rightarrow> (nat \<Rightarrow> byte) \<Rightarrow> (nat \<Rightarrow> bool) \<Rightarrow> bytes \<Rightarrow> 'c noiseConn \<Rightarrow>
     nat \<times> noise_error option \<times> bytes \<times> 'c noiseConn" where
  "nc_Write L rnd fails p c = nc_write_loop L rnd fails 0 p 0 c"

text \<open>The loop of \<open>Read\<close> that fills the buffer; every turn takes a frame off the stream.\<close>

function nc_fill ::
    "('h, 'c) noise_lib \<Rightarrow> bytes \<Rightarrow> 'c noiseConn \<Rightarrow> noise_error option \<times> bytes \<times> 'c noiseConn" where
  "nc_fill L s c =
     (if nc_readBuf c \<noteq> [] then (None, s, c)
      else
        (case readNoiseFrame s of
           Inl e \<Rightarrow> (Some e, [], c)
         | Inr (frame, s1) \<Rightarrow>
             (case nl_Decrypt L (nc_recv c) frame of
                None \<Rightarrow> (Some AuthFailed, s1, c)
              | Some (cs, plain) \<Rightarrow>
                  (let c = c\<lparr>nc_recv := cs\<rparr> in
                   case unpad (nc_pad c) plain of
                     Inl e \<Rightarrow> (Some e, s1, c)
                   | Inr plain \<Rightarrow> nc_fill L s1 (c\<lparr>nc_readBuf := plain\<rparr>)))))"
  by pat_completeness auto

lemma readNoiseFrame_InrD: "readNoiseFrame s = Inr (m, s1) \<Longrightarrow> length s1 < length s"
  by (auto simp: readNoiseFrame_def Let_def dest!: read_full_InrD split: sum.splits prod.splits if_splits)

termination nc_fill
  by (relation "measure (\<lambda>(_, s, _). length s)") (auto dest: readNoiseFrame_InrD)

declare nc_fill.simps [simp del]

definition nc_Read ::
    "('h, 'c) noise_lib \<Rightarrow> nat \<Rightarrow> bytes \<times> 'c noiseConn \<Rightarrow> (noise_error + bytes) \<times> bytes \<times> 'c noiseConn" where
  "nc_Read L n sc =
     (case nc_fill L (fst sc) (snd sc) of
        (Some e, s, c) \<Rightarrow> (Inl e, s, c)
      | (None, s, c) \<Rightarrow> (Inr (take n (nc_readBuf c)), s, c\<lparr>nc_readBuf := drop n (nc_readBuf c)\<rparr>))"

section \<open>One frame, one record\<close>

lemma readNoiseFrame_frame:
  assumes "m \<noteq> []" "length m \<le> 65535"
  shows "readNoiseFrame (be16 (len16 m) @ m @ rest) = Inr (m, rest)"
  using assms by (simp add: readNoiseFrame_def Let_def)

lemma readNoiseFrame_short:
  assumes "m \<noteq> []" "length m \<le> 65535" "k < length (be16 (len16 m) @ m)"
  shows "\<exists>e. readNoiseFrame (take k (be16 (len16 m) @ m)) = Inl e"
proof (cases "k < 2")
  case True
  then show ?thesis using read_full_short [of "take k (be16 (len16 m) @ m)" 2] by (auto simp: readNoiseFrame_def)
next
  case False
  then have "read_full 2 (take k (be16 (len16 m) @ m)) = Inr (be16 (len16 m), take (k - 2) m)" by simp
  moreover have "length (take (k - 2) m) < length m" using assms(3) False by simp
  then obtain e where "read_full (length m) (take (k - 2) m) = Inl e" using read_full_short by blast
  ultimately show ?thesis using assms by (simp add: readNoiseFrame_def Let_def)
qed

interpretation noise_frame: codec "\<lambda>m. be16 (len16 m) @ m" readNoiseFrame "\<lambda>m. m \<noteq> [] \<and> length m \<le> 65535"
  by unfold_locales (simp add: readNoiseFrame_frame, blast intro: readNoiseFrame_short)

lemma plaintext_record:
  "fst (plaintext rnd chunk c) = (if nc_pad c then rnd # chunk @ replicate (unat rnd) 0 else chunk)"
proof -
  have "take (Suc (length chunk)) (copy_at 1 (length chunk + unat rnd) chunk (buf[0 := rnd])) = rnd # chunk"
    if "1 + length chunk + unat rnd \<le> length buf" for buf
    using that by (cases buf) (simp_all add: copy_at_def)
  from this [of "nc_padBuf c"] this [of "replicate (1 + length chunk + unat rnd) 0"] show ?thesis
    by (simp add: plaintext_def Let_def)
qed

lemma plaintext_same [simp]:
  "nc_pad (snd (plaintext rnd chunk c)) = nc_pad c" "nc_send (snd (plaintext rnd chunk c)) = nc_send c"
  "nc_recv (snd (plaintext rnd chunk c)) = nc_recv c" "nc_readBuf (snd (plaintext rnd chunk c)) = nc_readBuf c"
  by (simp_all add: plaintext_def Let_def)

lemma unpad_plaintext: "unpad (nc_pad c) (fst (plaintext rnd chunk c)) = Inr chunk"
  by (simp add: plaintext_record unpad_def)

lemma length_plaintext:
  "length (fst (plaintext rnd chunk c)) \<le> (if nc_pad c then length chunk + 256 else length chunk)"
  using unat_byte_le [of rnd] by (simp add: plaintext_record)

section \<open>Streams of records\<close>

inductive noise_frames ::
    "('h, 'c) noise_lib \<Rightarrow> bool \<Rightarrow> 'c \<Rightarrow> bytes list \<Rightarrow> bytes \<Rightarrow> 'c \<Rightarrow> bool" for L pad where
  no_frames: "noise_frames L pad d [] [] d"
| more_frames: "nl_Decrypt L d e = Some (d1, plain) \<Longrightarrow> unpad pad plain = Inr chunk \<Longrightarrow> e \<noteq> [] \<Longrightarrow> length e \<le> 65535 \<Longrightarrow>
    noise_frames L pad d1 chunks s d2 \<Longrightarrow> noise_frames L pad d (chunk # chunks) (be16 (len16 e) @ e @ s) d2"

inductive_cases no_framesE: "noise_frames L pad d [] s d'"
inductive_cases more_framesE: "noise_frames L pad d (chunk # chunks) s d'"

lemma noise_frames_append:
  "noise_frames L pad d xs s d1 \<Longrightarrow> noise_frames L pad d1 ys t d2 \<Longrightarrow> noise_frames L pad d (xs @ ys) (s @ t) d2"
  by (induction rule: noise_frames.induct) (auto intro: noise_frames.intros)

definition noise_pending :: "('h, 'c) noise_lib \<Rightarrow> bytes \<times> 'c noiseConn \<Rightarrow> bytes \<Rightarrow> bool" where
  "noise_pending L sc b =
     (\<exists>chunks d. noise_frames L (nc_pad (snd sc)) (nc_recv (snd sc)) chunks (fst sc) d \<and>
        b = nc_readBuf (snd sc) @ concat chunks)"

lemma nc_fill_frames:
  assumes "noise_frames L (nc_pad c) (nc_recv c) chunks s d" "b = nc_readBuf c @ concat chunks"
  shows "if b = [] then \<exists>s' c'. nc_fill L s c = (Some (NoiseRead EOF), s', c')
    else \<exists>s' c'. nc_fill L s c = (None, s', c') \<and> nc_readBuf c' \<noteq> [] \<and> noise_pending L (s', c') b"
  using assms
proof (induction chunks arbitrary: s c)
  case Nil
  then have "s = []" by (auto elim: no_framesE)
  then show ?case
    using Nil by (auto simp: nc_fill.simps [of L "[]" c] noise_pending_def readNoiseFrame_def read_full_def)
next
  case (Cons chunk chunks)
  show ?case
  proof (cases "nc_readBuf c = []")
    case False
    then show ?thesis using Cons.prems by (auto simp: nc_fill.simps [of L s c] noise_pending_def)
  next
    case True
    from Cons.prems(1) obtain e d1 plain s1 where e: "nl_Decrypt L (nc_recv c) e = Some (d1, plain)"
        "unpad (nc_pad c) plain = Inr chunk" "e \<noteq> []" "length e \<le> 65535" "noise_frames L (nc_pad c) d1 chunks s1 d"
        "s = be16 (len16 e) @ e @ s1"
      by (auto elim: more_framesE)
    let ?c = "c\<lparr>nc_recv := d1, nc_readBuf := chunk\<rparr>"
    have fill: "nc_fill L s c = nc_fill L s1 ?c"
      using True e(1,2) readNoiseFrame_frame [OF e(3,4), of s1]
      unfolding e(6) by (simp add: nc_fill.simps [of L "be16 (len16 e) @ e @ s1" c])
    have "noise_frames L (nc_pad ?c) (nc_recv ?c) chunks s1 d" "b = nc_readBuf ?c @ concat chunks"
      using e(5) Cons.prems(2) True by simp_all
    from Cons.IH [OF this] show ?thesis unfolding fill .
  qed
qed

interpretation noise: byte_reader "nc_Read L" "noise_pending L" "NoiseRead EOF" for L
proof
  fix sc :: "bytes \<times> 'b noiseConn" and b and n :: nat
  assume p: "noise_pending L sc b" and b: "b \<noteq> []" and n: "0 < n"
  from p obtain chunks d where "noise_frames L (nc_pad (snd sc)) (nc_recv (snd sc)) chunks (fst sc) d"
      "b = nc_readBuf (snd sc) @ concat chunks"
    by (auto simp: noise_pending_def)
  from nc_fill_frames [OF this] b obtain s' c' where f: "nc_fill L (fst sc) (snd sc) = (None, s', c')"
      "nc_readBuf c' \<noteq> []" "noise_pending L (s', c') b"
    by auto
  from f(3) obtain chunks d where "noise_frames L (nc_pad c') (nc_recv c') chunks s' d" "b = nc_readBuf c' @ concat chunks"
    by (auto simp: noise_pending_def)
  then show "\<exists>x b' s'. nc_Read L n sc = (Inr x, s') \<and> b = x @ b' \<and> x \<noteq> [] \<and> length x \<le> n \<and> noise_pending L s' b'"
    using f n by (intro exI [of _ "take n (nc_readBuf c')"] exI [of _ "drop n (nc_readBuf c') @ concat chunks"]
        exI [of _ "(s', c'\<lparr>nc_readBuf := drop n (nc_readBuf c')\<rparr>)"]) (auto simp: nc_Read_def noise_pending_def)
next
  fix sc :: "bytes \<times> 'b noiseConn" and n :: nat
  assume "noise_pending L sc []"
  then obtain chunks d where "noise_frames L (nc_pad (snd sc)) (nc_recv (snd sc)) chunks (fst sc) d"
      "[] = nc_readBuf (snd sc) @ concat chunks"
    by (auto simp: noise_pending_def)
  from nc_fill_frames [OF this] show "\<exists>s'. nc_Read L n sc = (Inl (NoiseRead EOF), s')" by (auto simp: nc_Read_def)
qed


section \<open>Writing\<close>

text \<open>What is used of the library's record layer and handshake.\<close>

definition ciphers_ok :: "('h, 'c) noise_lib \<Rightarrow> ('c \<Rightarrow> 'c \<Rightarrow> bool) \<Rightarrow> bool" where
  "ciphers_ok L twin =
     (\<forall>c d p c' e. twin c d \<longrightarrow> nl_Encrypt L c p = Some (c', e) \<longrightarrow>
        length e = length p + 16 \<and> (\<exists>d'. nl_Decrypt L d e = Some (d', p) \<and> twin c' d'))"

definition handshake_ok :: "('h, 'c) noise_lib \<Rightarrow> ('c \<Rightarrow> 'c \<Rightarrow> bool) \<Rightarrow> bool" where
  "handshake_ok L twin =
     (\<forall>prologue psk r1 r2 p1 p2. length p1 \<le> 1 \<longrightarrow> length p2 \<le> 1 \<longrightarrow>
        (\<exists>h1 h2 m1 m2 h1' h2' a0 a1 b0 b1.
           nl_WriteMessage L (nl_new L True prologue psk r1) p1 = Some (h1, m1, None) \<and>
           nl_ReadMessage L (nl_new L False prologue psk r2) m1 = Some (h2, p1, None) \<and>
           nl_WriteMessage L h2 p2 = Some (h2', m2, Some (b0, b1)) \<and>
           nl_ReadMessage L h1 m2 = Some (h1', p2, Some (a0, a1)) \<and>
           length m1 = length p1 + 48 \<and> length m2 = length p2 + 48 \<and> twin a0 b0 \<and> twin b1 a1))"

definition noise_ok :: "('h, 'c) noise_lib \<Rightarrow> ('c \<Rightarrow> 'c \<Rightarrow> bool) \<Rightarrow> bool" where
  "noise_ok L twin = (ciphers_ok L twin \<and> handshake_ok L twin)"

text \<open>A record never exceeds what a frame can carry, and a write that reports no error puts its argument on the
  stream as records for the other end.\<close>

lemma record_fits:
  assumes "ciphers_ok L twin" "twin (nc_send c) d" "nl_Encrypt L (nc_send c) (fst (plaintext r chunk c)) = Some (cs, enc)"
    "length chunk \<le> (if nc_pad c then noisePaddedMaxPayload else noiseMaxPayload)"
  shows "enc \<noteq> []" "length enc \<le> 65535"
    "\<exists>d'. nl_Decrypt L d enc = Some (d', fst (plaintext r chunk c)) \<and> twin cs d'"
proof -
  have e: "length enc = length (fst (plaintext r chunk c)) + 16"
      "\<exists>d'. nl_Decrypt L d enc = Some (d', fst (plaintext r chunk c)) \<and> twin cs d'"
    using assms(1-3) unfolding ciphers_ok_def by blast+
  show "enc \<noteq> []" using e(1) by auto
  show "length enc \<le> 65535"
    using e(1) assms(4) length_plaintext [of r chunk c] by (simp add: noise_consts split: if_splits)
  show "\<exists>d'. nl_Decrypt L d enc = Some (d', fst (plaintext r chunk c)) \<and> twin cs d'" by (rule e(2))
qed

lemma nc_write_loop_frames:
  assumes "ciphers_ok L twin" "twin (nc_send c) d" "nc_write_loop L rnd fails k p sent c = (n, err, out, c')"
  shows "err \<noteq> Some TooLarge \<and> (err = None \<longrightarrow> n = sent + length p \<and> nc_pad c' = nc_pad c \<and> nc_recv c' = nc_recv c \<and>
    nc_readBuf c' = nc_readBuf c \<and>
    (\<exists>chunks d'. noise_frames L (nc_pad c) d chunks out d' \<and> concat chunks = p \<and> twin (nc_send c') d'))"
  using assms(2,3)
proof (induction "length p" arbitrary: p k sent c d n err out rule: less_induct)
  case less
  let ?limit = "if nc_pad c then noisePaddedMaxPayload else noiseMaxPayload"
  let ?chunk = "take ?limit p"
  let ?plain = "fst (plaintext (rnd k) ?chunk c)" and ?c = "snd (plaintext (rnd k) ?chunk c)"
  have loop0: "nc_write_loop L rnd fails k p sent c =
      (case nl_Encrypt L (nc_send c) ?plain of
         None \<Rightarrow> (sent, Some EncryptFailed, [], ?c)
       | Some (cs, enc) \<Rightarrow>
           (case writeNoiseFrame enc of
              Inl e \<Rightarrow> (sent, Some e, [], ?c\<lparr>nc_send := cs\<rparr>)
            | Inr frame \<Rightarrow>
                (if fails k then (sent, Some ConnFailed, [], ?c\<lparr>nc_send := cs\<rparr>)
                 else case nc_write_loop L rnd fails (Suc k) (drop (length ?chunk) p) (sent + length ?chunk)
                        (?c\<lparr>nc_send := cs\<rparr>) of
                     (n, err, out, c) \<Rightarrow> (n, err, frame @ out, c))))" if "p \<noteq> []"
    using that by (subst nc_write_loop.simps, unfold Let_def case_prod_beta) (simp split: option.splits sum.splits)
  show ?case
  proof (cases "p = []")
    case True
    then show ?thesis using less.prems
      by (auto simp: nc_write_loop.simps [of L rnd fails k] intro!: exI [of _ "[]"] exI [of _ d] no_frames)
  next
    case False
    show ?thesis
    proof (cases "nl_Encrypt L (nc_send c) ?plain")
      case None
      then show ?thesis using less.prems(2) loop0 [OF False] by auto
    next
      case (Some x)
      then obtain cs enc where enc: "nl_Encrypt L (nc_send c) ?plain = Some (cs, enc)" by (cases x) auto
      note fit = record_fits [OF assms(1) less.prems(1) enc, simplified]
      let ?frame = "be16 (len16 enc) @ enc" and ?c1 = "?c\<lparr>nc_send := cs\<rparr>"
      have frame: "writeNoiseFrame enc = Inr ?frame" using fit(2) by (simp add: writeNoiseFrame_def)
      have loop: "nc_write_loop L rnd fails k p sent c =
          (if fails k then (sent, Some ConnFailed, [], ?c1)
           else case nc_write_loop L rnd fails (Suc k) (drop (length ?chunk) p) (sent + length ?chunk) ?c1 of
               (n, err, out, c) \<Rightarrow> (n, err, ?frame @ out, c))"
        using loop0 [OF False] enc frame by simp
      show ?thesis
      proof (cases "fails k")
        case True
        then show ?thesis using less.prems(2) loop by auto
      next
        case ok: False
        obtain d1 where d1: "nl_Decrypt L d enc = Some (d1, ?plain)" "twin cs d1" using fit(3) by blast
        obtain out1 where rec: "nc_write_loop L rnd fails (Suc k) (drop (length ?chunk) p) (sent + length ?chunk) ?c1
              = (n, err, out1, c')" "out = ?frame @ out1"
          using less.prems(2) loop ok by (auto split: prod.splits)
        have "0 < length ?chunk" using False by (simp add: noise_consts)
        then have "length (drop (length ?chunk) p) < length p" using False by simp
        from less.hyps [OF this _ rec(1), of d1] d1(2)
        have IH: "err \<noteq> Some TooLarge \<and> (err = None \<longrightarrow> n = sent + length ?chunk + length (drop (length ?chunk) p) \<and>
            nc_pad c' = nc_pad c \<and> nc_recv c' = nc_recv c \<and> nc_readBuf c' = nc_readBuf c \<and>
            (\<exists>chunks d'. noise_frames L (nc_pad c) d1 chunks out1 d' \<and> concat chunks = drop (length ?chunk) p \<and>
               twin (nc_send c') d'))"
          by simp
        have "\<exists>chunks d'. noise_frames L (nc_pad c) d chunks out d' \<and> concat chunks = p \<and> twin (nc_send c') d'"
          if tail: "noise_frames L (nc_pad c) d1 chunks out1 d'" "concat chunks = drop (length ?chunk) p" "twin (nc_send c') d'"
          for chunks d'
        proof -
          have "noise_frames L (nc_pad c) d (?chunk # chunks) out d'"
            using more_frames [OF d1(1) unpad_plaintext fit(1,2) tail(1)] rec(2) by simp
          moreover have "concat (?chunk # chunks) = p" using tail(2) by (cases "?limit \<le> length p") auto
          ultimately show ?thesis using tail(3) by blast
        qed
        then show ?thesis using IH by auto
      qed
    qed
  qed
qed


section \<open>Delivery\<close>

fun nc_writes ::
    "('h, 'c) noise_lib \<Rightarrow> ((nat \<Rightarrow> byte) \<times> bytes) list \<Rightarrow> 'c noiseConn \<Rightarrow> noise_error option \<times> bytes \<times> 'c noiseConn" where
  "nc_writes L [] c = (None, [], c)"
| "nc_writes L ((rnd, p) # ps) c =
     (case nc_Write L rnd (\<lambda>_. False) p c of
        (_, Some e, out, c1) \<Rightarrow> (Some e, out, c1)
      | (_, None, out, c1) \<Rightarrow> (case nc_writes L ps c1 of (err, outs, c2) \<Rightarrow> (err, out @ outs, c2)))"

lemma nc_writes_frames:
  assumes "ciphers_ok L twin" "twin (nc_send c) d" "nc_writes L ps c = (err, out, c')"
  shows "err \<noteq> Some TooLarge \<and> (err = None \<longrightarrow>
    (\<exists>chunks d'. noise_frames L (nc_pad c) d chunks out d' \<and> concat chunks = concat (map snd ps)))"
  using assms(2,3)
proof (induction ps arbitrary: c d out)
  case Nil
  then show ?case by (auto intro!: exI [of _ "[]"] no_frames)
next
  case (Cons w ps)
  obtain rnd p where w: "w = (rnd, p)" by (cases w)
  obtain n e out1 c1 where one: "nc_Write L rnd (\<lambda>_. False) p c = (n, e, out1, c1)" by (metis prod.exhaust)
  note f = nc_write_loop_frames [OF assms(1) Cons.prems(1) one [unfolded nc_Write_def]]
  show ?case
  proof (cases e)
    case (Some x)
    then show ?thesis using f one Cons.prems(2) by (auto simp: w)
  next
    case None
    then obtain chunks d1 where ch: "noise_frames L (nc_pad c) d chunks out1 d1" "concat chunks = p"
        "twin (nc_send c1) d1" "nc_pad c1 = nc_pad c"
      using f by auto
    obtain out2 where more: "nc_writes L ps c1 = (err, out2, c')" "out = out1 @ out2"
      using Cons.prems(2) one None by (auto simp: w split: prod.splits)
    show ?thesis
    proof (intro conjI impI)
      show "err \<noteq> Some TooLarge" using Cons.IH [OF ch(3) more(1)] by blast
      assume "err = None"
      then obtain chunks2 d2 where "noise_frames L (nc_pad c) d1 chunks2 out2 d2" "concat chunks2 = concat (map snd ps)"
        using Cons.IH [OF ch(3) more(1)] ch(4) by auto
      then show "\<exists>chunks d'. noise_frames L (nc_pad c) d chunks out d' \<and> concat chunks = concat (map snd (w # ps))"
        using noise_frames_append [OF ch(1)] ch(2) more(2)
        by (intro exI [of _ "chunks @ chunks2"] exI [of _ d2]) (auto simp: w)
    qed
  qed
qed

text \<open>Whatever is written at one end without error is read at the other, in order, whatever the sizes of the
  writes and reads: a prefix so far, all of it once the reads are enough, and then the end of the stream.  No
  write fails because a record is too large.\<close>

definition delivers :: "('h, 'c) noise_lib \<Rightarrow> 'c noiseConn \<Rightarrow> 'c noiseConn \<Rightarrow> bool" where
  "delivers L c d =
     (\<forall>ps ns werr out c'. (\<forall>n \<in> set ns. 0 < n) \<longrightarrow> nc_writes L ps c = (werr, out, c') \<longrightarrow>
        werr \<noteq> Some TooLarge \<and>
        (werr = None \<longrightarrow>
           (\<exists>bs rerr st rest. read_many (nc_Read L) ns (out, d) = (bs, rerr, st) \<and> concat (map snd ps) = bs @ rest \<and>
              (rerr = None \<or> rerr = Some (NoiseRead EOF) \<and> rest = []) \<and>
              (length (concat (map snd ps)) \<le> length ns \<longrightarrow> rest = []))))"

lemma twins_deliver:
  assumes "ciphers_ok L twin" "twin (nc_send c) (nc_recv d)" "nc_pad c = nc_pad d" "nc_readBuf d = []"
  shows "delivers L c d"
  unfolding delivers_def
proof (intro allI impI)
  fix ps ns werr out c'
  assume ns: "\<forall>n \<in> set ns. 0 < (n::nat)" and w: "nc_writes L ps c = (werr, out, c')"
  note f = nc_writes_frames [OF assms(1,2) w]
  obtain bs rerr st where r: "read_many (nc_Read L) ns (out, d) = (bs, rerr, st)" by (metis prod.exhaust)
  have "\<exists>rest. concat (map snd ps) = bs @ rest \<and> (rerr = None \<or> rerr = Some (NoiseRead EOF) \<and> rest = []) \<and>
      (length (concat (map snd ps)) \<le> length ns \<longrightarrow> rest = [])" if "werr = None"
  proof -
    have "noise_pending L (out, d) (concat (map snd ps))" using f that assms(3,4) by (auto simp: noise_pending_def)
    from noise.read_many_delivers [OF this ns r] show ?thesis by blast
  qed
  then show "werr \<noteq> Some TooLarge \<and>
      (werr = None \<longrightarrow>
         (\<exists>bs rerr st rest. read_many (nc_Read L) ns (out, d) = (bs, rerr, st) \<and> concat (map snd ps) = bs @ rest \<and>
            (rerr = None \<or> rerr = Some (NoiseRead EOF) \<and> rest = []) \<and>
            (length (concat (map snd ps)) \<le> length ns \<longrightarrow> rest = [])))"
    using f r by blast
qed

text \<open>(C26) Two ends with the same token complete the stealth handshake, agree to pad their records, and then carry
  bytes in both directions: what is written at one end is read at the other, for every draw of the padding and
  every size of the writes and reads, and no write fails because its record is too large.\<close>

theorem noise_stream_delivers:
  assumes "noise_ok L twin"
  shows "\<exists>m1 m2 ci cr. (\<forall>s. noiseHandshake L psk token True r1 (m2 @ s) = (m1, Inr (ci, s))) \<and>
    (\<forall>s. noiseHandshake L psk token False r2 (m1 @ s) = (m2, Inr (cr, s))) \<and>
    nc_pad ci \<and> nc_pad cr \<and> delivers L ci cr \<and> delivers L cr ci"
proof -
  have c: "ciphers_ok L twin" and h: "handshake_ok L twin" using assms by (simp_all add: noise_ok_def)
  from h [unfolded handshake_ok_def, rule_format, of "[1]" "[1]" noisePrologue "psk token" r1 r2]
  obtain h1 h2 m1 m2 h1' h2' a0 a1 b0 b1 where m:
      "nl_WriteMessage L (nl_new L True noisePrologue (psk token) r1) [1] = Some (h1, m1, None)"
      "nl_ReadMessage L (nl_new L False noisePrologue (psk token) r2) m1 = Some (h2, [1], None)"
      "nl_WriteMessage L h2 [1] = Some (h2', m2, Some (b0, b1))"
      "nl_ReadMessage L h1 m2 = Some (h1', [1], Some (a0, a1))"
      "length m1 = 49" "length m2 = 49" "twin a0 b0" "twin b1 a1"
    by auto
  let ?f1 = "be16 (len16 m1) @ m1" and ?f2 = "be16 (len16 m2) @ m2"
  let ?ci = "\<lparr>nc_pad = True, nc_send = a0, nc_padBuf = [], nc_recv = a1, nc_readBuf = []\<rparr>"
    and ?cr = "\<lparr>nc_pad = True, nc_send = b1, nc_padBuf = [], nc_recv = b0, nc_readBuf = []\<rparr>"
  have ne: "m1 \<noteq> []" "m2 \<noteq> []" using m(5,6) by auto
  have "noiseHandshake L psk token True r1 (?f2 @ s) = (?f1, Inr (?ci, s))" for s
    using m ne readNoiseFrame_frame [of m2 s]
    by (simp add: noiseHandshake_def noise_consts writeNoiseFrame_def noise_conn_of_def versionFromPayload_def)
  moreover have "noiseHandshake L psk token False r2 (?f1 @ s) = (?f2, Inr (?cr, s))" for s
    using m ne readNoiseFrame_frame [of m1 s]
    by (simp add: noiseHandshake_def noise_consts writeNoiseFrame_def noise_conn_of_def versionFromPayload_def)
  moreover have "delivers L ?ci ?cr" "delivers L ?cr ?ci"
    using m(7,8) by (auto intro!: twins_deliver [OF c])
  ultimately show ?thesis by (intro exI [of _ ?f1] exI [of _ ?f2] exI [of _ ?ci] exI [of _ ?cr]) simp
qed

text \<open>A library that meets the documented behaviour: the key is not secret and a record carries its number.\<close>

definition plain_lib :: "(nat, nat) noise_lib" where
  "plain_lib =
     \<lparr>nl_new = (\<lambda>initiator _ _ _. if initiator then 0 else 1),
      nl_WriteMessage = (\<lambda>h p. Some (h, replicate 48 0 @ p, if h = 0 then None else Some (0, 0))),
      nl_ReadMessage = (\<lambda>h m. Some (h, drop 48 m, if h = 0 then Some (0, 0) else None)),
      nl_Encrypt = (\<lambda>c p. if c < 2 ^ 64 - 1 then Some (Suc c, replicate 16 (word_of_nat c) @ p) else None),
      nl_Decrypt = (\<lambda>d e. if 16 \<le> length e \<and> take 16 e = replicate 16 (word_of_nat d) then Some (Suc d, drop 16 e) else None)\<rparr>"

lemma plain_lib_ok: "noise_ok plain_lib (=)"
  by (auto simp: noise_ok_def ciphers_ok_def handshake_ok_def plain_lib_def split: if_splits)

theorem noise_stream_delivers_witness:
  "\<exists>m1 m2 ci cr. (\<forall>s. noiseHandshake plain_lib (\<lambda>t. [1, 2]) ''token'' True 5 (m2 @ s) = (m1, Inr (ci, s))) \<and>
    (\<forall>s. noiseHandshake plain_lib (\<lambda>t. [1, 2]) ''token'' False 6 (m1 @ s) = (m2, Inr (cr, s))) \<and>
    nc_pad ci \<and> nc_pad cr \<and> delivers plain_lib ci cr \<and> delivers plain_lib cr ci"
  by (rule noise_stream_delivers [OF plain_lib_ok])

end
