(* ===== verification/Watchdog.thy ===== *)
theory Watchdog
  imports Go_Strings
begin

text \<open>
  Watching the tunnels: the watchdog (\<open>internal/manage/watchdog.go\<close>) and the health shown for each tunnel
  (\<open>health.go\<close>, with \<open>isDatagram\<close> of \<open>config.go\<close> and \<open>matchActiveStates\<close> of \<open>systemd.go\<close>).

  A tick of the watchdog is a function of what it observes: the output of \<open>ss\<close>, the list of tunnels, which
  services are active and the clock before and after a restart.  \<open>net.ParseIP\<close> is an argument whose result
  is the 16-byte form.  The maps of the watchdog give zero values for absent keys, except the time of the
  last restart, where the zero time is \<^const>\<open>None\<close>.
\<close>

section \<open>Socket tables\<close>

text \<open>\<open>strings.Fields\<close>.\<close>

function Fields :: "string \<Rightarrow> string list" where
  "Fields s =
     (let s = dropWhile is_space s in
      if s = [] then [] else takeWhile (\<lambda>c. \<not> is_space c) s # Fields (dropWhile (\<lambda>c. \<not> is_space c) s))"
  by pat_completeness auto
termination
proof (relation "measure length")
  fix s :: string and x
  assume x: "x = dropWhile is_space s" "x \<noteq> []"
  then have "\<not> is_space (hd x)" by (metis dropWhile_eq_Nil_conv hd_dropWhile)
  then have "dropWhile (\<lambda>c. \<not> is_space c) x = dropWhile (\<lambda>c. \<not> is_space c) (tl x)"
    using x(2) by (cases x) auto
  then have "length (dropWhile (\<lambda>c. \<not> is_space c) x) < length x"
    using x(2) length_dropWhile_le [of _ "tl x"] by (cases x) (auto simp: less_Suc_eq_le)
  also have "\<dots> \<le> length s" using x(1) by (simp add: length_dropWhile_le)
  finally show "(dropWhile (\<lambda>c. \<not> is_space c) x, s) \<in> measure length" by simp
qed simp

declare Fields.simps [simp del]

type_synonym pair_list = "(string \<times> string) list"

definition pairs_of :: "string \<Rightarrow> pair_list" where
  "pairs_of out =
     concat (map (\<lambda>line. let f = Fields line in
        if length f < 2 then [] else [(f ! (length f - 2), f ! (length f - 1))]) (Split (CHR 0x0A) out))"

text \<open>The output of \<open>ss\<close>; \<^const>\<open>None\<close> when the command fails.\<close>

definition establishedPairs :: "string option \<Rightarrow> pair_list" where
  "establishedPairs out = (case out of None \<Rightarrow> [] | Some s \<Rightarrow> pairs_of s)"

definition hasRealPeer :: "string \<Rightarrow> bool" where
  "hasRealPeer peer =
     (if peer = [] then False
      else
        (case SplitHostPort peer of
           None \<Rightarrow> False
         | Some (host, port) \<Rightarrow>
             (if port = ''*'' \<or> port = ''0'' then False
              else host \<notin> {''*'', [], ''0.0.0.0'', ''::'', ''[::]''})))"

definition establishedUDPPairs :: "string option \<Rightarrow> pair_list" where
  "establishedUDPPairs out = (case out of None \<Rightarrow> [] | Some s \<Rightarrow> filter (\<lambda>(local, peer). hasRealPeer peer) (pairs_of s))"

definition portOf :: "string \<Rightarrow> string" where
  "portOf hostPort = (case SplitHostPort hostPort of None \<Rightarrow> [] | Some (h, p) \<Rightarrow> p)"

section \<open>Health of one tunnel\<close>

record tunnel =
  tn_Name :: string
  tn_Role :: string
  tn_Transport :: string
  tn_Addr :: string
  tn_Service :: string

definition isDatagram :: "string \<Rightarrow> bool" where
  "isDatagram t = (t \<in> {''udp'', ''kcp'', ''xdi'', ''quic'', ''spoof'', ''pck''})"

text \<open>\<open>udp\<close> is the output of the UDP listing, asked for only when it is needed.\<close>

definition tunnelHealthy :: "(string \<Rightarrow> bytes option) \<Rightarrow> string option \<Rightarrow> tunnel \<Rightarrow> pair_list \<Rightarrow> bool" where
  "tunnelHealthy ParseIP udp t pairs =
     (if tn_Transport t = ''packet'' \<or> tn_Transport t = ''ssh'' \<or> tn_Transport t = ''hedioum'' then True
      else if isDatagram (tn_Transport t) \<and> tn_Role t = ''server'' then True
      else
        (let pairs = (if isDatagram (tn_Transport t) then establishedUDPPairs udp else pairs) in
         if tn_Role t = ''server'' then
           (case SplitHostPort (tn_Addr t) of
              None \<Rightarrow> True
            | Some (_, tport) \<Rightarrow> list_ex (\<lambda>p. portOf (fst p) = tport) pairs)
         else
           (case SplitHostPort (tn_Addr t) of
              None \<Rightarrow> True
            | Some (rhost, rport) \<Rightarrow>
                list_ex (\<lambda>p. case SplitHostPort (snd p) of
                    None \<Rightarrow> False
                  | Some (ph, pp) \<Rightarrow>
                      pp = rport \<and> (case ParseIP rhost of None \<Rightarrow> True | Some rip \<Rightarrow> ParseIP ph = Some rip)) pairs)))"

section \<open>The watchdog\<close>

definition second :: int where "second = 1000000000"
definition wdThreshold :: nat where "wdThreshold = 2"
definition wdCooldown :: int where "wdCooldown = 180 * second"

record wd_state =
  wd_fails :: "string \<Rightarrow> nat"
  wd_last :: "string \<Rightarrow> int option"
  wd_seen :: "string \<Rightarrow> bool"

record wd_tick =
  tk_tcp :: "string option"
  tk_udp :: "string option"
  tk_tunnels :: "tunnel list"
  tk_active :: "string \<Rightarrow> bool"
  tk_now :: "string \<Rightarrow> int"
  tk_done :: "string \<Rightarrow> int"

definition wd_init :: wd_state where
  "wd_init = \<lparr>wd_fails = \<lambda>_. 0, wd_last = \<lambda>_. None, wd_seen = \<lambda>_. False\<rparr>"

text \<open>The body of the loop over the tunnels; the names restarted so far are collected.\<close>

definition wd_check ::
    "(string \<Rightarrow> bytes option) \<Rightarrow> wd_tick \<Rightarrow> tunnel \<Rightarrow> wd_state \<times> string list \<Rightarrow> wd_state \<times> string list" where
  "wd_check ParseIP k t = (\<lambda>(st, out).
     let n = tn_Name t in
     if \<not> tk_active k (tn_Service t) then (st\<lparr>wd_fails := (wd_fails st)(n := 0)\<rparr>, out)
     else if tunnelHealthy ParseIP (tk_udp k) t (establishedPairs (tk_tcp k)) then
       (st\<lparr>wd_fails := (wd_fails st)(n := 0), wd_seen := (wd_seen st)(n := True)\<rparr>, out)
     else if \<not> wd_seen st n then (st, out)
     else
       (let st = st\<lparr>wd_fails := (wd_fails st)(n := Suc (wd_fails st n))\<rparr> in
        if wd_fails st n \<ge> wdThreshold \<and> (case wd_last st n of None \<Rightarrow> True | Some l \<Rightarrow> tk_now k n - l > wdCooldown) then
          (st\<lparr>wd_last := (wd_last st)(n := Some (tk_done k n)), wd_fails := (wd_fails st)(n := 0)\<rparr>, out @ [n])
        else (st, out)))"

definition wd_step :: "(string \<Rightarrow> bytes option) \<Rightarrow> wd_tick \<Rightarrow> wd_state \<Rightarrow> wd_state \<times> string list" where
  "wd_step ParseIP k st = fold (wd_check ParseIP k) (tk_tunnels k) (st, [])"

definition wd_run :: "(string \<Rightarrow> bytes option) \<Rightarrow> wd_tick list \<Rightarrow> wd_state" where
  "wd_run ParseIP ks = fold (\<lambda>k st. fst (wd_step ParseIP k st)) ks wd_init"

text \<open>Whether the tick at position \<open>i\<close> restarts the tunnel.\<close>

definition restarts :: "(string \<Rightarrow> bytes option) \<Rightarrow> wd_tick list \<Rightarrow> string \<Rightarrow> nat \<Rightarrow> bool" where
  "restarts ParseIP ks n i = (n \<in> set (snd (wd_step ParseIP (ks ! i) (wd_run ParseIP (take i ks)))))"

section \<open>Health as shown\<close>

record health =
  hl_Name :: string
  hl_Service :: string
  hl_Installed :: bool
  hl_Active :: bool
  hl_Connected :: bool
  hl_State :: string
  hl_Detail :: string

definition peerWindow :: int where "peerWindow = 90 * second"

text \<open>\<open>snap\<close> is the tunnel's metrics snapshot: when it was taken and the peer it names.  The result is
  \<open>Some connected\<close> when the answer is known.\<close>

definition reportedPeer :: "int \<Rightarrow> (int \<times> string) option \<Rightarrow> bool option" where
  "reportedPeer now snap =
     (case snap of
        None \<Rightarrow> None
      | Some (taken, peer) \<Rightarrow> if now - taken > peerWindow then None else Some (peer \<noteq> []))"

record health_env =
  he_now :: int
  he_snap :: "string \<Rightarrow> (int \<times> string) option"
  he_unit :: "string \<Rightarrow> bool"
  he_isActive :: "string \<Rightarrow> bool"
  he_udp :: "string option"

definition h_set :: "health \<Rightarrow> bool \<Rightarrow> string \<Rightarrow> string \<Rightarrow> health" where
  "h_set h conn state detail = h\<lparr>hl_Connected := conn, hl_State := state, hl_Detail := detail\<rparr>"

definition tunnelHealthWith ::
    "(string \<Rightarrow> bytes option) \<Rightarrow> health_env \<Rightarrow> tunnel \<Rightarrow> pair_list \<Rightarrow> (string \<rightharpoonup> bool) \<Rightarrow> health" where
  "tunnelHealthWith ParseIP e t pairs active =
     (let isActive = (case active (tn_Service t) of None \<Rightarrow> he_isActive e (tn_Service t) | Some b \<Rightarrow> b);
          h = \<lparr>hl_Name = tn_Name t, hl_Service = tn_Service t, hl_Installed = he_unit e (tn_Service t),
               hl_Active = isActive, hl_Connected = False, hl_State = [], hl_Detail = []\<rparr>;
          peer = reportedPeer (he_now e) (he_snap e (tn_Name t)) in
      if \<not> hl_Installed h then h_set h False ''stopped'' (''no systemd unit '' @ [CHR 0xE2, CHR 0x80, CHR 0x94] @ '' the tunnel is not installed'')
      else if \<not> hl_Active h then h_set h False ''stopped'' ''service is not running''
      else if tn_Transport t = ''wireguard'' then h_set h True ''online'' ''running''
      else if tn_Transport t = ''packet'' then
        (case peer of
           Some True \<Rightarrow> h_set h True ''online'' ''peer connected''
         | Some False \<Rightarrow> h_set h False ''offline''
             (if tn_Role t = ''server'' then ''running, but no client is connected'' else ''running, but the server is not answering'')
         | None \<Rightarrow> h_set h True ''online'' ''running'')
      else if tn_Transport t = ''ssh'' then h_set h True ''online'' ''running''
      else if tn_Transport t = ''hedioum'' then
        (if tn_Role t = ''iran'' then
           (case peer of
              Some True \<Rightarrow> h_set h True ''online'' ''pool connected''
            | Some False \<Rightarrow> h_set h False ''offline'' ''running, but the foreign node is not answering''
            | None \<Rightarrow> h_set h True ''online'' ''running'')
         else h_set h True ''online'' ''running'')
      else
        (let connected = tunnelHealthy ParseIP (he_udp e) t pairs;
             connected = (if isDatagram (tn_Transport t) \<and> tn_Role t = ''server''
                          then (case peer of Some c \<Rightarrow> c | None \<Rightarrow> connected) else connected) in
         if connected then h_set h True ''online'' ''peer connected''
         else h_set h False ''offline''
           (if tn_Role t = ''server'' then ''running, but no client is connected yet''
            else ''running, but not connected to the server'')))"

definition matchActiveStates :: "string list \<Rightarrow> string \<Rightarrow> (string \<rightharpoonup> bool) option" where
  "matchActiveStates services out =
     (let lines = Split (CHR 0x0A) out in
      if length lines \<noteq> length services then None
      else Some (fold (\<lambda>(s, l) m. m(s \<mapsto> (TrimSpace l = ''active''))) (zip services lines) Map.empty))"

definition ActiveStates :: "(string \<Rightarrow> bool) \<Rightarrow> string \<Rightarrow> string list \<Rightarrow> (string \<rightharpoonup> bool)" where
  "ActiveStates IsActive out services =
     (if services = [] then Map.empty
      else
        (case matchActiveStates services out of
           Some states \<Rightarrow> states
         | None \<Rightarrow> fold (\<lambda>s m. m(s \<mapsto> IsActive s)) services Map.empty))"

definition AllHealth ::
    "(string \<Rightarrow> bytes option) \<Rightarrow> health_env \<Rightarrow> string option \<Rightarrow> string \<Rightarrow> tunnel list \<Rightarrow> (string \<rightharpoonup> health)" where
  "AllHealth ParseIP e tcp units tunnels =
     (let pairs = establishedPairs tcp; active = ActiveStates (he_isActive e) units (map tn_Service tunnels) in
      fold (\<lambda>t m. m(tn_Name t \<mapsto> tunnelHealthWith ParseIP e t pairs active)) tunnels Map.empty)"

section \<open>The watchdog restarts dropped tunnels only\<close>

text \<open>What a check does to one tunnel: a function of that tunnel's own entries.\<close>

type_synonym wd_view = "nat \<times> int option \<times> bool"

definition view :: "string \<Rightarrow> wd_state \<Rightarrow> wd_view" where
  "view n st = (wd_fails st n, wd_last st n, wd_seen st n)"

definition down :: "(string \<Rightarrow> bytes option) \<Rightarrow> wd_tick \<Rightarrow> tunnel \<Rightarrow> bool" where
  "down ParseIP k t \<longleftrightarrow>
     tk_active k (tn_Service t) \<and> \<not> tunnelHealthy ParseIP (tk_udp k) t (establishedPairs (tk_tcp k))"

definition up :: "(string \<Rightarrow> bytes option) \<Rightarrow> wd_tick \<Rightarrow> tunnel \<Rightarrow> bool" where
  "up ParseIP k t \<longleftrightarrow>
     tk_active k (tn_Service t) \<and> tunnelHealthy ParseIP (tk_udp k) t (establishedPairs (tk_tcp k))"

definition due :: "(string \<Rightarrow> bytes option) \<Rightarrow> wd_tick \<Rightarrow> tunnel \<Rightarrow> wd_view \<Rightarrow> bool" where
  "due ParseIP k t = (\<lambda>(f, l, s).
     down ParseIP k t \<and> s \<and> 1 \<le> f \<and> (case l of None \<Rightarrow> True | Some l \<Rightarrow> tk_now k (tn_Name t) - l > wdCooldown))"

definition next_view :: "(string \<Rightarrow> bytes option) \<Rightarrow> wd_tick \<Rightarrow> tunnel \<Rightarrow> wd_view \<Rightarrow> wd_view" where
  "next_view ParseIP k t v =
     (if due ParseIP k t v then (0, Some (tk_done k (tn_Name t)), snd (snd v))
      else if down ParseIP k t then (if snd (snd v) then Suc (fst v) else fst v, snd v)
      else (0, fst (snd v), snd (snd v) \<or> up ParseIP k t))"

lemma wd_check_own:
  "view (tn_Name t) (fst (wd_check ParseIP k t (st, out))) = next_view ParseIP k t (view (tn_Name t) st)"
  "snd (wd_check ParseIP k t (st, out)) = (if due ParseIP k t (view (tn_Name t) st) then out @ [tn_Name t] else out)"
  by (auto simp: wd_check_def view_def next_view_def due_def down_def up_def wdThreshold_def Let_def split: option.splits)

lemma wd_check_other: "n \<noteq> tn_Name t \<Longrightarrow> view n (fst (wd_check ParseIP k t (st, out))) = view n st"
  by (auto simp: wd_check_def view_def Let_def)

lemma fold_check:
  assumes "distinct (map tn_Name ts)" "fold (wd_check ParseIP k) ts (st, out) = (st', out')"
  shows "(n \<notin> tn_Name ` set ts \<longrightarrow> view n st' = view n st \<and> (n \<in> set out' \<longleftrightarrow> n \<in> set out)) \<and>
    (\<forall>t \<in> set ts. tn_Name t = n \<longrightarrow> view n st' = next_view ParseIP k t (view n st) \<and>
       (n \<in> set out' \<longleftrightarrow> n \<in> set out \<or> due ParseIP k t (view n st)))"
  using assms
proof (induction ts arbitrary: st out)
  case (Cons t ts)
  obtain st1 out1 where one: "wd_check ParseIP k t (st, out) = (st1, out1)" by (cases "wd_check ParseIP k t (st, out)")
  have IH: "(n \<notin> tn_Name ` set ts \<longrightarrow> view n st' = view n st1 \<and> (n \<in> set out' \<longleftrightarrow> n \<in> set out1)) \<and>
      (\<forall>t \<in> set ts. tn_Name t = n \<longrightarrow> view n st' = next_view ParseIP k t (view n st1) \<and>
         (n \<in> set out' \<longleftrightarrow> n \<in> set out1 \<or> due ParseIP k t (view n st1)))"
    using Cons.IH [of st1 out1] Cons.prems one by simp
  have own: "view (tn_Name t) st1 = next_view ParseIP k t (view (tn_Name t) st)"
      "set out1 = set out \<union> (if due ParseIP k t (view (tn_Name t) st) then {tn_Name t} else {})"
    using wd_check_own [where t = t and k = k and st = st and out = out and ParseIP = ParseIP] one by auto
  have other: "view n st1 = view n st" if "n \<noteq> tn_Name t" using wd_check_other [OF that, where k = k and st = st and out = out and ParseIP = ParseIP] one by simp
  show ?case
  proof (cases "n = tn_Name t")
    case True
    then have "n \<notin> tn_Name ` set ts" using Cons.prems(1) by simp
    moreover from this have "\<forall>t' \<in> set ts. tn_Name t' \<noteq> n" by blast
    ultimately show ?thesis using IH own True by auto
  next
    case False
    then show ?thesis using IH own(2) other by auto
  qed
qed simp

text \<open>The tunnel as listed at a tick.\<close>

definition listed :: "string \<Rightarrow> wd_tick \<Rightarrow> bool" where
  "listed n k = (distinct (map tn_Name (tk_tunnels k)) \<and> n \<in> tn_Name ` set (tk_tunnels k))"

definition the_tunnel :: "string \<Rightarrow> wd_tick \<Rightarrow> tunnel" where
  "the_tunnel n k = hd (filter (\<lambda>t. tn_Name t = n) (tk_tunnels k))"

lemma the_tunnel: "listed n k \<Longrightarrow> the_tunnel n k \<in> set (tk_tunnels k) \<and> tn_Name (the_tunnel n k) = n"
proof -
  assume "listed n k"
  then have "filter (\<lambda>t. tn_Name t = n) (tk_tunnels k) \<noteq> []" by (auto simp: listed_def filter_empty_conv)
  then have "the_tunnel n k \<in> set (filter (\<lambda>t. tn_Name t = n) (tk_tunnels k))" unfolding the_tunnel_def by (rule hd_in_set)
  then show ?thesis by simp
qed

lemma wd_step_view:
  assumes "listed n k"
  shows "view n (fst (wd_step ParseIP k st)) = next_view ParseIP k (the_tunnel n k) (view n st)"
    "n \<in> set (snd (wd_step ParseIP k st)) \<longleftrightarrow> due ParseIP k (the_tunnel n k) (view n st)"
proof -
  obtain st' out' where f: "fold (wd_check ParseIP k) (tk_tunnels k) (st, []) = (st', out')"
    by (cases "fold (wd_check ParseIP k) (tk_tunnels k) (st, [])")
  have "distinct (map tn_Name (tk_tunnels k))" using assms by (simp add: listed_def)
  from fold_check [OF this f, of n] the_tunnel [OF assms]
  show "view n (fst (wd_step ParseIP k st)) = next_view ParseIP k (the_tunnel n k) (view n st)"
    "n \<in> set (snd (wd_step ParseIP k st)) \<longleftrightarrow> due ParseIP k (the_tunnel n k) (view n st)"
    by (auto simp: wd_step_def f)
qed

lemma wd_run_Suc: "i < length ks \<Longrightarrow> wd_run P (take (Suc i) ks) = fst (wd_step P (ks ! i) (wd_run P (take i ks)))"
  by (simp add: wd_run_def take_Suc_conv_app_nth)

text \<open>The state before the tick at position \<open>i\<close>, in terms of what was observed.\<close>

definition last_restart :: "(string \<Rightarrow> bytes option) \<Rightarrow> wd_tick list \<Rightarrow> string \<Rightarrow> nat \<Rightarrow> nat \<Rightarrow> bool" where
  "last_restart P ks n i j = (j < i \<and> restarts P ks n j \<and> (\<forall>m. j < m \<and> m < i \<longrightarrow> \<not> restarts P ks n m))"

definition down_at :: "(string \<Rightarrow> bytes option) \<Rightarrow> wd_tick list \<Rightarrow> string \<Rightarrow> nat \<Rightarrow> bool" where
  "down_at P ks n i = down P (ks ! i) (the_tunnel n (ks ! i))"

definition up_at :: "(string \<Rightarrow> bytes option) \<Rightarrow> wd_tick list \<Rightarrow> string \<Rightarrow> nat \<Rightarrow> bool" where
  "up_at P ks n i = up P (ks ! i) (the_tunnel n (ks ! i))"

lemma wd_view_at:
  assumes "\<forall>k \<in> set ks. listed n k" "i \<le> length ks"
  shows "(snd (snd (view n (wd_run P (take i ks)))) \<longleftrightarrow> (\<exists>j<i. up_at P ks n j)) \<and>
    (1 \<le> fst (view n (wd_run P (take i ks))) \<longleftrightarrow>
       0 < i \<and> down_at P ks n (i - 1) \<and> \<not> restarts P ks n (i - 1) \<and> (\<exists>j<i - 1. up_at P ks n j)) \<and>
    (\<forall>l. fst (snd (view n (wd_run P (take i ks)))) = Some l \<longleftrightarrow>
       (\<exists>j. last_restart P ks n i j \<and> l = tk_done (ks ! j) n))"
  using assms(2)
proof (induction i)
  case 0
  then show ?case by (simp add: wd_run_def wd_init_def view_def last_restart_def)
next
  case (Suc i)
  let ?v = "view n (wd_run P (take i ks))" and ?k = "ks ! i" and ?t = "the_tunnel n (ks ! i)"
  have k: "listed n ?k" "tn_Name ?t = n" using assms(1) Suc.prems the_tunnel by auto
  have v: "view n (wd_run P (take (Suc i) ks)) = next_view P ?k ?t ?v"
    using wd_step_view(1) [OF k(1)] wd_run_Suc [of i ks P] Suc.prems by simp
  have r: "restarts P ks n i \<longleftrightarrow> due P ?k ?t ?v" using wd_step_view(2) [OF k(1)] by (simp add: restarts_def)
  have last: "last_restart P ks n (Suc i) j \<longleftrightarrow> (if restarts P ks n i then j = i else last_restart P ks n i j)" for j
    by (auto simp: last_restart_def less_Suc_eq)
  have seen: "(\<exists>j<Suc i. up_at P ks n j) \<longleftrightarrow> (\<exists>j<i. up_at P ks n j) \<or> up_at P ks n i" by (auto simp: less_Suc_eq)
  have excl: "\<not> (down P ?k ?t \<and> up P ?k ?t)" by (auto simp: down_def up_def)
  note IH = Suc.IH [OF Suc_leD [OF Suc.prems]]
  obtain f l s where fls: "?v = (f, l, s)" by (metis prod.exhaust)
  have due: "restarts P ks n i \<Longrightarrow> down P ?k ?t \<and> s" by (auto simp: r due_def fls)
  have nv: "view n (wd_run P (take (Suc i) ks)) =
      (if restarts P ks n i then (0, Some (tk_done ?k n), s)
       else if down P ?k ?t then (if s then Suc f else f, l, s) else (0, l, s \<or> up P ?k ?t))"
    unfolding v r by (simp add: next_view_def fls k(2))
  have s: "s \<longleftrightarrow> (\<exists>j<i. up_at P ks n j)" and l: "\<And>x. l = Some x \<longleftrightarrow> (\<exists>j. last_restart P ks n i j \<and> x = tk_done (ks ! j) n)"
    and f: "1 \<le> f \<longleftrightarrow> 0 < i \<and> down_at P ks n (i - 1) \<and> \<not> restarts P ks n (i - 1) \<and> (\<exists>j<i - 1. up_at P ks n j)"
    using IH by (simp_all add: fls)
  have f0: "f = 0" if "\<not> s" using f s that by fastforce
  show ?case
  proof (intro conjI allI)
    show "snd (snd (view n (wd_run P (take (Suc i) ks)))) \<longleftrightarrow> (\<exists>j<Suc i. up_at P ks n j)"
      unfolding seen nv s [symmetric] using due excl by (auto simp: up_at_def)
    show "1 \<le> fst (view n (wd_run P (take (Suc i) ks))) \<longleftrightarrow> 0 < Suc i \<and> down_at P ks n (Suc i - 1) \<and>
        \<not> restarts P ks n (Suc i - 1) \<and> (\<exists>j<Suc i - 1. up_at P ks n j)"
      unfolding nv diff_Suc_1 s [symmetric] using f0 by (auto simp: down_at_def)
    show "fst (snd (view n (wd_run P (take (Suc i) ks)))) = Some x \<longleftrightarrow>
        (\<exists>j. last_restart P ks n (Suc i) j \<and> x = tk_done (ks ! j) n)" for x
      unfolding nv last using l [of x] by auto
  qed
qed


text \<open>(C27) For a tunnel that is listed throughout, the watchdog restarts it at a tick exactly when it is running and
  unconnected at this tick and the one before (which did not itself restart it), it was connected at some tick
  before those two, and more than three minutes have passed since its last restart, if there was one.\<close>

theorem watchdog_restarts_exactly:
  assumes "\<forall>k \<in> set ks. listed n k" "i < length ks"
  shows "restarts P ks n i \<longleftrightarrow>
    0 < i \<and> down_at P ks n i \<and> down_at P ks n (i - 1) \<and> \<not> restarts P ks n (i - 1) \<and> (\<exists>j<i - 1. up_at P ks n j) \<and>
    (\<forall>j. last_restart P ks n i j \<longrightarrow> tk_now (ks ! i) n - tk_done (ks ! j) n > 180 * second)"
proof -
  have k: "listed n (ks ! i)" "tn_Name (the_tunnel n (ks ! i)) = n" using assms the_tunnel by auto
  obtain f l s where v: "view n (wd_run P (take i ks)) = (f, l, s)" by (metis prod.exhaust)
  have at: "s \<longleftrightarrow> (\<exists>j<i. up_at P ks n j)"
      "1 \<le> f \<longleftrightarrow> 0 < i \<and> down_at P ks n (i - 1) \<and> \<not> restarts P ks n (i - 1) \<and> (\<exists>j<i - 1. up_at P ks n j)"
      "\<And>x. l = Some x \<longleftrightarrow> (\<exists>j. last_restart P ks n i j \<and> x = tk_done (ks ! j) n)"
    using wd_view_at [OF assms(1), of i P] assms(2) by (simp_all add: v)
  have cool: "(case l of None \<Rightarrow> True | Some x \<Rightarrow> tk_now (ks ! i) n - x > wdCooldown) \<longleftrightarrow>
      (\<forall>j. last_restart P ks n i j \<longrightarrow> tk_now (ks ! i) n - tk_done (ks ! j) n > 180 * second)"
  proof (cases l)
    case None
    then show ?thesis using at(3) by auto
  next
    case (Some x)
    then obtain j where j: "last_restart P ks n i j" "x = tk_done (ks ! j) n" using at(3) by blast
    have "last_restart P ks n i j' \<longleftrightarrow> j' = j" for j'
      using j(1) by (metis last_restart_def linorder_neqE_nat)
    then show ?thesis by (simp add: Some j(2) wdCooldown_def)
  qed
  have seen: "s" if "1 \<le> f"
  proof -
    obtain j where "j < i - 1" "up_at P ks n j" using \<open>1 \<le> f\<close> at(2) by blast
    then have "j < i \<and> up_at P ks n j" by simp
    then show s using at(1) by blast
  qed
  have "restarts P ks n i \<longleftrightarrow> down_at P ks n i \<and> s \<and> 1 \<le> f \<and>
      (\<forall>j. last_restart P ks n i j \<longrightarrow> tk_now (ks ! i) n - tk_done (ks ! j) n > 180 * second)"
    unfolding restarts_def wd_step_view(2) [OF k(1)] down_at_def due_def v prod.case k(2) cool ..
  then have "restarts P ks n i \<longleftrightarrow> down_at P ks n i \<and> 1 \<le> f \<and>
      (\<forall>j. last_restart P ks n i j \<longrightarrow> tk_now (ks ! i) n - tk_done (ks ! j) n > 180 * second)"
    using seen by blast
  then show ?thesis unfolding at(2) by blast
qed

definition demo_tunnel :: tunnel where
  "demo_tunnel = \<lparr>tn_Name = ''a'', tn_Role = ''server'', tn_Transport = ''tcp'', tn_Addr = '':443'', tn_Service = ''s''\<rparr>"

definition demo_tick :: "bool \<Rightarrow> int \<Rightarrow> wd_tick" where
  "demo_tick conn t = \<lparr>tk_tcp = Some (if conn then ''0 0 10.0.0.1:443 10.0.0.2:5000'' else []), tk_udp = None,
     tk_tunnels = [demo_tunnel], tk_active = (\<lambda>_. True), tk_now = (\<lambda>_. t), tk_done = (\<lambda>_. t)\<rparr>"

lemma demo_down: "down P (demo_tick conn t) demo_tunnel \<longleftrightarrow> \<not> conn"
  "up P (demo_tick conn t) demo_tunnel \<longleftrightarrow> conn"
  by (auto simp: down_def up_def demo_tick_def demo_tunnel_def tunnelHealthy_def isDatagram_def establishedPairs_def
      pairs_of_def Fields.simps is_space_def SplitHostPort_def portOf_def)

lemma demo_listed: "listed ''a'' (demo_tick conn t)" "the_tunnel ''a'' (demo_tick conn t) = demo_tunnel"
  by (simp_all add: listed_def the_tunnel_def demo_tick_def demo_tunnel_def)

theorem watchdog_restarts_exactly_witness:
  "restarts (\<lambda>_. None) [demo_tick True 0, demo_tick False 25, demo_tick False 50] ''a'' 2 \<and>
   \<not> restarts (\<lambda>_. None) [demo_tick True 0, demo_tick False 25, demo_tick False 50] ''a'' 1"
proof -
  let ?ks = "[demo_tick True 0, demo_tick False 25, demo_tick False 50]"
  have "\<forall>k \<in> set ?ks. listed ''a'' k" by (simp add: demo_listed)
  note w = watchdog_restarts_exactly [OF this]
  have at: "down_at (\<lambda>_. None) ?ks ''a'' 2" "down_at (\<lambda>_. None) ?ks ''a'' 1" "up_at (\<lambda>_. None) ?ks ''a'' 0" "\<not> down_at (\<lambda>_. None) ?ks ''a'' 0"
    by (simp_all add: down_at_def up_at_def demo_listed demo_down)
  have no: "\<not> restarts (\<lambda>_. None) ?ks ''a'' 0" "\<not> restarts (\<lambda>_. None) ?ks ''a'' 1" using w [of 0] w [of 1] at by simp_all
  then have "\<not> last_restart (\<lambda>_. None) ?ks ''a'' 2 j" for j
    by (auto simp: last_restart_def numeral_2_eq_2 less_Suc_eq)
  then show ?thesis using w [of 2] at no by auto
qed

section \<open>The health shown\<close>

text \<open>A tunnel whose connection the kernel's socket tables show.\<close>

definition observable :: "tunnel \<Rightarrow> bool" where
  "observable t =
     (tn_Transport t \<notin> {''wireguard'', ''packet'', ''ssh'', ''hedioum''} \<and>
      \<not> (isDatagram (tn_Transport t) \<and> tn_Role t = ''server''))"

definition health_of :: "(string \<Rightarrow> bytes option) \<Rightarrow> string option \<Rightarrow> pair_list \<Rightarrow> tunnel \<Rightarrow> health \<Rightarrow> bool" where
  "health_of P udp pairs t h =
     (hl_Name h = tn_Name t \<and> hl_Service h = tn_Service t \<and> hl_State h \<in> {''online'', ''offline'', ''stopped''} \<and>
      (hl_State h = ''stopped'' \<longleftrightarrow> \<not> (hl_Installed h \<and> hl_Active h)) \<and>
      (hl_Connected h \<longleftrightarrow> hl_State h = ''online'') \<and>
      (observable t \<and> hl_State h \<noteq> ''stopped'' \<longrightarrow> (hl_Connected h \<longleftrightarrow> tunnelHealthy P udp t pairs)) \<and>
      (tn_Transport t \<noteq> ''wireguard'' \<and> hl_State h \<noteq> ''stopped'' \<and> \<not> tunnelHealthy P udp t pairs \<longrightarrow>
         hl_State h = ''offline''))"

lemma tunnelHealthWith_ok: "health_of P (he_udp e) pairs t (tunnelHealthWith P e t pairs active)"
proof -
  have "tunnelHealthy P (he_udp e) t pairs" if "tn_Transport t \<in> {''packet'', ''ssh'', ''hedioum''}"
    using that by (auto simp: tunnelHealthy_def)
  moreover have "tunnelHealthy P (he_udp e) t pairs" if "isDatagram (tn_Transport t)" "tn_Role t = ''server''"
    using that by (auto simp: tunnelHealthy_def)
  ultimately show ?thesis
    by (auto simp: health_of_def tunnelHealthWith_def h_set_def observable_def Let_def split: option.splits bool.splits)
qed

lemma fold_upd_Some:
  "fold (\<lambda>t m. m(f t \<mapsto> g t)) ts m n = Some v \<Longrightarrow> (\<exists>t \<in> set ts. f t = n \<and> g t = v) \<or> m n = Some v"
proof (induction ts arbitrary: m)
  case (Cons t ts)
  then show ?case using Cons.IH [of "m(f t \<mapsto> g t)"] by (auto split: if_splits)
qed simp

text \<open>Every entry of the health table is well formed and says what the sockets say: it belongs to a listed
  tunnel, is stopped exactly when the service is not installed or not running, and connected exactly when it is
  online; where the kernel shows the connection, online means the watchdog finds it connected, and whatever
  the watchdog may restart is shown offline.\<close>

theorem health_table_well_formed:
  assumes "AllHealth P e tcp units ts n = Some h"
  shows "\<exists>t \<in> set ts. tn_Name t = n \<and> health_of P (he_udp e) (establishedPairs tcp) t h"
  using fold_upd_Some [OF assms [unfolded AllHealth_def Let_def]] tunnelHealthWith_ok by auto

theorem health_table_well_formed_witness:
  "AllHealth (\<lambda>_. None) \<lparr>he_now = 0, he_snap = \<lambda>_. None, he_unit = \<lambda>_. True, he_isActive = \<lambda>_. True, he_udp = None\<rparr>
     None ''active'' [demo_tunnel] ''a'' \<noteq> None \<and>
   (\<exists>h. health_of (\<lambda>_. None) None [] demo_tunnel h \<and> hl_State h = ''offline'')"
proof -
  let ?e = "\<lparr>he_now = 0, he_snap = \<lambda>_. None, he_unit = \<lambda>_. True, he_isActive = \<lambda>_. True, he_udp = None\<rparr>"
  obtain h where h: "AllHealth (\<lambda>_. None) ?e None ''active'' [demo_tunnel] ''a'' = Some h" "hl_State h = ''offline''"
    by (simp add: AllHealth_def ActiveStates_def matchActiveStates_def establishedPairs_def tunnelHealthWith_def h_set_def
        demo_tunnel_def tunnelHealthy_def isDatagram_def SplitHostPort_def TrimSpace_def is_space_def)
  from health_table_well_formed [OF h(1)] have "health_of (\<lambda>_. None) None [] demo_tunnel h"
    by (simp add: establishedPairs_def)
  then show ?thesis using h by auto
qed

end
