(* ===== verification/Schedule.thy ===== *)
theory Schedule
  imports Go_Strings
begin

text \<open>
  Recurring jobs in the system crontab: \<open>internal/schedule/schedule.go\<close>.

  The crontab is a text; reading fails (\<^const>\<open>None\<close>) when there is none.  The regular expression
  \<open>0 \*/(\d+) \* \* \*\<close> is the function that looks for its leftmost match.
\<close>

section \<open>Model\<close>

fun Contains :: "string \<Rightarrow> string \<Rightarrow> bool" where
  "Contains [] sub = (sub = [])"
| "Contains (c # cs) sub = (HasPrefix (c # cs) sub \<or> Contains cs sub)"

fun JoinLines :: "string list \<Rightarrow> string" where
  "JoinLines [] = []"
| "JoinLines [l] = l"
| "JoinLines (l # ls) = l @ [CHR 0x0A] @ JoinLines ls"

definition HourlySpec :: "int \<Rightarrow> string" where
  "HourlySpec hours =
     (if hours \<le> 0 then []
      else if hours = 1 then ''0 * * * *''
      else if hours < 24 then ''0 */'' @ Itoa_nat (nat hours) @ '' * * *''
      else if hours = 24 then ''0 0 * * *''
      else ''0 0 */'' @ Itoa_nat (nat (hours div 24)) @ '' * *'')"

definition readCrontab :: "string option \<Rightarrow> string list" where
  "readCrontab out = (case out of None \<Rightarrow> [] | Some s \<Rightarrow> filter (\<lambda>l. TrimSpace l \<noteq> []) (Split (CHR 0x0A) s))"

definition writeCrontab :: "string list \<Rightarrow> string" where
  "writeCrontab ls = JoinLines ls @ [CHR 0x0A]"

definition SetCron :: "string \<Rightarrow> string \<Rightarrow> string \<Rightarrow> string option \<Rightarrow> string" where
  "SetCron marker spec command tab =
     (let kept = filter (\<lambda>l. \<not> Contains l (''# '' @ marker)) (readCrontab tab) in
      writeCrontab (if spec \<noteq> [] then kept @ [spec @ '' '' @ command @ '' # '' @ marker] else kept))"

definition RemoveCron :: "string \<Rightarrow> string option \<Rightarrow> string" where
  "RemoveCron marker tab = SetCron marker [] [] tab"

text \<open>The expression at the start of a text: its digits.\<close>

definition interval_at :: "string \<Rightarrow> string option" where
  "interval_at s =
     (if HasPrefix s ''0 */'' then
        (let ds = takeWhile is_digit (drop 4 s) in
         if ds \<noteq> [] \<and> HasPrefix (drop (length ds) (drop 4 s)) '' * * *'' then Some ds else None)
      else None)"

fun intervalRe :: "string \<Rightarrow> string option" where
  "intervalRe [] = None"
| "intervalRe (c # cs) = (case interval_at (c # cs) of Some ds \<Rightarrow> Some ds | None \<Rightarrow> intervalRe cs)"

text \<open>\<open>strconv.Atoi\<close> of digits, its error ignored: out of range it is the largest integer.\<close>

definition Atoi_ignored :: "string \<Rightarrow> int" where
  "Atoi_ignored ds = (case Atoi ds of Some n \<Rightarrow> n | None \<Rightarrow> 2 ^ 63 - 1)"

fun interval_lines :: "string \<Rightarrow> string list \<Rightarrow> int" where
  "interval_lines marker [] = 0"
| "interval_lines marker (l # ls) =
     (if \<not> Contains l (''# '' @ marker) then interval_lines marker ls
      else if HasPrefix l ''0 * * * *'' then 1
      else if HasPrefix l ''0 0 * * *'' then 24
      else (case intervalRe l of Some ds \<Rightarrow> Atoi_ignored ds | None \<Rightarrow> interval_lines marker ls))"

definition GetIntervalHours :: "string \<Rightarrow> string option \<Rightarrow> int" where
  "GetIntervalHours marker tab = interval_lines marker (readCrontab tab)"

definition AutoRefreshMarker :: string where "AutoRefreshMarker = ''arange-tun-auto-refresh''"
definition BinPath :: string where "BinPath = ''/usr/local/bin/arange-tun''"

definition SetAutoRefresh :: "int \<Rightarrow> string option \<Rightarrow> string" where
  "SetAutoRefresh hours tab = SetCron AutoRefreshMarker (HourlySpec hours) (BinPath @ '' --restart-all'') tab"

definition AutoRefreshHours :: "string option \<Rightarrow> int" where
  "AutoRefreshHours tab = GetIntervalHours AutoRefreshMarker tab"

section \<open>Lemmas\<close>

lemma HasPrefix_append [simp]: "HasPrefix (pre @ s) pre"
  by (simp add: HasPrefix_def)

lemma Contains_append: "Contains s sub \<Longrightarrow> Contains (t @ s) sub"
  by (induction t) auto

lemma Contains_self: "Contains s s"
  by (cases s) (simp_all add: HasPrefix_def)

lemma Split_JoinLines:
  assumes "\<forall>l \<in> set ls. CHR 0x0A \<notin> set l"
  shows "Split (CHR 0x0A) (writeCrontab ls) = (if ls = [] then [[]] else ls) @ [[]]"
  using assms
proof (induction ls rule: JoinLines.induct)
  case (2 l)
  then show ?case using Split_append [of "CHR 0x0A" l "[]"] by (simp add: writeCrontab_def)
next
  case (3 l l' ls)
  then show ?case using Split_append [of "CHR 0x0A" l] by (simp add: writeCrontab_def)
qed (simp add: writeCrontab_def)

lemma readCrontab_lines: "\<forall>l \<in> set (readCrontab tab). CHR 0x0A \<notin> set l \<and> TrimSpace l \<noteq> []"
proof -
  have "l \<in> set (Split c s) \<Longrightarrow> c \<notin> set l" for l c s
    by (induction c s arbitrary: l rule: Split.induct) (auto split: if_splits list.splits)
  then show ?thesis by (auto simp: readCrontab_def split: option.splits)
qed

lemma readCrontab_write:
  assumes "\<forall>l \<in> set ls. CHR 0x0A \<notin> set l \<and> TrimSpace l \<noteq> []"
  shows "readCrontab (Some (writeCrontab ls)) = ls"
proof -
  have "TrimSpace [] = []" by (simp add: TrimSpace_def)
  then show ?thesis using assms Split_JoinLines [of ls] by (auto simp: readCrontab_def filter_id_conv)
qed

lemma TrimSpace_nonempty: "\<not> is_space c \<Longrightarrow> TrimSpace (c # s) \<noteq> []"
  by (simp add: TrimSpace_def)

text \<open>What is read after a job was set: the other jobs' lines, in order, and the new line.\<close>

lemma read_SetCron:
  assumes "spec = [] \<or> (\<not> is_space (hd spec) \<and> CHR 0x0A \<notin> set (spec @ command @ marker))"
  shows "readCrontab (Some (SetCron marker spec command tab)) =
    filter (\<lambda>l. \<not> Contains l (''# '' @ marker)) (readCrontab tab) @
    (if spec = [] then [] else [spec @ '' '' @ command @ '' # '' @ marker])"
proof -
  have "TrimSpace (spec @ rest) \<noteq> []" if "spec \<noteq> []" for rest
    using that assms TrimSpace_nonempty [of "hd spec" "tl spec @ rest"] by (cases spec) auto
  then show ?thesis
    using assms readCrontab_lines [of tab] unfolding SetCron_def Let_def
    by (subst readCrontab_write) (auto split: if_splits)
qed

lemma interval_SetCron:
  assumes "spec \<noteq> []" "\<not> is_space (hd spec)" "CHR 0x0A \<notin> set (spec @ command @ marker)"
  shows "GetIntervalHours marker (Some (SetCron marker spec command tab)) =
    interval_lines marker [spec @ '' '' @ command @ '' # '' @ marker]"
proof -
  have skip: "interval_lines marker (filter (\<lambda>l. \<not> Contains l (''# '' @ marker)) ls @ rest) = interval_lines marker rest" for ls rest
    by (induction ls) auto
  show ?thesis using assms skip unfolding GetIntervalHours_def by (subst read_SetCron) auto
qed

lemma Contains_tail: "Contains (s @ '' # '' @ marker) (''# '' @ marker)"
  using Contains_append [OF Contains_self [of "''# '' @ marker"], of "s @ '' ''"] by simp

lemma takeWhile_digits:
  "list_all is_digit ds \<Longrightarrow> \<not> is_digit c \<Longrightarrow> takeWhile is_digit (ds @ c # rest) = ds"
  by (induction ds) auto

lemma interval_at_spec:
  assumes "list_all is_digit ds" "ds \<noteq> []"
  shows "interval_at (''0 */'' @ ds @ '' * * *'' @ rest) = Some ds"
proof -
  have "takeWhile is_digit (drop 4 (''0 */'' @ ds @ '' * * *'' @ rest)) = ds"
    using takeWhile_digits [OF assms(1), of "CHR '' ''"] by (simp add: is_digit_def)
  moreover have "drop (length ds) (drop 4 (''0 */'' @ ds @ '' * * *'' @ rest)) = '' * * *'' @ rest" by simp
  ultimately show ?thesis using assms(2) by (simp add: interval_at_def HasPrefix_def)
qed

lemma intervalRe_at: "interval_at s = Some ds \<Longrightarrow> intervalRe s = Some ds"
  by (cases s) (simp_all add: interval_at_def HasPrefix_def)

lemma Itoa_nat_plain:
  assumes "c \<in> set (Itoa_nat n)"
  shows "is_digit c"
  using assms Itoa_nat_digits [of n] by (auto simp: list_all_iff)

lemma HourlySpec_plain:
  assumes "0 < h"
  shows "HourlySpec h \<noteq> []" "\<not> is_space (hd (HourlySpec h))" "CHR 0x0A \<notin> set (HourlySpec h)"
proof -
  have "CHR 0x0A \<notin> set (Itoa_nat n)" for n using Itoa_nat_plain [of "CHR 0x0A" n] by (auto simp: is_digit_def)
  then show "HourlySpec h \<noteq> []" "\<not> is_space (hd (HourlySpec h))" "CHR 0x0A \<notin> set (HourlySpec h)"
    using assms by (simp_all add: HourlySpec_def is_space_def)
qed

section \<open>Theorems\<close>

text \<open>A job set with an interval of 0 to 24 hours is read back with that interval, and setting it leaves the
  lines of every other job in the crontab as they were, in their order.\<close>

theorem cron_roundtrip:
  assumes "0 \<le> h" "h \<le> 24" "CHR 0x0A \<notin> set (command @ marker)"
  shows "GetIntervalHours marker (Some (SetCron marker (HourlySpec h) command tab)) = h \<and>
    filter (\<lambda>l. \<not> Contains l (''# '' @ marker)) (readCrontab (Some (SetCron marker (HourlySpec h) command tab))) =
    filter (\<lambda>l. \<not> Contains l (''# '' @ marker)) (readCrontab tab)"
proof (cases "h = 0")
  case True
  have "interval_lines marker (filter (\<lambda>l. \<not> Contains l (''# '' @ marker)) ls) = 0" for ls by (induction ls) auto
  then show ?thesis using True read_SetCron [of "[]" command marker tab] by (simp add: HourlySpec_def GetIntervalHours_def)
next
  case False
  then have spec: "HourlySpec h \<noteq> []" "\<not> is_space (hd (HourlySpec h))" "CHR 0x0A \<notin> set (HourlySpec h @ command @ marker)"
    using assms HourlySpec_plain [of h] by auto
  let ?rest = "'' '' @ command @ '' # '' @ marker"
  have mark: "Contains (HourlySpec h @ ?rest) (''# '' @ marker)"
    using Contains_tail [of "HourlySpec h @ '' '' @ command" marker] by simp
  have "interval_lines marker [HourlySpec h @ ?rest] = h"
  proof (cases "h = 1 \<or> h = 24")
    case True
    then show ?thesis using mark by (auto simp: HourlySpec_def HasPrefix_def)
  next
    case mid: False
    let ?ds = "Itoa_nat (nat h)"
    have s: "HourlySpec h @ ?rest = ''0 */'' @ ?ds @ '' * * *'' @ ?rest" using mid assms False by (simp add: HourlySpec_def)
    have "interval_at (HourlySpec h @ ?rest) = Some ?ds"
      unfolding s using Itoa_nat_digits [of "nat h"] by (intro interval_at_spec) simp_all
    then have "intervalRe (HourlySpec h @ ?rest) = Some ?ds" by (rule intervalRe_at)
    moreover have "Atoi_ignored ?ds = h" using Atoi_Itoa_nat [of "nat h"] assms by (simp add: Atoi_ignored_def)
    moreover have "\<not> HasPrefix (HourlySpec h @ ?rest) ''0 * * * *''" "\<not> HasPrefix (HourlySpec h @ ?rest) ''0 0 * * *''"
      unfolding s by (simp_all add: HasPrefix_def)
    ultimately show ?thesis using mark by simp
  qed
  then show ?thesis
    using interval_SetCron [OF spec] read_SetCron [of "HourlySpec h" command marker tab] spec mark
    by (simp add: filter_empty_conv)
qed

theorem cron_roundtrip_witness:
  "GetIntervalHours AutoRefreshMarker (Some (SetCron AutoRefreshMarker (HourlySpec 6) (BinPath @ '' --restart-all'')
     (Some ''0 5 * * * backup''))) = 6"
  using cron_roundtrip [of 6 "BinPath @ '' --restart-all''" AutoRefreshMarker "Some ''0 5 * * * backup''"]
  by (simp add: BinPath_def AutoRefreshMarker_def)

text \<open>No match starts in the digits of a longer interval or after them.\<close>

lemma intervalRe_none:
  "list_all is_digit ds \<Longrightarrow>
     intervalRe (ds @ '' * * /usr/local/bin/arange-tun --restart-all # arange-tun-auto-refresh'') = None"
proof (induction ds)
  case Nil
  show ?case by (simp add: interval_at_def HasPrefix_def)
next
  case (Cons d ds)
  have "interval_at (d # ds @ '' * * /usr/local/bin/arange-tun --restart-all # arange-tun-auto-refresh'') = None"
  proof (cases ds)
    case Nil
    then show ?thesis by (simp add: interval_at_def HasPrefix_def)
  next
    case (Cons d' ds')
    then show ?thesis using \<open>list_all is_digit (d # ds)\<close> by (auto simp: interval_at_def HasPrefix_def is_digit_def)
  qed
  then show ?case using Cons by simp
qed

text \<open>An automatic refresh set for more than a day is read back as not scheduled at all.\<close>

theorem long_interval_is_lost:
  assumes "24 < h"
  shows "AutoRefreshHours (Some (SetAutoRefresh h tab)) = 0"
proof -
  have spec: "HourlySpec h \<noteq> []" "\<not> is_space (hd (HourlySpec h))"
      "CHR 0x0A \<notin> set (HourlySpec h @ (BinPath @ '' --restart-all'') @ AutoRefreshMarker)"
    using assms HourlySpec_plain [of h] by (auto simp: BinPath_def AutoRefreshMarker_def)
  let ?ds = "Itoa_nat (nat (h div 24))"
  let ?tail = "'' * * /usr/local/bin/arange-tun --restart-all # arange-tun-auto-refresh''"
  have line: "HourlySpec h @ '' '' @ (BinPath @ '' --restart-all'') @ '' # '' @ AutoRefreshMarker = ''0 0 */'' @ ?ds @ ?tail"
    using assms by (simp add: HourlySpec_def BinPath_def AutoRefreshMarker_def)
  have ds: "list_all is_digit ?ds" using Itoa_nat_digits by blast
  have "takeWhile is_digit (?ds @ ?tail) = ?ds" using takeWhile_digits [OF ds, of "CHR '' ''"] by (simp add: is_digit_def)
  then have "interval_at (''0 */'' @ ?ds @ ?tail) = None" by (simp add: interval_at_def HasPrefix_def Let_def)
  then have "intervalRe (''0 0 */'' @ ?ds @ ?tail) = None"
    using intervalRe_none [OF ds] by (simp add: interval_at_def HasPrefix_def)
  then have "interval_lines AutoRefreshMarker [''0 0 */'' @ ?ds @ ?tail] = 0" by (simp add: HasPrefix_def)
  then show ?thesis
    unfolding AutoRefreshHours_def SetAutoRefresh_def interval_SetCron [OF spec] line by simp
qed

theorem long_interval_is_lost_witness:
  "HourlySpec 48 = ''0 0 */2 * *'' \<and> AutoRefreshHours (Some (SetAutoRefresh 48 None)) = 0"
proof
  show "HourlySpec 48 = ''0 0 */2 * *''" by code_simp
  show "AutoRefreshHours (Some (SetAutoRefresh 48 None)) = 0" by (rule long_interval_is_lost) simp
qed

end
