(* ===== verification/Backup.thy ===== *)
theory Backup
  imports Schedule "HOL-Library.Char_ord" "HOL-Library.List_Lexorder"
begin

text \<open>
  Backing up and restoring the configuration: \<open>internal/manage/backup.go\<close>.

  The configuration directory is a map from relative paths (lists of names) to directories and regular files;
  the empty path is the directory itself.  Packing with gzip and tar is left out: an archive is its list of
  entries.  The JSON of the sidecar entry, the umask and the outcome of the service commands are arguments.
  \<open>filepath.Clean\<close> and \<open>Join\<close> are the library's lexical rules on slash-separated names.  The directory that is
  restored into is taken to hold no symbolic links; the archive cannot bring any, since their entries are skipped.
\<close>

section \<open>Paths\<close>

abbreviation (input) slash :: char where "slash \<equiv> CHR ''/''"

fun JoinPath :: "string list \<Rightarrow> string" where
  "JoinPath [] = []"
| "JoinPath [c] = c"
| "JoinPath (c # cs) = c @ [slash] @ JoinPath cs"

text \<open>The names kept so far are in reverse order.\<close>

fun clean_names :: "bool \<Rightarrow> string list \<Rightarrow> string list \<Rightarrow> string list" where
  "clean_names rooted [] acc = rev acc"
| "clean_names rooted (c # cs) acc =
     (if c = [] \<or> c = ''.'' then clean_names rooted cs acc
      else if c = ''..'' then
        (case acc of
           [] \<Rightarrow> clean_names rooted cs (if rooted then [] else [''..''])
         | a # as \<Rightarrow> clean_names rooted cs (if a = ''..'' then ''..'' # acc else as))
      else clean_names rooted cs (c # acc))"

definition Clean :: "string \<Rightarrow> string" where
  "Clean s =
     (if s = [] then ''.''
      else
        (let rooted = (hd s = slash); cs = clean_names rooted (Split slash s) [] in
         if rooted then [slash] @ JoinPath cs else if cs = [] then ''.'' else JoinPath cs))"

definition IsAbs :: "string \<Rightarrow> bool" where
  "IsAbs s = HasPrefix s [slash]"

section \<open>Archive and directory\<close>

datatype tar_type = TypeDir | TypeReg | TypeOther

record tar_entry =
  te_Name :: string
  te_Type :: tar_type
  te_Mode :: nat
  te_Data :: bytes

datatype node = Dir | File bytes nat | Special

type_synonym config_dir = "string list \<rightharpoonup> node"

definition backupMetaName :: string where "backupMetaName = ''.arange-tun-backup.json''"

definition tar_of :: "string list \<times> node \<Rightarrow> tar_entry" where
  "tar_of = (\<lambda>(rel, n).
     case n of
       Dir \<Rightarrow> \<lparr>te_Name = JoinPath rel @ [slash], te_Type = TypeDir, te_Mode = 493, te_Data = []\<rparr>
     | File d m \<Rightarrow> \<lparr>te_Name = JoinPath rel, te_Type = TypeReg, te_Mode = m, te_Data = d\<rparr>
     | Special \<Rightarrow> \<lparr>te_Name = JoinPath rel, te_Type = TypeOther, te_Mode = 0, te_Data = []\<rparr>)"

text \<open>\<open>tree\<close> is what the walk visits below the directory, in its order.\<close>

definition WriteBackup :: "bytes \<Rightarrow> (string list \<times> node) list \<Rightarrow> tar_entry list" where
  "WriteBackup meta tree =
     \<lparr>te_Name = backupMetaName, te_Type = TypeReg, te_Mode = 384, te_Data = meta\<rparr> # map tar_of tree"

text \<open>The backup folder: the archives in it that match the pattern.  \<open>BackupToFile\<close> gets the outcome of creating the
  folder, of opening, writing and closing the file, and yields whether it succeeded and the archives there afterwards.\<close>

definition backupRetention :: nat where "backupRetention = 10"

definition pruneBackups :: "string list \<Rightarrow> string list" where
  "pruneBackups names =
     (if length names \<le> backupRetention then names else take backupRetention (rev (sort names)))"

definition backup_name :: "string \<Rightarrow> string" where
  "backup_name stamp = ''arange-tun-backup-'' @ stamp @ ''.tar.gz''"

definition BackupToFile :: "bool \<Rightarrow> bool \<Rightarrow> bool \<Rightarrow> bool \<Rightarrow> string \<Rightarrow> string list \<Rightarrow> string option \<times> string list" where
  "BackupToFile mkdir_ok open_ok write_ok close_ok stamp names =
     (let name = backup_name stamp; created = List.insert name names in
      if \<not> mkdir_ok then (None, names)
      else if \<not> open_ok then (None, names)
      else if \<not> write_ok then (None, removeAll name names)
      else if \<not> close_ok then (None, created)
      else (Some name, pruneBackups created))"

section \<open>Restoring\<close>

datatype restore_error = UnsafePath string | MkdirFailed | OpenFailed

definition prefixes_of :: "string list \<Rightarrow> string list list" where
  "prefixes_of p = map (\<lambda>k. take k p) [0..<Suc (length p)]"

definition MkdirAll :: "string list \<Rightarrow> config_dir \<Rightarrow> config_dir option" where
  "MkdirAll p fs =
     (if list_ex (\<lambda>q. fs q \<noteq> None \<and> fs q \<noteq> Some Dir) (prefixes_of p) then None
      else Some (fold (\<lambda>q fs. fs(q \<mapsto> Dir)) (prefixes_of p) fs))"

text \<open>\<open>os.OpenFile\<close> with create and truncate, and the copy: the mode counts only for a new file.\<close>

definition write_file :: "(nat \<Rightarrow> nat) \<Rightarrow> string list \<Rightarrow> bytes \<Rightarrow> nat \<Rightarrow> config_dir \<Rightarrow> config_dir option" where
  "write_file umask p d mode fs =
     (case fs p of
        None \<Rightarrow> Some (fs(p \<mapsto> File d (umask mode)))
      | Some (File _ m) \<Rightarrow> Some (fs(p \<mapsto> File d m))
      | Some _ \<Rightarrow> None)"

record restore_state =
  rs_fs :: config_dir
  rs_Files :: nat
  rs_WebUI :: bool
  rs_Telegram :: bool
  rs_Hours :: int
  rs_sawConfig :: bool

record restore_env =
  ev_umask :: "nat \<Rightarrow> nat"
  ev_hours :: "bytes \<Rightarrow> int"

definition unsafe_name :: "string \<Rightarrow> bool" where
  "unsafe_name clean = (clean = ''.'' \<or> HasPrefix clean ''..'' \<or> IsAbs clean)"

definition restore_reg :: "restore_env \<Rightarrow> tar_entry \<Rightarrow> string list \<Rightarrow> restore_state \<Rightarrow> restore_error option \<times> restore_state" where
  "restore_reg ev e target st =
     (case MkdirAll (butlast target) (rs_fs st) of
        None \<Rightarrow> (Some MkdirFailed, st)
      | Some fs1 \<Rightarrow>
          (let st = st\<lparr>rs_fs := fs1\<rparr>; mode = te_Mode e mod 512; mode = (if mode = 0 then 384 else mode) in
           case write_file (ev_umask ev) target (te_Data e) mode fs1 of
             None \<Rightarrow> (Some OpenFailed, st)
           | Some fs2 \<Rightarrow>
               (let st = st\<lparr>rs_fs := fs2, rs_Files := Suc (rs_Files st)\<rparr>; base = last target in
                (None,
                 if base = ''webui.json'' then st\<lparr>rs_WebUI := True\<rparr>
                 else if base = ''telegram.json'' then st\<lparr>rs_Telegram := True\<rparr>
                 else if HasSuffix base ''.toml'' then st\<lparr>rs_sawConfig := True\<rparr>
                 else st))))"

definition restore_entry :: "restore_env \<Rightarrow> tar_entry \<Rightarrow> restore_state \<Rightarrow> restore_error option \<times> restore_state" where
  "restore_entry ev e st =
     (if te_Name e = backupMetaName then (None, st\<lparr>rs_Hours := ev_hours ev (te_Data e)\<rparr>)
      else
        (let clean = Clean (te_Name e) in
         if unsafe_name clean then (Some (UnsafePath (te_Name e)), st)
         else if clean = ''install_path'' \<and> rs_fs st [''install_path''] \<noteq> None then (None, st)
         else
           (let target = Split slash clean in
            case te_Type e of
              TypeDir \<Rightarrow>
                (case MkdirAll target (rs_fs st) of
                   None \<Rightarrow> (Some MkdirFailed, st)
                 | Some fs \<Rightarrow> (None, st\<lparr>rs_fs := fs\<rparr>))
            | TypeReg \<Rightarrow> restore_reg ev e target st
            | TypeOther \<Rightarrow> (None, st))))"

fun restore_entries :: "restore_env \<Rightarrow> tar_entry list \<Rightarrow> restore_state \<Rightarrow> restore_error option \<times> restore_state" where
  "restore_entries ev [] st = (None, st)"
| "restore_entries ev (e # es) st =
     (case restore_entry ev e st of
        (Some err, st) \<Rightarrow> (Some err, st)
      | (None, st) \<Rightarrow> restore_entries ev es st)"

text \<open>The services of the tunnels found, with the outcome of writing their unit, starting and restarting: how many
  were started and how many failed.\<close>

fun start_tunnels :: "(string \<times> bool \<times> bool \<times> bool) list \<Rightarrow> nat \<times> nat" where
  "start_tunnels [] = (0, 0)"
| "start_tunnels ((name, unit, started, restarted) # ts) =
     (case start_tunnels ts of
        (ok, failed) \<Rightarrow> if \<not> unit \<or> \<not> started \<or> \<not> restarted then (ok, Suc failed) else (Suc ok, failed))"

text \<open>The whole of \<open>Restore\<close> for a readable archive: the error or the numbers of tunnels started and failed, the
  state, and the crontab.\<close>

definition Restore ::
    "restore_env \<Rightarrow> tar_entry list \<Rightarrow> (string \<times> bool \<times> bool \<times> bool) list \<Rightarrow> string option \<Rightarrow> config_dir \<Rightarrow>
     (restore_error + nat \<times> nat) \<times> restore_state \<times> string option" where
  "Restore ev archive services tab fs =
     (let st = \<lparr>rs_fs = fs([] \<mapsto> Dir), rs_Files = 0, rs_WebUI = False, rs_Telegram = False, rs_Hours = 0,
                rs_sawConfig = False\<rparr> in
      case restore_entries ev archive st of
        (Some err, st) \<Rightarrow> (Inl err, st, tab)
      | (None, st) \<Rightarrow>
          (Inr (if rs_sawConfig st then start_tunnels services else (0, 0)), st,
           if rs_Hours st > 0 then Some (SetAutoRefresh (rs_Hours st) tab) else tab))"

section \<open>Cleaned names\<close>

definition proper :: "string \<Rightarrow> bool" where
  "proper c = (c \<noteq> [] \<and> c \<noteq> ''.'' \<and> c \<noteq> ''..'' \<and> slash \<notin> set c)"

lemma Split_names: "\<forall>c \<in> set (Split slash s). slash \<notin> set c"
proof -
  have "c \<in> set (Split x s) \<Longrightarrow> x \<notin> set c" for c x s
    by (induction x s arbitrary: c rule: Split.induct) (auto split: if_splits list.splits)
  then show ?thesis by blast
qed

lemma Split_JoinPath: "cs \<noteq> [] \<Longrightarrow> \<forall>c \<in> set cs. slash \<notin> set c \<Longrightarrow> Split slash (JoinPath cs) = cs"
  by (induction cs rule: JoinPath.induct) (simp_all add: Split_no_sep Split_append)

text \<open>The names that remain: some leading \<open>..\<close>, then proper names.\<close>

definition updots :: "string list \<Rightarrow> bool" where
  "updots cs = (\<exists>k ns. cs = replicate k ''..'' @ ns \<and> list_all proper ns)"

lemma clean_names_updots:
  assumes "\<forall>c \<in> set cs. slash \<notin> set c" "updots (rev acc)"
  shows "updots (clean_names rooted cs acc)"
  using assms
proof (induction rooted cs acc rule: clean_names.induct)
  case (2 rooted c cs acc)
  obtain k ns where acc: "rev acc = replicate k ''..'' @ ns" "list_all proper ns" using "2.prems"(2) by (auto simp: updots_def)
  show ?case
  proof (cases "c = [] \<or> c = ''.''")
    case True
    then show ?thesis using 2 by auto
  next
    case name: False
    show ?thesis
    proof (cases "c = ''..''")
      case False
      then have "updots (rev (c # acc))"
        unfolding updots_def using acc name "2.prems"(1) by (intro exI [of _ k] exI [of _ "ns @ [c]"]) (simp add: proper_def)
      then show ?thesis using 2 name False by simp
    next
      case dots: True
      show ?thesis
      proof (cases acc)
        case Nil
        have "updots [''..'']" "updots []" unfolding updots_def
          by (intro exI [of _ 1] exI [of _ "[]"]; simp) (intro exI [of _ 0] exI [of _ "[]"]; simp)
        then show ?thesis using 2 name dots Nil by (cases rooted) auto
      next
        case (Cons a as)
        show ?thesis
        proof (cases "a = ''..''")
          case True
          then have "ns = []" using acc Cons by (cases ns rule: rev_cases) (auto simp: proper_def)
          then have "updots (rev (''..'' # acc))"
            unfolding updots_def using acc by (intro exI [of _ "Suc k"] exI [of _ "[]"]) (simp add: replicate_append_same)
          then show ?thesis using 2 name dots Cons True by simp
        next
          case False
          then have "ns \<noteq> []" using acc Cons by (cases k rule: nat.exhaust) (auto simp: replicate_append_same [symmetric])
          then have "rev as = replicate k ''..'' @ butlast ns" "list_all proper (butlast ns)"
            using acc Cons by (auto simp: butlast_append list_all_iff dest: in_set_butlastD arg_cong [where f = butlast])
          then have "updots (rev as)" unfolding updots_def by blast
          then show ?thesis using 2 name dots Cons False by simp
        qed
      qed
    qed
  qed
qed simp

lemma safe_target:
  assumes "\<not> unsafe_name (Clean s)"
  shows "list_all proper (Split slash (Clean s))"
proof -
  have s: "s \<noteq> []" using assms by (auto simp: Clean_def unsafe_name_def)
  moreover have "hd s \<noteq> slash"
  proof
    assume "hd s = slash"
    then have "IsAbs (Clean s)" using s by (simp add: Clean_def IsAbs_def HasPrefix_def Let_def)
    then show False using assms by (simp add: unsafe_name_def)
  qed
  ultimately have s: "s \<noteq> []" "hd s \<noteq> slash" by simp_all
  let ?cs = "clean_names False (Split slash s) []"
  have c: "Clean s = JoinPath ?cs" "?cs \<noteq> []" using assms s by (auto simp: Clean_def unsafe_name_def Let_def split: if_splits)
  have "updots []" unfolding updots_def by (intro exI [of _ 0] exI [of _ "[]"]) simp
  then have "updots ?cs" using Split_names by (intro clean_names_updots) auto
  then obtain k ns where k: "?cs = replicate k ''..'' @ ns" "list_all proper ns" by (auto simp: updots_def)
  have "k = 0"
  proof (rule ccontr)
    assume "k \<noteq> 0"
    then obtain rest where "?cs = ''..'' # rest" using k(1) by (cases k) auto
    then have "HasPrefix (Clean s) ''..''" using c(1) by (cases rest) (auto simp: HasPrefix_def)
    then show False using assms by (simp add: unsafe_name_def)
  qed
  moreover have "Split slash (Clean s) = ?cs"
    unfolding c(1) using c(2) k \<open>k = 0\<close> by (intro Split_JoinPath) (auto simp: list_all_iff proper_def)
  ultimately show ?thesis using k by simp
qed

lemma fold_dirs: "fold (\<lambda>q fs. fs(q \<mapsto> Dir)) ps fs p = (if p \<in> set ps then Some Dir else fs p)"
  by (induction ps arbitrary: fs) auto

lemma set_prefixes: "q \<in> set (prefixes_of p) \<longleftrightarrow> (\<exists>k \<le> length p. q = take k p)"
  unfolding prefixes_of_def set_map set_upt by (auto simp: less_Suc_eq_le)

lemma MkdirAll_changes: "MkdirAll p fs = Some fs' \<Longrightarrow> fs' q \<noteq> fs q \<Longrightarrow> \<exists>k. q = take k p"
  by (auto simp: MkdirAll_def fold_dirs set_prefixes split: if_splits)

lemma proper_take: "list_all proper p \<Longrightarrow> list_all proper (take k p)"
  by (auto simp: list_all_iff dest: in_set_takeD)

lemma proper_butlast: "list_all proper p \<Longrightarrow> list_all proper (butlast p)"
  by (simp add: butlast_conv_take proper_take)

lemma write_file_changes: "write_file um p d m fs = Some fs' \<Longrightarrow> fs' q \<noteq> fs q \<Longrightarrow> q = p"
  by (auto simp: write_file_def split: option.splits node.splits if_splits)

lemma restore_reg_changes:
  assumes "rs_fs (snd (restore_reg ev e target st)) q \<noteq> rs_fs st q" "list_all proper target"
  shows "list_all proper q"
proof -
  obtain fs1 where f1: "MkdirAll (butlast target) (rs_fs st) = Some fs1"
    using assms(1) by (cases "MkdirAll (butlast target) (rs_fs st)") (auto simp: restore_reg_def)
  show ?thesis
  proof (cases "fs1 q = rs_fs st q")
    case False
    then obtain k where "q = take k (butlast target)" using MkdirAll_changes [OF f1] by blast
    then show ?thesis using assms(2) proper_take proper_butlast by blast
  next
    case True
    define mode where "mode = (if te_Mode e mod 512 = 0 then 384 else te_Mode e mod 512)"
    obtain fs2 where f2: "write_file (ev_umask ev) target (te_Data e) mode fs1 = Some fs2"
      using assms(1) f1 True
      by (cases "write_file (ev_umask ev) target (te_Data e) mode fs1") (auto simp: restore_reg_def mode_def Let_def)
    have "rs_fs (snd (restore_reg ev e target st)) = fs2"
      using f1 f2 by (simp add: restore_reg_def mode_def Let_def)
    then have "q = target" using write_file_changes [OF f2] assms(1) True by metis
    then show ?thesis using assms(2) by simp
  qed
qed

lemma restore_entry_changes:
  assumes "rs_fs (snd (restore_entry ev e st)) q \<noteq> rs_fs st q"
  shows "list_all proper q"
proof -
  let ?t = "Split slash (Clean (te_Name e))"
  have safe: "\<not> unsafe_name (Clean (te_Name e))"
    using assms by (auto simp: restore_entry_def Let_def split: if_splits)
  note t = safe_target [OF safe]
  show ?thesis
  proof (cases "te_Type e")
    case TypeDir
    then obtain fs where f: "MkdirAll ?t (rs_fs st) = Some fs" "rs_fs (snd (restore_entry ev e st)) = fs"
      using assms by (auto simp: restore_entry_def Let_def split: if_splits option.splits)
    then obtain k where "q = take k ?t" using MkdirAll_changes [OF f(1)] assms by metis
    then show ?thesis using proper_take [OF t] by simp
  next
    case TypeReg
    then have "rs_fs (snd (restore_reg ev e ?t st)) q \<noteq> rs_fs st q"
      using assms by (auto simp: restore_entry_def Let_def split: if_splits)
    then show ?thesis using restore_reg_changes t by blast
  next
    case TypeOther
    then show ?thesis using assms by (auto simp: restore_entry_def Let_def split: if_splits)
  qed
qed

lemma restore_entries_changes:
  "rs_fs (snd (restore_entries ev es st)) q \<noteq> rs_fs st q \<Longrightarrow> list_all proper q"
proof (induction es arbitrary: st)
  case (Cons e es)
  obtain err st1 where one: "restore_entry ev e st = (err, st1)" by (metis prod.exhaust)
  show ?case
  proof (cases "rs_fs st1 q = rs_fs st q")
    case False
    then show ?thesis using restore_entry_changes [of ev e st q] one by simp
  next
    case True
    then show ?thesis using Cons.IH [of st1] Cons.prems one by (cases err) auto
  qed
qed simp


definition demo_restore_env :: restore_env where
  "demo_restore_env = \<lparr>ev_umask = id, ev_hours = (\<lambda>_. 0)\<rparr>"



section \<open>Retention\<close>

text \<open>The oldest archives go: at most ten remain, all of them there before, and none that was removed sorts after one
  that was kept.\<close>

lemma pruneBackups_bounded: "length (pruneBackups names) \<le> backupRetention"
  by (simp add: pruneBackups_def)

lemma pruneBackups_subset: "set (pruneBackups names) \<subseteq> set names"
  by (auto simp: pruneBackups_def dest: in_set_takeD)

lemma pruneBackups_keeps_newest:
  assumes "x \<in> set names" "x \<notin> set (pruneBackups names)" "y \<in> set (pruneBackups names)"
  shows "x \<le> y"
proof -
  let ?r = "rev (sort names)"
  have p: "pruneBackups names = take backupRetention ?r" using assms(1,2) by (auto simp: pruneBackups_def split: if_splits)
  have "x \<in> set (take backupRetention ?r @ drop backupRetention ?r)" using assms(1) by simp
  then have "x \<in> set (drop backupRetention ?r)" using assms(2) p by (metis Un_iff set_append)
  moreover have "sorted_wrt (\<ge>) (take backupRetention ?r @ drop backupRetention ?r)" by (simp add: sorted_wrt_rev)
  ultimately show ?thesis using assms(3) p by (auto simp only: sorted_wrt_append)
qed

lemma backup_names_order: "length s = length t \<Longrightarrow> backup_name s \<le> backup_name t \<longleftrightarrow> s \<le> t"
proof (induction s t rule: list_induct2)
  case (Cons x s y t)
  then show ?case by (auto simp: backup_name_def)
qed (simp add: backup_name_def)

text \<open>A backup that succeeds keeps itself when its time stamp is the latest of the folder's archives, all of which
  carry stamps of the same width.\<close>

theorem new_backup_is_kept:
  assumes "\<forall>n \<in> set names. \<exists>t. n = backup_name t \<and> length t = length stamp \<and> t \<le> stamp"
    "BackupToFile True True True True stamp names = (r, names')"
  shows "r = Some (backup_name stamp) \<and> backup_name stamp \<in> set names' \<and> length names' \<le> 10 \<and>
    (\<forall>x \<in> set names - set names'. \<forall>y \<in> set names'. x \<le> y)"
proof -
  let ?c = "List.insert (backup_name stamp) names"
  have r: "r = Some (backup_name stamp)" "names' = pruneBackups ?c" using assms(2) by (simp_all add: BackupToFile_def Let_def)
  have latest: "x \<le> backup_name stamp" if "x \<in> set ?c" for x
    using that assms(1) backup_names_order by auto
  have "backup_name stamp \<in> set names'"
  proof (rule ccontr)
    assume out: "backup_name stamp \<notin> set names'"
    have "0 < length ?c" by (rule length_pos_if_in_set [of "backup_name stamp"]) simp
    then have "0 < length names'" using r(2) by (auto simp: pruneBackups_def backupRetention_def simp flip: length_greater_0_conv)
    then obtain y where y: "y \<in> set names'" using nth_mem by blast
    have "backup_name stamp \<le> y" using pruneBackups_keeps_newest [of _ ?c y] out y by (simp add: r(2))
    moreover have "y \<le> backup_name stamp" using latest y pruneBackups_subset r(2) by blast
    ultimately show False using y out by simp
  qed
  then show ?thesis
    using r pruneBackups_bounded [of ?c] pruneBackups_keeps_newest [of _ ?c] by (auto simp: backupRetention_def)
qed

section \<open>A backup restores the directory\<close>

text \<open>What the walk of a directory yields: each path once, after the directories above it.  A name that begins with
  two dots cannot be restored, and the sidecar's own name is taken.\<close>

definition path_ok :: "string list \<Rightarrow> bool" where
  "path_ok p = (p \<noteq> [] \<and> list_all proper p \<and> \<not> HasPrefix (hd p) ''..'' \<and> p \<noteq> [backupMetaName])"

fun walk_ok :: "(string list \<times> node) list \<Rightarrow> (string list \<times> node) list \<Rightarrow> bool" where
  "walk_ok done [] = True"
| "walk_ok done ((p, n) # ts) =
     (path_ok p \<and> p \<notin> fst ` set done \<and> (\<forall>k. 0 < k \<and> k < length p \<longrightarrow> (take k p, Dir) \<in> set done) \<and>
      walk_ok (done @ [(p, n)]) ts)"

definition restored_node :: "restore_env \<Rightarrow> node \<Rightarrow> node option" where
  "restored_node ev n =
     (case n of
        Dir \<Rightarrow> Some Dir
      | File d m \<Rightarrow> Some (File d (ev_umask ev (if m mod 512 = 0 then 384 else m mod 512)))
      | Special \<Rightarrow> None)"

definition restored_dir :: "restore_env \<Rightarrow> (string list \<times> node) list \<Rightarrow> config_dir" where
  "restored_dir ev tree p = (if p = [] then Some Dir else Option.bind (map_of tree p) (restored_node ev))"

lemma Clean_path:
  assumes "path_ok p"
  shows "Clean (JoinPath p) = JoinPath p" "Clean (JoinPath p @ [slash]) = JoinPath p" "\<not> unsafe_name (JoinPath p)"
    "Split slash (JoinPath p) = p"
proof -
  have p: "p \<noteq> []" "list_all proper p" "\<not> HasPrefix (hd p) ''..''" using assms by (auto simp: path_ok_def)
  have sp: "Split slash (JoinPath p) = p" using p by (intro Split_JoinPath) (auto simp: list_all_iff proper_def)
  then show "Split slash (JoinPath p) = p" .
  have keep: "list_all proper cs \<Longrightarrow> clean_names r (cs @ ds) acc = clean_names r ds (rev cs @ acc)" for r cs ds acc
    by (induction cs arbitrary: acc) (auto simp: proper_def)
  obtain c cs where c: "p = c # cs" using p(1) by (cases p) auto
  obtain x xs where x: "c = x # xs" "x \<noteq> slash" using p(2) c by (cases c) (auto simp: proper_def)
  have hd: "JoinPath p = x # tl (JoinPath p)" using c x(1) by (cases cs) auto
  have sp2: "Split slash (JoinPath p @ [slash]) = p @ [[]]"
  proof -
    have "Split a (s @ [a]) = Split a s @ [[]]" for a s
      by (induction a s rule: Split.induct) (auto split: list.splits)
    then show ?thesis using sp by simp
  qed
  show "Clean (JoinPath p) = JoinPath p"
    using hd x(2) keep [OF p(2), of False "[]" "[]"] p(1) by (simp add: Clean_def sp Let_def) (metis list.sel(1) list.simps(3))
  show "Clean (JoinPath p @ [slash]) = JoinPath p"
    using hd x(2) keep [OF p(2), of False "[[]]" "[]"] p(1) sp2
    by (simp add: Clean_def Let_def) (metis append_Cons list.sel(1))
  show "\<not> unsafe_name (JoinPath p)"
  proof -
    have "JoinPath p \<noteq> ''.''" using c p(2) x by (cases cs) (auto simp: proper_def Cons_eq_append_conv append_eq_Cons_conv)
    moreover have "\<not> IsAbs (JoinPath p)" using hd x(2) by (metis HasPrefix_def IsAbs_def list.sel(1) length_Cons list.size(3) take0 take_Suc_Cons)
    moreover have "\<not> HasPrefix (JoinPath p) ''..''"
    proof
      assume h: "HasPrefix (JoinPath p) ''..''"
      have "x = CHR ''.''" using h hd by (metis HasPrefix_def length_Cons list.inject take_Suc_Cons)
      then show False using h p(2,3) c x by (cases xs; cases cs) (auto simp: HasPrefix_def proper_def)
    qed
    ultimately show ?thesis by (simp add: unsafe_name_def)
  qed
qed


lemma meta_plain: "slash \<notin> set backupMetaName"
  by (simp add: backupMetaName_def)

lemma tar_name:
  assumes "path_ok p"
  shows "te_Name (tar_of (p, n)) \<noteq> backupMetaName" "Clean (te_Name (tar_of (p, n))) = JoinPath p"
proof -
  have "JoinPath p \<noteq> backupMetaName"
    using Clean_path(4) [OF assms] assms Split_no_sep [OF meta_plain] by (auto simp: path_ok_def)
  moreover have "JoinPath p @ [slash] \<noteq> backupMetaName" using meta_plain by (metis in_set_conv_decomp)
  ultimately show "te_Name (tar_of (p, n)) \<noteq> backupMetaName" by (simp add: tar_of_def split: node.splits)
  show "Clean (te_Name (tar_of (p, n))) = JoinPath p"
    using Clean_path(1,2) [OF assms] by (simp add: tar_of_def split: node.splits)
qed

lemma restored_none: "p \<notin> fst ` set done \<Longrightarrow> p \<noteq> [] \<Longrightarrow> map_of done p = None \<and> restored_dir ev done p = None"
  using map_of_eq_None_iff [of "done" p] by (simp add: restored_dir_def)

lemma restored_snoc:
  "p \<notin> fst ` set done \<Longrightarrow> p \<noteq> [] \<Longrightarrow>
     restored_dir ev (done @ [(p, n)]) = (case restored_node ev n of None \<Rightarrow> restored_dir ev done | Some m \<Rightarrow> (restored_dir ev done)(p \<mapsto> m))"
proof (rule ext)
  fix q assume p: "p \<notin> fst ` set done" "p \<noteq> []"
  show "restored_dir ev (done @ [(p, n)]) q =
      (case restored_node ev n of None \<Rightarrow> restored_dir ev done | Some m \<Rightarrow> (restored_dir ev done)(p \<mapsto> m)) q"
    using restored_none [OF p, of ev] p(2)
    by (cases "q = p"; cases "restored_node ev n") (simp_all add: restored_dir_def map_add_def split: option.splits)
qed

text \<open>The directories above a path are there already, so creating them changes nothing.\<close>

lemma mkdir_there:
  assumes "\<forall>k \<le> length p. fs (take k p) = Some Dir"
  shows "MkdirAll p fs = Some fs"
proof -
  have "\<not> list_ex (\<lambda>q. fs q \<noteq> None \<and> fs q \<noteq> Some Dir) (prefixes_of p)"
    using assms by (auto simp: list_ex_iff set_prefixes)
  moreover have "fold (\<lambda>q fs. fs(q \<mapsto> Dir)) (prefixes_of p) fs = fs"
    using assms by (intro ext) (auto simp: fold_dirs set_prefixes)
  ultimately show ?thesis unfolding MkdirAll_def by argo
qed

lemma mkdir_new:
  assumes "\<forall>k < length p. fs (take k p) = Some Dir" "fs p = None"
  shows "MkdirAll p fs = Some (fs(p \<mapsto> Dir))"
proof -
  have pre: "fs q = Some Dir \<or> q = p" if "q \<in> set (prefixes_of p)" for q
    using that assms(1) by (auto simp: set_prefixes le_less)
  have "\<not> list_ex (\<lambda>q. fs q \<noteq> None \<and> fs q \<noteq> Some Dir) (prefixes_of p)"
    using pre assms(2) by (auto simp: list_ex_iff)
  moreover have "p \<in> set (prefixes_of p)" by (auto simp: set_prefixes)
  then have "fold (\<lambda>q fs. fs(q \<mapsto> Dir)) (prefixes_of p) fs = fs(p \<mapsto> Dir)"
    using pre by (intro ext) (simp add: fold_dirs, metis)
  ultimately show ?thesis unfolding MkdirAll_def by argo
qed

lemma restore_step:
  assumes "path_ok p" "p \<notin> fst ` set done" "distinct (map fst done)"
    "\<forall>k. 0 < k \<and> k < length p \<longrightarrow> (take k p, Dir) \<in> set done" "rs_fs st = restored_dir ev done"
  shows "\<exists>st'. restore_entry ev (tar_of (p, n)) st = (None, st') \<and> rs_fs st' = restored_dir ev (done @ [(p, n)]) \<and>
    rs_Hours st' = rs_Hours st \<and> rs_Files st' = rs_Files st + (case n of File _ _ \<Rightarrow> 1 | _ \<Rightarrow> 0)"
proof -
  have p: "p \<noteq> []" using assms(1) by (simp add: path_ok_def)
  have above: "rs_fs st (take k p) = Some Dir" if "k < length p" for k
    using that assms(3,4) p unfolding assms(5) by (cases "k = 0") (auto simp: restored_dir_def restored_node_def)
  have new: "rs_fs st p = None" using restored_none [OF assms(2) p] by (simp add: assms(5))
  have "p = [''install_path'']" if "JoinPath p = ''install_path''"
    using Clean_path(4) [OF assms(1)] that by simp
  then have inst: "\<not> (JoinPath p = ''install_path'' \<and> rs_fs st [''install_path''] \<noteq> None)" using new by auto
  have entry: "restore_entry ev (tar_of (p, n)) st =
      (case n of
         Dir \<Rightarrow> (case MkdirAll p (rs_fs st) of None \<Rightarrow> (Some MkdirFailed, st) | Some fs \<Rightarrow> (None, st\<lparr>rs_fs := fs\<rparr>))
       | File d m \<Rightarrow> restore_reg ev (tar_of (p, n)) p st
       | Special \<Rightarrow> (None, st))"
    using tar_name [OF assms(1), of n] Clean_path(3,4) [OF assms(1)] inst
    by (simp add: restore_entry_def Let_def) (auto simp: tar_of_def split: node.splits)
  show ?thesis
  proof (cases n)
    case Dir
    then show ?thesis
      using entry mkdir_new [of p "rs_fs st"] above new restored_snoc [OF assms(2) p] assms(5) by (simp add: restored_node_def)
  next
    case Special
    then show ?thesis using entry restored_snoc [OF assms(2) p] assms(5) by (simp add: restored_node_def)
  next
    case (File d m)
    have "MkdirAll (butlast p) (rs_fs st) = Some (rs_fs st)"
    proof (rule mkdir_there, intro allI impI)
      fix k assume "k \<le> length (butlast p)"
      moreover have "0 < length p" using p by simp
      ultimately have "k < length p" unfolding length_butlast by linarith
      moreover from this have "take k (butlast p) = take k p" by (rule take_butlast)
      ultimately show "rs_fs st (take k (butlast p)) = Some Dir" using above by simp
    qed
    then show ?thesis
      using entry File new restored_snoc [OF assms(2) p, of ev n] assms(5)
      by (simp add: restore_reg_def write_file_def tar_of_def restored_node_def Let_def)
  qed
qed

definition count_files :: "(string list \<times> node) list \<Rightarrow> nat" where
  "count_files tree = length (filter (\<lambda>(p, n). case n of File _ _ \<Rightarrow> True | _ \<Rightarrow> False) tree)"

lemma restore_tree:
  assumes "walk_ok done tree" "distinct (map fst done)" "rs_fs st = restored_dir ev done"
  shows "\<exists>st'. restore_entries ev (map tar_of tree) st = (None, st') \<and> rs_fs st' = restored_dir ev (done @ tree) \<and>
    rs_Hours st' = rs_Hours st \<and> rs_Files st' = rs_Files st + count_files tree"
  using assms
proof (induction tree arbitrary: "done" st)
  case (Cons x tree)
  obtain p n where x: "x = (p, n)" by (cases x)
  have w: "path_ok p" "p \<notin> fst ` set done" "\<forall>k. 0 < k \<and> k < length p \<longrightarrow> (take k p, Dir) \<in> set done"
      "walk_ok (done @ [(p, n)]) tree"
    using Cons.prems(1) by (simp_all add: x)
  obtain st1 where one: "restore_entry ev (tar_of (p, n)) st = (None, st1)" "rs_fs st1 = restored_dir ev (done @ [(p, n)])"
      "rs_Hours st1 = rs_Hours st" "rs_Files st1 = rs_Files st + (case n of File _ _ \<Rightarrow> 1 | _ \<Rightarrow> 0)"
    using restore_step [OF w(1,2) Cons.prems(2) w(3) Cons.prems(3), of n] by blast
  have "distinct (map fst (done @ [(p, n)]))" using Cons.prems(2) w(2) by simp
  from Cons.IH [OF w(4) this one(2)] obtain st' where
    "restore_entries ev (map tar_of tree) st1 = (None, st')" "rs_fs st' = restored_dir ev (done @ (p, n) # tree)"
    "rs_Hours st' = rs_Hours st1" "rs_Files st' = rs_Files st1 + count_files tree"
    by auto
  then show ?case using one by (intro exI [of _ st']) (auto simp: x count_files_def split: node.splits)
qed (simp add: count_files_def)


definition demo_tree :: "(string list \<times> node) list" where
  "demo_tree = [([''certs''], Dir), ([''certs'', ''a.key''], File [7] 384), ([''de.toml''], File [1, 2] 420)]"

lemma demo_walk: "walk_ok [] demo_tree"
proof -
  have "(take k [''certs'', ''a.key''], Dir) \<in> {([''certs''], Dir)}" if "0 < k" "k < 2" for k
    using that by (cases k) (auto simp: less_Suc_eq)
  then show ?thesis
    by (auto simp: demo_tree_def path_ok_def proper_def HasPrefix_def backupMetaName_def numeral_2_eq_2)
qed


end
