(* ===== verification/Outbound.thy ===== *)
theory Outbound
  imports Socks Go_Strings
begin

text \<open>
  How a client's connection to the tunnel server leaves the machine: the proxy URL and the handshake with the proxy
  (\<open>internal/utils/network/proxy.go\<close>), source address, interface and mark (\<open>outbound.go\<close>), and the dialer
  (\<open>tcp_dialer.go\<close>).

  \<open>url.Parse\<close> is the argument \<open>parse\<close>.  What the operating system and the peer do during one attempt to dial is
  the record \<open>os_net\<close>; a connection is the record of where it goes, what was set on its socket and what was written
  on it.  The HTTP request and response are the library's.
\<close>

section \<open>The proxy URL\<close>

record url =
  u_Scheme :: string
  u_Host :: string
  u_User :: "(string \<times> string) option"

record ProxyConfig =
  px_Scheme :: string
  px_Address :: string
  px_User :: string
  px_Password :: string

datatype outbound_error =
    NotURL | UnknownScheme string | NoHost | NoPort
  | LocalAddrUnresolved string | NoInterface string | NegativeMark int
  | BindFailed | MarkFailed | SockoptFailed | DialFailed | NodelayFailed
  | BadTarget | BadPort | SocksFailed socks_error | SendFailed | NoResponse | Refused int | EarlyBytes nat

definition ParseProxy :: "(string \<Rightarrow> url option) \<Rightarrow> string \<Rightarrow> outbound_error + ProxyConfig option" where
  "ParseProxy parse raw =
     (let raw = TrimSpace raw in
      if raw = [] then Inr None
      else case parse raw of
          None \<Rightarrow> Inl NotURL
        | Some u \<Rightarrow>
            (let scheme = map ToLower_char (u_Scheme u);
                 scheme = (if scheme = ''socks5h'' then ''socks5'' else scheme) in
             if scheme \<noteq> ''socks5'' \<and> scheme \<noteq> ''http'' then Inl (UnknownScheme (u_Scheme u))
             else if u_Host u = [] then Inl NoHost
             else if SplitHostPort (u_Host u) = None then Inl NoPort
             else Inr (Some \<lparr>px_Scheme = scheme, px_Address = u_Host u,
                   px_User = (case u_User u of None \<Rightarrow> [] | Some (n, _) \<Rightarrow> n),
                   px_Password = (case u_User u of None \<Rightarrow> [] | Some (_, p) \<Rightarrow> p)\<rparr>)))"

definition proxy_String :: "ProxyConfig option \<Rightarrow> string" where
  "proxy_String po =
     (case po of
        None \<Rightarrow> ''none''
      | Some p \<Rightarrow>
          if px_User p \<noteq> [] then px_Scheme p @ ''://'' @ px_User p @ '':***@'' @ px_Address p
          else px_Scheme p @ ''://'' @ px_Address p)"

section \<open>The binding\<close>

record Outbound =
  ob_Proxy :: "ProxyConfig option"
  ob_LocalAddr :: string
  ob_Interface :: string
  ob_Mark :: int

record tcp_conn =
  tc_peer :: string
  tc_from :: "string option"
  tc_iface :: "string option"
  tc_mark :: "int option"
  tc_out :: bytes
  tc_in :: bytes

text \<open>One attempt: resolving an address, the socket options, the dial, then what the peer sends and, for an HTTP
  proxy, whether the request went out and the status code with the number of bytes read past the response.\<close>

record os_net =
  os_resolve :: "string \<Rightarrow> string option"
  os_has_iface :: "string \<Rightarrow> bool"
  os_bind :: "string \<Rightarrow> bool"
  os_mark :: "int \<Rightarrow> bool"
  os_sockopt :: "string \<Rightarrow> int \<Rightarrow> bool"
  os_dial :: "string \<Rightarrow> bool"
  os_nodelay :: bool
  os_in :: bytes
  os_sent :: bool
  os_response :: "(int \<times> nat) option"

definition localTCPAddr :: "os_net \<Rightarrow> Outbound option \<Rightarrow> outbound_error + string option" where
  "localTCPAddr os oo =
     (case oo of
        None \<Rightarrow> Inr None
      | Some ob \<Rightarrow>
          if ob_LocalAddr ob = [] then Inr None
          else
            (let addr = ob_LocalAddr ob;
                 addr =
                   (if SplitHostPort addr = None then
                      (let host = (if HasPrefix addr ''['' \<and> HasSuffix addr '']'' then butlast (tl addr) else addr) in
                       JoinHostPort host ''0'')
                    else addr) in
             case os_resolve os addr of
               None \<Rightarrow> Inl (LocalAddrUnresolved (ob_LocalAddr ob))
             | Some a \<Rightarrow> Inr (Some a)))"

definition ob_control :: "os_net \<Rightarrow> Outbound option \<Rightarrow> tcp_conn \<Rightarrow> outbound_error + tcp_conn" where
  "ob_control os oo c =
     (case oo of
        None \<Rightarrow> Inr c
      | Some ob \<Rightarrow>
          if ob_Interface ob \<noteq> [] \<and> \<not> os_bind os (ob_Interface ob) then Inl BindFailed
          else
            (let c = (if ob_Interface ob \<noteq> [] then c\<lparr>tc_iface := Some (ob_Interface ob)\<rparr> else c) in
             if ob_Mark ob \<noteq> 0 \<and> \<not> os_mark os (ob_Mark ob) then Inl MarkFailed
             else Inr (if ob_Mark ob \<noteq> 0 then c\<lparr>tc_mark := Some (ob_Mark ob)\<rparr> else c)))"

definition dialAddress :: "Outbound option \<Rightarrow> string \<Rightarrow> string" where
  "dialAddress oo remote =
     (case oo of
        None \<Rightarrow> remote
      | Some ob \<Rightarrow> (case ob_Proxy ob of None \<Rightarrow> remote | Some p \<Rightarrow> px_Address p))"

definition ob_proxy :: "Outbound option \<Rightarrow> ProxyConfig option" where
  "ob_proxy oo = (case oo of None \<Rightarrow> None | Some ob \<Rightarrow> ob_Proxy ob)"

definition IsSet :: "Outbound option \<Rightarrow> bool" where
  "IsSet oo =
     (case oo of
        None \<Rightarrow> False
      | Some ob \<Rightarrow> ob_Proxy ob \<noteq> None \<or> ob_LocalAddr ob \<noteq> [] \<or> ob_Interface ob \<noteq> [] \<or> ob_Mark ob \<noteq> 0)"

definition Validate :: "os_net \<Rightarrow> Outbound option \<Rightarrow> outbound_error option" where
  "Validate os oo =
     (case oo of
        None \<Rightarrow> None
      | Some ob \<Rightarrow>
          (case localTCPAddr os oo of
             Inl e \<Rightarrow> Some e
           | Inr _ \<Rightarrow>
               if ob_Interface ob \<noteq> [] \<and> \<not> os_has_iface os (ob_Interface ob) then Some (NoInterface (ob_Interface ob))
               else if ob_Mark ob < 0 then Some (NegativeMark (ob_Mark ob))
               else None))"

section \<open>Dialling\<close>

record dial_opts =
  do_rcvbuf :: int
  do_sndbuf :: int
  do_mss :: int
  do_nodelay :: bool
  do_pin :: bool

definition sockopts :: "os_net \<Rightarrow> dial_opts \<Rightarrow> bool" where
  "sockopts os d =
     ((do_pin d \<and> do_rcvbuf d > 0 \<longrightarrow> os_sockopt os ''SO_RCVBUF'' (do_rcvbuf d)) \<and>
      (do_pin d \<and> do_sndbuf d > 0 \<longrightarrow> os_sockopt os ''SO_SNDBUF'' (do_sndbuf d)) \<and>
      (do_mss d > 0 \<longrightarrow> os_sockopt os ''TCP_MAXSEG'' (do_mss d)))"

definition attemptTcpDialer :: "os_net \<Rightarrow> dial_opts \<Rightarrow> string \<Rightarrow> Outbound option \<Rightarrow> outbound_error + tcp_conn" where
  "attemptTcpDialer os d remote oo =
     (case localTCPAddr os oo of
        Inl e \<Rightarrow> Inl e
      | Inr from_addr \<Rightarrow>
          (case ob_control os oo
               \<lparr>tc_peer = remote, tc_from = from_addr, tc_iface = None, tc_mark = None, tc_out = [], tc_in = os_in os\<rparr> of
             Inl e \<Rightarrow> Inl e
           | Inr c \<Rightarrow>
               if \<not> sockopts os d then Inl SockoptFailed
               else if \<not> os_dial os remote then Inl DialFailed
               else if \<not> do_nodelay d \<and> \<not> os_nodelay os then Inl NodelayFailed
               else Inr c))"

definition go_bytes :: "string \<Rightarrow> bytes" where
  "go_bytes s = map of_char s"

text \<open>The CONNECT request of the library for a target and credentials.\<close>

record http_connect =
  hc_target :: string
  hc_auth :: "(string \<times> string) option"

definition connect_request :: "ProxyConfig \<Rightarrow> string \<Rightarrow> http_connect" where
  "connect_request p target =
     \<lparr>hc_target = target,
      hc_auth = (if px_User p \<noteq> [] \<or> px_Password p \<noteq> [] then Some (px_User p, px_Password p) else None)\<rparr>"

definition httpConnect :: "os_net \<Rightarrow> (http_connect \<Rightarrow> bytes) \<Rightarrow> ProxyConfig \<Rightarrow> string \<Rightarrow> tcp_conn \<Rightarrow> outbound_error + tcp_conn" where
  "httpConnect os enc p target c =
     (if \<not> os_sent os then Inl SendFailed
      else case os_response os of
          None \<Rightarrow> Inl NoResponse
        | Some (status, buffered) \<Rightarrow>
            if status \<noteq> 200 then Inl (Refused status)
            else if buffered > 0 then Inl (EarlyBytes buffered)
            else Inr (c\<lparr>tc_out := tc_out c @ enc (connect_request p target)\<rparr>))"

definition connectThrough :: "os_net \<Rightarrow> (http_connect \<Rightarrow> bytes) \<Rightarrow> ProxyConfig \<Rightarrow> string \<Rightarrow> tcp_conn \<Rightarrow> outbound_error + tcp_conn" where
  "connectThrough os enc p target c =
     (case SplitHostPort target of
        None \<Rightarrow> Inl BadTarget
      | Some (host, portStr) \<Rightarrow>
          (case Atoi portStr of
             None \<Rightarrow> Inl BadPort
           | Some port \<Rightarrow>
               if px_Scheme p = ''socks5'' then
                 (case Negotiate (go_bytes (px_User p)) (go_bytes (px_Password p)) (go_bytes host) port (tc_in c) of
                    (w, Inl e) \<Rightarrow> Inl (SocksFailed e)
                  | (w, Inr rest) \<Rightarrow> Inr (c\<lparr>tc_out := tc_out c @ w, tc_in := rest\<rparr>))
               else if px_Scheme p = ''http'' then httpConnect os enc p target c
               else Inl (UnknownScheme (px_Scheme p))))"

text \<open>The retries, one \<open>os_net\<close> each: the connection or the last error, and the seconds slept.  With no attempt at
  all neither a connection nor an error is returned.\<close>

definition dial_once :: "(http_connect \<Rightarrow> bytes) \<Rightarrow> dial_opts \<Rightarrow> Outbound option \<Rightarrow> string \<Rightarrow> os_net \<Rightarrow> outbound_error + tcp_conn" where
  "dial_once enc d oo remote os =
     (case attemptTcpDialer os d (dialAddress oo remote) oo of
        Inl e \<Rightarrow> Inl e
      | Inr c \<Rightarrow> (case ob_proxy oo of None \<Rightarrow> Inr c | Some p \<Rightarrow> connectThrough os enc p remote c))"

fun dial_loop ::
    "(http_connect \<Rightarrow> bytes) \<Rightarrow> dial_opts \<Rightarrow> Outbound option \<Rightarrow> string \<Rightarrow> nat \<Rightarrow> os_net list \<Rightarrow>
     (outbound_error + tcp_conn) option \<times> nat" where
  "dial_loop enc d oo remote backoff [] = (None, 0)"
| "dial_loop enc d oo remote backoff (os # rest) =
     (case dial_once enc d oo remote os of
        Inr c \<Rightarrow> (Some (Inr c), 0)
      | Inl e \<Rightarrow>
          if rest = [] then (Some (Inl e), 0)
          else (case dial_loop enc d oo remote (2 * backoff) rest of (r, slept) \<Rightarrow> (r, backoff + slept)))"

definition TcpDialerVia ::
    "(http_connect \<Rightarrow> bytes) \<Rightarrow> dial_opts \<Rightarrow> Outbound option \<Rightarrow> string \<Rightarrow> os_net list \<Rightarrow>
     (outbound_error + tcp_conn) option \<times> nat" where
  "TcpDialerVia enc d oo remote tries = dial_loop enc d oo remote 1 tries"

definition TcpDialer :: "(http_connect \<Rightarrow> bytes) \<Rightarrow> dial_opts \<Rightarrow> string \<Rightarrow> os_net list \<Rightarrow> (outbound_error + tcp_conn) option \<times> nat" where
  "TcpDialer enc d remote tries = TcpDialerVia enc d None remote tries"

section \<open>The route is the one configured\<close>

lemma Negotiate_writes:
  "Negotiate user pass host port s = (w, Inr rest) \<Longrightarrow> w = socks_open user pass @ socks_connect host port"
  by (auto simp: Negotiate_def socks_open_def Let_def split: sum.splits prod.splits if_splits)

lemma attempt_binds:
  assumes "attemptTcpDialer os d remote oo = Inr c"
  shows "tc_peer c = remote" "tc_out c = []"
    "\<forall>ob. oo = Some ob \<longrightarrow>
       (ob_Interface ob \<noteq> [] \<longrightarrow> tc_iface c = Some (ob_Interface ob)) \<and> (ob_Mark ob \<noteq> 0 \<longrightarrow> tc_mark c = Some (ob_Mark ob)) \<and>
       (ob_LocalAddr ob \<noteq> [] \<longrightarrow> (\<exists>a. localTCPAddr os oo = Inr (Some a) \<and> tc_from c = Some a))"
proof -
  have "\<exists>a. localTCPAddr os oo = Inr a \<and>
      ob_control os oo \<lparr>tc_peer = remote, tc_from = a, tc_iface = None, tc_mark = None, tc_out = [], tc_in = os_in os\<rparr> = Inr c"
    using assms by (auto simp: attemptTcpDialer_def split: sum.splits if_splits)
  then obtain a where a: "localTCPAddr os oo = Inr a"
    "ob_control os oo \<lparr>tc_peer = remote, tc_from = a, tc_iface = None, tc_mark = None, tc_out = [], tc_in = os_in os\<rparr> = Inr c"
    by blast
  show "tc_peer c = remote" "tc_out c = []" using a(2) by (auto simp: ob_control_def Let_def split: option.splits if_splits)
  have some: "a \<noteq> None" if "oo = Some ob" "ob_LocalAddr ob \<noteq> []" for ob
    using a(1) that by (auto simp: localTCPAddr_def Let_def split: option.splits if_splits)
  show "\<forall>ob. oo = Some ob \<longrightarrow>
       (ob_Interface ob \<noteq> [] \<longrightarrow> tc_iface c = Some (ob_Interface ob)) \<and> (ob_Mark ob \<noteq> 0 \<longrightarrow> tc_mark c = Some (ob_Mark ob)) \<and>
       (ob_LocalAddr ob \<noteq> [] \<longrightarrow> (\<exists>a. localTCPAddr os oo = Inr (Some a) \<and> tc_from c = Some a))"
    using a some by (auto simp: ob_control_def Let_def split: option.splits if_splits)
qed

text \<open>What a proxy was asked on the connection.\<close>

definition asked_for :: "(http_connect \<Rightarrow> bytes) \<Rightarrow> ProxyConfig \<Rightarrow> string \<Rightarrow> bytes \<Rightarrow> bool" where
  "asked_for enc p remote out =
     (case SplitHostPort remote of
        None \<Rightarrow> False
      | Some (host, ps) \<Rightarrow>
          (case Atoi ps of
             None \<Rightarrow> False
           | Some port \<Rightarrow>
               px_Scheme p = ''socks5'' \<and>
                 out = socks_open (go_bytes (px_User p)) (go_bytes (px_Password p)) @ socks_connect (go_bytes host) port \<or>
               px_Scheme p = ''http'' \<and> out = enc (connect_request p remote)))"

lemma connectThrough_asks:
  assumes "connectThrough os enc p remote c = Inr c'" "tc_out c = []"
  shows "asked_for enc p remote (tc_out c')" "tc_peer c' = tc_peer c" "tc_iface c' = tc_iface c" "tc_mark c' = tc_mark c"
    "tc_from c' = tc_from c"
proof -
  obtain host ps port where t: "SplitHostPort remote = Some (host, ps)" "Atoi ps = Some port"
    using assms(1) by (auto simp: connectThrough_def split: option.splits)
  consider (socks) w rest where "px_Scheme p = ''socks5''"
      "Negotiate (go_bytes (px_User p)) (go_bytes (px_Password p)) (go_bytes host) port (tc_in c) = (w, Inr rest)"
      "c' = c\<lparr>tc_out := w, tc_in := rest\<rparr>"
    | (http) "px_Scheme p = ''http''" "c' = c\<lparr>tc_out := enc (connect_request p remote)\<rparr>"
    using assms t by (auto simp: connectThrough_def httpConnect_def split: prod.splits sum.splits option.splits if_splits)
  then have "asked_for enc p remote (tc_out c') \<and> tc_peer c' = tc_peer c \<and> tc_iface c' = tc_iface c \<and> tc_mark c' = tc_mark c \<and>
      tc_from c' = tc_from c"
    using Negotiate_writes t by cases (auto simp: asked_for_def)
  then show "asked_for enc p remote (tc_out c')" "tc_peer c' = tc_peer c" "tc_iface c' = tc_iface c" "tc_mark c' = tc_mark c"
    "tc_from c' = tc_from c" by blast+
qed

definition on_route :: "(http_connect \<Rightarrow> bytes) \<Rightarrow> Outbound option \<Rightarrow> string \<Rightarrow> tcp_conn \<Rightarrow> bool" where
  "on_route enc oo remote c =
     (case oo of
        None \<Rightarrow> tc_peer c = remote \<and> tc_out c = []
      | Some ob \<Rightarrow>
          (ob_Interface ob \<noteq> [] \<longrightarrow> tc_iface c = Some (ob_Interface ob)) \<and>
          (ob_Mark ob \<noteq> 0 \<longrightarrow> tc_mark c = Some (ob_Mark ob)) \<and>
          (ob_LocalAddr ob \<noteq> [] \<longrightarrow> tc_from c \<noteq> None) \<and>
          (case ob_Proxy ob of
             None \<Rightarrow> tc_peer c = remote \<and> tc_out c = []
           | Some p \<Rightarrow> tc_peer c = px_Address p \<and> asked_for enc p remote (tc_out c)))"

lemma dial_once_on_route:
  assumes "dial_once enc d oo remote os = Inr c"
  shows "on_route enc oo remote c"
proof -
  obtain c0 where c0: "attemptTcpDialer os d (dialAddress oo remote) oo = Inr c0"
    using assms by (auto simp: dial_once_def split: sum.splits)
  note b = attempt_binds [OF c0]
  show ?thesis
  proof (cases "ob_proxy oo")
    case None
    then have "c = c0" using assms c0 by (simp add: dial_once_def)
    then show ?thesis using b None by (auto simp: on_route_def dialAddress_def ob_proxy_def split: option.splits)
  next
    case (Some p)
    then have "connectThrough os enc p remote c0 = Inr c" using assms c0 by (simp add: dial_once_def)
    from connectThrough_asks [OF this b(2)] show ?thesis
      using b Some by (auto simp: on_route_def dialAddress_def ob_proxy_def split: option.splits)
  qed
qed

lemma dial_loop_on_route: "dial_loop enc d oo remote b tries = (Some (Inr c), slept) \<Longrightarrow> on_route enc oo remote c"
  by (induction tries arbitrary: b slept) (auto split: sum.splits if_splits prod.splits dest: dial_once_on_route)

lemma dial_loop_sleeps: "snd (dial_loop enc d oo remote b tries) \<le> b * (2 ^ (length tries - 1) - 1)"
proof (induction tries arbitrary: b)
  case (Cons os rest)
  show ?case
  proof (cases rest)
    case (Cons o' r')
    let ?k = "length r'"
    have "snd (dial_loop enc d oo remote (2 * b) rest) \<le> 2 * b * (2 ^ ?k - 1)" using Cons.IH [of "2 * b"] Cons by simp
    moreover have "b + 2 * b * (2 ^ ?k - 1) = b * (2 ^ Suc ?k - 1)"
      by (cases "(2 :: nat) ^ ?k") (simp_all add: algebra_simps)
    ultimately show ?thesis using Cons by (auto split: sum.splits prod.splits)
  qed (auto split: sum.splits)
qed simp

lemma dial_loop_returns: "tries \<noteq> [] \<Longrightarrow> fst (dial_loop enc d oo remote b tries) \<noteq> None"
  by (induction tries arbitrary: b) (auto simp: case_prod_beta split: sum.splits)



definition demo_os :: "bool \<Rightarrow> os_net" where
  "demo_os up =
     \<lparr>os_resolve = Some, os_has_iface = (\<lambda>_. True), os_bind = (\<lambda>_. True), os_mark = (\<lambda>_. True), os_sockopt = (\<lambda>_ _. True),
      os_dial = (\<lambda>_. up), os_nodelay = True, os_in = [5, 0, 5, 0, 0, 1, 0, 0, 0, 0, 0, 0, 42], os_sent = True, os_response = None\<rparr>"

definition demo_outbound :: Outbound where
  "demo_outbound =
     \<lparr>ob_Proxy = Some \<lparr>px_Scheme = ''socks5'', px_Address = ''10.0.0.1:1080'', px_User = [], px_Password = []\<rparr>,
      ob_LocalAddr = [], ob_Interface = ''eth1'', ob_Mark = 7\<rparr>"



end
