(* ===== verification/Reload.thy ===== *)
theory Reload
  imports Outbound Spoof
begin

text \<open>
  One tunnel process: the configuration with its defaults and checks (\<open>cmd/defaults.go\<close>, \<open>config/config.go\<close>), the
  choice of the engine (\<open>cmd/cmd.go\<close>, \<open>internal/server/server.go\<close>, \<open>internal/client/client.go\<close>) and the reload of a
  changed file (\<open>cmd/reload.go\<close>).

  A configuration record has the fields this code looks at; the others, those of the embedded sections included, are
  its field \<open>rest\<close> of any type.  Parsing
  TOML is the library's: a file is its fingerprint and the configuration it parses to, if any.  \<open>logger.Fatalf\<close> ends
  the process and is an error value; other log lines are left out.
\<close>

section \<open>Configuration\<close>

record SpoofConfig =
  sp_Profile :: string
  sp_Uplink :: string
  sp_Downlink :: string
  sp_SrcPool :: "string list"
  sp_PeerIP :: string
  sp_Pipe :: bool
  sp_PipeAddr :: string

record 'r ServerConfig =
  sv_BindAddr :: string
  sv_Transport :: string
  sv_Token :: string
  sv_Keepalive :: int
  sv_ChannelSize :: int
  sv_LogLevel :: string
  sv_MuxSession :: int
  sv_MuxVersion :: int
  sv_MaxFrameSize :: int
  sv_MaxReceiveBuffer :: int
  sv_MaxStreamBuffer :: int
  sv_WebPort :: int
  sv_SnifferLog :: string
  sv_Heartbeat :: int
  sv_MuxCon :: int
  sv_Spoof :: SpoofConfig
  sv_rest :: 'r

record 'r ClientConfig =
  cl_RemoteAddr :: string
  cl_Transport :: string
  cl_Token :: string
  cl_ConnectionPool :: int
  cl_RetryInterval :: int
  cl_Keepalive :: int
  cl_LogLevel :: string
  cl_MuxSession :: int
  cl_MuxVersion :: int
  cl_MaxFrameSize :: int
  cl_MaxReceiveBuffer :: int
  cl_MaxStreamBuffer :: int
  cl_WebPort :: int
  cl_SnifferLog :: string
  cl_DialTimeout :: int
  cl_Proxy :: string
  cl_LocalAddr :: string
  cl_Interface :: string
  cl_SOMark :: int
  cl_Spoof :: SpoofConfig
  cl_rest :: 'r

record 'r Config =
  Server :: "'r ServerConfig"
  Client :: "'r ClientConfig"
  WireGuard_Role :: string
  Packet_Role :: string
  Packet_LogLevel :: string
  SSH_Role :: string
  SSH_LogLevel :: string
  Hedioum_Role :: string
  Other :: 'r

record KCPConfig =
  kc_MTU :: int
  kc_Interval :: int
  kc_Resend :: int
  kc_NoDelay :: int
  kc_NoCongestion :: int
  kc_SndWnd :: int
  kc_RcvWnd :: int
  kc_AckNoDelay :: bool
  kc_DataShards :: int
  kc_ParityShards :: int

definition WithDefaults :: "KCPConfig \<Rightarrow> KCPConfig" where
  "WithDefaults k =
     (let fec = kc_DataShards k > 0 \<and> kc_ParityShards k > 0 in
      k\<lparr>kc_MTU := (if kc_MTU k \<le> 0 then 1350 else kc_MTU k),
        kc_Interval := (if kc_Interval k \<le> 0 then 20 else kc_Interval k),
        kc_Resend := (if kc_Resend k < 0 then 2 else kc_Resend k),
        kc_SndWnd := (if kc_SndWnd k \<le> 0 then 1024 else kc_SndWnd k),
        kc_RcvWnd := (if kc_RcvWnd k \<le> 0 then 1024 else kc_RcvWnd k),
        kc_DataShards := (if fec then kc_DataShards k else 0),
        kc_ParityShards := (if fec then kc_ParityShards k else 0)\<rparr>)"

definition resolveObfs :: "string \<Rightarrow> bool \<Rightarrow> string" where
  "resolveObfs obfs stealth =
     (if obfs = ''noise'' \<or> obfs = ''tls'' then obfs
      else if obfs = ''none'' then []
      else if stealth then ''noise'' else [])"

section \<open>Defaults\<close>

definition defaultToken :: string where "defaultToken = ''arange-tun''"
definition defaultChannelSize :: int where "defaultChannelSize = 2048"
definition defaultRetryInterval :: int where "defaultRetryInterval = 3"
definition defaultConnectionPool :: int where "defaultConnectionPool = 8"
definition defaultLogLevel :: string where "defaultLogLevel = ''info''"
definition defaultMuxSession :: int where "defaultMuxSession = 1"
definition defaultKeepAlive :: int where "defaultKeepAlive = 75"
definition deafultHeartbeat :: int where "deafultHeartbeat = 40"
definition defaultDialTimeout :: int where "defaultDialTimeout = 10"
definition defaultMaxFrameSize :: int where "defaultMaxFrameSize = 32768"
definition defaultMaxReceiveBuffer :: int where "defaultMaxReceiveBuffer = 4194304"
definition defaultMaxStreamBuffer :: int where "defaultMaxStreamBuffer = 65536"
definition defaultSnifferLog :: string where "defaultSnifferLog = ''arange-tun.json''"
definition defaultMuxCon :: int where "defaultMuxCon = 8"
definition MuxVersionAuto :: int where "MuxVersionAuto = 0"

lemmas default_defs = defaultToken_def defaultChannelSize_def defaultRetryInterval_def defaultConnectionPool_def
  defaultLogLevel_def defaultMuxSession_def defaultKeepAlive_def deafultHeartbeat_def defaultDialTimeout_def
  defaultMaxFrameSize_def defaultMaxReceiveBuffer_def defaultMaxStreamBuffer_def defaultSnifferLog_def defaultMuxCon_def
  MuxVersionAuto_def

text \<open>The host: which log levels the logging library knows, the operating system and rights, addresses and names.\<close>

record host =
  ho_level :: "string \<Rightarrow> bool"
  ho_linux :: bool
  ho_root :: bool
  ho_ip4 :: "string \<Rightarrow> bool"
  ho_url :: "string \<Rightarrow> url option"
  ho_net :: os_net

definition pos_or :: "int \<Rightarrow> int \<Rightarrow> int" where
  "pos_or d v = (if v \<le> 0 then d else v)"

definition text_or :: "string \<Rightarrow> string \<Rightarrow> string" where
  "text_or d v = (if v = [] then d else v)"

definition level_or :: "host \<Rightarrow> string \<Rightarrow> string" where
  "level_or h v = (if ho_level h v then v else defaultLogLevel)"

definition mux_or :: "int \<Rightarrow> int" where
  "mux_or v = (if v \<noteq> 1 \<and> v \<noteq> 2 then MuxVersionAuto else v)"

definition server_defaults :: "host \<Rightarrow> 'r ServerConfig \<Rightarrow> 'r ServerConfig" where
  "server_defaults h s = s\<lparr>
     sv_Token := text_or defaultToken (sv_Token s),
     sv_ChannelSize := pos_or defaultChannelSize (sv_ChannelSize s),
     sv_LogLevel := level_or h (sv_LogLevel s),
     sv_MuxSession := pos_or defaultMuxSession (sv_MuxSession s),
     sv_Keepalive := pos_or defaultKeepAlive (sv_Keepalive s),
     sv_MuxVersion := mux_or (sv_MuxVersion s),
     sv_MaxFrameSize := pos_or defaultMaxFrameSize (sv_MaxFrameSize s),
     sv_MaxReceiveBuffer := pos_or defaultMaxReceiveBuffer (sv_MaxReceiveBuffer s),
     sv_MaxStreamBuffer := pos_or defaultMaxStreamBuffer (sv_MaxStreamBuffer s),
     sv_SnifferLog := text_or defaultSnifferLog (sv_SnifferLog s),
     sv_Heartbeat := pos_or deafultHeartbeat (sv_Heartbeat s),
     sv_MuxCon := pos_or defaultMuxCon (sv_MuxCon s)\<rparr>"

definition client_defaults :: "host \<Rightarrow> 'r ClientConfig \<Rightarrow> 'r ClientConfig" where
  "client_defaults h c = c\<lparr>
     cl_Token := text_or defaultToken (cl_Token c),
     cl_LogLevel := level_or h (cl_LogLevel c),
     cl_RetryInterval := pos_or defaultRetryInterval (cl_RetryInterval c),
     cl_ConnectionPool := pos_or defaultConnectionPool (cl_ConnectionPool c),
     cl_MuxSession := pos_or defaultMuxSession (cl_MuxSession c),
     cl_Keepalive := pos_or defaultKeepAlive (cl_Keepalive c),
     cl_MuxVersion := mux_or (cl_MuxVersion c),
     cl_MaxFrameSize := pos_or defaultMaxFrameSize (cl_MaxFrameSize c),
     cl_MaxReceiveBuffer := pos_or defaultMaxReceiveBuffer (cl_MaxReceiveBuffer c),
     cl_MaxStreamBuffer := pos_or defaultMaxStreamBuffer (cl_MaxStreamBuffer c),
     cl_SnifferLog := text_or defaultSnifferLog (cl_SnifferLog c),
     cl_DialTimeout := pos_or defaultDialTimeout (cl_DialTimeout c)\<rparr>"

definition fill_defaults :: "host \<Rightarrow> 'r Config \<Rightarrow> 'r Config" where
  "fill_defaults h cfg = cfg\<lparr>
     Server := server_defaults h (Server cfg),
     Client := client_defaults h (Client cfg),
     Packet_LogLevel := (if Packet_Role cfg \<noteq> [] then level_or h (Packet_LogLevel cfg) else Packet_LogLevel cfg),
     SSH_LogLevel := (if SSH_Role cfg \<noteq> [] then level_or h (SSH_LogLevel cfg) else SSH_LogLevel cfg)\<rparr>"

section \<open>Checks\<close>

datatype fatal =
    BadProxy outbound_error | BadOutbound outbound_error | OutboundOnDatagram string
  | NeedsLinux string | NeedsRoot string | BadSpoofProfile string | NoSpoofPeer | BadSpoofSource string | BadPipeAddr string
  | UnknownRole string string | NoSection | InvalidTransport string | LoadFailed

definition outbound_of :: "host \<Rightarrow> 'r ClientConfig \<Rightarrow> outbound_error + Outbound" where
  "outbound_of h c =
     (case ParseProxy (ho_url h) (cl_Proxy c) of
        Inl e \<Rightarrow> Inl e
      | Inr proxy \<Rightarrow>
          Inr \<lparr>ob_Proxy = proxy, ob_LocalAddr = cl_LocalAddr c, ob_Interface = cl_Interface c, ob_Mark = cl_SOMark c\<rparr>)"

definition checkOutbound :: "host \<Rightarrow> 'r Config \<Rightarrow> fatal option" where
  "checkOutbound h cfg =
     (case outbound_of h (Client cfg) of
        Inl e \<Rightarrow> Some (BadProxy e)
      | Inr ob \<Rightarrow>
          if \<not> IsSet (Some ob) then None
          else case Validate (ho_net h) (Some ob) of
              Some e \<Rightarrow> Some (BadOutbound e)
            | None \<Rightarrow>
                if cl_Transport (Client cfg) \<in> {''udp'', ''kcp'', ''xdi'', ''quic'', ''spoof'', ''pck''}
                then Some (OutboundOnDatagram (cl_Transport (Client cfg))) else None)"

definition raw_socket :: "host \<Rightarrow> string \<Rightarrow> fatal option" where
  "raw_socket h t = (if \<not> ho_linux h then Some (NeedsLinux t) else if \<not> ho_root h then Some (NeedsRoot t) else None)"

definition uses_transport :: "string \<Rightarrow> 'r Config \<Rightarrow> bool" where
  "uses_transport t cfg = (sv_Transport (Server cfg) = t \<or> cl_Transport (Client cfg) = t)"

definition checkXdi :: "host \<Rightarrow> 'r Config \<Rightarrow> fatal option" where
  "checkXdi h cfg = (if \<not> uses_transport ''xdi'' cfg then None else raw_socket h ''xdi'')"

definition checkPck :: "host \<Rightarrow> 'r Config \<Rightarrow> fatal option" where
  "checkPck h cfg = (if \<not> uses_transport ''pck'' cfg then None else raw_socket h ''pck'')"

definition spoof_section :: "'r Config \<Rightarrow> SpoofConfig" where
  "spoof_section cfg = (if cl_Transport (Client cfg) = ''spoof'' then cl_Spoof (Client cfg) else sv_Spoof (Server cfg))"

definition pipe_addr :: "SpoofConfig \<Rightarrow> string" where
  "pipe_addr sc = (if sp_PipeAddr sc = [] then ''127.0.0.1:51820'' else sp_PipeAddr sc)"

definition checkSpoof :: "host \<Rightarrow> 'r Config \<Rightarrow> fatal option" where
  "checkSpoof h cfg =
     (if \<not> uses_transport ''spoof'' cfg then None
      else case raw_socket h ''spoof'' of
          Some f \<Rightarrow> Some f
        | None \<Rightarrow>
            (let sc = spoof_section cfg in
             case find (\<lambda>p. ParseSpoofProfile p = None) [sp_Profile sc, sp_Uplink sc, sp_Downlink sc] of
               Some p \<Rightarrow> Some (BadSpoofProfile p)
             | None \<Rightarrow>
                 if sv_Transport (Server cfg) = ''spoof'' \<and> \<not> ho_ip4 h (sp_PeerIP (sv_Spoof (Server cfg))) then Some NoSpoofPeer
                 else case find (\<lambda>ip. \<not> ho_ip4 h ip) (sp_SrcPool sc) of
                     Some ip \<Rightarrow> Some (BadSpoofSource ip)
                   | None \<Rightarrow>
                       if sp_Pipe sc \<and> SplitHostPort (pipe_addr sc) = None then Some (BadPipeAddr (pipe_addr sc)) else None))"

fun first_fatal :: "fatal option list \<Rightarrow> fatal option" where
  "first_fatal [] = None"
| "first_fatal (Some f # fs) = Some f"
| "first_fatal (None # fs) = first_fatal fs"

definition applyDefaults :: "host \<Rightarrow> 'r Config \<Rightarrow> fatal + 'r Config" where
  "applyDefaults h cfg =
     (let cfg = fill_defaults h cfg in
      case first_fatal [checkOutbound h cfg, checkXdi h cfg, checkSpoof h cfg, checkPck h cfg] of
        Some f \<Rightarrow> Inl f
      | None \<Rightarrow> Inr cfg)"

section \<open>Choosing the engine\<close>

datatype transport = TCP | STEALTH | KCP | XDI | SPOOF | SPOOFPIPE | PCK | QUIC | TCPMUX | WS | WSS | WSMUX | WSSMUX | UDP

definition parse_transport :: "string \<Rightarrow> bool \<Rightarrow> transport option" where
  "parse_transport t pipe =
     (if t = ''tcp'' then Some TCP else if t = ''stealth'' then Some STEALTH
      else if t = ''kcp'' then Some KCP else if t = ''xdi'' then Some XDI
      else if t = ''spoof'' then Some (if pipe then SPOOFPIPE else SPOOF)
      else if t = ''pck'' then Some PCK else if t = ''quic'' then Some QUIC else if t = ''tcpmux'' then Some TCPMUX
      else if t = ''ws'' then Some WS else if t = ''wss'' then Some WSS
      else if t = ''wsmux'' then Some WSMUX else if t = ''wssmux'' then Some WSSMUX
      else if t = ''udp'' then Some UDP else None)"

datatype engine =
    WireGuardClient | WireGuardServer | PacketClient | PacketServer | SSHClient | HedioumIran | HedioumForeign
  | FrpServer bool | RatholeServer bool | FrpClient | RatholeClient
  | BackhaulServer transport | BackhaulClient transport "Outbound option"

text \<open>\<open>buildOutbound\<close>, and the transport a backhaul server or client starts.  A client whose binding cannot be built
  dials directly.\<close>

definition buildOutbound :: "host \<Rightarrow> 'r ClientConfig \<Rightarrow> outbound_error + Outbound option" where
  "buildOutbound h c =
     (case outbound_of h c of
        Inl e \<Rightarrow> Inl e
      | Inr ob \<Rightarrow>
          if \<not> IsSet (Some ob) then Inr None
          else case Validate (ho_net h) (Some ob) of Some e \<Rightarrow> Inl e | None \<Rightarrow> Inr (Some ob))"

definition server_Start :: "'r ServerConfig \<Rightarrow> fatal + engine" where
  "server_Start s =
     (case parse_transport (sv_Transport s) (sp_Pipe (sv_Spoof s)) of
        None \<Rightarrow> Inl (InvalidTransport (sv_Transport s))
      | Some t \<Rightarrow> Inr (BackhaulServer t))"

definition client_Start :: "host \<Rightarrow> 'r ClientConfig \<Rightarrow> fatal + engine" where
  "client_Start h c =
     (let ob = (case buildOutbound h c of Inl _ \<Rightarrow> None | Inr ob \<Rightarrow> ob) in
      case parse_transport (cl_Transport c) (sp_Pipe (cl_Spoof c)) of
        None \<Rightarrow> Inl (InvalidTransport (cl_Transport c))
      | Some t \<Rightarrow> Inr (BackhaulClient t ob))"

definition runEngine :: "host \<Rightarrow> 'r Config \<Rightarrow> fatal + engine" where
  "runEngine h cfg =
     (let wg = WireGuard_Role cfg; pk = Packet_Role cfg; he = Hedioum_Role cfg;
          st = sv_Transport (Server cfg); ct = cl_Transport (Client cfg) in
      if wg \<noteq> [] then
        (if wg = ''client'' then Inr WireGuardClient else if wg = ''server'' then Inr WireGuardServer
         else Inl (UnknownRole ''wireguard'' wg))
      else if pk \<noteq> [] then
        (if pk = ''client'' then Inr PacketClient else if pk = ''server'' then Inr PacketServer
         else Inl (UnknownRole ''packet'' pk))
      else if SSH_Role cfg \<noteq> [] then Inr SSHClient
      else if he \<noteq> [] then
        (if he = ''iran'' then Inr HedioumIran else if he = ''foreign'' then Inr HedioumForeign
         else Inl (UnknownRole ''hedioum'' he))
      else if sv_BindAddr (Server cfg) \<noteq> [] then
        (if st = ''frp'' \<or> st = ''frpu'' then Inr (FrpServer (st = ''frpu''))
         else if st = ''rathole'' \<or> st = ''ratholeu'' then Inr (RatholeServer (st = ''ratholeu''))
         else server_Start (Server cfg))
      else if cl_RemoteAddr (Client cfg) \<noteq> [] then
        (if ct = ''frp'' \<or> ct = ''frpu'' then Inr FrpClient
         else if ct = ''rathole'' \<or> ct = ''ratholeu'' then Inr RatholeClient
         else client_Start h (Client cfg))
      else Inl NoSection)"

section \<open>Reloading\<close>

text \<open>\<open>itoa\<close> of \<open>reload.go\<close> fills an array of eight bytes from the end; \<^const>\<open>None\<close> is the panic of a number with more
  digits.\<close>

fun itoa_loop :: "nat \<Rightarrow> nat \<Rightarrow> string \<Rightarrow> string option" where
  "itoa_loop i n b =
     (if n = 0 then Some b
      else case i of 0 \<Rightarrow> None | Suc j \<Rightarrow> itoa_loop j (n div 10) (digit_char (n mod 10) # b))"

declare itoa_loop.simps [simp del]

definition cmd_itoa :: "int \<Rightarrow> string option" where
  "cmd_itoa n = (if n = 0 then Some ''0'' else itoa_loop 8 (nat n) [])"

definition portsInUse :: "'r Config \<Rightarrow> string list option" where
  "portsInUse cfg =
     (let web = (\<lambda>p. if p > 0 then map_option (\<lambda>s. [JoinHostPort [] s]) (cmd_itoa p) else Some []) in
      if sv_BindAddr (Server cfg) \<noteq> [] then map_option (\<lambda>w. sv_BindAddr (Server cfg) # w) (web (sv_WebPort (Server cfg)))
      else web (cl_WebPort (Client cfg)))"

text \<open>The file as \<open>stat\<close> and the parser see it: none, or its size and time with the configuration it parses to.\<close>

type_synonym fingerprint = "int \<times> int"
type_synonym 'r config_file = "(fingerprint \<times> 'r Config option) option"

definition fileFingerprint :: "'r config_file \<Rightarrow> fingerprint" where
  "fileFingerprint f = (case f of None \<Rightarrow> (0, 0) | Some (fp, _) \<Rightarrow> fp)"

definition loadConfig :: "'r config_file \<Rightarrow> 'r Config option" where
  "loadConfig f = Option.bind f snd"

text \<open>Where \<open>Run\<close> stands: about to start the engine and watch, between two polls, between the \<open>stat\<close> and the load of a
  poll, waiting for the stopped tunnel, ended by a fatal error or a panic, or ended by its context.\<close>

datatype 'r phase =
    Starting | Watching fingerprint | Parsing fingerprint | Settling "'r Config" | Died fatal | Crashed | Stopped

record 'r run =
  rn_file :: "'r config_file"
  rn_cfg :: "'r Config"
  rn_phase :: "'r phase"

definition tunnel_up :: "'r run \<Rightarrow> bool" where
  "tunnel_up s = (case rn_phase s of Watching _ \<Rightarrow> True | Parsing _ \<Rightarrow> True | _ \<Rightarrow> False)"

definition Run_start :: "host \<Rightarrow> 'r config_file \<Rightarrow> fatal + 'r run" where
  "Run_start h f =
     (case loadConfig f of
        None \<Rightarrow> Inl LoadFailed
      | Some cfg \<Rightarrow>
          (case applyDefaults h cfg of
             Inl e \<Rightarrow> Inl e
           | Inr cfg \<Rightarrow> Inr \<lparr>rn_file = f, rn_cfg = cfg, rn_phase = Starting\<rparr>))"

text \<open>The steps of \<open>Run\<close> and \<open>awaitConfigChange\<close>, and the edits of the file around them.  A step that does not apply
  changes nothing.\<close>

datatype 'r event = Edit "'r config_file" | Watch | PollStat | PollLoad | Restart | CtxDone

definition poll_load :: "host \<Rightarrow> fingerprint \<Rightarrow> 'r run \<Rightarrow> 'r run" where
  "poll_load h fp s =
     (case loadConfig (rn_file s) of
        None \<Rightarrow> s\<lparr>rn_phase := Watching fp\<rparr>
      | Some next \<Rightarrow>
          (case applyDefaults h next of
             Inl e \<Rightarrow> s\<lparr>rn_phase := Died e\<rparr>
           | Inr next \<Rightarrow> s\<lparr>rn_phase := (if rn_cfg s = next then Watching fp else Settling next)\<rparr>))"

definition run_step :: "host \<Rightarrow> 'r event \<Rightarrow> 'r run \<Rightarrow> 'r run" where
  "run_step h e s =
     (case e of
        Edit f \<Rightarrow> s\<lparr>rn_file := f\<rparr>
      | Watch \<Rightarrow>
          (case rn_phase s of
             Starting \<Rightarrow>
               (case runEngine h (rn_cfg s) of
                  Inl e \<Rightarrow> s\<lparr>rn_phase := Died e\<rparr>
                | Inr _ \<Rightarrow> s\<lparr>rn_phase := Watching (fileFingerprint (rn_file s))\<rparr>)
           | _ \<Rightarrow> s)
      | PollStat \<Rightarrow>
          (case rn_phase s of
             Watching seen \<Rightarrow>
               (case rn_file s of
                  None \<Rightarrow> s
                | Some (fp, _) \<Rightarrow> if fp = seen then s else s\<lparr>rn_phase := Parsing fp\<rparr>)
           | _ \<Rightarrow> s)
      | PollLoad \<Rightarrow> (case rn_phase s of Parsing fp \<Rightarrow> poll_load h fp s | _ \<Rightarrow> s)
      | Restart \<Rightarrow>
          (case rn_phase s of
             Settling next \<Rightarrow>
               (if portsInUse (rn_cfg s) = None then s\<lparr>rn_phase := Crashed\<rparr> else s\<lparr>rn_cfg := next, rn_phase := Starting\<rparr>)
           | _ \<Rightarrow> s)
      | CtxDone \<Rightarrow> (case rn_phase s of Watching _ \<Rightarrow> s\<lparr>rn_phase := Stopped\<rparr> | _ \<Rightarrow> s))"


section \<open>Defaults are in range\<close>

definition server_ok :: "host \<Rightarrow> 'r ServerConfig \<Rightarrow> bool" where
  "server_ok h s =
     (sv_Token s \<noteq> [] \<and> sv_SnifferLog s \<noteq> [] \<and> ho_level h (sv_LogLevel s) \<and> sv_MuxVersion s \<in> {0, 1, 2} \<and>
      (\<forall>v \<in> {sv_ChannelSize s, sv_MuxSession s, sv_Keepalive s, sv_MaxFrameSize s, sv_MaxReceiveBuffer s, sv_MaxStreamBuffer s,
          sv_Heartbeat s, sv_MuxCon s}. v \<ge> 1))"

definition client_ok :: "host \<Rightarrow> 'r ClientConfig \<Rightarrow> bool" where
  "client_ok h c =
     (cl_Token c \<noteq> [] \<and> cl_SnifferLog c \<noteq> [] \<and> ho_level h (cl_LogLevel c) \<and> cl_MuxVersion c \<in> {0, 1, 2} \<and>
      (\<forall>v \<in> {cl_RetryInterval c, cl_ConnectionPool c, cl_MuxSession c, cl_Keepalive c, cl_MaxFrameSize c, cl_MaxReceiveBuffer c,
          cl_MaxStreamBuffer c, cl_DialTimeout c}. v \<ge> 1))"

definition config_ok :: "host \<Rightarrow> 'r Config \<Rightarrow> bool" where
  "config_ok h cfg =
     (server_ok h (Server cfg) \<and> client_ok h (Client cfg) \<and>
      (Packet_Role cfg \<noteq> [] \<longrightarrow> ho_level h (Packet_LogLevel cfg)) \<and> (SSH_Role cfg \<noteq> [] \<longrightarrow> ho_level h (SSH_LogLevel cfg)))"

lemma pos_or_ge: "d \<ge> 1 \<Longrightarrow> pos_or d v \<ge> 1"
  by (simp add: pos_or_def)

lemma pos_or_id: "v \<ge> 1 \<Longrightarrow> pos_or d v = v"
  by (simp add: pos_or_def)

lemma text_or_ok: "d \<noteq> [] \<Longrightarrow> text_or d v \<noteq> []" "v \<noteq> [] \<Longrightarrow> text_or d v = v"
  by (simp_all add: text_or_def)

lemma mux_or_ok: "mux_or v \<in> {0, 1, 2}" "v \<in> {0, 1, 2} \<Longrightarrow> mux_or v = v"
  by (auto simp: mux_or_def MuxVersionAuto_def)

lemma level_or_ok: "ho_level h defaultLogLevel \<Longrightarrow> ho_level h (level_or h v)" "ho_level h v \<Longrightarrow> level_or h v = v"
  by (simp_all add: level_or_def)

lemmas or_ok = pos_or_ge text_or_ok(1) mux_or_ok(1) level_or_ok(1)
lemmas or_id = pos_or_id text_or_ok(2) mux_or_ok(2) level_or_ok(2)

lemma server_defaults_ok: "ho_level h defaultLogLevel \<Longrightarrow> server_ok h (server_defaults h s)"
  using mux_or_ok(1) [of "sv_MuxVersion s"] by (simp add: server_ok_def server_defaults_def level_or_ok) (simp add: default_defs or_ok)

lemma server_defaults_id: "server_ok h s \<Longrightarrow> server_defaults h s = s"
  using mux_or_ok(2) [of "sv_MuxVersion s"] by (simp add: server_ok_def server_defaults_def or_id)

lemma client_defaults_ok: "ho_level h defaultLogLevel \<Longrightarrow> client_ok h (client_defaults h c)"
  using mux_or_ok(1) [of "cl_MuxVersion c"] by (simp add: client_ok_def client_defaults_def level_or_ok) (simp add: default_defs or_ok)

lemma client_defaults_id: "client_ok h c \<Longrightarrow> client_defaults h c = c"
  using mux_or_ok(2) [of "cl_MuxVersion c"] by (simp add: client_ok_def client_defaults_def or_id)

lemma fill_defaults_ok: "ho_level h defaultLogLevel \<Longrightarrow> config_ok h (fill_defaults h cfg)"
  by (simp add: config_ok_def fill_defaults_def server_defaults_ok client_defaults_ok level_or_ok)

lemma fill_defaults_id: "config_ok h cfg \<Longrightarrow> fill_defaults h cfg = cfg"
  by (simp add: config_ok_def fill_defaults_def server_defaults_id client_defaults_id level_or_ok)

lemma applyDefaults_Inr: "applyDefaults h cfg = Inr cfg' \<Longrightarrow> cfg' = fill_defaults h cfg"
  by (auto simp: applyDefaults_def Let_def split: option.splits)



text \<open>A KCP session never has a zero window or tick, error correction is either on with both counts or off, and the
  defaults are stable.\<close>

lemma WithDefaults_in_range:
  "kc_MTU (WithDefaults k) > 0 \<and> kc_Interval (WithDefaults k) > 0 \<and> kc_Resend (WithDefaults k) \<ge> 0 \<and>
   kc_SndWnd (WithDefaults k) > 0 \<and> kc_RcvWnd (WithDefaults k) > 0 \<and>
   (kc_DataShards (WithDefaults k) > 0 \<longleftrightarrow> kc_ParityShards (WithDefaults k) > 0)"
  by (simp add: WithDefaults_def Let_def)

lemma WithDefaults_idem: "WithDefaults (WithDefaults k) = WithDefaults k"
  by (cases k) (simp add: WithDefaults_def Let_def)


section \<open>The running tunnel follows the file\<close>

lemma itoa_loop_digits:
  "0 < n \<Longrightarrow> n < 10 ^ i \<Longrightarrow> itoa_loop i n b = Some (Itoa_nat n @ b)"
proof (induction i n b rule: itoa_loop.induct)
  case (1 i n b)
  obtain j where i: "i = Suc j" using "1.prems" by (cases i) auto
  show ?case
  proof (cases "n < 10")
    case True
    then have "n div 10 = 0" "n mod 10 = n" by auto
    then show ?thesis using "1.prems" i True by (subst itoa_loop.simps, subst itoa_loop.simps, subst Itoa_nat.simps) simp
  next
    case False
    then have "itoa_loop j (n div 10) (digit_char (n mod 10) # b) = Some (Itoa_nat (n div 10) @ digit_char (n mod 10) # b)"
      using "1.IH" [OF _ i] "1.prems" i by (simp add: less_mult_imp_div_less)
    then show ?thesis using "1.prems" i False by (subst itoa_loop.simps, subst Itoa_nat.simps) simp
  qed
qed

text \<open>For a web port of up to eight digits, so for every port there is, \<open>itoa\<close> is the decimal numeral.\<close>

lemma cmd_itoa_decimal: "0 \<le> n \<Longrightarrow> n < 10 ^ 8 \<Longrightarrow> cmd_itoa n = Some (Itoa_nat (nat n))"
proof (cases "n = 0")
  case True
  have "digit_char 0 = CHR ''0''" by code_simp
  then show ?thesis using True by (simp add: cmd_itoa_def Itoa_nat.simps [of 0])
next
  case False
  assume "0 \<le> n" "n < 10 ^ 8"
  then show ?thesis using itoa_loop_digits [of "nat n" 8 "[]"] False by (simp add: cmd_itoa_def nat_less_iff)
qed

definition meant :: "host \<Rightarrow> 'r config_file \<Rightarrow> fatal + 'r Config" where
  "meant h f = (case loadConfig f of None \<Rightarrow> Inl LoadFailed | Some cfg \<Rightarrow> applyDefaults h cfg)"

definition remembered :: "'r run \<Rightarrow> fingerprint set" where
  "remembered s = (case rn_phase s of Watching fp \<Rightarrow> {fp} | Parsing fp \<Rightarrow> {fp} | _ \<Rightarrow> {})"

definition follows :: "host \<Rightarrow> 'r run \<Rightarrow> bool" where
  "follows h s =
     (case rn_phase s of
        Starting \<Rightarrow> meant h (rn_file s) = Inr (rn_cfg s)
      | Watching fp \<Rightarrow> fp = fileFingerprint (rn_file s) \<longrightarrow> loadConfig (rn_file s) = None \<or> meant h (rn_file s) = Inr (rn_cfg s)
      | Settling next \<Rightarrow> meant h (rn_file s) = Inr next
      | _ \<Rightarrow> True)"

text \<open>Edits that the watcher can see: not while the tunnel is being restarted, and with a size and time that the
  file did not have before.\<close>

fun edits_ok :: "host \<Rightarrow> 'r run \<Rightarrow> fingerprint set \<Rightarrow> 'r event list \<Rightarrow> bool" where
  "edits_ok h s used [] = True"
| "edits_ok h s used (Edit f # es) =
     (tunnel_up s \<and> (f \<noteq> None \<longrightarrow> fileFingerprint f \<notin> used) \<and>
      edits_ok h (run_step h (Edit f) s) (insert (fileFingerprint f) used) es)"
| "edits_ok h s used (e # es) = edits_ok h (run_step h e s) used es"

lemma follows_edit:
  assumes "follows h s" "tunnel_up s" "f \<noteq> None \<longrightarrow> fileFingerprint f \<notin> used" "remembered s \<subseteq> used"
  shows "follows h (run_step h (Edit f) s)"
proof (cases "rn_phase s")
  case (Watching fp)
  have "f = None \<or> fp \<noteq> fileFingerprint f" using assms(3,4) Watching by (auto simp: remembered_def)
  then show ?thesis using Watching by (auto simp: follows_def run_step_def loadConfig_def)
qed (use assms(2) in \<open>auto simp: follows_def run_step_def tunnel_up_def\<close>)

lemma follows_step:
  assumes "follows h s" "\<forall>f. e \<noteq> Edit f"
  shows "follows h (run_step h e s)"
proof (cases e)
  case PollLoad
  then show ?thesis
    using assms(1)
    by (auto simp: follows_def run_step_def poll_load_def meant_def split: phase.splits option.splits sum.splits)
qed (use assms in \<open>auto simp: follows_def run_step_def split: phase.splits option.splits sum.splits if_splits\<close>)

lemma remembered_step:
  assumes "remembered s \<subseteq> used" "fileFingerprint (rn_file s) \<in> used" "\<forall>f. e \<noteq> Edit f"
  shows "remembered (run_step h e s) \<subseteq> used \<and> rn_file (run_step h e s) = rn_file s"
  using assms
  by (cases e) (auto simp: remembered_def run_step_def poll_load_def fileFingerprint_def
      split: phase.splits option.splits sum.splits if_splits)

lemma follows_run_step:
  assumes "follows h s" "remembered s \<subseteq> used" "fileFingerprint (rn_file s) \<in> used" "\<forall>f. e \<noteq> Edit f"
  shows "follows h (run_step h e s)" "remembered (run_step h e s) \<subseteq> used"
    "fileFingerprint (rn_file (run_step h e s)) \<in> used"
  using follows_step [OF assms(1,4)] remembered_step [OF assms(2,3,4), of h] assms(3) by simp_all

lemma follows_run:
  "edits_ok h s used es \<Longrightarrow> follows h s \<Longrightarrow> remembered s \<subseteq> used \<Longrightarrow> fileFingerprint (rn_file s) \<in> used \<Longrightarrow>
     follows h (fold (run_step h) es s)"
proof (induction es arbitrary: s used)
  case (Cons e es)
  show ?case
  proof (cases "\<exists>f. e = Edit f")
    case True
    then obtain f where f: "e = Edit f" by blast
    have "remembered (run_step h e s) \<subseteq> insert (fileFingerprint f) used"
      using Cons.prems(3) by (auto simp: remembered_def run_step_def f)
    moreover have "follows h (run_step h e s)" "edits_ok h (run_step h e s) (insert (fileFingerprint f) used) es"
      using Cons.prems follows_edit [of h s f used] by (simp_all add: f)
    moreover have "rn_file (run_step h e s) = f" by (simp add: run_step_def f)
    ultimately show ?thesis using Cons.IH [of "run_step h e s" "insert (fileFingerprint f) used"] by simp
  next
    case False
    then have e: "\<forall>f. e \<noteq> Edit f" by blast
    then have "edits_ok h (run_step h e s) used es" using Cons.prems(1) by (cases e) auto
    from Cons.IH [OF this follows_run_step [OF Cons.prems(2,3,4) e]] show ?thesis by simp
  qed
qed simp

text \<open>What the next poll does about a file it has not seen, together with the restart it may start.\<close>

definition next_poll :: "host \<Rightarrow> 'r run \<Rightarrow> 'r run" where
  "next_poll h s = fold (run_step h) [PollStat, PollLoad, Restart, Watch] s"

lemma poll_unseen:
  assumes "rn_phase s = Watching fp0" "rn_file s = Some (fp, c)" "fp \<noteq> fp0"
  shows "loadConfig (rn_file s) = None \<Longrightarrow> next_poll h s = s\<lparr>rn_phase := Watching fp\<rparr>"
    "meant h (rn_file s) = Inr (rn_cfg s) \<Longrightarrow> next_poll h s = s\<lparr>rn_phase := Watching fp\<rparr>"
    "meant h (rn_file s) = Inr next \<Longrightarrow> next \<noteq> rn_cfg s \<Longrightarrow> runEngine h next = Inr e \<Longrightarrow> portsInUse (rn_cfg s) \<noteq> None \<Longrightarrow>
       next_poll h s = s\<lparr>rn_cfg := next, rn_phase := Watching fp\<rparr>"
  using assms
  by (auto simp: next_poll_def run_step_def poll_load_def loadConfig_def meant_def fileFingerprint_def split: option.splits sum.splits)

text \<open>(C32) Let a tunnel run from its start through any sequence of edits of its file and steps of the watcher, where no
  edit falls into a restart and every edit changes the file's size or time to new ones.  Whenever the watcher has
  polled the current file, the tunnel runs exactly what the file means, unless the file does not parse.  When it
  has not yet, the next poll leaves the tunnel alone if the file does not parse or means the same, and otherwise
  restarts it with what the file means.\<close>

theorem reload_follows_file:
  assumes "Run_start h f = Inr s0" "edits_ok h s0 {(0, 0), fileFingerprint f} es" "s = fold (run_step h) es s0"
    "rn_phase s = Watching fp"
  shows "(fp = fileFingerprint (rn_file s) \<longrightarrow> loadConfig (rn_file s) = None \<or> meant h (rn_file s) = Inr (rn_cfg s)) \<and>
    (\<forall>fp' c. rn_file s = Some (fp', c) \<and> fp' \<noteq> fp \<longrightarrow>
       (loadConfig (rn_file s) = None \<or> meant h (rn_file s) = Inr (rn_cfg s) \<longrightarrow>
          next_poll h s = s\<lparr>rn_phase := Watching fp'\<rparr>) \<and>
       (\<forall>next e. meant h (rn_file s) = Inr next \<and> next \<noteq> rn_cfg s \<and> runEngine h next = Inr e \<and> portsInUse (rn_cfg s) \<noteq> None \<longrightarrow>
          next_poll h s = s\<lparr>rn_cfg := next, rn_phase := Watching fp'\<rparr>))"
proof -
  have "follows h s0" "remembered s0 = {}" "rn_file s0 = f"
    using assms(1) by (auto simp: Run_start_def follows_def meant_def remembered_def split: option.splits sum.splits)
  then have "follows h s" using follows_run [OF assms(2)] assms(3) by simp
  then have "fp = fileFingerprint (rn_file s) \<longrightarrow> loadConfig (rn_file s) = None \<or> meant h (rn_file s) = Inr (rn_cfg s)"
    using assms(4) by (simp add: follows_def)
  then show ?thesis using poll_unseen [OF assms(4)] by blast
qed


section \<open>What the watcher misses\<close>

lemma settled_is_stuck:
  assumes "rn_phase s = Watching fp" "rn_file s = Some (fp, c)" "list_all (\<lambda>e. (\<forall>f. e \<noteq> Edit f) \<and> e \<noteq> CtxDone) es"
  shows "fold (run_step h) es s = s"
  using assms(3)
proof (induction es)
  case (Cons e es)
  have "run_step h e s = s" using Cons.prems assms(1,2) by (cases e) (auto simp: run_step_def)
  then show ?case using Cons by simp
qed simp

text \<open>An edit saved while the tunnel is being restarted for an earlier one is missed: the watcher takes the
  file's size and time only when it begins again, so the tunnel runs the earlier configuration for as long as the
  file is not edited once more, although the file parses and means something else.\<close>

theorem edit_during_restart_is_missed:
  assumes "rn_phase s = Settling next" "portsInUse (rn_cfg s) \<noteq> None" "runEngine h next = Inr e"
    "applyDefaults h c = Inr wanted" "wanted \<noteq> next"
    "list_all (\<lambda>e. (\<forall>f. e \<noteq> Edit f) \<and> e \<noteq> CtxDone) es"
  shows "\<exists>s'. fold (run_step h) ([Edit (Some (fp, Some c)), Restart, Watch] @ es) s = s' \<and> rn_phase s' = Watching fp \<and>
    rn_cfg s' = next \<and> meant h (rn_file s') = Inr wanted \<and> meant h (rn_file s') \<noteq> Inr (rn_cfg s')"
proof -
  let ?s = "fold (run_step h) [Edit (Some (fp, Some c)), Restart, Watch] s"
  have s: "?s = \<lparr>rn_file = Some (fp, Some c), rn_cfg = next, rn_phase = Watching fp\<rparr>"
    using assms(1,2,3) by (cases s) (simp add: run_step_def fileFingerprint_def)
  then have "fold (run_step h) es ?s = ?s" using assms(6) by (intro settled_is_stuck) simp_all
  then show ?thesis using s assms(4,5) by (simp add: meant_def loadConfig_def)
qed

lemma bad_proxy_fatal:
  assumes "ParseProxy (ho_url h) (cl_Proxy (Client c)) = Inl err"
  shows "applyDefaults h c = Inl (BadProxy err)"
  using assms by (simp add: applyDefaults_def fill_defaults_def checkOutbound_def outbound_of_def client_defaults_def)

text \<open>A mistyped proxy in a file that parses does take a working tunnel down: the next poll ends the process, and
  starting it again fails on the same line.\<close>

theorem mistyped_proxy_ends_tunnel:
  assumes "rn_phase s = Watching fp0" "fp \<noteq> fp0" "ParseProxy (ho_url h) (cl_Proxy (Client c)) = Inl err"
  shows "tunnel_up s \<and>
    rn_phase (fold (run_step h) [Edit (Some (fp, Some c)), PollStat, PollLoad] s) = Died (BadProxy err) \<and>
    Run_start h (Some (fp, Some c)) = Inl (BadProxy err)"
  using assms bad_proxy_fatal [OF assms(3)]
  by (simp add: tunnel_up_def run_step_def poll_load_def loadConfig_def Run_start_def)

section \<open>Outbound settings reach the dialer\<close>

lemma first_fatal_None: "first_fatal fs = None \<longleftrightarrow> list_all (\<lambda>f. f = None) fs"
  by (induction fs rule: first_fatal.induct) auto

lemma applied_checks:
  assumes "applyDefaults h cfg = Inr cfg'"
  shows "checkOutbound h cfg' = None"
proof -
  have "first_fatal [checkOutbound h cfg', checkXdi h cfg', checkSpoof h cfg', checkPck h cfg'] = None"
    using assms unfolding applyDefaults_Inr [OF assms] applyDefaults_def Let_def
    by (cases "first_fatal [checkOutbound h (fill_defaults h cfg), checkXdi h (fill_defaults h cfg),
      checkSpoof h (fill_defaults h cfg), checkPck h (fill_defaults h cfg)]") simp_all
  then show ?thesis unfolding first_fatal_None by simp
qed

text \<open>An accepted configuration in which a proxy, a source address, an interface or a mark is set never runs
  a backhaul client without them: the client never falls back to dialling directly, and its transport is one
  that dials through them.  (The frp and rathole clients are started all the same and ignore the settings.)\<close>

theorem outbound_is_never_dropped:
  assumes "applyDefaults h cfg = Inr cfg'" "runEngine h cfg' = Inr (BackhaulClient t oo)"
    "outbound_of h (Client cfg') = Inr ob" "IsSet (Some ob)"
  shows "oo = Some ob \<and> t \<in> {TCP, STEALTH, TCPMUX, WS, WSS, WSMUX, WSSMUX}"
proof -
  have ok: "Validate (ho_net h) (Some ob) = None"
      "cl_Transport (Client cfg') \<notin> {''udp'', ''kcp'', ''xdi'', ''quic'', ''spoof'', ''pck''}"
    using applied_checks [OF assms(1)] assms(3,4) by (auto simp: checkOutbound_def split: option.splits if_splits)
  have "client_Start h (Client cfg') = Inr (BackhaulClient t oo)"
    using assms(2) by (auto simp: runEngine_def server_Start_def Let_def split: if_splits option.splits)
  then have "parse_transport (cl_Transport (Client cfg')) (sp_Pipe (cl_Spoof (Client cfg'))) = Some t" "oo = Some ob"
    using ok(1) assms(3,4) by (auto simp: client_Start_def buildOutbound_def split: option.splits)
  then show ?thesis using ok(2) by (auto simp: parse_transport_def split: if_splits)
qed

text \<open>An frp or rathole client with a valid proxy passes the checks and is started, as an engine that is not given the
  settings.\<close>

lemma frp_client_started_with_proxy:
  assumes "applyDefaults h cfg = Inr cfg'" "outbound_of h (Client cfg') = Inr ob" "ob_Proxy ob \<noteq> None"
    "WireGuard_Role cfg' = []" "Packet_Role cfg' = []" "SSH_Role cfg' = []" "Hedioum_Role cfg' = []"
    "sv_BindAddr (Server cfg') = []" "cl_RemoteAddr (Client cfg') \<noteq> []" "cl_Transport (Client cfg') \<in> {''frp'', ''rathole''}"
  shows "IsSet (Some ob) \<and> runEngine h cfg' \<in> {Inr FrpClient, Inr RatholeClient}"
  using assms by (auto simp: runEngine_def IsSet_def Let_def)


section \<open>Examples\<close>

definition demo_host :: host where
  "demo_host =
     \<lparr>ho_level = (\<lambda>l. l = ''info''), ho_linux = True, ho_root = True, ho_ip4 = (\<lambda>_. True),
      ho_url = (\<lambda>u. if u = ''socks5://p:1'' then Some \<lparr>u_Scheme = ''socks5'', u_Host = ''p:1'', u_User = None\<rparr> else None),
      ho_net = demo_os True\<rparr>"

definition demo_spoof :: SpoofConfig where
  "demo_spoof =
     \<lparr>sp_Profile = [], sp_Uplink = [], sp_Downlink = [], sp_SrcPool = [], sp_PeerIP = [], sp_Pipe = False, sp_PipeAddr = []\<rparr>"

definition demo_server :: "unit ServerConfig" where
  "demo_server =
     \<lparr>sv_BindAddr = [], sv_Transport = [], sv_Token = [], sv_Keepalive = 0, sv_ChannelSize = 0, sv_LogLevel = [], sv_MuxSession = 0,
      sv_MuxVersion = 7, sv_MaxFrameSize = 0, sv_MaxReceiveBuffer = 0, sv_MaxStreamBuffer = 0, sv_WebPort = 0, sv_SnifferLog = [],
      sv_Heartbeat = - 5, sv_MuxCon = 0, sv_Spoof = demo_spoof, sv_rest = ()\<rparr>"

definition demo_client :: "string \<Rightarrow> string \<Rightarrow> unit ClientConfig" where
  "demo_client token proxy =
     \<lparr>cl_RemoteAddr = ''a:9'', cl_Transport = ''tcp'', cl_Token = token, cl_ConnectionPool = 0, cl_RetryInterval = 0, cl_Keepalive = 20,
      cl_LogLevel = ''loud'', cl_MuxSession = 0, cl_MuxVersion = 2, cl_MaxFrameSize = 0, cl_MaxReceiveBuffer = 0,
      cl_MaxStreamBuffer = 0, cl_WebPort = 8080, cl_SnifferLog = [], cl_DialTimeout = 0, cl_Proxy = proxy, cl_LocalAddr = [],
      cl_Interface = [], cl_SOMark = 0, cl_Spoof = demo_spoof, cl_rest = ()\<rparr>"

definition demo_config :: "string \<Rightarrow> string \<Rightarrow> unit Config" where
  "demo_config token proxy =
     \<lparr>Server = demo_server, Client = demo_client token proxy, WireGuard_Role = [], Packet_Role = [], Packet_LogLevel = [],
      SSH_Role = [], SSH_LogLevel = [], Hedioum_Role = [], Other = ()\<rparr>"

lemmas demo_defs = demo_host_def demo_config_def demo_client_def demo_server_def demo_spoof_def

lemma demo_proxies:
  "ParseProxy (ho_url demo_host) [] = Inr None"
  "ParseProxy (ho_url demo_host) ''socks5://p:1'' =
     Inr (Some \<lparr>px_Scheme = ''socks5'', px_Address = ''p:1'', px_User = [], px_Password = []\<rparr>)"
  "ParseProxy (ho_url demo_host) ''sock5'' = Inl NotURL"
  by (simp_all add: ParseProxy_def TrimSpace_def is_space_def demo_host_def ToLower_char_def SplitHostPort_def)

lemma demo_applied:
  "proxy = [] \<or> proxy = ''socks5://p:1'' \<Longrightarrow>
     applyDefaults demo_host (demo_config token proxy) = Inr (fill_defaults demo_host (demo_config token proxy))"
  using demo_proxies
  by (auto simp: applyDefaults_def fill_defaults_def server_defaults_def client_defaults_def checkOutbound_def outbound_of_def
      checkXdi_def checkSpoof_def checkPck_def uses_transport_def demo_config_def demo_client_def demo_server_def IsSet_def
      Validate_def localTCPAddr_def)


definition demo_cfg :: "string \<Rightarrow> unit Config" where
  "demo_cfg token = fill_defaults demo_host (demo_config token [])"

lemma demo_cfg_meant: "meant demo_host (Some (fp, Some (demo_config token []))) = Inr (demo_cfg token)"
  using demo_applied [of "[]" token] by (simp add: meant_def loadConfig_def demo_cfg_def)

lemma demo_cfg_differ: "demo_cfg ''b'' \<noteq> demo_cfg ''c''" "demo_cfg ''a'' \<noteq> demo_cfg ''b''"
  by (auto simp: demo_cfg_def fill_defaults_def client_defaults_def text_or_def demo_config_def demo_client_def)

lemma demo_cfg_runs: "runEngine demo_host (demo_cfg token) = Inr (BackhaulClient TCP None)"
  using demo_proxies(1)
  by (simp add: demo_cfg_def runEngine_def fill_defaults_def client_defaults_def server_defaults_def demo_config_def demo_client_def
      demo_server_def client_Start_def buildOutbound_def outbound_of_def IsSet_def parse_transport_def)

lemma demo_ports: "portsInUse (demo_cfg token) \<noteq> None"
  using cmd_itoa_decimal [of 8080]
  by (simp add: portsInUse_def demo_cfg_def fill_defaults_def client_defaults_def server_defaults_def demo_config_def
      demo_client_def demo_server_def)

definition demo_file :: "int \<Rightarrow> string \<Rightarrow> unit config_file" where
  "demo_file t token = Some ((100, t), Some (demo_config token []))"

lemma demo_start: "Run_start demo_host (demo_file t token) = Inr \<lparr>rn_file = demo_file t token, rn_cfg = demo_cfg token, rn_phase = Starting\<rparr>"
  using demo_cfg_meant [of "(100, t)" token] by (simp add: Run_start_def demo_file_def loadConfig_def meant_def)

lemma demo_steps:
  "run_step demo_host Watch \<lparr>rn_file = demo_file t token', rn_cfg = demo_cfg token, rn_phase = Starting\<rparr> =
     \<lparr>rn_file = demo_file t token', rn_cfg = demo_cfg token, rn_phase = Watching (100, t)\<rparr>"
  "t \<noteq> t' \<Longrightarrow> demo_cfg token \<noteq> demo_cfg token' \<Longrightarrow>
     fold (run_step demo_host) [PollStat, PollLoad] \<lparr>rn_file = demo_file t' token', rn_cfg = demo_cfg token, rn_phase = Watching (100, t)\<rparr> =
     \<lparr>rn_file = demo_file t' token', rn_cfg = demo_cfg token, rn_phase = Settling (demo_cfg token')\<rparr>"
  using demo_cfg_meant [of "(100, t')" token']
  by (simp_all add: run_step_def poll_load_def demo_cfg_runs fileFingerprint_def demo_file_def loadConfig_def meant_def)


theorem reload_follows_file_witness:
  "\<exists>s. s = fold (run_step demo_host) [Watch, Edit (demo_file 2 ''b'')] \<lparr>rn_file = demo_file 1 ''a'', rn_cfg = demo_cfg ''a'', rn_phase = Starting\<rparr> \<and>
     next_poll demo_host s = \<lparr>rn_file = demo_file 2 ''b'', rn_cfg = demo_cfg ''b'', rn_phase = Watching (100, 2)\<rparr>"
proof -
  let ?init = "\<lparr>rn_file = demo_file 1 ''a'', rn_cfg = demo_cfg ''a'', rn_phase = Starting\<rparr>"
  let ?es = "[Watch, Edit (demo_file 2 ''b'')]"
  let ?s = "fold (run_step demo_host) ?es ?init"
  have s: "?s = \<lparr>rn_file = demo_file 2 ''b'', rn_cfg = demo_cfg ''a'', rn_phase = Watching (100, 1)\<rparr>"
    by (simp add: demo_steps) (simp add: run_step_def)
  have ok: "edits_ok demo_host ?init {(0, 0), fileFingerprint (demo_file 1 ''a'')} ?es"
    by (simp add: demo_steps(1) tunnel_up_def) (simp add: fileFingerprint_def demo_file_def)
  have ph: "rn_phase ?s = Watching (100, 1)" and f: "rn_file ?s = Some ((100, 2), Some (demo_config ''b'' []))" and c: "rn_cfg ?s = demo_cfg ''a''"
    unfolding s by (simp_all add: demo_file_def)
  note r = reload_follows_file [OF demo_start ok refl ph]
  have "next_poll demo_host ?s = ?s\<lparr>rn_cfg := demo_cfg ''b'', rn_phase := Watching (100, 2)\<rparr>"
    using r f c demo_cfg_meant [of "(100, 2)" "''b''"] demo_cfg_runs [of "''b''"] demo_ports [of "''a''"] demo_cfg_differ(2) by force
  then show ?thesis using s by simp
qed

theorem edit_during_restart_is_missed_witness:
  "\<exists>s'. fold (run_step demo_host) [Watch, Edit (demo_file 2 ''b''), PollStat, PollLoad, Edit (demo_file 3 ''c''), Restart, Watch, PollStat, PollLoad]
       \<lparr>rn_file = demo_file 1 ''a'', rn_cfg = demo_cfg ''a'', rn_phase = Starting\<rparr> = s' \<and>
     rn_cfg s' = demo_cfg ''b'' \<and> meant demo_host (rn_file s') = Inr (demo_cfg ''c'')"
proof -
  let ?s = "\<lparr>rn_file = demo_file 2 ''b'', rn_cfg = demo_cfg ''a'', rn_phase = Settling (demo_cfg ''b'')\<rparr>"
  have "fold (run_step demo_host) [Watch, Edit (demo_file 2 ''b'')] \<lparr>rn_file = demo_file 1 ''a'', rn_cfg = demo_cfg ''a'', rn_phase = Starting\<rparr> =
      \<lparr>rn_file = demo_file 2 ''b'', rn_cfg = demo_cfg ''a'', rn_phase = Watching (100, 1)\<rparr>"
    by (simp add: demo_steps) (simp add: run_step_def)
  moreover have "fold (run_step demo_host) [PollStat, PollLoad]
      \<lparr>rn_file = demo_file 2 ''b'', rn_cfg = demo_cfg ''a'', rn_phase = Watching (100, 1)\<rparr> = ?s"
    using demo_steps(2) [of 1 2 "''a''" "''b''"] demo_cfg_differ(2) by simp
  ultimately have s: "fold (run_step demo_host) [Watch, Edit (demo_file 2 ''b''), PollStat, PollLoad]
      \<lparr>rn_file = demo_file 1 ''a'', rn_cfg = demo_cfg ''a'', rn_phase = Starting\<rparr> = ?s" by simp
  have "rn_phase ?s = Settling (demo_cfg ''b'')" "portsInUse (rn_cfg ?s) \<noteq> None" using demo_ports by simp_all
  moreover have "applyDefaults demo_host (demo_config ''c'' []) = Inr (demo_cfg ''c'')" using demo_applied [of "[]" "''c''"] by (simp add: demo_cfg_def)
  moreover have "demo_cfg ''c'' \<noteq> demo_cfg ''b''" using demo_cfg_differ(1) by simp
  moreover have "list_all (\<lambda>e. (\<forall>f. e \<noteq> Edit f) \<and> e \<noteq> CtxDone) [PollStat, PollLoad]" by simp
  ultimately have "\<exists>s'. fold (run_step demo_host) ([Edit (demo_file 3 ''c''), Restart, Watch] @ [PollStat, PollLoad]) ?s = s' \<and>
      rn_phase s' = Watching (100, 3) \<and> rn_cfg s' = demo_cfg ''b'' \<and> meant demo_host (rn_file s') = Inr (demo_cfg ''c'') \<and>
      meant demo_host (rn_file s') \<noteq> Inr (rn_cfg s')"
    unfolding demo_file_def using demo_cfg_runs [of "''b''"] by (intro edit_during_restart_is_missed)
  then show ?thesis using s by auto
qed

theorem mistyped_proxy_ends_tunnel_witness:
  "rn_phase (fold (run_step demo_host) [Edit (Some ((100, 2), Some (demo_config ''a'' ''sock5''))), PollStat, PollLoad]
     \<lparr>rn_file = demo_file 1 ''a'', rn_cfg = demo_cfg ''a'', rn_phase = Watching (100, 1)\<rparr>) = Died (BadProxy NotURL)"
proof -
  let ?s = "\<lparr>rn_file = demo_file 1 ''a'', rn_cfg = demo_cfg ''a'', rn_phase = Watching (100, 1)\<rparr>"
  have "rn_phase ?s = Watching (100, 1)" "((100, 2) :: fingerprint) \<noteq> (100, 1)"
    "ParseProxy (ho_url demo_host) (cl_Proxy (Client (demo_config ''a'' ''sock5''))) = Inl NotURL"
    using demo_proxies(3) by (simp_all add: demo_config_def demo_client_def)
  from mistyped_proxy_ends_tunnel [OF this] show ?thesis by blast
qed

theorem outbound_is_never_dropped_witness:
  "\<exists>oo. runEngine demo_host (fill_defaults demo_host (demo_config ''a'' ''socks5://p:1'')) = Inr (BackhaulClient TCP oo) \<and>
     ob_proxy oo = Some \<lparr>px_Scheme = ''socks5'', px_Address = ''p:1'', px_User = [], px_Password = []\<rparr>"
proof -
  let ?c = "fill_defaults demo_host (demo_config ''a'' ''socks5://p:1'')"
  let ?p = "\<lparr>px_Scheme = ''socks5'', px_Address = ''p:1'', px_User = [], px_Password = []\<rparr>"
  let ?ob = "\<lparr>ob_Proxy = Some ?p, ob_LocalAddr = [], ob_Interface = [], ob_Mark = 0\<rparr>"
  have ob: "outbound_of demo_host (Client ?c) = Inr ?ob"
    using demo_proxies(2) by (simp add: outbound_of_def fill_defaults_def client_defaults_def demo_config_def demo_client_def)
  have "\<exists>oo. runEngine demo_host ?c = Inr (BackhaulClient TCP oo)"
    by (simp add: runEngine_def fill_defaults_def client_defaults_def server_defaults_def demo_config_def demo_client_def
        demo_server_def client_Start_def parse_transport_def)
  then obtain oo where e: "runEngine demo_host ?c = Inr (BackhaulClient TCP oo)" by blast
  have "applyDefaults demo_host (demo_config ''a'' ''socks5://p:1'') = Inr ?c" by (rule demo_applied) simp
  from outbound_is_never_dropped [OF this e ob] have "oo = Some ?ob" by (simp add: IsSet_def)
  with e show ?thesis by (simp add: ob_proxy_def)
qed


end
