(* ===== verification/Frp.thy ===== *)
theory Frp
  imports Wire_Framing
begin

text \<open>
  The frp tunnel: \<open>internal/frp/frp.go\<close>.  The framing is in \<open>Wire_Framing\<close>, the mapping of ports in \<open>Ports\<close>.

  HMAC-SHA256 is the argument \<open>hmac\<close>.  The smux session is the library's: a session or stream is its number, and
  what is written on it is recorded.  The UDP listener is a step relation whose steps are the critical sections of
  its loop, of the reader of each stream and of the reaper.  Times are nanoseconds.
\<close>

section \<open>Handshake\<close>

definition saltLen :: nat where "saltLen = 16"
definition proofLen :: nat where "proofLen = 32"

definition frp_hello :: "(bytes \<Rightarrow> bytes \<Rightarrow> bytes) \<Rightarrow> bytes \<Rightarrow> bytes \<Rightarrow> bytes" where
  "frp_hello hmac token salt = salt @ hmac token salt"

text \<open>What the server does with a connection: close it, drain it without an answer, or answer with one byte and keep
  the session whose bytes follow.\<close>

datatype control_outcome = CtlClosed | CtlDrained | CtlAccepted bytes

definition frp_handshake :: "(bytes \<Rightarrow> bytes \<Rightarrow> bytes) \<Rightarrow> bytes \<Rightarrow> bytes \<Rightarrow> bytes \<times> control_outcome" where
  "frp_handshake hmac token s =
     (case read_full (saltLen + proofLen) s of
        Inl _ \<Rightarrow> ([], CtlClosed)
      | Inr (hs, rest) \<Rightarrow>
          (let salt = take saltLen hs; proof = drop saltLen hs in
           if proof \<noteq> hmac token salt then ([], CtlDrained) else ([1], CtlAccepted rest)))"

datatype serve_error = CannotReach | HandshakeRead | TokenRejected

definition frp_verdict :: "bytes \<Rightarrow> serve_error + bytes" where
  "frp_verdict s =
     (case read_full 1 s of
        Inl _ \<Rightarrow> Inl HandshakeRead
      | Inr (v, rest) \<Rightarrow> if v ! 0 \<noteq> 1 then Inl TokenRejected else Inr rest)"

section \<open>The live session\<close>

record frp_server =
  fs_session :: "nat option"
  fs_live :: "nat set"
  fs_next :: nat

definition frp_server_init :: frp_server where
  "frp_server_init = \<lparr>fs_session = None, fs_live = {}, fs_next = 0\<rparr>"

text \<open>A connection that passed the handshake becomes the session, displacing the previous one; a session may end by
  itself; its handler then retires it if it is still the current one.\<close>

definition frp_install :: "frp_server \<Rightarrow> frp_server" where
  "frp_install s =
     s\<lparr>fs_session := Some (fs_next s),
       fs_live := insert (fs_next s) (fs_live s - (case fs_session s of None \<Rightarrow> {} | Some old \<Rightarrow> {old})),
       fs_next := Suc (fs_next s)\<rparr>"

definition frp_session_ends :: "nat \<Rightarrow> frp_server \<Rightarrow> frp_server" where
  "frp_session_ends i s = s\<lparr>fs_live := fs_live s - {i}\<rparr>"

definition frp_retire :: "nat \<Rightarrow> frp_server \<Rightarrow> frp_server" where
  "frp_retire i s =
     (if i \<in> fs_live s \<or> i \<ge> fs_next s then s
      else s\<lparr>fs_session := (if fs_session s = Some i then None else fs_session s), fs_live := fs_live s - {i}\<rparr>)"

datatype frp_event = Install | SessionEnds nat | Retire nat

definition frp_next :: "frp_event \<Rightarrow> frp_server \<Rightarrow> frp_server" where
  "frp_next e s = (case e of Install \<Rightarrow> frp_install s | SessionEnds i \<Rightarrow> frp_session_ends i s | Retire i \<Rightarrow> frp_retire i s)"

section \<open>Streams\<close>

definition modeTCP :: byte where "modeTCP = 0"
definition modeUDP :: byte where "modeUDP = 1"

definition openTargetStream :: "frp_server \<Rightarrow> byte \<Rightarrow> bytes \<Rightarrow> (nat \<times> bytes) option" where
  "openTargetStream s mode target =
     (case fs_session s of
        None \<Rightarrow> None
      | Some i \<Rightarrow>
          if i \<notin> fs_live s then None
          else (case frp_writeFrame target of Inl _ \<Rightarrow> None | Inr f \<Rightarrow> Some (i, [mode] @ f)))"

datatype frp_service = ServeTCP bytes bytes | ServeUDP bytes bytes

definition serveStream :: "bytes \<Rightarrow> frp_service option" where
  "serveStream s =
     (case read_full 1 s of
        Inl _ \<Rightarrow> None
      | Inr (mode, s1) \<Rightarrow>
          (case frp_readFrame s1 of
             Inl _ \<Rightarrow> None
           | Inr (target, rest) \<Rightarrow> Some (if mode ! 0 = modeUDP then ServeUDP target rest else ServeTCP target rest)))"

text \<open>\<open>copyCounted\<close>: the chunks read until an error, and which writes succeed; the bytes copied, in order, with their
  count.\<close>

fun copyCounted :: "(bytes \<times> bool) list \<Rightarrow> bytes \<times> nat" where
  "copyCounted [] = ([], 0)"
| "copyCounted ((b, ok) # cs) =
     (if b = [] then copyCounted cs
      else if \<not> ok then ([], 0)
      else (case copyCounted cs of (out, n) \<Rightarrow> (b @ out, length b + n)))"

section \<open>Reconnecting\<close>

text \<open>How a run of \<open>dialAndServe\<close> ends.  It returns no error only when the context ended, also for a session that
  served for a time.\<close>

datatype serve_end = ServeFailed serve_error | ServedFor nat | ContextEnded

definition returns_error :: "serve_end \<Rightarrow> bool" where
  "returns_error r = (r \<noteq> ContextEnded)"

text \<open>The delays in seconds before each new attempt.\<close>

fun frp_RunClient :: "nat \<Rightarrow> serve_end list \<Rightarrow> nat list" where
  "frp_RunClient backoff [] = []"
| "frp_RunClient backoff (r # rs) =
     (if \<not> returns_error r then []
      else backoff # frp_RunClient (if backoff < 30 then 2 * backoff else backoff) rs)"

section \<open>UDP on the client\<close>

text \<open>\<open>serveStreamUDP\<close>: one goroutine carries replies from the socket until a read fails or is idle for a minute; the
  loop carries datagrams to the socket until the stream or a write ends it.\<close>

record frp_relay =
  ur_replies :: bool
  ur_loop :: bool
  ur_in :: "bytes list"
  ur_out :: "bytes list"

datatype relay_event = FromStream bytes bool | FromSocket bytes | SocketIdle | StreamEnds

definition relay_start :: frp_relay where
  "relay_start = \<lparr>ur_replies = True, ur_loop = True, ur_in = [], ur_out = []\<rparr>"

definition relay_step :: "relay_event \<Rightarrow> frp_relay \<Rightarrow> frp_relay" where
  "relay_step e s =
     (case e of
        FromStream p ok \<Rightarrow>
          if \<not> ur_loop s then s
          else if ok then s\<lparr>ur_in := ur_in s @ [p]\<rparr> else s\<lparr>ur_loop := False, ur_replies := False\<rparr>
      | FromSocket p \<Rightarrow> if ur_replies s then s\<lparr>ur_out := ur_out s @ [p]\<rparr> else s
      | SocketIdle \<Rightarrow> s\<lparr>ur_replies := False\<rparr>
      | StreamEnds \<Rightarrow> s\<lparr>ur_loop := False, ur_replies := False\<rparr>)"

section \<open>UDP on the server\<close>

definition frp_udpIdleTimeout :: int where "frp_udpIdleTimeout = 60 * 1000000000"

datatype udp_pc = AtRead | AtWrite nat bytes

record udp_flows =
  uf_m :: "string \<Rightarrow> nat option"
  uf_key :: "nat \<Rightarrow> string"
  uf_last :: "nat \<Rightarrow> int"
  uf_next :: nat
  uf_open :: "nat set"
  uf_readers :: "nat set"
  uf_pc :: udp_pc
  uf_sent :: "(string \<times> nat \<times> bytes) list"
  uf_back :: "(nat \<times> string \<times> bytes) list"

definition newUDPFlows :: udp_flows where
  "newUDPFlows = \<lparr>uf_m = Map.empty, uf_key = \<lambda>_. [], uf_last = \<lambda>_. 0, uf_next = 0, uf_open = {}, uf_readers = {}, uf_pc = AtRead,
     uf_sent = [], uf_back = []\<rparr>"

definition uf_touch :: "nat \<Rightarrow> int \<Rightarrow> udp_flows \<Rightarrow> udp_flows" where
  "uf_touch f now s = s\<lparr>uf_last := (uf_last s)(f := now)\<rparr>"

definition uf_add :: "string \<Rightarrow> int \<Rightarrow> udp_flows \<Rightarrow> udp_flows" where
  "uf_add key now s =
     (let f = uf_next s in
      (uf_touch f now s)\<lparr>uf_m := (uf_m s)(key \<mapsto> f), uf_key := (uf_key s)(f := key), uf_next := Suc f,
        uf_open := insert f (uf_open s), uf_readers := insert f (uf_readers s)\<rparr>)"

definition uf_remove :: "string \<Rightarrow> udp_flows \<Rightarrow> udp_flows" where
  "uf_remove key s =
     s\<lparr>uf_m := (uf_m s)(key := None), uf_open := uf_open s - {f. uf_m s key = Some f}\<rparr>"

definition uf_reap :: "int \<Rightarrow> udp_flows \<Rightarrow> udp_flows" where
  "uf_reap now s =
     (let stale = (\<lambda>f. uf_last s f < now - frp_udpIdleTimeout) in
      s\<lparr>uf_m := (\<lambda>k. case uf_m s k of None \<Rightarrow> None | Some f \<Rightarrow> if stale f then None else Some f),
        uf_open := {f \<in> uf_open s. \<not> (\<exists>k. uf_m s k = Some f \<and> stale f)}\<rparr>)"

definition uf_closeAll :: "udp_flows \<Rightarrow> udp_flows" where
  "uf_closeAll s = s\<lparr>uf_m := Map.empty, uf_open := uf_open s - ran (uf_m s)\<rparr>"

text \<open>A datagram from \<open>src\<close>: its flow, or a new one when a stream to the client can be opened.\<close>

definition uf_recv :: "string \<Rightarrow> bytes \<Rightarrow> bool \<Rightarrow> int \<Rightarrow> udp_flows \<Rightarrow> udp_flows" where
  "uf_recv src p opens now s =
     (case uf_m s src of
        Some f \<Rightarrow> s\<lparr>uf_pc := AtWrite f p\<rparr>
      | None \<Rightarrow> if \<not> opens then s else (uf_add src now s)\<lparr>uf_pc := AtWrite (uf_next s) p\<rparr>)"

definition uf_write :: "nat \<Rightarrow> bytes \<Rightarrow> bool \<Rightarrow> int \<Rightarrow> udp_flows \<Rightarrow> udp_flows" where
  "uf_write f p ok now s =
     (let s = uf_touch f now s in
      if ok \<and> f \<in> uf_open s then s\<lparr>uf_sent := uf_sent s @ [(uf_key s f, f, p)], uf_pc := AtRead\<rparr>
      else (uf_remove (uf_key s f) s)\<lparr>uf_pc := AtRead\<rparr>)"

definition uf_reply :: "nat \<Rightarrow> bytes \<Rightarrow> int \<Rightarrow> udp_flows \<Rightarrow> udp_flows" where
  "uf_reply f p now s = (uf_touch f now s)\<lparr>uf_back := uf_back s @ [(f, uf_key s f, p)]\<rparr>"

inductive uf_step :: "udp_flows \<Rightarrow> udp_flows \<Rightarrow> bool" where
  recv: "uf_pc s = AtRead \<Longrightarrow> uf_step s (uf_recv src p opens now s)"
| send: "uf_pc s = AtWrite f p \<Longrightarrow> uf_step s (uf_write f p ok now s)"
| reply: "f \<in> uf_readers s \<Longrightarrow> f \<in> uf_open s \<Longrightarrow> uf_step s (uf_reply f p now s)"
| reader_ends: "f \<in> uf_readers s \<Longrightarrow> uf_step s ((uf_remove (uf_key s f) s)\<lparr>uf_readers := uf_readers s - {f}\<rparr>)"
| reap: "uf_step s (uf_reap now s)"

inductive_cases uf_stepE: "uf_step s s'"

section \<open>Handshake and sessions\<close>

text \<open>The server accepts a connection exactly when it opens with a salt and the HMAC of the salt under the
  tunnel's token, as the client's hello does, and keeps what follows for the session; to every other connection it
  writes nothing at all, whether too little or the wrong proof came.\<close>

theorem frp_accepts_exactly:
  assumes "\<And>k m. length (hmac k m) = 32"
  shows "(frp_handshake hmac token s = ([1], CtlAccepted rest) \<longleftrightarrow>
      (\<exists>salt. length salt = 16 \<and> s = frp_hello hmac token salt @ rest)) \<and>
    ((\<nexists>salt r. length salt = 16 \<and> s = frp_hello hmac token salt @ r) \<longrightarrow> fst (frp_handshake hmac token s) = [])"
proof -
  have accept: "frp_handshake hmac token (frp_hello hmac token salt @ r) = ([1], CtlAccepted r)" if "length salt = 16" for salt r
  proof -
    have "read_full 48 ((salt @ hmac token salt) @ r) = Inr (salt @ hmac token salt, r)"
      by (rule read_full_append) (simp add: that assms)
    then show ?thesis using that by (simp add: frp_handshake_def frp_hello_def saltLen_def proofLen_def)
  qed
  have only: "\<exists>salt. length salt = 16 \<and> s = frp_hello hmac token salt @ r"
    if acc: "frp_handshake hmac token s = (w, CtlAccepted r)" for w r
  proof -
    obtain hs where hs: "read_full 48 s = Inr (hs, r)" "drop 16 hs = hmac token (take 16 hs)"
      using acc by (auto simp: frp_handshake_def saltLen_def proofLen_def Let_def split: sum.splits if_splits)
    then have "s = hs @ r" "length hs = 48" using read_full_InrD [OF hs(1)] by simp_all
    then show ?thesis using hs(2) by (intro exI [of _ "take 16 hs"]) (simp add: frp_hello_def hs(2) [symmetric])
  qed
  have "fst (frp_handshake hmac token s) = [] \<or> (\<exists>r. frp_handshake hmac token s = ([1], CtlAccepted r))"
    by (auto simp: frp_handshake_def Let_def split: sum.splits)
  then show ?thesis using accept only by blast
qed

theorem frp_accepts_exactly_witness:
  "frp_handshake (\<lambda>k m. replicate 32 (hd k)) [7] (replicate 16 1 @ replicate 32 7 @ [9]) = ([1], CtlAccepted [9]) \<and>
   (\<forall>k m. length (replicate 32 (hd k)) = 32)"
  using frp_accepts_exactly [of "\<lambda>k m. replicate 32 (hd k)" "[7]" "replicate 16 1 @ replicate 32 7 @ [9]" "[9]"]
  by (auto simp: frp_hello_def)

lemma frp_client_accepted: "frp_verdict ([1] @ rest) = Inr rest"
  by (simp add: frp_verdict_def read_full_def)

definition one_session :: "frp_server \<Rightarrow> bool" where
  "one_session s = (fs_live s \<subseteq> {..<fs_next s} \<and> (\<forall>i \<in> fs_live s. fs_session s = Some i))"

interpretation frp_sessions: machine "\<lambda>s. s = frp_server_init" frp_next one_session
proof unfold_locales
  fix s e assume "one_session s"
  then show "one_session (frp_next e s)"
    by (cases e) (auto simp: one_session_def frp_next_def frp_install_def frp_session_ends_def frp_retire_def less_Suc_eq
        split: option.splits)
qed (simp add: one_session_def frp_server_init_def)

text \<open>Whatever connects, drops and is retired in whatever order, at most one session is live, the one of the
  latest accepted client; a forwarded connection is opened on it, with its mode and target, which the client's
  end reads back together with the bytes that follow.\<close>

theorem frp_forwards_on_live_session:
  assumes "s = fold frp_next es frp_server_init"
  shows "(\<forall>i \<in> fs_live s. \<forall>j \<in> fs_live s. i = j) \<and>
    (\<forall>mode target i w. openTargetStream s mode target = Some (i, w) \<longrightarrow>
       fs_live s = {i} \<and>
       serveStream (w @ rest) = Some (if mode = modeUDP then ServeUDP target rest else ServeTCP target rest)) \<and>
    fs_live (frp_next Install s) = {fs_next s} \<and> fs_session (frp_next Install s) = Some (fs_next s)"
proof -
  have one: "one_session s" using frp_sessions.inv_run [OF refl] assms by simp
  have opens: "fs_live s = {i} \<and> serveStream (w @ rest) = Some (if mode = modeUDP then ServeUDP target rest else ServeTCP target rest)"
    if o: "openTargetStream s mode target = Some (i, w)" for mode target i w
  proof -
    have i: "fs_session s = Some i" "i \<in> fs_live s" "\<exists>f. frp_writeFrame target = Inr f \<and> w = [mode] @ f"
      using o by (auto simp: openTargetStream_def split: option.splits if_splits sum.splits)
    then obtain f where f: "frp_writeFrame target = Inr f" "w = [mode] @ f" by blast
    then have "f = rathole_frame target" "length target \<le> maxFrame"
      by (auto simp: frp_writeFrame_def rathole_frame_def split: if_splits)
    then have "frp_readFrame (f @ rest) = Inr (target, rest)" using fframe.dec_enc by simp
    moreover have "read_full 1 ([mode] @ f @ rest) = Inr ([mode], f @ rest)" by (rule read_full_append) simp
    ultimately have "serveStream (w @ rest) = Some (if mode = modeUDP then ServeUDP target rest else ServeTCP target rest)"
      using f(2) by (simp add: serveStream_def)
    moreover have "x = i" if "x \<in> fs_live s" for x using one i(1) that by (metis one_session_def option.inject)
    then have "fs_live s = {i}" using i(2) by blast
    ultimately show ?thesis by blast
  qed
  have new: "fs_live (frp_next Install s) = {fs_next s}"
    using one by (auto simp: frp_next_def frp_install_def one_session_def split: option.splits)
  moreover have "fs_session (frp_next Install s) = Some (fs_next s)" by (simp add: frp_next_def frp_install_def)
  moreover have "\<forall>i \<in> fs_live s. \<forall>j \<in> fs_live s. i = j" using one by (metis one_session_def option.inject)
  ultimately show ?thesis using opens by blast
qed

theorem frp_forwards_on_live_session_witness:
  "\<exists>s w. s = fold frp_next [Install, Install, Retire 0] frp_server_init \<and> openTargetStream s modeUDP [9] = Some (1, w) \<and>
     serveStream (w @ [5]) = Some (ServeUDP [9] [5])"
proof -
  let ?s = "fold frp_next [Install, Install, Retire 0] frp_server_init"
  have "\<exists>w. openTargetStream ?s modeUDP [9] = Some (1, w)"
    by (simp add: frp_next_def frp_install_def frp_retire_def frp_server_init_def openTargetStream_def frp_writeFrame_def maxFrame_def)
  then obtain w where w: "openTargetStream ?s modeUDP [9] = Some (1, w)" by blast
  with frp_forwards_on_live_session [OF refl, of "[Install, Install, Retire 0]" "[5]"] show ?thesis by force
qed

lemma copyCounted_prefix:
  "\<exists>rest. concat (map fst cs) = fst (copyCounted cs) @ rest \<and> snd (copyCounted cs) = length (fst (copyCounted cs)) \<and>
     (list_all snd cs \<longrightarrow> rest = [])"
proof (induction cs rule: copyCounted.induct)
  case (2 b ok cs)
  then show ?case by (auto simp: case_prod_beta)
qed simp

section \<open>Reconnecting backs off for good\<close>

lemma next_backoff:
  assumes "b = min (2 ^ k) 32"
  shows "(if b < 30 then 2 * b else b) = (min (2 ^ Suc k) 32 :: nat)"
proof (cases "k \<le> 4")
  case True
  then have "(2 :: nat) ^ k \<le> 2 ^ 4" by (rule power_increasing) simp
  then show ?thesis using assms by simp
next
  case False
  then have "(2 :: nat) ^ 5 \<le> 2 ^ k" by (intro power_increasing) simp_all
  then show ?thesis using assms by simp
qed

lemma RunClient_delays:
  assumes "\<forall>r \<in> set rs. r \<noteq> ContextEnded" "backoff = min (2 ^ k) 32"
  shows "frp_RunClient backoff rs = map (\<lambda>i. min (2 ^ (k + i)) 32) [0..<length rs]"
  using assms
proof (induction rs arbitrary: backoff k)
  case (Cons r rs)
  have "frp_RunClient (if backoff < 30 then 2 * backoff else backoff) rs = map (\<lambda>i. min (2 ^ (Suc k + i)) 32) [0..<length rs]"
    using Cons.prems next_backoff [OF Cons.prems(2)] by (intro Cons.IH) auto
  moreover have "map (\<lambda>i. min (2 ^ (k + i)) (32 :: nat)) [0..<length (r # rs)] =
      min (2 ^ k) 32 # map (\<lambda>i. min (2 ^ (Suc k + i)) 32) [0..<length rs]"
    by (simp add: upt_conv_Cons map_Suc_upt [symmetric] del: upt_Suc)
  moreover have "frp_RunClient backoff (r # rs) = backoff # frp_RunClient (if backoff < 30 then 2 * backoff else backoff) rs"
    using Cons.prems(1) by (simp add: returns_error_def)
  ultimately show ?case using Cons.prems(2) by metis
qed simp

text \<open>The delay before reconnecting is never reset: the i-th reconnection of the client's life waits the i-th
  power of two seconds, and 32 seconds from the sixth on, however long the sessions in between worked.\<close>

theorem frp_backoff_never_resets:
  assumes "\<forall>r \<in> set rs. r \<noteq> ContextEnded"
  shows "frp_RunClient 1 rs = map (\<lambda>i. min (2 ^ i) 32) [0..<length rs] \<and>
    (\<forall>i < length rs. 5 \<le> i \<longrightarrow> frp_RunClient 1 rs ! i = 32)"
proof -
  have d: "frp_RunClient 1 rs = map (\<lambda>i. min (2 ^ i) 32) [0..<length rs]" using RunClient_delays [OF assms, of 1 0] by simp
  have "min (2 ^ i) 32 = (32 :: nat)" if "5 \<le> i" for i :: nat
    using power_increasing [OF that, of "2 :: nat"] by simp
  then show ?thesis using d by simp
qed

theorem frp_backoff_never_resets_witness:
  "frp_RunClient 1 (replicate 7 (ServedFor 86400)) = [1, 2, 4, 8, 16, 32, 32] \<and>
   frp_RunClient 1 (replicate 7 (ServedFor 86400)) ! 6 = 32"
proof -
  have "\<forall>r \<in> set (replicate 7 (ServedFor 86400)). r \<noteq> ContextEnded" by simp
  from frp_backoff_never_resets [OF this] show ?thesis by (simp add: upt_rec [of _ 7])
qed

section \<open>Replies of a UDP service\<close>

lemma relay_deaf:
  assumes "\<not> ur_replies s"
  shows "\<not> ur_replies (fold relay_step es s) \<and> ur_out (fold relay_step es s) = ur_out s"
  using assms
proof (induction es arbitrary: s)
  case (Cons e es)
  have "\<not> ur_replies (relay_step e s)" "ur_out (relay_step e s) = ur_out s"
    using Cons.prems by (auto simp: relay_step_def split: relay_event.splits)
  then show ?case using Cons.IH by simp
qed simp

lemma relay_forwards: "ur_loop s \<Longrightarrow> ur_in (fold relay_step (map (\<lambda>p. FromStream p True) ps) s) = ur_in s @ ps"
  by (induction ps arbitrary: s) (simp_all add: relay_step_def)

text \<open>The flow of a visitor goes deaf after a pause.  Once the service has been silent for a minute the replies stop
  for good: whatever happens afterwards, nothing of the service reaches the visitor on this stream, although
  every further datagram of the visitor is still passed to the service.\<close>

theorem frp_flow_goes_deaf:
  assumes "ur_loop s" "s' = fold relay_step (map (\<lambda>p. FromStream p True) ps) (relay_step SocketIdle s)"
  shows "ur_in s' = ur_in s @ ps \<and> ur_out (fold relay_step (FromSocket reply # es) s') = ur_out s"
proof -
  have "ur_loop (relay_step SocketIdle s)" "\<not> ur_replies (relay_step SocketIdle s)" "ur_in (relay_step SocketIdle s) = ur_in s"
    "ur_out (relay_step SocketIdle s) = ur_out s" using assms(1) by (simp_all add: relay_step_def)
  then show ?thesis
    using relay_forwards [of "relay_step SocketIdle s" ps] relay_deaf [of "relay_step SocketIdle s"] relay_deaf [of s'] assms(2)
    by metis
qed

theorem frp_flow_goes_deaf_witness:
  "ur_out (fold relay_step [FromStream [1] True, FromSocket [2], SocketIdle, FromStream [3] True, FromSocket [4]] relay_start) = [[2]] \<and>
   ur_in (fold relay_step [FromStream [1] True, FromSocket [2], SocketIdle, FromStream [3] True] relay_start) = [[1], [3]]"
proof -
  let ?s = "fold relay_step [FromStream [1] True, FromSocket [2]] relay_start"
  have "ur_loop ?s" "ur_out ?s = [[2]]" "ur_in ?s = [[1]]" by (simp_all add: relay_step_def relay_start_def)
  then show ?thesis using frp_flow_goes_deaf [of ?s _ "[[3]]" "[4]" "[]", OF _ refl] by simp
qed


section \<open>The flow table\<close>

definition uf_table_ok :: "udp_flows \<Rightarrow> bool" where
  "uf_table_ok s =
     ((\<forall>k f. uf_m s k = Some f \<longrightarrow> f < uf_next s \<and> uf_key s f = k) \<and>
      (\<forall>f \<in> uf_open s. uf_m s (uf_key s f) = Some f) \<and> uf_readers s \<subseteq> {..<uf_next s})"

definition uf_log_ok :: "udp_flows \<Rightarrow> bool" where
  "uf_log_ok s =
     ((\<forall>f p. uf_pc s = AtWrite f p \<longrightarrow> f < uf_next s) \<and>
      (\<forall>(src, f, p) \<in> set (uf_sent s). f < uf_next s \<and> uf_key s f = src) \<and>
      (\<forall>(f, src, p) \<in> set (uf_back s). f < uf_next s \<and> uf_key s f = src))"

definition uf_inv :: "udp_flows \<Rightarrow> bool" where
  "uf_inv s = (uf_table_ok s \<and> uf_log_ok s)"

lemmas uf_ops = uf_touch_def uf_add_def uf_remove_def uf_recv_def uf_write_def uf_reply_def Let_def

lemma uf_touch_ok: "uf_inv s \<Longrightarrow> uf_inv (uf_touch f now s)"
  by (simp add: uf_inv_def uf_table_ok_def uf_log_ok_def uf_touch_def)

lemma uf_remove_ok: "uf_inv s \<Longrightarrow> uf_inv (uf_remove k s)"
  by (auto simp: uf_inv_def uf_table_ok_def uf_log_ok_def uf_remove_def)

lemma uf_reap_ok: "uf_inv s \<Longrightarrow> uf_inv (uf_reap now s)"
  by (auto simp: uf_inv_def uf_table_ok_def uf_log_ok_def uf_reap_def Let_def split: option.splits if_splits)

lemma uf_add_ok:
  assumes "uf_inv s" "uf_m s k = None"
  shows "uf_inv (uf_add k now s)"
proof -
  have new: "uf_m (uf_add k now s) = (uf_m s)(k \<mapsto> uf_next s)" "uf_key (uf_add k now s) = (uf_key s)(uf_next s := k)"
      "uf_next (uf_add k now s) = Suc (uf_next s)" "uf_open (uf_add k now s) = insert (uf_next s) (uf_open s)"
      "uf_readers (uf_add k now s) = insert (uf_next s) (uf_readers s)"
    by (simp_all add: uf_add_def uf_touch_def Let_def)
  have "uf_table_ok (uf_add k now s)"
    unfolding uf_table_ok_def new
  proof (intro conjI allI impI ballI)
    have t: "\<And>k f. uf_m s k = Some f \<Longrightarrow> f < uf_next s \<and> uf_key s f = k" "\<And>f. f \<in> uf_open s \<Longrightarrow> uf_m s (uf_key s f) = Some f"
      "uf_readers s \<subseteq> {..<uf_next s}"
      using assms(1) by (simp_all add: uf_inv_def uf_table_ok_def)
    fix f
    {
      fix k' assume "((uf_m s)(k \<mapsto> uf_next s)) k' = Some f"
      then show "f < Suc (uf_next s)" "((uf_key s)(uf_next s := k)) f = k'"
        using t(1) [of k' f] by (auto split: if_splits)
    }
    assume f: "f \<in> insert (uf_next s) (uf_open s)"
    show "((uf_m s)(k \<mapsto> uf_next s)) (((uf_key s)(uf_next s := k)) f) = Some f"
    proof (cases "f = uf_next s")
      case False
      then have "uf_m s (uf_key s f) = Some f" using f t(2) by simp
      then show ?thesis using False assms(2) by (cases "uf_key s f = k") simp_all
    qed simp
  next
    show "insert (uf_next s) (uf_readers s) \<subseteq> {..<Suc (uf_next s)}"
      using assms(1) by (auto simp: uf_inv_def uf_table_ok_def)
  qed
  moreover have "uf_log_ok (uf_add k now s)"
    using assms(1) by (auto simp: uf_inv_def uf_log_ok_def uf_add_def uf_touch_def Let_def less_Suc_eq)
  ultimately show ?thesis by (simp add: uf_inv_def)
qed

lemma uf_pc_ok: "uf_inv s \<Longrightarrow> f < uf_next s \<Longrightarrow> uf_inv (s\<lparr>uf_pc := AtWrite f p\<rparr>)" "uf_inv s \<Longrightarrow> uf_inv (s\<lparr>uf_pc := AtRead\<rparr>)"
  by (auto simp: uf_inv_def uf_table_ok_def uf_log_ok_def)

lemma uf_readers_ok: "uf_inv s \<Longrightarrow> uf_inv (s\<lparr>uf_readers := uf_readers s - A\<rparr>)"
  by (auto simp: uf_inv_def uf_table_ok_def uf_log_ok_def)

lemma uf_inv_step:
  assumes "uf_step s s'" "uf_inv s"
  shows "uf_inv s'"
  using assms(1)
proof cases
  case (recv src p opens now)
  show ?thesis
  proof (cases "uf_m s src")
    case (Some f)
    then have "f < uf_next s" using assms(2) by (auto simp: uf_inv_def uf_table_ok_def)
    then show ?thesis using recv Some uf_pc_ok(1) [OF assms(2)] by (simp add: uf_recv_def)
  next
    case None
    have "uf_next (uf_add src now s) = Suc (uf_next s)" by (simp add: uf_add_def Let_def)
    then show ?thesis using recv None assms(2) uf_pc_ok(1) [OF uf_add_ok [OF assms(2) None]] by (simp add: uf_recv_def)
  qed
next
  case (send f p ok now)
  let ?s = "uf_touch f now s"
  have t: "uf_inv ?s" using assms(2) by (rule uf_touch_ok)
  have f: "f < uf_next s" using assms(2) send by (auto simp: uf_inv_def uf_log_ok_def)
  show ?thesis
  proof (cases "ok \<and> f \<in> uf_open s")
    case True
    then have "s' = ?s\<lparr>uf_sent := uf_sent s @ [(uf_key s f, f, p)], uf_pc := AtRead\<rparr>"
      using send by (simp add: uf_write_def Let_def uf_touch_def)
    then show ?thesis using t f by (auto simp: uf_inv_def uf_table_ok_def uf_log_ok_def uf_touch_def)
  next
    case False
    then have "s' = (uf_remove (uf_key s f) ?s)\<lparr>uf_pc := AtRead\<rparr>" using send by (auto simp: uf_write_def Let_def uf_touch_def)
    then show ?thesis using uf_pc_ok(2) [OF uf_remove_ok [OF t]] by simp
  qed
next
  case (reply f p now)
  then have "f < uf_next s" using assms(2) by (auto simp: uf_inv_def uf_table_ok_def)
  then show ?thesis using reply assms(2) by (auto simp: uf_inv_def uf_table_ok_def uf_log_ok_def uf_reply_def uf_touch_def)
next
  case (reader_ends f)
  have "uf_readers (uf_remove (uf_key s f) s) = uf_readers s" by (simp add: uf_remove_def)
  then show ?thesis using reader_ends uf_readers_ok [OF uf_remove_ok [OF assms(2), of "uf_key s f"], of "{f}"] by simp
next
  case (reap now)
  then show ?thesis using uf_reap_ok [OF assms(2)] by simp
qed

interpretation frp_flows: invariant "\<lambda>s. s = newUDPFlows" uf_step uf_inv
  by (unfold_locales; (erule (1) uf_inv_step)?) (simp add: uf_inv_def uf_table_ok_def uf_log_ok_def newUDPFlows_def)

text \<open>Forwarded UDP of different visitors never mixes.  In every reachable state each open stream belongs to one
  visitor, who has no other; each datagram was put on a stream opened for its sender, and each reply went to the
  visitor its stream was opened for; a flow is reaped only after a minute without traffic either way.\<close>

theorem frp_flows_separate:
  assumes "uf_step\<^sup>*\<^sup>* newUDPFlows s"
  shows "(\<forall>f \<in> uf_open s. \<forall>g \<in> uf_open s. uf_key s f = uf_key s g \<longrightarrow> f = g) \<and>
    (\<forall>(src, f, p) \<in> set (uf_sent s). uf_key s f = src) \<and> (\<forall>(f, src, p) \<in> set (uf_back s). uf_key s f = src) \<and>
    (\<forall>now. \<forall>f \<in> uf_open s - uf_open (uf_reap now s). uf_last s f < now - 60000000000)"
proof -
  have inv: "uf_inv s" by (rule frp_flows.inv_reachable [OF refl assms])
  have "f = g" if "f \<in> uf_open s" "g \<in> uf_open s" "uf_key s f = uf_key s g" for f g
    using inv that by (metis option.inject uf_inv_def uf_table_ok_def)
  moreover have "uf_last s f < now - 60000000000" if "f \<in> uf_open s - uf_open (uf_reap now s)" for f now
    using that by (auto simp: uf_reap_def Let_def frp_udpIdleTimeout_def)
  ultimately show ?thesis using inv by (auto simp: uf_inv_def uf_log_ok_def)
qed

text \<open>A run of the listener: a visitor's datagram is sent, the flow is reaped, and a second datagram opens a new flow.\<close>

lemma frp_reopened:
  "\<exists>s. uf_step\<^sup>*\<^sup>* newUDPFlows s \<and> uf_sent s = [(src, 0, p), (src, 1, q)] \<and> uf_open s = {1} \<and> uf_readers s = {0, 1} \<and>
     uf_key s 0 = src \<and> uf_m s src = Some 1 \<and> uf_last s 1 = 100000000000"
proof -
  let ?now = "100000000000 :: int"
  define s1 where "s1 = uf_recv src p True 0 newUDPFlows"
  define s2 where "s2 = uf_write 0 p True 0 s1"
  define s3 where "s3 = uf_reap ?now s2"
  define s4 where "s4 = uf_recv src q True ?now s3"
  define s5 where "s5 = uf_write 1 q True ?now s4"
  note d = s1_def s2_def s3_def s4_def s5_def
  have s1: "s1 = \<lparr>uf_m = [src \<mapsto> 0], uf_key = (\<lambda>_. [])(0 := src), uf_last = (\<lambda>_. 0)(0 := 0), uf_next = 1, uf_open = {0},
      uf_readers = {0}, uf_pc = AtWrite 0 p, uf_sent = [], uf_back = []\<rparr>"
    by (simp add: s1_def uf_ops newUDPFlows_def)
  have s2: "s2 = s1\<lparr>uf_pc := AtRead, uf_sent := [(src, 0, p)]\<rparr>" by (simp add: s2_def s1 uf_ops fun_eq_iff)
  have s3: "s3 = s2\<lparr>uf_m := Map.empty, uf_open := {}\<rparr>"
    by (auto simp: s3_def s2 s1 uf_reap_def Let_def frp_udpIdleTimeout_def fun_eq_iff)
  have s4: "uf_pc s4 = AtWrite 1 q" "uf_sent s4 = [(src, 0, p)]" "uf_open s4 = {1}" "uf_readers s4 = {0, 1}" "uf_key s4 0 = src"
      "uf_key s4 1 = src" "uf_m s4 src = Some 1"
    by (auto simp: s4_def s3 s2 s1 uf_ops)
  have s5: "uf_sent s5 = [(src, 0, p), (src, 1, q)]" "uf_open s5 = {1}" "uf_readers s5 = {0, 1}" "uf_key s5 0 = src"
      "uf_m s5 src = Some 1" "uf_last s5 1 = ?now"
    using s4 by (auto simp: s5_def uf_ops)
  have "uf_step newUDPFlows s1" unfolding s1_def by (rule uf_step.recv) (simp add: newUDPFlows_def)
  moreover have "uf_step s1 s2" unfolding s2_def by (rule uf_step.send) (simp add: s1)
  moreover have "uf_step s2 s3" unfolding s3_def by (rule uf_step.reap)
  moreover have "uf_step s3 s4" unfolding s4_def by (rule uf_step.recv) (simp add: s3 s2)
  moreover have "uf_step s4 s5" unfolding s5_def by (rule uf_step.send) (rule s4(1))
  ultimately have "uf_step\<^sup>*\<^sup>* newUDPFlows s5" by (meson converse_rtranclp_into_rtranclp rtranclp.rtrancl_refl)
  then show ?thesis using s5 by blast
qed

theorem frp_flows_separate_witness:
  "\<exists>s. uf_step\<^sup>*\<^sup>* newUDPFlows s \<and> uf_open s = {1} \<and> (\<forall>(src, f, p) \<in> set (uf_sent s). uf_key s f = src) \<and> length (uf_sent s) = 2"
proof -
  obtain s where s: "uf_step\<^sup>*\<^sup>* newUDPFlows s" "uf_sent s = [(''v'', 0, [7]), (''v'', 1, [8])]" "uf_open s = {1}"
    using frp_reopened [of "''v''" "[7]" "[8]"] by blast
  with frp_flows_separate [OF s(1)] show ?thesis by (intro exI [of _ s]) simp
qed

text \<open>A stale reader closes a live flow.  When a flow was reaped and the visitor's next datagram opened a new one
  before the old stream's reader had ended, that reader's cleanup looks the flow up by the visitor's address only
  and closes the new stream, just used, whose own reader still runs.\<close>

theorem frp_stale_reader_closes_flow:
  "\<exists>s s'. uf_step\<^sup>*\<^sup>* newUDPFlows s \<and> uf_sent s = [(src, 0, p), (src, 1, q)] \<and> uf_open s = {1} \<and>
     uf_last s 1 = 100000000000 \<and> uf_step s s' \<and> uf_open s' = {} \<and> uf_readers s' = {1}"
proof -
  obtain s where s: "uf_step\<^sup>*\<^sup>* newUDPFlows s" "uf_sent s = [(src, 0, p), (src, 1, q)]" "uf_open s = {1}" "uf_readers s = {0, 1}"
      "uf_key s 0 = src" "uf_m s src = Some 1" "uf_last s 1 = 100000000000"
    using frp_reopened by blast
  let ?s' = "(uf_remove (uf_key s 0) s)\<lparr>uf_readers := uf_readers s - {0}\<rparr>"
  have "uf_step s ?s'" by (rule uf_step.reader_ends) (simp add: s)
  moreover have "uf_open ?s' = {}" "uf_readers ?s' = {1}" using s by (auto simp: uf_remove_def)
  ultimately show ?thesis using s by blast
qed


end
