(* ===== verification/Rathole.thy ===== *)
theory Rathole
  imports Frp
begin

text \<open>
  The rathole tunnel: \<open>internal/rathole/rathole.go\<close>.  Its messages are in \<open>Wire_Framing\<close>, its port mapping in \<open>Ports\<close>.

  SHA-256 is the argument \<open>sha\<close>, the random nonce and salt are arguments.  The server's state is its current control
  channel with the two queues of the code; the steps are its critical sections and channel operations.  A data
  channel is its number and the time the client opened it.  Times are seconds.
\<close>

section \<open>Constants\<close>

definition rh_handshakeTimeout :: nat where "rh_handshakeTimeout = 10"
definition dataChannelWait :: nat where "dataChannelWait = 15"
definition tcpPoolWarm :: nat where "tcpPoolWarm = 2"
definition helloControl :: "32 word" where "helloControl = 0"
definition helloData :: "32 word" where "helloData = 1"
definition ackOk :: "32 word" where "ackOk = 0"
definition ackServiceNotExist :: "32 word" where "ackServiceNotExist = 1"
definition ackAuthFailed :: "32 word" where "ackAuthFailed = 2"
definition cmdCreateDataChannel :: "32 word" where "cmdCreateDataChannel = 0"
definition cmdHeartBeat :: "32 word" where "cmdHeartBeat = 1"
definition cmdStartForwardTCP :: "32 word" where "cmdStartForwardTCP = 0"
definition cmdStartForwardUDP :: "32 word" where "cmdStartForwardUDP = 1"

section \<open>Handshake\<close>

definition rh_sessionKey :: "(bytes \<Rightarrow> bytes) \<Rightarrow> bytes \<Rightarrow> bytes \<Rightarrow> bytes" where
  "rh_sessionKey sha token nonce = sha (token @ nonce)"

datatype incoming =
    InClosed | InDrained
  | InControl bytes bytes
  | InData bytes bytes

definition rh_controlHandshake :: "(bytes \<Rightarrow> bytes) \<Rightarrow> bytes \<Rightarrow> bytes \<Rightarrow> bytes \<Rightarrow> bytes \<times> incoming" where
  "rh_controlHandshake sha token nonce s =
     (let w = writeHello (helloControl, nonce) in
      case readAuth s of
        Inl _ \<Rightarrow> (w, InClosed)
      | Inr (got, rest) \<Rightarrow>
          (let key = rh_sessionKey sha token nonce in
           if got \<noteq> key then (w, InDrained) else (w @ writeU32 ackOk, InControl key rest)))"

definition handleIncoming :: "(bytes \<Rightarrow> bytes) \<Rightarrow> bytes \<Rightarrow> bytes \<Rightarrow> bytes \<Rightarrow> bytes \<times> incoming" where
  "handleIncoming sha token nonce s =
     (case readHello s of
        Inl _ \<Rightarrow> ([], InClosed)
      | Inr ((variant, d), rest) \<Rightarrow>
          (if variant = helloControl then rh_controlHandshake sha token nonce rest
           else if variant = helloData then ([], InData d rest)
           else ([], InClosed)))"

datatype control_error = BadServerHello | AckRead | BadToken | NoService | RefusedAck "32 word"

text \<open>\<open>runControlClient\<close> up to the command loop: what it writes, and the error or the key with the bytes that follow.\<close>

definition runControlClient :: "(bytes \<Rightarrow> bytes) \<Rightarrow> bytes \<Rightarrow> bytes \<Rightarrow> bytes \<Rightarrow> bytes \<times> (control_error + bytes \<times> bytes)" where
  "runControlClient sha token svc s =
     (let w = writeHello (helloControl, svc) in
      case readHello s of
        Inl _ \<Rightarrow> (w, Inl BadServerHello)
      | Inr ((variant, nonce), s1) \<Rightarrow>
          (if variant \<noteq> helloControl then (w, Inl BadServerHello)
           else
             (let key = rh_sessionKey sha token nonce; w2 = w @ writeAuth key in
              case readU32 s1 of
                Inl _ \<Rightarrow> (w2, Inl AckRead)
              | Inr (ack, rest) \<Rightarrow>
                  (w2, if ack = ackOk then Inr (key, rest)
                       else Inl (if ack = ackAuthFailed then BadToken else if ack = ackServiceNotExist then NoService
                                 else RefusedAck ack)))))"

text \<open>The client's command loop on the bytes of the control channel: how many data channels it opens.\<close>

function command_loop :: "bytes \<Rightarrow> nat" where
  "command_loop s =
     (case readU32 s of
        Inl _ \<Rightarrow> 0
      | Inr (cmd, rest) \<Rightarrow> (if cmd = cmdCreateDataChannel then 1 else 0) + command_loop rest)"
  by pat_completeness auto

termination
  by (relation "measure length") (auto simp: readU32_def read_full_def split: if_splits)

declare command_loop.simps [simp del]

text \<open>\<open>openDataChannel\<close> after its hello: which forwarding the server asks for.\<close>

datatype forwarding = ForwardTCP bytes bytes | ForwardUDP bytes bytes | ForwardNothing

definition openDataChannel :: "bytes \<Rightarrow> forwarding option" where
  "openDataChannel s =
     (case readU32 s of
        Inl _ \<Rightarrow> None
      | Inr (cmd, s1) \<Rightarrow>
          (case readFrame s1 of
             Inl _ \<Rightarrow> None
           | Inr (target, rest) \<Rightarrow>
               Some (if cmd = cmdStartForwardTCP then ForwardTCP target rest
                     else if cmd = cmdStartForwardUDP then ForwardUDP target rest else ForwardNothing)))"

definition start_forward :: "32 word \<Rightarrow> bytes \<Rightarrow> bytes option" where
  "start_forward cmd target = (case writeFrame target of Inl _ \<Rightarrow> None | Inr f \<Rightarrow> Some (writeU32 cmd @ f))"

section \<open>The pool of data channels\<close>

record data_channel =
  dc_conn :: nat
  dc_key :: bytes
  dc_opened :: nat

record controlChannel =
  cc_key :: bytes
  cc_dataCh :: "data_channel list"
  cc_reqCh :: nat

record rh_server =
  rs_current :: "controlChannel option"
  rs_commands :: nat
  rs_given :: "data_channel list"

definition dataCh_cap :: nat where "dataCh_cap = 16"
definition reqCh_cap :: nat where "reqCh_cap = 64"

text \<open>A client that passed the handshake displaces the previous one and is asked for two channels in advance.\<close>

definition install_control :: "bytes \<Rightarrow> rh_server \<Rightarrow> rh_server" where
  "install_control key s =
     s\<lparr>rs_current := Some \<lparr>cc_key = key, cc_dataCh = [], cc_reqCh = tcpPoolWarm\<rparr>, rs_commands := 0\<rparr>"

definition drop_control :: "rh_server \<Rightarrow> rh_server" where
  "drop_control s = s\<lparr>rs_current := None\<rparr>"

definition runControl :: "rh_server \<Rightarrow> rh_server" where
  "runControl s =
     (case rs_current s of
        None \<Rightarrow> s
      | Some cc \<Rightarrow>
          if cc_reqCh cc = 0 then s
          else s\<lparr>rs_current := Some (cc\<lparr>cc_reqCh := cc_reqCh cc - 1\<rparr>), rs_commands := Suc (rs_commands s)\<rparr>)"

text \<open>A data channel that says hello joins the pool of the client whose key it presents.  With the queue full it waits;
  the step is then tried again or the channel is closed.\<close>

datatype routed = Routed | RouteClosed | RouteWaits

definition routeDataChannel :: "data_channel \<Rightarrow> rh_server \<Rightarrow> routed \<times> rh_server" where
  "routeDataChannel dc s =
     (case rs_current s of
        None \<Rightarrow> (RouteClosed, s)
      | Some cc \<Rightarrow>
          if cc_key cc \<noteq> dc_key dc then (RouteClosed, s)
          else if dataCh_cap \<le> length (cc_dataCh cc) then (RouteWaits, s)
          else (Routed, s\<lparr>rs_current := Some (cc\<lparr>cc_dataCh := cc_dataCh cc @ [dc]\<rparr>)\<rparr>))"

text \<open>\<open>acquireDataChannel\<close>: the request, then the oldest channel of the queue; with the queue empty the visitor waits
  for the second part.\<close>

definition request_channel :: "rh_server \<Rightarrow> rh_server" where
  "request_channel s =
     (case rs_current s of
        None \<Rightarrow> s
      | Some cc \<Rightarrow> if reqCh_cap \<le> cc_reqCh cc then s else s\<lparr>rs_current := Some (cc\<lparr>cc_reqCh := Suc (cc_reqCh cc)\<rparr>)\<rparr>)"

definition take_channel :: "rh_server \<Rightarrow> data_channel option \<times> rh_server" where
  "take_channel s =
     (case rs_current s of
        None \<Rightarrow> (None, s)
      | Some cc \<Rightarrow>
          (case cc_dataCh cc of
             [] \<Rightarrow> (None, s)
           | dc # dcs \<Rightarrow> (Some dc, s\<lparr>rs_current := Some (cc\<lparr>cc_dataCh := dcs\<rparr>), rs_given := rs_given s @ [dc]\<rparr>)))"

definition acquireDataChannel :: "rh_server \<Rightarrow> data_channel option \<times> rh_server" where
  "acquireDataChannel s = take_channel (request_channel s)"

text \<open>The client's end of a channel waits for its command under the deadline of the handshake and then gives up.\<close>

definition client_waits :: "nat \<Rightarrow> data_channel \<Rightarrow> bool" where
  "client_waits now dc = (now < dc_opened dc + rh_handshakeTimeout)"

datatype rh_event = ControlUp bytes | ControlGone | Command | DataHello data_channel | Request | Take

definition rh_next :: "rh_event \<Rightarrow> rh_server \<Rightarrow> rh_server" where
  "rh_next e s =
     (case e of
        ControlUp key \<Rightarrow> install_control key s
      | ControlGone \<Rightarrow> drop_control s
      | Command \<Rightarrow> runControl s
      | DataHello dc \<Rightarrow> snd (routeDataChannel dc s)
      | Request \<Rightarrow> request_channel s
      | Take \<Rightarrow> snd (take_channel s))"

definition rh_server_init :: rh_server where
  "rh_server_init = \<lparr>rs_current = None, rs_commands = 0, rs_given = []\<rparr>"

section \<open>Reconnecting\<close>

fun rh_RunClient :: "nat \<Rightarrow> serve_end list \<Rightarrow> nat list" where
  "rh_RunClient backoff [] = []"
| "rh_RunClient backoff (r # rs) =
     (if \<not> returns_error r then []
      else backoff # rh_RunClient (if backoff < 30 then backoff * 2 else backoff) rs)"

section \<open>The two ends of the handshake\<close>

lemma readHello_write: "length d = 32 \<Longrightarrow> readHello (writeHello (v, d) @ rest) = Inr ((v, d), rest)"
  using hello.dec_enc [of "(v, d)" rest] by simp

lemmas handshake_consts = helloControl_def helloData_def ackOk_def ackAuthFailed_def ackServiceNotExist_def

text \<open>Control handshake: the client's messages and the server's answers.  When the two keys agree, which
  for a hash without collisions means that the tokens do, both ends finish with the same session key and nothing is
  left over; otherwise the server answers nothing beyond its hello and drains the connection, and the client
  reports that no acknowledgement came.\<close>

theorem rathole_handshake_agrees:
  assumes "length nonce = 32" "length svc = 32" "\<And>x. length (sha x) = 32"
    and msgs: "to_server = writeHello (helloControl, svc) @ writeAuth (rh_sessionKey sha client_token nonce)"
    and out: "handleIncoming sha server_token nonce to_server = (to_client, r)"
  shows "runControlClient sha client_token svc to_client =
      (to_server, if rh_sessionKey sha client_token nonce = rh_sessionKey sha server_token nonce
         then Inr (rh_sessionKey sha server_token nonce, []) else Inl AckRead) \<and>
    r = (if rh_sessionKey sha client_token nonce = rh_sessionKey sha server_token nonce
         then InControl (rh_sessionKey sha server_token nonce) [] else InDrained) \<and>
    (inj sha \<longrightarrow> (rh_sessionKey sha client_token nonce = rh_sessionKey sha server_token nonce \<longleftrightarrow> client_token = server_token))"
proof -
  let ?kc = "rh_sessionKey sha client_token nonce" and ?ks = "rh_sessionKey sha server_token nonce"
  have len: "length ?kc = 32" "length ?ks = 32" using assms(3) by (simp_all add: rh_sessionKey_def)
  have auth: "readAuth (writeAuth ?kc) = Inr (?kc, [])" using auth.dec_enc [of ?kc "[]"] len by simp
  have "handleIncoming sha server_token nonce to_server =
      (if ?kc = ?ks then (writeHello (helloControl, nonce) @ writeU32 ackOk, InControl ?ks [])
       else (writeHello (helloControl, nonce), InDrained))"
    by (simp add: handleIncoming_def msgs readHello_write assms(2) rh_controlHandshake_def auth Let_def)
  then have o: "to_client = writeHello (helloControl, nonce) @ (if ?kc = ?ks then writeU32 ackOk else [])"
      "r = (if ?kc = ?ks then InControl ?ks [] else InDrained)"
    using out by (auto split: if_splits)
  have ack: "readU32 (writeU32 ackOk) = Inr (ackOk, [])" using u32.dec_enc [of ackOk "[]"] by simp
  have none: "\<exists>e. readU32 [] = Inl e" by (simp add: readU32_def read_full_def)
  have "runControlClient sha client_token svc to_client = (to_server, if ?kc = ?ks then Inr (?ks, []) else Inl AckRead)"
    using none unfolding o(1) by (auto simp: runControlClient_def readHello_write assms(1) ack msgs Let_def)
  moreover have "inj sha \<longrightarrow> (?kc = ?ks \<longleftrightarrow> client_token = server_token)"
    by (auto simp: rh_sessionKey_def dest: injD)
  ultimately show ?thesis using o(2) by blast
qed

definition demo_sha :: "bytes \<Rightarrow> bytes" where
  "demo_sha x = take 32 (x @ replicate 32 0)"

theorem rathole_handshake_agrees_witness:
  "\<exists>to_client r. handleIncoming demo_sha [7] (replicate 32 1)
       (writeHello (helloControl, replicate 32 2) @ writeAuth (rh_sessionKey demo_sha [7] (replicate 32 1))) = (to_client, r) \<and>
     (\<exists>key. r = InControl key [] \<and> snd (runControlClient demo_sha [7] (replicate 32 2) to_client) = Inr (key, []))"
proof -
  let ?m = "writeHello (helloControl, replicate 32 2) @ writeAuth (rh_sessionKey demo_sha [7] (replicate 32 1))"
  obtain t r where o: "handleIncoming demo_sha [7] (replicate 32 1) ?m = (t, r)" by (metis prod.exhaust)
  have "length (demo_sha x) = 32" for x by (simp add: demo_sha_def)
  from rathole_handshake_agrees [OF _ _ this refl o] o show ?thesis by simp
qed

lemma forward_read_back:
  assumes "start_forward cmd target = Some w"
  shows "openDataChannel (w @ rest) =
    Some (if cmd = cmdStartForwardTCP then ForwardTCP target rest
          else if cmd = cmdStartForwardUDP then ForwardUDP target rest else ForwardNothing)"
proof -
  have w: "w = writeU32 cmd @ rathole_frame target" "length target \<le> 65535"
    using assms by (auto simp: start_forward_def writeFrame_def rathole_frame_def split: if_splits sum.splits)
  have "readU32 (writeU32 cmd @ rathole_frame target @ rest) = Inr (cmd, rathole_frame target @ rest)" by (rule u32.dec_enc) simp
  then show ?thesis using w rframe.dec_enc [OF w(2), of rest] by (simp add: openDataChannel_def)
qed

lemma command_loop_counts: "command_loop (concat (map writeU32 cmds)) = count_list cmds cmdCreateDataChannel"
proof (induction cmds)
  case Nil
  show ?case by (subst command_loop.simps) (simp add: readU32_def read_full_def)
next
  case (Cons c cs)
  have "readU32 (writeU32 c @ concat (map writeU32 cs)) = Inr (c, concat (map writeU32 cs))" by (rule u32.dec_enc) simp
  then show ?case using Cons by (subst command_loop.simps) simp
qed

section \<open>Data channels belong to the client\<close>

definition queue_of :: "rh_server \<Rightarrow> data_channel list" where
  "queue_of s = (case rs_current s of None \<Rightarrow> [] | Some cc \<Rightarrow> cc_dataCh cc)"

definition hellos :: "rh_event list \<Rightarrow> data_channel list" where
  "hellos es = concat (map (\<lambda>e. case e of DataHello dc \<Rightarrow> [dc] | _ \<Rightarrow> []) es)"

definition pool_ok :: "rh_server \<Rightarrow> bool" where
  "pool_ok s =
     (\<forall>cc. rs_current s = Some cc \<longrightarrow>
        length (cc_dataCh cc) \<le> dataCh_cap \<and> cc_reqCh cc \<le> reqCh_cap \<and> (\<forall>dc \<in> set (cc_dataCh cc). dc_key dc = cc_key cc))"

lemmas rh_ops = rh_next_def install_control_def drop_control_def runControl_def routeDataChannel_def request_channel_def
  take_channel_def queue_of_def

interpretation rh_pool: machine "\<lambda>s. s = rh_server_init" rh_next pool_ok
proof unfold_locales
  fix s e assume ok: "pool_ok s"
  show "pool_ok (rh_next e s)"
  proof (cases "rs_current s")
    case None
    then show ?thesis by (cases e) (auto simp: pool_ok_def rh_ops tcpPoolWarm_def reqCh_cap_def)
  next
    case (Some cc)
    then have "length (cc_dataCh cc) \<le> dataCh_cap" "cc_reqCh cc \<le> reqCh_cap" "\<forall>dc \<in> set (cc_dataCh cc). dc_key dc = cc_key cc"
      using ok by (simp_all add: pool_ok_def)
    then show ?thesis using Some by (cases e) (auto simp: pool_ok_def rh_ops tcpPoolWarm_def reqCh_cap_def split: list.splits)
  qed
qed (simp add: pool_ok_def rh_server_init_def)

lemma given_subset:
  "set (rs_given (fold rh_next es rh_server_init) @ queue_of (fold rh_next es rh_server_init)) \<subseteq> set (hellos es)"
proof (induction es rule: rev_induct)
  case (snoc e es)
  define s where "s = fold rh_next es rh_server_init"
  have IH: "set (rs_given s @ queue_of s) \<subseteq> set (hellos es)" using snoc s_def by simp
  have "set (rs_given (rh_next e s) @ queue_of (rh_next e s)) \<subseteq> set (hellos (es @ [e]))"
    using IH by (cases e; cases "rs_current s") (auto simp: rh_ops hellos_def split: list.splits)
  then show ?case by (simp add: s_def)
qed (simp add: rh_server_init_def queue_of_def)

lemma given_distinct:
  "distinct (hellos es) \<Longrightarrow> distinct (rs_given (fold rh_next es rh_server_init) @ queue_of (fold rh_next es rh_server_init))"
proof (induction es rule: rev_induct)
  case (snoc e es)
  define s where "s = fold rh_next es rh_server_init"
  have IH: "distinct (rs_given s @ queue_of s)" using snoc by (simp add: s_def hellos_def)
  have sub: "set (rs_given s @ queue_of s) \<subseteq> set (hellos es)" unfolding s_def by (rule given_subset)
  have new: "dc \<notin> set (rs_given s @ queue_of s)" if "e = DataHello dc" for dc
    using sub snoc.prems that by (auto simp: hellos_def)
  have "distinct (rs_given (rh_next e s) @ queue_of (rh_next e s))"
    using IH new by (cases e; cases "rs_current s") (auto simp: rh_ops split: list.splits)
  then show ?case by (simp add: s_def)
qed (simp add: rh_server_init_def queue_of_def)

lemma keys_up:
  "(\<forall>cc. rs_current (fold rh_next es rh_server_init) = Some cc \<longrightarrow> ControlUp (cc_key cc) \<in> set es) \<and>
   (\<forall>dc \<in> set (rs_given (fold rh_next es rh_server_init)). ControlUp (dc_key dc) \<in> set es)"
proof (induction es rule: rev_induct)
  case (snoc e es)
  define s where "s = fold rh_next es rh_server_init"
  have "pool_ok s" using rh_pool.inv_run [OF refl] by (simp add: s_def)
  then have q: "\<forall>cc dc. rs_current s = Some cc \<and> dc \<in> set (cc_dataCh cc) \<longrightarrow> dc_key dc = cc_key cc" by (auto simp: pool_ok_def)
  have IH: "\<forall>cc. rs_current s = Some cc \<longrightarrow> ControlUp (cc_key cc) \<in> set es" "\<forall>dc \<in> set (rs_given s). ControlUp (dc_key dc) \<in> set es"
    using snoc by (simp_all add: s_def)
  have "(\<forall>cc. rs_current (rh_next e s) = Some cc \<longrightarrow> ControlUp (cc_key cc) \<in> set (es @ [e])) \<and>
      (\<forall>dc \<in> set (rs_given (rh_next e s)). ControlUp (dc_key dc) \<in> set (es @ [e]))"
    using IH q by (cases e; cases "rs_current s") (auto simp: rh_ops split: list.splits)
  then show ?case by (simp add: s_def)
qed (simp add: rh_server_init_def)




section \<open>The pool serves channels that are gone\<close>

text \<open>Visitors, each with the channel that the client opens for its request: what each is given.\<close>

fun rh_visits :: "data_channel list \<Rightarrow> rh_server \<Rightarrow> data_channel option list" where
  "rh_visits [] s = []"
| "rh_visits (new # news) s =
     (case acquireDataChannel s of
        (got, s1) \<Rightarrow> got # rh_visits news (snd (routeDataChannel new (runControl s1))))"

lemma rh_visits_queue:
  assumes "rs_current s = Some \<lparr>cc_key = key, cc_dataCh = q, cc_reqCh = 0\<rparr>" "q \<noteq> []" "length q \<le> dataCh_cap"
    "\<forall>dc \<in> set news. dc_key dc = key"
  shows "rh_visits news s = map Some (take (length news) (q @ news))"
  using assms
proof (induction news arbitrary: q s)
  case (Cons new news)
  obtain d ds where q: "q = d # ds" using Cons.prems(2) by (cases q) auto
  obtain s1 where s1: "acquireDataChannel s = (Some d, s1)" "rs_current s1 = Some \<lparr>cc_key = key, cc_dataCh = ds, cc_reqCh = 1\<rparr>"
    using Cons.prems(1) q by (simp add: acquireDataChannel_def request_channel_def take_channel_def reqCh_cap_def)
  let ?s2 = "snd (routeDataChannel new (runControl s1))"
  have "rs_current ?s2 = Some \<lparr>cc_key = key, cc_dataCh = ds @ [new], cc_reqCh = 0\<rparr>"
    using s1(2) Cons.prems(3,4) q by (simp add: runControl_def routeDataChannel_def)
  from Cons.IH [OF this] Cons.prems(3,4) q
  have "rh_visits news ?s2 = map Some (take (length news) ((ds @ [new]) @ news))" by simp
  then show ?case using s1(1) q by simp
qed simp

text \<open>(C36) With the two channels the server keeps in advance, every visitor is given the channel that was opened for
  the visitor two before, and its client end has been given up ten seconds after it was opened.  So when any
  three visitors in a row span ten seconds or more, and the first come ten seconds after the pool was filled,
  no visitor at all reaches the service, although the client is connected all the time.\<close>

theorem rathole_pool_goes_stale:
  assumes "rs_current s = Some \<lparr>cc_key = key, cc_dataCh = [a, b], cc_reqCh = 0\<rparr>" "\<forall>dc \<in> set news. dc_key dc = key"
    "n < length news"
  shows "rh_visits news s ! n = Some ((a # b # news) ! n) \<and>
    ((\<forall>m. Suc (Suc m) < length news \<longrightarrow> dc_opened (news ! m) + 10 \<le> dc_opened (news ! Suc (Suc m))) \<longrightarrow>
     (\<forall>m < length news. m < 2 \<longrightarrow> dc_opened ([a, b] ! m) + 10 \<le> dc_opened (news ! m)) \<longrightarrow>
     (\<exists>dc. rh_visits news s ! n = Some dc \<and> \<not> client_waits (dc_opened (news ! n)) dc))"
proof -
  have v: "rh_visits news s = map Some (take (length news) ([a, b] @ news))"
    using assms(2) by (intro rh_visits_queue [OF assms(1)]) (simp_all add: dataCh_cap_def)
  then have got: "rh_visits news s ! n = Some ((a # b # news) ! n)" using assms(3) by simp
  have "\<not> client_waits (dc_opened (news ! n)) ((a # b # news) ! n)"
    if far: "\<forall>m. Suc (Suc m) < length news \<longrightarrow> dc_opened (news ! m) + 10 \<le> dc_opened (news ! Suc (Suc m))"
      and first: "\<forall>m < length news. m < 2 \<longrightarrow> dc_opened ([a, b] ! m) + 10 \<le> dc_opened (news ! m)"
  proof (cases "n < 2")
    case True
    then have "n = 0 \<or> n = 1" by auto
    then show ?thesis using first assms(3) by (auto simp: client_waits_def rh_handshakeTimeout_def)
  next
    case False
    then obtain m where m: "n = Suc (Suc m)" by (metis add_2_eq_Suc le_Suc_ex not_less)
    then have "dc_opened (news ! m) + 10 \<le> dc_opened (news ! n)" using far assms(3) by blast
    then show ?thesis using m by (simp add: client_waits_def rh_handshakeTimeout_def not_less)
  qed
  then show ?thesis using got by blast
qed

theorem rathole_pool_goes_stale_witness:
  "\<exists>s. s = fold rh_next [ControlUp [1], Command, Command, DataHello \<lparr>dc_conn = 0, dc_key = [1], dc_opened = 0\<rparr>,
       DataHello \<lparr>dc_conn = 1, dc_key = [1], dc_opened = 0\<rparr>] rh_server_init \<and>
     (\<exists>dc. rh_visits [\<lparr>dc_conn = 2, dc_key = [1], dc_opened = 60\<rparr>, \<lparr>dc_conn = 3, dc_key = [1], dc_opened = 120\<rparr>,
         \<lparr>dc_conn = 4, dc_key = [1], dc_opened = 180\<rparr>] s ! 2 = Some dc \<and> \<not> client_waits 180 dc)"
proof -
  let ?a = "\<lparr>dc_conn = 0, dc_key = [1], dc_opened = 0\<rparr>" and ?b = "\<lparr>dc_conn = 1, dc_key = [1], dc_opened = 0\<rparr>"
  let ?news = "[\<lparr>dc_conn = 2, dc_key = [1], dc_opened = 60\<rparr>, \<lparr>dc_conn = 3, dc_key = [1], dc_opened = 120\<rparr>,
      \<lparr>dc_conn = 4, dc_key = [1], dc_opened = 180\<rparr>]"
  let ?s = "fold rh_next [ControlUp [1], Command, Command, DataHello ?a, DataHello ?b] rh_server_init"
  have c: "rs_current ?s = Some \<lparr>cc_key = [1], cc_dataCh = [?a, ?b], cc_reqCh = 0\<rparr>"
    by (simp add: rh_ops rh_server_init_def tcpPoolWarm_def dataCh_cap_def)
  have keys: "\<forall>dc \<in> set ?news. dc_key dc = [1]" "2 < length ?news" by simp_all
  have far: "\<forall>m. Suc (Suc m) < length ?news \<longrightarrow> dc_opened (?news ! m) + 10 \<le> dc_opened (?news ! Suc (Suc m))"
    by (auto simp: less_Suc_eq)
  have first: "\<forall>m < length ?news. m < 2 \<longrightarrow> dc_opened ([?a, ?b] ! m) + 10 \<le> dc_opened (?news ! m)"
    by (auto simp: less_Suc_eq numeral_2_eq_2)
  obtain dc where dc: "rh_visits ?news ?s ! 2 = Some dc" "\<not> client_waits (dc_opened (?news ! 2)) dc"
    using rathole_pool_goes_stale [OF c keys] far first by blast
  have "dc_opened (?news ! 2) = 180" by simp
  then show ?thesis using dc by (intro exI [of _ ?s] conjI exI [of _ dc] refl) (simp_all only: not_False_eq_True)
qed

lemma rh_RunClient_frp: "rh_RunClient backoff rs = frp_RunClient backoff rs"
  by (induction rs arbitrary: backoff) (simp_all add: mult.commute)

text \<open>The delay is never reset here either.\<close>

lemma rh_backoff_never_resets:
  "\<forall>r \<in> set rs. r \<noteq> ContextEnded \<Longrightarrow> rh_RunClient 1 rs = map (\<lambda>i. min (2 ^ i) 32) [0..<length rs]"
  using RunClient_delays [of rs 1 0] by (simp add: rh_RunClient_frp)

section \<open>UDP over a data channel\<close>

text \<open>\<open>runUDPServer\<close>: the addresses seen on the public socket, what is framed on the data channel, and what is sent
  back from it.\<close>

record udp_server =
  us_seen :: "bytes set"
  us_out :: bytes
  us_sent :: "(bytes \<times> bytes) list"

datatype udp_server_event = FromVisitor bytes bytes | FromChannel bytes bytes

definition udp_server_step :: "udp_server_event \<Rightarrow> udp_server \<Rightarrow> udp_server" where
  "udp_server_step e s =
     (case e of
        FromVisitor src p \<Rightarrow>
          (case writeUDP (src, p) of
             Inl _ \<Rightarrow> s\<lparr>us_seen := insert src (us_seen s)\<rparr>
           | Inr f \<Rightarrow> s\<lparr>us_seen := insert src (us_seen s), us_out := us_out s @ f\<rparr>)
      | FromChannel src p \<Rightarrow> if src \<in> us_seen s then s\<lparr>us_sent := us_sent s @ [(src, p)]\<rparr> else s)"

definition udp_server_start :: udp_server where
  "udp_server_start = \<lparr>us_seen = {}, us_out = [], us_sent = []\<rparr>"

definition visitor_datagrams :: "udp_server_event list \<Rightarrow> (bytes \<times> bytes) list" where
  "visitor_datagrams es = concat (map (\<lambda>e. case e of FromVisitor src p \<Rightarrow> [(src, p)] | _ \<Rightarrow> []) es)"

text \<open>\<open>runUDPClient\<close>: the sockets by source.  The lookup with the dial is one critical section, the write follows; a reader
  closes its socket and then deletes its entry.\<close>

datatype ru_pc = RuRead | RuWrite nat bytes

record ru_state =
  ru_flows :: "bytes \<Rightarrow> nat option"
  ru_key :: "nat \<Rightarrow> bytes"
  ru_next :: nat
  ru_open :: "nat set"
  ru_readers :: "nat set"
  ru_closing :: "nat set"
  ru_pc :: ru_pc
  ru_sent :: "(bytes \<times> nat \<times> bytes) list"
  ru_back :: "(nat \<times> bytes \<times> bytes) list"

definition ru_init :: ru_state where
  "ru_init = \<lparr>ru_flows = Map.empty, ru_key = \<lambda>_. [], ru_next = 0, ru_open = {}, ru_readers = {}, ru_closing = {}, ru_pc = RuRead,
     ru_sent = [], ru_back = []\<rparr>"

definition ru_lookup :: "bytes \<Rightarrow> bytes \<Rightarrow> bool \<Rightarrow> ru_state \<Rightarrow> ru_state" where
  "ru_lookup src p dials s =
     (case ru_flows s src of
        Some f \<Rightarrow> s\<lparr>ru_pc := RuWrite f p\<rparr>
      | None \<Rightarrow>
          if \<not> dials then s
          else (let f = ru_next s in
            s\<lparr>ru_flows := (ru_flows s)(src \<mapsto> f), ru_key := (ru_key s)(f := src), ru_next := Suc f, ru_open := insert f (ru_open s),
              ru_readers := insert f (ru_readers s), ru_pc := RuWrite f p\<rparr>))"

definition ru_write :: "nat \<Rightarrow> bytes \<Rightarrow> bool \<Rightarrow> ru_state \<Rightarrow> ru_state" where
  "ru_write f p ok s =
     (if ok \<and> f \<in> ru_open s then s\<lparr>ru_sent := ru_sent s @ [(ru_key s f, f, p)], ru_pc := RuRead\<rparr> else s\<lparr>ru_pc := RuRead\<rparr>)"

inductive ru_step :: "ru_state \<Rightarrow> ru_state \<Rightarrow> bool" where
  lookup: "ru_pc s = RuRead \<Longrightarrow> ru_step s (ru_lookup src p dials s)"
| send: "ru_pc s = RuWrite f p \<Longrightarrow> ru_step s (ru_write f p ok s)"
| reply: "f \<in> ru_readers s \<Longrightarrow> ru_step s (s\<lparr>ru_back := ru_back s @ [(f, ru_key s f, p)]\<rparr>)"
| closes: "f \<in> ru_readers s \<Longrightarrow>
    ru_step s (s\<lparr>ru_readers := ru_readers s - {f}, ru_closing := insert f (ru_closing s), ru_open := ru_open s - {f}\<rparr>)"
| deletes: "f \<in> ru_closing s \<Longrightarrow>
    ru_step s (s\<lparr>ru_flows := (ru_flows s)(ru_key s f := None), ru_closing := ru_closing s - {f}\<rparr>)"

inductive_cases ru_stepE: "ru_step s s'"


definition ru_inv :: "ru_state \<Rightarrow> bool" where
  "ru_inv s =
     ((\<forall>f \<in> ru_readers s \<union> ru_closing s. ru_flows s (ru_key s f) = Some f) \<and>
      (\<forall>k f. ru_flows s k = Some f \<longrightarrow> f < ru_next s \<and> ru_key s f = k \<and> f \<in> ru_readers s \<union> ru_closing s) \<and>
      ru_readers s \<inter> ru_closing s = {} \<and> ru_open s = ru_readers s \<and>
      (\<forall>f p. ru_pc s = RuWrite f p \<longrightarrow> f < ru_next s) \<and>
      (\<forall>(src, f, p) \<in> set (ru_sent s). f < ru_next s \<and> ru_key s f = src) \<and>
      (\<forall>(f, src, p) \<in> set (ru_back s). f < ru_next s \<and> ru_key s f = src))"

lemma ru_invD:
  assumes "ru_inv s"
  shows "f \<in> ru_readers s \<or> f \<in> ru_closing s \<Longrightarrow> ru_flows s (ru_key s f) = Some f"
    "ru_flows s k = Some f \<Longrightarrow> f < ru_next s \<and> ru_key s f = k \<and> (f \<in> ru_readers s \<or> f \<in> ru_closing s)"
    "ru_readers s \<inter> ru_closing s = {}" "ru_open s = ru_readers s" "ru_pc s = RuWrite f p \<Longrightarrow> f < ru_next s"
    "\<forall>(src, f, p) \<in> set (ru_sent s). f < ru_next s \<and> ru_key s f = src"
    "\<forall>(f, src, p) \<in> set (ru_back s). f < ru_next s \<and> ru_key s f = src"
  using assms unfolding ru_inv_def by blast+

lemma ru_invI:
  assumes "\<And>f. f \<in> ru_readers s \<or> f \<in> ru_closing s \<Longrightarrow> ru_flows s (ru_key s f) = Some f"
    "\<And>k f. ru_flows s k = Some f \<Longrightarrow> f < ru_next s \<and> ru_key s f = k \<and> (f \<in> ru_readers s \<or> f \<in> ru_closing s)"
    "ru_readers s \<inter> ru_closing s = {}" "ru_open s = ru_readers s" "\<And>f p. ru_pc s = RuWrite f p \<Longrightarrow> f < ru_next s"
    "\<forall>(src, f, p) \<in> set (ru_sent s). f < ru_next s \<and> ru_key s f = src"
    "\<forall>(f, src, p) \<in> set (ru_back s). f < ru_next s \<and> ru_key s f = src"
  shows "ru_inv s"
  using assms unfolding ru_inv_def by blast

lemma ru_inv_dial:
  assumes inv: "ru_inv s" and none: "ru_flows s src = None"
  shows "ru_inv (ru_lookup src p True s)"
proof -
  let ?s = "ru_lookup src p True s" and ?n = "ru_next s"
  have new: "ru_flows ?s = (ru_flows s)(src \<mapsto> ?n)" "ru_key ?s = (ru_key s)(?n := src)" "ru_next ?s = Suc ?n"
      "ru_open ?s = insert ?n (ru_open s)" "ru_readers ?s = insert ?n (ru_readers s)" "ru_closing ?s = ru_closing s"
      "ru_pc ?s = RuWrite ?n p" "ru_sent ?s = ru_sent s" "ru_back ?s = ru_back s"
    using none by (simp_all add: ru_lookup_def Let_def)
  have old: "f < ?n" if "f \<in> ru_readers s \<or> f \<in> ru_closing s" for f
    using ru_invD(1) [OF inv that] ru_invD(2) [OF inv] by blast
  show ?thesis
  proof (rule ru_invI, unfold new)
    fix f assume f: "f \<in> insert ?n (ru_readers s) \<or> f \<in> ru_closing s"
    show "((ru_flows s)(src \<mapsto> ?n)) (((ru_key s)(?n := src)) f) = Some f"
    proof (cases "f = ?n")
      case False
      then have "ru_flows s (ru_key s f) = Some f" using f ru_invD(1) [OF inv] by blast
      then show ?thesis using False none by (cases "ru_key s f = src") simp_all
    qed simp
  next
    fix k f assume "((ru_flows s)(src \<mapsto> ?n)) k = Some f"
    then show "f < Suc ?n \<and> ((ru_key s)(?n := src)) f = k \<and> (f \<in> insert ?n (ru_readers s) \<or> f \<in> ru_closing s)"
      using ru_invD(2) [OF inv, of k f] by (cases "k = src") auto
  next
    show "insert ?n (ru_readers s) \<inter> ru_closing s = {}" using ru_invD(3) [OF inv] old by blast
  qed (use ru_invD(4,6,7) [OF inv] in \<open>auto simp: less_Suc_eq\<close>)
qed

lemma ru_inv_step:
  assumes "ru_step s s'" "ru_inv s"
  shows "ru_inv s'"
  using assms(1)
proof cases
  case (lookup src p dials)
  show ?thesis
  proof (cases "ru_flows s src")
    case (Some f)
    then have "f < ru_next s" using ru_invD(2) [OF assms(2)] by blast
    then show ?thesis using lookup Some ru_invD [OF assms(2)] by (intro ru_invI) (simp_all add: ru_lookup_def)
  next
    case None
    then show ?thesis using lookup assms(2) ru_inv_dial [OF assms(2) None] by (cases dials) (simp_all add: ru_lookup_def)
  qed
next
  case (send f p ok)
  have "f < ru_next s" using ru_invD(5) [OF assms(2)] send by blast
  moreover have "s' = s\<lparr>ru_sent := ru_sent s @ [(ru_key s f, f, p)], ru_pc := RuRead\<rparr> \<or> s' = s\<lparr>ru_pc := RuRead\<rparr>"
    using send by (simp add: ru_write_def)
  then show ?thesis
  proof
    assume "s' = s\<lparr>ru_pc := RuRead\<rparr>"
    then show ?thesis using ru_invD [OF assms(2)] by (intro ru_invI) simp_all
  next
    assume "s' = s\<lparr>ru_sent := ru_sent s @ [(ru_key s f, f, p)], ru_pc := RuRead\<rparr>"
    then show ?thesis using ru_invD [OF assms(2)] calculation by (intro ru_invI) simp_all
  qed
next
  case (reply f p)
  then have "f < ru_next s" using ru_invD(1,2) [OF assms(2)] by blast
  then show ?thesis using reply ru_invD [OF assms(2)] by (intro ru_invI) simp_all
next
  case (closes f)
  then show ?thesis using ru_invD [OF assms(2)] by (intro ru_invI) auto
next
  case (deletes f)
  have f: "ru_flows s (ru_key s f) = Some f" using ru_invD(1) [OF assms(2)] deletes by blast
  have keys: "ru_key s g \<noteq> ru_key s f" if "g \<noteq> f" "g \<in> ru_readers s \<or> g \<in> ru_closing s" for g
    using ru_invD(1) [OF assms(2) that(2)] f that(1) by auto
  have notf: "f \<notin> ru_readers s" using ru_invD(3) [OF assms(2)] deletes by blast
  show ?thesis unfolding deletes
  proof (rule ru_invI)
    fix g
    assume "g \<in> ru_readers (s\<lparr>ru_flows := (ru_flows s)(ru_key s f := None), ru_closing := ru_closing s - {f}\<rparr>) \<or>
      g \<in> ru_closing (s\<lparr>ru_flows := (ru_flows s)(ru_key s f := None), ru_closing := ru_closing s - {f}\<rparr>)"
    then have g: "g \<in> ru_readers s \<or> g \<in> ru_closing s" "g \<noteq> f" using notf by auto
    then show "ru_flows (s\<lparr>ru_flows := (ru_flows s)(ru_key s f := None), ru_closing := ru_closing s - {f}\<rparr>)
        (ru_key (s\<lparr>ru_flows := (ru_flows s)(ru_key s f := None), ru_closing := ru_closing s - {f}\<rparr>) g) = Some g"
      using keys ru_invD(1) [OF assms(2)] by simp
  next
    fix k g
    assume "ru_flows (s\<lparr>ru_flows := (ru_flows s)(ru_key s f := None), ru_closing := ru_closing s - {f}\<rparr>) k = Some g"
    then have g: "k \<noteq> ru_key s f" "ru_flows s k = Some g" by (auto split: if_splits)
    then have "g \<noteq> f" using ru_invD(2) [OF assms(2) g(2)] by blast
    then show "g < ru_next (s\<lparr>ru_flows := (ru_flows s)(ru_key s f := None), ru_closing := ru_closing s - {f}\<rparr>) \<and>
       ru_key (s\<lparr>ru_flows := (ru_flows s)(ru_key s f := None), ru_closing := ru_closing s - {f}\<rparr>) g = k \<and>
       (g \<in> ru_readers (s\<lparr>ru_flows := (ru_flows s)(ru_key s f := None), ru_closing := ru_closing s - {f}\<rparr>) \<or>
        g \<in> ru_closing (s\<lparr>ru_flows := (ru_flows s)(ru_key s f := None), ru_closing := ru_closing s - {f}\<rparr>))"
      using ru_invD(2) [OF assms(2) g(2)] by auto
  qed (use ru_invD(3-7) [OF assms(2)] in auto)
qed


interpretation ru_flows: invariant "\<lambda>s. s = ru_init" ru_step ru_inv
  by (unfold_locales; (erule (1) ru_inv_step)?) (simp add: ru_inv_def ru_init_def)

lemma udp_server_run:
  assumes "\<forall>(src, p) \<in> set (visitor_datagrams es). length src \<le> 65535 \<and> length p \<le> 65535"
  shows "us_out (fold udp_server_step es s) = us_out s @ concat (map rathole_udp_frame (visitor_datagrams es)) \<and>
    us_seen (fold udp_server_step es s) = us_seen s \<union> fst ` set (visitor_datagrams es)"
  using assms
proof (induction es arbitrary: s)
  case (Cons e es)
  show ?case
  proof (cases e)
    case (FromVisitor src p)
    have "writeUDP (src, p) = Inr (rathole_udp_frame (src, p))"
      using Cons.prems FromVisitor writeUDP_Inr [of src p] by (simp add: visitor_datagrams_def)
    then have "udp_server_step e s = s\<lparr>us_seen := insert src (us_seen s), us_out := us_out s @ rathole_udp_frame (src, p)\<rparr>"
      using FromVisitor by (simp add: udp_server_step_def)
    then show ?thesis using Cons FromVisitor by (simp add: visitor_datagrams_def)
  next
    case (FromChannel src p)
    then have "us_out (udp_server_step e s) = us_out s" "us_seen (udp_server_step e s) = us_seen s"
      by (simp_all add: udp_server_step_def)
    then show ?thesis using Cons FromChannel by (simp add: visitor_datagrams_def)
  qed
qed (simp add: visitor_datagrams_def)

lemma udp_server_sent:
  "fst ` set (us_sent (fold udp_server_step es udp_server_start)) \<subseteq> us_seen (fold udp_server_step es udp_server_start)"
proof (induction es rule: rev_induct)
  case (snoc e es)
  then show ?case by (cases e) (auto simp: udp_server_step_def split: sum.splits)
qed (simp add: udp_server_start_def)




end
