(* ===== verification/Udp_Transport.thy ===== *)
theory Udp_Transport
  imports Handshake Pools "HOL-Library.Sublist"
begin

text \<open>
  The \<open>udp\<close> transport: \<open>internal/server/transport/udp.go\<close> and \<open>internal/client/transport/udp.go\<close>, with the address
  resolution of \<open>internal/utils/network/resolver.go\<close>.

  The server keeps two kinds of objects, the visitors' connections and the client's pool sockets, each with a queue
  of datagrams, and couples one of each.  Objects live in stores, tables and channels hold their numbers.  The events
  are the iterations of the goroutines: the two socket readers (the only ones that add to their table), the two halves
  of \<open>handleLoop\<close>, the two directions of \<open>udpCopy\<close> and its two final critical sections, the keep-alive of a pool
  socket.  A send on a closed channel and a second close are panics, the value \<^const>\<open>None\<close>.  Fields marked ghost are
  history that no operation reads.
\<close>

section \<open>Resolving the forwarding target\<close>

definition Itoa :: "int \<Rightarrow> string" where
  "Itoa n = (if n < 0 then CHR ''-'' # Itoa_nat (nat (- n)) else Itoa_nat (nat n))"

definition resolve_one :: "string \<Rightarrow> (int \<times> string) option" where
  "resolve_one remoteAddr =
     (let parts = Split (CHR '':'') remoteAddr in
      if length parts < 2 then map_option (\<lambda>port. (port, ''127.0.0.1:'' @ Itoa port)) (Atoi (parts ! 0))
      else map_option (\<lambda>port. (port, remoteAddr)) (Atoi (parts ! 1)))"

text \<open>The loop over a backend list; \<open>i\<close> is the index, the parts hold no separator any more.\<close>

fun resolve_parts :: "nat \<Rightarrow> string list \<Rightarrow> int \<Rightarrow> string list \<Rightarrow> (int \<times> string list) option" where
  "resolve_parts i [] firstPort resolved = Some (firstPort, resolved)"
| "resolve_parts i (part # parts) firstPort resolved =
     (let part = TrimSpace part in
      if part = [] then resolve_parts (Suc i) parts firstPort resolved
      else case resolve_one part of
          None \<Rightarrow> None
        | Some (p, full) \<Rightarrow> resolve_parts (Suc i) parts (if i = 0 then p else firstPort) (resolved @ [full]))"

fun join_backends :: "string list \<Rightarrow> string" where
  "join_backends [] = []"
| "join_backends [x] = x"
| "join_backends (x # xs) = x @ backendSep # join_backends xs"

definition ResolveRemoteAddr :: "string \<Rightarrow> (int \<times> string) option" where
  "ResolveRemoteAddr remoteAddr =
     (if backendSep \<in> set remoteAddr then
        map_option (\<lambda>(firstPort, resolved). (firstPort, join_backends resolved))
          (resolve_parts 0 (Split backendSep remoteAddr) 0 [])
      else resolve_one remoteAddr)"

section \<open>The server\<close>

datatype local_phase =
    InQueue | Held | Stale | Refused
  | Copying nat bool bool
  | LocalClosed nat
  | Ended nat

record LocalUDPConn =
  lc_port :: nat
  lc_addr :: string
  lc_remote :: string
  lc_timeCreated :: int
  lc_payload :: "bytes list"
  lc_closed :: bool
  lc_phase :: local_phase
  lc_in :: "bytes list"
  lc_out :: "bytes list"

text \<open>\<open>tc_mu\<close>: the mutex was taken for good by \<open>handleLoop\<close>, which closed \<open>ping\<close> just before.  \<open>tc_in\<close>, \<open>tc_out\<close>,
  \<open>lc_in\<close>, \<open>lc_out\<close> (the datagrams queued and the datagrams written to the address) and \<open>tc_user\<close> are ghost.\<close>

record TunnelUDPConn =
  tc_addr :: string
  tc_payload :: "bytes list"
  tc_closed :: bool
  tc_mu :: bool
  tc_user :: "nat option"
  tc_in :: "bytes list"
  tc_out :: "bytes list"

record udp_state =
  locals :: "nat \<Rightarrow> LocalUDPConn"
  next_local :: nat
  activeLocal :: "nat \<times> string \<Rightarrow> nat option"
  udpChan :: "nat \<Rightarrow> nat list"
  held :: "nat \<Rightarrow> nat option"
  tunnels :: "nat \<Rightarrow> TunnelUDPConn"
  next_tunnel :: nat
  activeTunnel :: "string \<Rightarrow> nat option"
  tunnelChannel :: "nat list"
  reqNewConn :: nat

record udp_config =
  uc_Token :: string
  uc_ChannelSize :: nat
  uc_remote :: "nat \<Rightarrow> string"

definition payload_cap :: nat where "payload_cap = 100000"

abbreviation upd_local :: "nat \<Rightarrow> (LocalUDPConn \<Rightarrow> LocalUDPConn) \<Rightarrow> udp_state \<Rightarrow> udp_state" where
  "upd_local l h s \<equiv> s\<lparr>locals := (locals s)(l := h (locals s l))\<rparr>"

abbreviation upd_tunnel :: "nat \<Rightarrow> (TunnelUDPConn \<Rightarrow> TunnelUDPConn) \<Rightarrow> udp_state \<Rightarrow> udp_state" where
  "upd_tunnel t h s \<equiv> s\<lparr>tunnels := (tunnels s)(t := h (tunnels s t))\<rparr>"

definition queue_local :: "bytes \<Rightarrow> LocalUDPConn \<Rightarrow> LocalUDPConn" where
  "queue_local d c =
     (if length (lc_payload c) < payload_cap then c\<lparr>lc_payload := lc_payload c @ [d], lc_in := lc_in c @ [d]\<rparr> else c)"

definition queue_tunnel :: "bytes \<Rightarrow> TunnelUDPConn \<Rightarrow> TunnelUDPConn" where
  "queue_tunnel d c =
     (if length (tc_payload c) < payload_cap then c\<lparr>tc_payload := tc_payload c @ [d], tc_in := tc_in c @ [d]\<rparr> else c)"

definition acceptTunnelConn :: "udp_config \<Rightarrow> string \<Rightarrow> bytes \<Rightarrow> udp_state \<Rightarrow> udp_state option" where
  "acceptTunnelConn cfg addr d s =
     (case activeTunnel s addr of
        Some t \<Rightarrow> if tc_closed (tunnels s t) then None else Some (upd_tunnel t (queue_tunnel d) s)
      | None \<Rightarrow>
          if d \<noteq> str_bytes (uc_Token cfg) then Some s
          else
            (let t = next_tunnel s; full = uc_ChannelSize cfg \<le> length (tunnelChannel s);
                 c = \<lparr>tc_addr = addr, tc_payload = [], tc_closed = full, tc_mu = False, tc_user = None, tc_in = [], tc_out = []\<rparr>;
                 s1 = s\<lparr>tunnels := (tunnels s)(t := c), next_tunnel := Suc t\<rparr> in
             Some (if full then s1
                   else s1\<lparr>activeTunnel := (activeTunnel s)(addr \<mapsto> t), tunnelChannel := tunnelChannel s @ [t]\<rparr>)))"

definition localListener :: "udp_config \<Rightarrow> nat \<Rightarrow> string \<Rightarrow> bytes \<Rightarrow> int \<Rightarrow> udp_state \<Rightarrow> udp_state option" where
  "localListener cfg port addr d now s =
     (case activeLocal s (port, addr) of
        Some l \<Rightarrow> if lc_closed (locals s l) then None else Some (upd_local l (queue_local d) s)
      | None \<Rightarrow>
          (let l = next_local s; full = uc_ChannelSize cfg \<le> length (udpChan s port);
               c = \<lparr>lc_port = port, lc_addr = addr, lc_remote = uc_remote cfg port, lc_timeCreated = now, lc_payload = [],
                    lc_closed = full, lc_phase = (if full then Refused else InQueue), lc_in = [], lc_out = []\<rparr> in
           Some (if full then s\<lparr>locals := (locals s)(l := c), next_local := Suc l\<rparr>
                 else s\<lparr>locals := (locals s)(l := queue_local d c), next_local := Suc l,
                        activeLocal := (activeLocal s)((port, addr) \<mapsto> l),
                        udpChan := (udpChan s)(port := udpChan s port @ [l]),
                        reqNewConn := (if reqNewConn s < uc_ChannelSize cfg then Suc (reqNewConn s) else reqNewConn s)\<rparr>)))"

text \<open>\<open>handleLoop\<close> of a port: taking the next visitor, unless it waited more than three seconds, and then a pool socket.\<close>

definition handle_take :: "nat \<Rightarrow> int \<Rightarrow> udp_state \<Rightarrow> udp_state" where
  "handle_take port now s =
     (case (held s port, udpChan s port) of
        (None, l # q) \<Rightarrow>
          (let c = locals s l; key = (lc_port c, lc_addr c); s1 = s\<lparr>udpChan := (udpChan s)(port := q)\<rparr> in
           if now - lc_timeCreated c > 3000
           then (upd_local l (\<lambda>c. c\<lparr>lc_phase := Stale\<rparr>) s1)
             \<lparr>activeLocal := (if activeLocal s key = Some l then (activeLocal s)(key := None) else activeLocal s)\<rparr>
           else (upd_local l (\<lambda>c. c\<lparr>lc_phase := Held\<rparr>) s1)\<lparr>held := (held s)(port \<mapsto> l)\<rparr>)
      | _ \<Rightarrow> s)"

definition handle_pair :: "nat \<Rightarrow> bool \<Rightarrow> udp_state \<Rightarrow> udp_state option" where
  "handle_pair port ok s =
     (case (held s port, tunnelChannel s) of
        (Some l, t # ts) \<Rightarrow>
          (let s1 = s\<lparr>tunnelChannel := ts\<rparr> in
           if tc_mu (tunnels s t) then None
           else if \<not> ok then Some (upd_tunnel t (\<lambda>c. c\<lparr>tc_mu := True\<rparr>) s1)
           else Some ((upd_local l (\<lambda>c. c\<lparr>lc_phase := Copying t False False\<rparr>)
                (upd_tunnel t (\<lambda>c. c\<lparr>tc_mu := True, tc_user := Some l,
                   tc_out := tc_out c @ [str_bytes (lc_remote (locals s l))]\<rparr>) s1))
                \<lparr>held := (held s)(port := None)\<rparr>))
      | _ \<Rightarrow> Some s)"

definition udp_keepAlive :: "nat \<Rightarrow> udp_state \<Rightarrow> udp_state" where
  "udp_keepAlive t s =
     (if t < next_tunnel s \<and> \<not> tc_closed (tunnels s t) \<and> \<not> tc_mu (tunnels s t)
      then upd_tunnel t (\<lambda>c. c\<lparr>tc_out := tc_out c @ [[SG_Ping]]\<rparr>) s else s)"

text \<open>One datagram of \<open>udpLocalCopy\<close> and of \<open>udpTunnelCopy\<close>.  The write loop does not run for an empty one.\<close>

definition write_dgram :: "bytes \<Rightarrow> bytes list \<Rightarrow> bytes list" where
  "write_dgram d out = (if d = [] then out else out @ [d])"

definition udpLocalCopy :: "nat \<Rightarrow> bool \<Rightarrow> udp_state \<Rightarrow> udp_state" where
  "udpLocalCopy l ok s =
     (if next_local s \<le> l then s
      else case (lc_phase (locals s l), lc_payload (locals s l)) of
        (Copying t False down, d # q) \<Rightarrow>
          (if ok \<or> d = [] then
             upd_tunnel t (\<lambda>c. c\<lparr>tc_out := write_dgram d (tc_out c)\<rparr>) (upd_local l (\<lambda>c. c\<lparr>lc_payload := q\<rparr>) s)
           else upd_local l (\<lambda>c. c\<lparr>lc_payload := q, lc_phase := Copying t True down\<rparr>) s)
      | _ \<Rightarrow> s)"

definition udpTunnelCopy :: "nat \<Rightarrow> bool \<Rightarrow> udp_state \<Rightarrow> udp_state" where
  "udpTunnelCopy l ok s =
     (if next_local s \<le> l then s
      else case lc_phase (locals s l) of
        Copying t up False \<Rightarrow>
          (case tc_payload (tunnels s t) of
             [] \<Rightarrow> s
           | d # q \<Rightarrow>
               if ok \<or> d = [] then
                 upd_tunnel t (\<lambda>c. c\<lparr>tc_payload := q\<rparr>) (upd_local l (\<lambda>c. c\<lparr>lc_out := write_dgram d (lc_out c)\<rparr>) s)
               else upd_tunnel t (\<lambda>c. c\<lparr>tc_payload := q\<rparr>) (upd_local l (\<lambda>c. c\<lparr>lc_phase := Copying t up True\<rparr>) s))
      | _ \<Rightarrow> s)"

text \<open>Sixty seconds without a datagram end one direction.\<close>

definition local_idle :: "nat \<Rightarrow> udp_state \<Rightarrow> udp_state" where
  "local_idle l s =
     (case lc_phase (locals s l) of
        Copying t up down \<Rightarrow> if l < next_local s then upd_local l (\<lambda>c. c\<lparr>lc_phase := Copying t True down\<rparr>) s else s
      | _ \<Rightarrow> s)"

definition tunnel_idle :: "nat \<Rightarrow> udp_state \<Rightarrow> udp_state" where
  "tunnel_idle l s =
     (case lc_phase (locals s l) of
        Copying t up down \<Rightarrow> if l < next_local s then upd_local l (\<lambda>c. c\<lparr>lc_phase := Copying t up True\<rparr>) s else s
      | _ \<Rightarrow> s)"

text \<open>The end of \<open>udpCopy\<close>: the two critical sections once both directions are over.\<close>

definition close_local :: "nat \<Rightarrow> udp_state \<Rightarrow> udp_state option" where
  "close_local l s =
     (case lc_phase (locals s l) of
        Copying t True True \<Rightarrow>
          if next_local s \<le> l then Some s
          else if lc_closed (locals s l) then None
          else Some ((upd_local l (\<lambda>c. c\<lparr>lc_closed := True, lc_phase := LocalClosed t\<rparr>) s)
            \<lparr>activeLocal := (activeLocal s)((lc_port (locals s l), lc_addr (locals s l)) := None)\<rparr>)
      | _ \<Rightarrow> Some s)"

definition close_tunnel :: "nat \<Rightarrow> udp_state \<Rightarrow> udp_state option" where
  "close_tunnel l s =
     (case lc_phase (locals s l) of
        LocalClosed t \<Rightarrow>
          if next_local s \<le> l then Some s
          else if tc_closed (tunnels s t) then None
          else Some ((upd_local l (\<lambda>c. c\<lparr>lc_phase := Ended t\<rparr>) (upd_tunnel t (\<lambda>c. c\<lparr>tc_closed := True\<rparr>) s))
            \<lparr>activeTunnel := (activeTunnel s)(tc_addr (tunnels s t) := None)\<rparr>)
      | _ \<Rightarrow> Some s)"

datatype udp_event =
    TunnelDgram string bytes | LocalDgram nat string bytes int
  | TakeLocal nat int | PairTunnel nat bool | SendRequest
  | KeepAlive nat | UpData nat bool | DownData nat bool | UpIdle nat | DownIdle nat
  | CloseLocal nat | CloseTunnel nat

definition udp_next :: "udp_config \<Rightarrow> udp_event \<Rightarrow> udp_state \<Rightarrow> udp_state option" where
  "udp_next cfg e s =
     (case e of
        TunnelDgram addr d \<Rightarrow> acceptTunnelConn cfg addr d s
      | LocalDgram port addr d now \<Rightarrow> localListener cfg port addr d now s
      | TakeLocal port now \<Rightarrow> Some (handle_take port now s)
      | PairTunnel port ok \<Rightarrow> handle_pair port ok s
      | SendRequest \<Rightarrow> Some (s\<lparr>reqNewConn := reqNewConn s - 1\<rparr>)
      | KeepAlive t \<Rightarrow> Some (udp_keepAlive t s)
      | UpData l ok \<Rightarrow> Some (udpLocalCopy l ok s)
      | DownData l ok \<Rightarrow> Some (udpTunnelCopy l ok s)
      | UpIdle l \<Rightarrow> Some (local_idle l s)
      | DownIdle l \<Rightarrow> Some (tunnel_idle l s)
      | CloseLocal l \<Rightarrow> close_local l s
      | CloseTunnel l \<Rightarrow> close_tunnel l s)"

definition blank_local :: LocalUDPConn where
  "blank_local = \<lparr>lc_port = 0, lc_addr = [], lc_remote = [], lc_timeCreated = 0, lc_payload = [], lc_closed = False,
     lc_phase = Refused, lc_in = [], lc_out = []\<rparr>"

definition blank_tunnel :: TunnelUDPConn where
  "blank_tunnel = \<lparr>tc_addr = [], tc_payload = [], tc_closed = False, tc_mu = False, tc_user = None, tc_in = [], tc_out = []\<rparr>"

definition udp_start :: udp_state where
  "udp_start = \<lparr>locals = (\<lambda>_. blank_local), next_local = 0, activeLocal = (\<lambda>_. None), udpChan = (\<lambda>_. []), held = (\<lambda>_. None),
     tunnels = (\<lambda>_. blank_tunnel), next_tunnel = 0, activeTunnel = (\<lambda>_. None), tunnelChannel = [], reqNewConn = 0\<rparr>"

section \<open>The client\<close>

definition bytes_str :: "bytes \<Rightarrow> string" where
  "bytes_str b = map (char_of \<circ> unat) b"

datatype tunnel_outcome = StillWaiting | NoRemote | DialRemote int string

text \<open>\<open>handleTunnelConn\<close> after the token was sent, on the datagrams that arrive: \<open>ReadFromUDP\<close> cuts each to the buffer.\<close>

fun handleTunnelConn :: "bytes list \<Rightarrow> tunnel_outcome \<times> bytes list" where
  "handleTunnelConn [] = (StillWaiting, [])"
| "handleTunnelConn (d # ds) =
     (let b = take 47 d in
      if length b = 1 \<and> b ! 0 = SG_Ping then handleTunnelConn ds
      else case ResolveRemoteAddr (bytes_str b) of
          None \<Rightarrow> (NoRemote, ds)
        | Some (port, remoteAddr) \<Rightarrow> (DialRemote port (firstBackend remoteAddr), ds))"

text \<open>\<open>localDialer\<close>: \<open>resolves\<close> and \<open>dials\<close> are the resolver and the kernel; \<^const>\<open>None\<close> is the nil dereference after
  a failed dial, which is only logged.\<close>

definition udp_localDialer :: "(string \<Rightarrow> bool) \<Rightarrow> (string \<Rightarrow> bool) \<Rightarrow> string \<Rightarrow> bool option" where
  "udp_localDialer resolves dials addr =
     (if \<not> resolves addr then Some False else if \<not> dials addr then None else Some True)"

datatype copy_event = Dgram bytes bool | ReadTimeout | ReadError

fun udpCopy_client :: "copy_event list \<Rightarrow> bytes list" where
  "udpCopy_client [] = []"
| "udpCopy_client (Dgram d ok # es) =
     (let b = take 16384 d in
      if b = [] then udpCopy_client es else if \<not> ok then [] else b # udpCopy_client es)"
| "udpCopy_client (_ # es) = []"


section \<open>What every reachable state satisfies\<close>

definition lc_key :: "LocalUDPConn \<Rightarrow> nat \<times> string" where
  "lc_key c = (lc_port c, lc_addr c)"

fun phase_live :: "local_phase \<Rightarrow> bool" where
  "phase_live InQueue = True" | "phase_live Held = True" | "phase_live (Copying _ _ _) = True" | "phase_live _ = False"

fun phase_tunnel :: "local_phase \<Rightarrow> nat option" where
  "phase_tunnel (Copying t _ _) = Some t" | "phase_tunnel (LocalClosed t) = Some t" | "phase_tunnel (Ended t) = Some t"
| "phase_tunnel _ = None"

fun phase_up :: "local_phase \<Rightarrow> bool" where
  "phase_up (Copying _ up _) = (\<not> up)" | "phase_up _ = False"

fun phase_down :: "local_phase \<Rightarrow> bool" where
  "phase_down (Copying _ _ down) = (\<not> down)" | "phase_down _ = False"

definition pings :: "nat \<Rightarrow> bytes list" where
  "pings k = replicate k [SG_Ping]"

definition no_empty :: "bytes list \<Rightarrow> bytes list" where
  "no_empty ds = filter (\<lambda>d. d \<noteq> []) ds"

text \<open>What has been carried: from the visitor to the pool socket, and back.\<close>

definition carried_up :: "LocalUDPConn \<Rightarrow> TunnelUDPConn \<Rightarrow> bool" where
  "carried_up c d =
     (\<exists>k done rest. tc_out d = pings k @ [str_bytes (lc_remote c)] @ no_empty done \<and> lc_in c = done @ rest \<and>
        (phase_up (lc_phase c) \<longrightarrow> rest = lc_payload c))"

definition carried_down :: "LocalUDPConn \<Rightarrow> TunnelUDPConn \<Rightarrow> bool" where
  "carried_down c d =
     (\<exists>done rest. lc_out c = no_empty done \<and> tc_in d = done @ rest \<and>
        (phase_down (lc_phase c) \<longrightarrow> rest = tc_payload d))"

definition local_ok :: "udp_config \<Rightarrow> udp_state \<Rightarrow> nat \<Rightarrow> bool" where
  "local_ok cfg s l =
     (let c = locals s l in
      lc_remote c = uc_remote cfg (lc_port c) \<and> length (lc_payload c) \<le> payload_cap \<and>
      (phase_live (lc_phase c) \<longrightarrow> \<not> lc_closed c \<and> activeLocal s (lc_key c) = Some l) \<and>
      (phase_tunnel (lc_phase c) = None \<longrightarrow> lc_in c = lc_payload c \<and> lc_out c = []) \<and>
      (\<forall>t. phase_tunnel (lc_phase c) = Some t \<longrightarrow>
         t < next_tunnel s \<and> tc_user (tunnels s t) = Some l \<and> carried_up c (tunnels s t) \<and> carried_down c (tunnels s t) \<and>
         (lc_phase c \<noteq> Ended t \<longrightarrow> \<not> tc_closed (tunnels s t) \<and> activeTunnel s (tc_addr (tunnels s t)) = Some t)))"

definition tunnel_ok :: "udp_state \<Rightarrow> nat \<Rightarrow> bool" where
  "tunnel_ok s t =
     (let c = tunnels s t in
      length (tc_payload c) \<le> payload_cap \<and>
      (tc_user c = None \<longrightarrow> tc_in c = tc_payload c) \<and>
      (\<not> tc_mu c \<longrightarrow> tc_user c = None \<and> (\<exists>k. tc_out c = pings k)) \<and>
      (t \<in> set (tunnelChannel s) \<longrightarrow> \<not> tc_mu c \<and> \<not> tc_closed c \<and> activeTunnel s (tc_addr c) = Some t))"

definition queues_ok :: "udp_state \<Rightarrow> bool" where
  "queues_ok s =
     (distinct (tunnelChannel s) \<and> (\<forall>t \<in> set (tunnelChannel s). t < next_tunnel s) \<and>
      (\<forall>p. distinct (udpChan s p) \<and>
        (\<forall>l \<in> set (udpChan s p). l < next_local s \<and> lc_port (locals s l) = p \<and> lc_phase (locals s l) = InQueue)) \<and>
      (\<forall>p l. held s p = Some l \<longrightarrow> l < next_local s \<and> lc_port (locals s l) = p \<and> lc_phase (locals s l) = Held))"

definition tables_ok :: "udp_state \<Rightarrow> bool" where
  "tables_ok s =
     ((\<forall>k l. activeLocal s k = Some l \<longrightarrow> l < next_local s \<and> lc_key (locals s l) = k \<and> phase_live (lc_phase (locals s l))) \<and>
      (\<forall>a t. activeTunnel s a = Some t \<longrightarrow> t < next_tunnel s \<and> tc_addr (tunnels s t) = a \<and> \<not> tc_closed (tunnels s t)))"

definition udp_ok :: "udp_config \<Rightarrow> udp_state \<Rightarrow> bool" where
  "udp_ok cfg s =
     (queues_ok s \<and> tables_ok s \<and> (\<forall>l < next_local s. local_ok cfg s l) \<and> (\<forall>t < next_tunnel s. tunnel_ok s t))"

lemma udp_okI:
  assumes "queues_ok s" "tables_ok s" "\<And>l. l < next_local s \<Longrightarrow> local_ok cfg s l" "\<And>t. t < next_tunnel s \<Longrightarrow> tunnel_ok s t"
  shows "udp_ok cfg s"
  using assms by (simp add: udp_ok_def)

lemma udp_okD:
  assumes "udp_ok cfg s"
  shows "queues_ok s" "tables_ok s" "l < next_local s \<Longrightarrow> local_ok cfg s l" "t < next_tunnel s \<Longrightarrow> tunnel_ok s t"
  using assms by (simp_all add: udp_ok_def)

lemma activeLocalD:
  "tables_ok s \<Longrightarrow> activeLocal s k = Some l \<Longrightarrow> l < next_local s \<and> lc_key (locals s l) = k \<and> phase_live (lc_phase (locals s l))"
  unfolding tables_ok_def by blast

lemma activeTunnelD:
  "tables_ok s \<Longrightarrow> activeTunnel s a = Some t \<Longrightarrow> t < next_tunnel s \<and> tc_addr (tunnels s t) = a \<and> \<not> tc_closed (tunnels s t)"
  by (simp add: tables_ok_def)


lemma tables_okI:
  assumes "\<And>k l. activeLocal s k = Some l \<Longrightarrow> l < next_local s \<and> lc_key (locals s l) = k \<and> phase_live (lc_phase (locals s l))"
    and "\<And>a t. activeTunnel s a = Some t \<Longrightarrow> t < next_tunnel s \<and> tc_addr (tunnels s t) = a \<and> \<not> tc_closed (tunnels s t)"
  shows "tables_ok s"
  using assms unfolding tables_ok_def by blast

lemma local_okD:
  assumes "local_ok cfg s l"
  shows "lc_remote (locals s l) = uc_remote cfg (lc_port (locals s l))" "length (lc_payload (locals s l)) \<le> payload_cap"
    "phase_live (lc_phase (locals s l)) \<Longrightarrow> \<not> lc_closed (locals s l)"
    "phase_live (lc_phase (locals s l)) \<Longrightarrow> activeLocal s (lc_key (locals s l)) = Some l"
    "phase_tunnel (lc_phase (locals s l)) = None \<Longrightarrow> lc_in (locals s l) = lc_payload (locals s l) \<and> lc_out (locals s l) = []"
    "phase_tunnel (lc_phase (locals s l)) = Some t \<Longrightarrow> t < next_tunnel s \<and> tc_user (tunnels s t) = Some l"
    "phase_tunnel (lc_phase (locals s l)) = Some t \<Longrightarrow> carried_up (locals s l) (tunnels s t)"
    "phase_tunnel (lc_phase (locals s l)) = Some t \<Longrightarrow> carried_down (locals s l) (tunnels s t)"
    "phase_tunnel (lc_phase (locals s l)) = Some t \<Longrightarrow> lc_phase (locals s l) \<noteq> Ended t \<Longrightarrow>
       \<not> tc_closed (tunnels s t) \<and> activeTunnel s (tc_addr (tunnels s t)) = Some t"
  using assms by (auto simp: local_ok_def Let_def)

text \<open>The two sides of a pair determine each other.\<close>

lemma pair_unique:
  assumes "udp_ok cfg s" "l < next_local s" "l' < next_local s"
    "phase_tunnel (lc_phase (locals s l)) = Some t" "phase_tunnel (lc_phase (locals s l')) = Some t"
  shows "l = l'"
  using local_okD(6) [OF udp_okD(3) [OF assms(1,2)] assms(4)] local_okD(6) [OF udp_okD(3) [OF assms(1,3)] assms(5)] by simp

text \<open>A change to one visitor's connection that leaves its control fields alone.\<close>

lemma upd_local_ok:
  assumes ok: "udp_ok cfg s" and l: "l < next_local s"
    and keeps: "lc_port (h (locals s l)) = lc_port (locals s l)" "lc_addr (h (locals s l)) = lc_addr (locals s l)"
      "lc_phase (h (locals s l)) = lc_phase (locals s l)"
    and new: "local_ok cfg (upd_local l h s) l"
  shows "udp_ok cfg (upd_local l h s)"
proof (rule udp_okI)
  show "queues_ok (upd_local l h s)" using udp_okD(1) [OF ok] keeps by (simp add: queues_ok_def)
  show "tables_ok (upd_local l h s)" using udp_okD(2) [OF ok] keeps by (simp add: tables_ok_def lc_key_def)
  show "local_ok cfg (upd_local l h s) l'" if "l' < next_local (upd_local l h s)" for l'
    using udp_okD(3) [OF ok, of l'] that new by (cases "l' = l") (simp_all add: local_ok_def Let_def)
  show "tunnel_ok (upd_local l h s) t" if "t < next_tunnel (upd_local l h s)" for t
    using udp_okD(4) [OF ok, of t] that by (simp add: tunnel_ok_def Let_def)
qed

text \<open>A change to one pool socket that leaves its control fields alone; its visitor, if any, must agree.\<close>

lemma upd_tunnel_ok:
  assumes ok: "udp_ok cfg s" and t: "t < next_tunnel s"
    and keeps: "tc_addr (h (tunnels s t)) = tc_addr (tunnels s t)" "tc_closed (h (tunnels s t)) = tc_closed (tunnels s t)"
      "tc_mu (h (tunnels s t)) = tc_mu (tunnels s t)" "tc_user (h (tunnels s t)) = tc_user (tunnels s t)"
    and new: "tunnel_ok (upd_tunnel t h s) t"
    and user: "\<And>l. l < next_local s \<Longrightarrow> phase_tunnel (lc_phase (locals s l)) = Some t \<Longrightarrow>
      carried_up (locals s l) (h (tunnels s t)) \<and> carried_down (locals s l) (h (tunnels s t))"
  shows "udp_ok cfg (upd_tunnel t h s)"
proof (rule udp_okI)
  show "queues_ok (upd_tunnel t h s)" using udp_okD(1) [OF ok] by (simp add: queues_ok_def)
  show "tables_ok (upd_tunnel t h s)" using udp_okD(2) [OF ok] keeps by (simp add: tables_ok_def)
  show "local_ok cfg (upd_tunnel t h s) l" if "l < next_local (upd_tunnel t h s)" for l
  proof -
    have l: "l < next_local s" using that by simp
    show ?thesis using udp_okD(3) [OF ok l] user [OF l] keeps by (auto simp: local_ok_def Let_def)
  qed
  show "tunnel_ok (upd_tunnel t h s) t'" if "t' < next_tunnel (upd_tunnel t h s)" for t'
    using udp_okD(4) [OF ok, of t'] that new by (cases "t' = t") (simp_all add: tunnel_ok_def Let_def)
qed

text \<open>A change to both ends of a running copy.\<close>

lemma upd_pair_ok:
  assumes ok: "udp_ok cfg s" and l: "l < next_local s" and ph: "lc_phase (locals s l) = Copying t u d"
    and c: "lc_port c = lc_port (locals s l)" "lc_addr c = lc_addr (locals s l)" "lc_remote c = lc_remote (locals s l)"
      "lc_closed c = lc_closed (locals s l)" "lc_phase c = Copying t u' d'" "length (lc_payload c) \<le> payload_cap"
    and e: "tc_addr e = tc_addr (tunnels s t)" "tc_closed e = tc_closed (tunnels s t)" "tc_mu e = tc_mu (tunnels s t)"
      "tc_user e = tc_user (tunnels s t)" "length (tc_payload e) \<le> payload_cap"
    and carried: "carried_up c e" "carried_down c e"
  shows "udp_ok cfg (s\<lparr>locals := (locals s)(l := c), tunnels := (tunnels s)(t := e)\<rparr>)" (is "udp_ok cfg ?s")
proof (rule udp_okI)
  note lok = udp_okD(3) [OF ok l]
  have t: "t < next_tunnel s" "tc_user (tunnels s t) = Some l" using local_okD(6) [OF lok] ph by auto
  have mu: "tc_mu (tunnels s t)" "t \<notin> set (tunnelChannel s)"
    using udp_okD(4) [OF ok t(1)] t(2) by (auto simp: tunnel_ok_def Let_def)
  show "queues_ok ?s" using udp_okD(1) [OF ok] ph by (auto simp: queues_ok_def)
  show "tables_ok ?s" using udp_okD(2) [OF ok] ph c e by (simp add: tables_ok_def lc_key_def)
  show "local_ok cfg ?s l'" if "l' < next_local ?s" for l'
  proof (cases "l' = l")
    case True
    then show ?thesis using lok ph c e t carried by (simp add: local_ok_def Let_def lc_key_def)
  next
    case False
    have "l' < next_local s" using that by simp
    then have "phase_tunnel (lc_phase (locals s l')) \<noteq> Some t" using pair_unique [OF ok l] ph False by fastforce
    then show ?thesis using udp_okD(3) [OF ok, of l'] that False by (auto simp: local_ok_def Let_def)
  qed
  show "tunnel_ok ?s t'" if "t' < next_tunnel ?s" for t'
    using udp_okD(4) [OF ok, of t'] that t(2) mu e by (cases "t' = t") (simp_all add: tunnel_ok_def Let_def)
qed

lemma carried_up_more:
  "carried_up c d \<Longrightarrow> phase_up (lc_phase c) \<longrightarrow> lc_payload c' = lc_payload c @ [x] \<Longrightarrow> lc_in c' = lc_in c @ [x] \<Longrightarrow>
    lc_remote c' = lc_remote c \<Longrightarrow> lc_phase c' = lc_phase c \<Longrightarrow> carried_up c' d"
  unfolding carried_up_def by (metis append.assoc)

lemma carried_down_more:
  "carried_down c d \<Longrightarrow> phase_down (lc_phase c) \<longrightarrow> tc_payload d' = tc_payload d @ [x] \<Longrightarrow> tc_in d' = tc_in d @ [x] \<Longrightarrow>
    carried_down c d'"
  unfolding carried_down_def by (metis append.assoc)

lemma carried_up_cong:
  "carried_up c d \<Longrightarrow> lc_remote c' = lc_remote c \<Longrightarrow> lc_in c' = lc_in c \<Longrightarrow> tc_out d' = tc_out d \<Longrightarrow>
    phase_up (lc_phase c') \<longrightarrow> phase_up (lc_phase c) \<and> lc_payload c' = lc_payload c \<Longrightarrow> carried_up c' d'"
  unfolding carried_up_def by metis

lemma carried_down_cong:
  "carried_down c d \<Longrightarrow> lc_out c' = lc_out c \<Longrightarrow> tc_in d' = tc_in d \<Longrightarrow>
    phase_down (lc_phase c') \<longrightarrow> phase_down (lc_phase c) \<and> tc_payload d' = tc_payload d \<Longrightarrow> carried_down c' d'"
  unfolding carried_down_def by metis

lemma carried_up_step:
  assumes "carried_up c d" "phase_up (lc_phase c)" "lc_payload c = x # q" "lc_remote c' = lc_remote c" "lc_in c' = lc_in c"
    "lc_payload c' = q" "tc_out d' = write_dgram x (tc_out d)"
  shows "carried_up c' d'"
proof -
  obtain k sent where "tc_out d = pings k @ [str_bytes (lc_remote c)] @ no_empty sent" "lc_in c = sent @ x # q"
    using assms(1,2,3) by (auto simp: carried_up_def)
  then show ?thesis unfolding carried_up_def using assms(4-7)
    by (intro exI [of _ k] exI [of _ "sent @ [x]"] exI [of _ q]) (simp add: write_dgram_def no_empty_def)
qed

lemma carried_down_step:
  assumes "carried_down c d" "phase_down (lc_phase c)" "tc_payload d = x # q" "lc_out c' = write_dgram x (lc_out c)"
    "tc_in d' = tc_in d" "tc_payload d' = q"
  shows "carried_down c' d'"
proof -
  obtain sent where "lc_out c = no_empty sent" "tc_in d = sent @ x # q" using assms(1-3) by (auto simp: carried_down_def)
  then show ?thesis unfolding carried_down_def using assms(4-6)
    by (intro exI [of _ "sent @ [x]"] exI [of _ q]) (simp add: write_dgram_def no_empty_def)
qed


section \<open>Every operation keeps it\<close>

lemma queue_tunnel_ok:
  assumes ok: "udp_ok cfg s" and t: "t < next_tunnel s"
  shows "udp_ok cfg (upd_tunnel t (queue_tunnel d) s)"
proof (rule upd_tunnel_ok [OF ok t])
  show "tunnel_ok (upd_tunnel t (queue_tunnel d) s) t"
    using udp_okD(4) [OF ok t] by (auto simp: tunnel_ok_def Let_def queue_tunnel_def)
  fix l assume l: "l < next_local s" "phase_tunnel (lc_phase (locals s l)) = Some t"
  note c = local_okD(7,8) [OF udp_okD(3) [OF ok l(1)] l(2)]
  show "carried_up (locals s l) (queue_tunnel d (tunnels s t)) \<and> carried_down (locals s l) (queue_tunnel d (tunnels s t))"
    using carried_up_cong [OF c(1)] carried_down_more [OF c(2), where x = d] c(2) by (simp add: queue_tunnel_def)
qed (simp_all add: queue_tunnel_def)

lemma queue_local_ok:
  assumes ok: "udp_ok cfg s" and l: "l < next_local s"
  shows "udp_ok cfg (upd_local l (queue_local d) s)"
proof (rule upd_local_ok [OF ok l])
  note lok = udp_okD(3) [OF ok l]
  have c: "carried_up (queue_local d (locals s l)) (tunnels s t) \<and> carried_down (queue_local d (locals s l)) (tunnels s t)"
    if "phase_tunnel (lc_phase (locals s l)) = Some t" for t
    using local_okD(7,8) [OF lok that] carried_up_more [OF local_okD(7) [OF lok that], where x = d] carried_down_cong [OF local_okD(8) [OF lok that]]
    by (simp add: queue_local_def)
  show "local_ok cfg (upd_local l (queue_local d) s) l"
    using lok c by (auto simp: local_ok_def Let_def queue_local_def lc_key_def)
qed (simp_all add: queue_local_def)

lemma udp_keepAlive_ok:
  assumes ok: "udp_ok cfg s"
  shows "udp_ok cfg (udp_keepAlive t s)"
proof (cases "t < next_tunnel s \<and> \<not> tc_closed (tunnels s t) \<and> \<not> tc_mu (tunnels s t)")
  case True
  then have t: "t < next_tunnel s" and free: "\<not> tc_mu (tunnels s t)" by auto
  obtain k where k: "tc_out (tunnels s t) = pings k" and u: "tc_user (tunnels s t) = None"
    using udp_okD(4) [OF ok t] free by (auto simp: tunnel_ok_def Let_def)
  have "pings k @ [[SG_Ping]] = pings (Suc k)" by (simp add: pings_def replicate_append_same)
  then have "tunnel_ok (upd_tunnel t (\<lambda>c. c\<lparr>tc_out := tc_out c @ [[SG_Ping]]\<rparr>) s) t"
    using udp_okD(4) [OF ok t] k by (auto simp: tunnel_ok_def Let_def)
  moreover have "phase_tunnel (lc_phase (locals s l)) \<noteq> Some t" if "l < next_local s" for l
    using local_okD(6) [OF udp_okD(3) [OF ok that], of t] u by auto
  ultimately have "udp_ok cfg (upd_tunnel t (\<lambda>c. c\<lparr>tc_out := tc_out c @ [[SG_Ping]]\<rparr>) s)"
    by (intro upd_tunnel_ok [OF ok t]) simp_all
  then show ?thesis using True by (simp add: udp_keepAlive_def)
qed (use ok in \<open>auto simp: udp_keepAlive_def\<close>)

lemma acceptTunnelConn_ok:
  assumes ok: "udp_ok cfg s"
  shows "\<exists>s'. acceptTunnelConn cfg addr d s = Some s' \<and> udp_ok cfg s'"
proof (cases "activeTunnel s addr")
  case (Some t)
  then have "t < next_tunnel s" "\<not> tc_closed (tunnels s t)" using activeTunnelD [OF udp_okD(2) [OF ok]] by auto
  then show ?thesis using Some queue_tunnel_ok [OF ok] by (simp add: acceptTunnelConn_def)
next
  case None
  show ?thesis
  proof (cases "d = str_bytes (uc_Token cfg)")
    case True
    let ?t = "next_tunnel s"
    let ?c = "\<lparr>tc_addr = addr, tc_payload = [], tc_closed = uc_ChannelSize cfg \<le> length (tunnelChannel s), tc_mu = False,
      tc_user = None, tc_in = [], tc_out = []\<rparr>"
    let ?s1 = "s\<lparr>tunnels := (tunnels s)(?t := ?c), next_tunnel := Suc ?t\<rparr>"
    let ?s2 = "?s1\<lparr>activeTunnel := (activeTunnel s)(addr \<mapsto> ?t), tunnelChannel := tunnelChannel s @ [?t]\<rparr>"
    have old: "t < ?t" if "activeTunnel s a = Some t" for a t using activeTunnelD [OF udp_okD(2) [OF ok] that] by simp
    have addr: "tc_addr (tunnels s t) \<noteq> addr" if "activeTunnel s (tc_addr (tunnels s t)) = Some t" for t using that None by auto
    note q = udp_okD(1) [OF ok] and tb = udp_okD(2) [OF ok]
    have np: "pings 0 = []" by (simp add: pings_def)
    show ?thesis
    proof (cases "uc_ChannelSize cfg \<le> length (tunnelChannel s)")
      case full: True
      have "udp_ok cfg ?s1"
      proof (rule udp_okI)
        show "queues_ok ?s1" using q by (auto simp: queues_ok_def less_Suc_eq)
        show "tables_ok ?s1" using tb by (auto simp: tables_ok_def dest: old)
        show "local_ok cfg ?s1 l" if "l < next_local ?s1" for l
          using udp_okD(3) [OF ok, of l] that by (auto simp: local_ok_def Let_def)
        show "tunnel_ok ?s1 t" if "t < next_tunnel ?s1" for t
          using udp_okD(4) [OF ok, of t] that q np by (cases "t = ?t") (auto simp: tunnel_ok_def Let_def queues_ok_def less_Suc_eq intro: exI [of _ 0])
      qed
      then show ?thesis using None True full by (simp add: acceptTunnelConn_def Let_def)
    next
      case room: False
      have "udp_ok cfg ?s2"
      proof (rule udp_okI)
        show "queues_ok ?s2" using q by (auto simp: queues_ok_def less_Suc_eq)
        show "tables_ok ?s2" using tb room by (auto simp: tables_ok_def less_Suc_eq dest: old)
        show "local_ok cfg ?s2 l" if "l < next_local ?s2" for l
          using udp_okD(3) [OF ok, of l] that addr by (auto simp: local_ok_def Let_def)
        show "tunnel_ok ?s2 t" if "t < next_tunnel ?s2" for t
          using udp_okD(4) [OF ok, of t] that room np addr
          by (cases "t = ?t") (auto simp: tunnel_ok_def Let_def less_Suc_eq intro: exI [of _ 0])
      qed
      then show ?thesis using None True room by (simp add: acceptTunnelConn_def Let_def)
    qed
  qed (use None ok in \<open>simp add: acceptTunnelConn_def\<close>)
qed


lemma localListener_ok:
  assumes ok: "udp_ok cfg s"
  shows "\<exists>s'. localListener cfg port addr d now s = Some s' \<and> udp_ok cfg s'"
proof (cases "activeLocal s (port, addr)")
  case (Some l)
  then have l: "l < next_local s" "phase_live (lc_phase (locals s l))" using activeLocalD [OF udp_okD(2) [OF ok]] by auto
  then have "\<not> lc_closed (locals s l)" using local_okD(3) [OF udp_okD(3) [OF ok l(1)]] by simp
  then show ?thesis using Some queue_local_ok [OF ok l(1)] by (simp add: localListener_def)
next
  case None
  let ?l = "next_local s" and ?full = "uc_ChannelSize cfg \<le> length (udpChan s port)"
  let ?c = "\<lparr>lc_port = port, lc_addr = addr, lc_remote = uc_remote cfg port, lc_timeCreated = now, lc_payload = [],
    lc_closed = ?full, lc_phase = (if ?full then Refused else InQueue), lc_in = [], lc_out = []\<rparr>"
  have old: "l < ?l" if "activeLocal s k = Some l" for k l using activeLocalD [OF udp_okD(2) [OF ok] that] by simp
  have key: "lc_key (locals s l) \<noteq> (port, addr)" if "activeLocal s (lc_key (locals s l)) = Some l" for l using that None by auto
  note q = udp_okD(1) [OF ok] and tb = udp_okD(2) [OF ok]
  show ?thesis
  proof (cases ?full)
    case True
    let ?s = "s\<lparr>locals := (locals s)(?l := ?c), next_local := Suc ?l\<rparr>"
    have "udp_ok cfg ?s"
    proof (rule udp_okI)
      show "queues_ok ?s" using q by (auto simp: queues_ok_def less_Suc_eq)
      show "tables_ok ?s" using tb unfolding tables_ok_def by (auto simp del: split_paired_All dest: old)
      show "local_ok cfg ?s l" if "l < next_local ?s" for l
        using udp_okD(3) [OF ok, of l] that True by (cases "l = ?l") (simp_all add: local_ok_def Let_def)
      show "tunnel_ok ?s t" if "t < next_tunnel ?s" for t
        using udp_okD(4) [OF ok, of t] that by (simp add: tunnel_ok_def Let_def)
    qed
    then show ?thesis using None True by (simp add: localListener_def Let_def)
  next
    case False
    let ?s = "s\<lparr>locals := (locals s)(?l := queue_local d ?c), next_local := Suc ?l,
      activeLocal := (activeLocal s)((port, addr) \<mapsto> ?l), udpChan := (udpChan s)(port := udpChan s port @ [?l]),
      reqNewConn := (if reqNewConn s < uc_ChannelSize cfg then Suc (reqNewConn s) else reqNewConn s)\<rparr>"
    have new: "lc_port (queue_local d ?c) = port" "lc_key (queue_local d ?c) = (port, addr)" "lc_phase (queue_local d ?c) = InQueue"
      using False by (simp_all add: queue_local_def lc_key_def)
    have "udp_ok cfg ?s"
    proof (rule udp_okI)
      show "queues_ok ?s" using q new by (auto simp: queues_ok_def less_Suc_eq)
      show "tables_ok ?s" using tb new unfolding tables_ok_def by (auto simp del: split_paired_All simp: less_Suc_eq dest: old)
      show "local_ok cfg ?s l" if "l < next_local ?s" for l
        using udp_okD(3) [OF ok, of l] that False new key
        by (cases "l = ?l") (auto simp: local_ok_def Let_def queue_local_def payload_cap_def)
      show "tunnel_ok ?s t" if "t < next_tunnel ?s" for t
        using udp_okD(4) [OF ok, of t] that by (simp add: tunnel_ok_def Let_def)
    qed
    then show ?thesis using None False by (simp add: localListener_def Let_def)
  qed
qed

lemma handle_take_ok:
  assumes ok: "udp_ok cfg s"
  shows "udp_ok cfg (handle_take port now s)"
proof (cases "held s port = None \<and> udpChan s port \<noteq> []")
  case True
  then obtain l r where q: "udpChan s port = l # r" "held s port = None" by (cases "udpChan s port") auto
  note qo = udp_okD(1) [OF ok] and tb = udp_okD(2) [OF ok]
  have l: "l < next_local s" "lc_port (locals s l) = port" "lc_phase (locals s l) = InQueue" "l \<notin> set r"
    using qo q unfolding queues_ok_def by (metis distinct.simps(2) list.set_intros(1))+
  have r: "distinct r" "\<forall>l' \<in> set r. l' < next_local s \<and> lc_port (locals s l') = port \<and> lc_phase (locals s l') = InQueue"
    using qo q(1) unfolding queues_ok_def by (metis distinct.simps(2) list.set_intros(2))+
  note lok = udp_okD(3) [OF ok l(1)]
  have act: "activeLocal s (lc_key (locals s l)) = Some l" "\<not> lc_closed (locals s l)" using local_okD(3,4) [OF lok] l(3) by auto
  have chan: "l \<notin> set (udpChan s p)" if "p \<noteq> port" for p using qo l(2) that by (auto simp: queues_ok_def)
  let ?s1 = "s\<lparr>udpChan := (udpChan s)(port := r)\<rparr>"
  show ?thesis
  proof (cases "now - lc_timeCreated (locals s l) > 3000")
    case stale: True
    let ?s = "(upd_local l (\<lambda>c. c\<lparr>lc_phase := Stale\<rparr>) ?s1)\<lparr>activeLocal := (activeLocal s)(lc_key (locals s l) := None)\<rparr>"
    have "udp_ok cfg ?s"
    proof (rule udp_okI)
      show "queues_ok ?s" using qo q(2) l r chan by (auto simp: queues_ok_def)
      show "tables_ok ?s"
      proof (rule tables_okI)
        fix k l' assume "activeLocal ?s k = Some l'"
        then have "activeLocal s k = Some l'" "k \<noteq> lc_key (locals s l)" by (auto split: if_splits)
        then show "l' < next_local ?s \<and> lc_key (locals ?s l') = k \<and> phase_live (lc_phase (locals ?s l'))"
          using activeLocalD [OF tb, of k l'] by auto
      next
        fix a t assume "activeTunnel ?s a = Some t"
        then show "t < next_tunnel ?s \<and> tc_addr (tunnels ?s t) = a \<and> \<not> tc_closed (tunnels ?s t)"
          using activeTunnelD [OF tb] by simp
      qed
      show "local_ok cfg ?s l'" if "l' < next_local ?s" for l'
      proof (cases "l' = l")
        case False
        then have "activeLocal s (lc_key (locals s l')) = Some l' \<longrightarrow> lc_key (locals s l') \<noteq> lc_key (locals s l)" using act by auto
        then show ?thesis using False udp_okD(3) [OF ok, of l'] that by (auto simp: local_ok_def Let_def)
      qed (use lok l(3) in \<open>simp add: local_ok_def Let_def\<close>)
      show "tunnel_ok ?s t" if "t < next_tunnel ?s" for t
        using udp_okD(4) [OF ok, of t] that by (simp add: tunnel_ok_def Let_def)
    qed
    then show ?thesis using stale q act by (simp add: handle_take_def Let_def lc_key_def)
  next
    case fresh: False
    let ?s = "(upd_local l (\<lambda>c. c\<lparr>lc_phase := Held\<rparr>) ?s1)\<lparr>held := (held s)(port \<mapsto> l)\<rparr>"
    have "udp_ok cfg ?s"
    proof (rule udp_okI)
      show "queues_ok ?s" using qo q(2) l r chan by (auto simp: queues_ok_def)
      show "tables_ok ?s" using tb unfolding tables_ok_def by (auto simp del: split_paired_All simp: lc_key_def)
      show "local_ok cfg ?s l'" if "l' < next_local ?s" for l'
        using udp_okD(3) [OF ok, of l'] that lok l(3) by (cases "l' = l") (simp_all add: local_ok_def Let_def lc_key_def)
      show "tunnel_ok ?s t" if "t < next_tunnel ?s" for t
        using udp_okD(4) [OF ok, of t] that by (simp add: tunnel_ok_def Let_def)
    qed
    then show ?thesis using fresh q by (simp add: handle_take_def Let_def)
  qed
qed (use ok in \<open>auto simp: handle_take_def split: list.splits option.splits\<close>)


lemma handle_pair_ok:
  assumes ok: "udp_ok cfg s"
  shows "\<exists>s'. handle_pair port wr s = Some s' \<and> udp_ok cfg s'"
proof (cases "held s port = None \<or> tunnelChannel s = []")
  case False
  then obtain l t ts where h: "held s port = Some l" "tunnelChannel s = t # ts" by (cases "tunnelChannel s") auto
  note qo = udp_okD(1) [OF ok] and tb = udp_okD(2) [OF ok]
  have l: "l < next_local s" "lc_port (locals s l) = port" "lc_phase (locals s l) = Held" using qo h(1) by (auto simp: queues_ok_def)
  have t: "t < next_tunnel s" "t \<notin> set ts" using qo h(2) by (auto simp: queues_ok_def)
  note lok = udp_okD(3) [OF ok l(1)] and tok = udp_okD(4) [OF ok t(1)]
  obtain k where mu: "\<not> tc_mu (tunnels s t)" "\<not> tc_closed (tunnels s t)" "activeTunnel s (tc_addr (tunnels s t)) = Some t"
      "tc_user (tunnels s t) = None" "tc_out (tunnels s t) = pings k"
    using tok h(2) by (auto simp: tunnel_ok_def Let_def)
  have free: "phase_tunnel (lc_phase (locals s l')) \<noteq> Some t" if "l' < next_local s" for l'
    using local_okD(6) [OF udp_okD(3) [OF ok that], of t] mu(4) by auto
  have other: "held s p \<noteq> Some l" if "p \<noteq> port" for p using qo l(2) that by (auto simp: queues_ok_def)
  let ?s1 = "s\<lparr>tunnelChannel := ts\<rparr>"
  show ?thesis
  proof (cases wr)
    case False
    let ?s = "upd_tunnel t (\<lambda>c. c\<lparr>tc_mu := True\<rparr>) ?s1"
    have "udp_ok cfg ?s"
    proof (rule udp_okI)
      show "queues_ok ?s" using qo h(2) by (auto simp: queues_ok_def)
      show "tables_ok ?s" using tb by (simp add: tables_ok_def)
      show "local_ok cfg ?s l'" if "l' < next_local ?s" for l'
        using udp_okD(3) [OF ok, of l'] that free [of l'] by (auto simp: local_ok_def Let_def)
      show "tunnel_ok ?s t'" if "t' < next_tunnel ?s" for t'
        using udp_okD(4) [OF ok, of t'] that tok t h(2) by (cases "t' = t") (simp_all add: tunnel_ok_def Let_def)
    qed
    then show ?thesis using h mu(1) False by (simp add: handle_pair_def Let_def)
  next
    case True
    let ?s = "(upd_local l (\<lambda>c. c\<lparr>lc_phase := Copying t False False\<rparr>) (upd_tunnel t (\<lambda>c. c\<lparr>tc_mu := True, tc_user := Some l,
        tc_out := tc_out c @ [str_bytes (lc_remote (locals s l))]\<rparr>) ?s1))\<lparr>held := (held s)(port := None)\<rparr>"
    have np: "no_empty [] = []" by (simp add: no_empty_def)
    have hist: "lc_in (locals s l) = lc_payload (locals s l)" "lc_out (locals s l) = []" "tc_in (tunnels s t) = tc_payload (tunnels s t)"
      using local_okD(5) [OF lok] l(3) tok mu(4) by (auto simp: tunnel_ok_def Let_def)
    have "carried_up (locals ?s l) (tunnels ?s t)" "carried_down (locals ?s l) (tunnels ?s t)"
      unfolding carried_up_def carried_down_def using mu(5) hist np
      by (intro exI [of _ k] exI [of _ "[]"] exI [of _ "lc_payload (locals s l)"], simp,
          intro exI [of _ "[]"] exI [of _ "tc_payload (tunnels s t)"], simp)
    then have new: "local_ok cfg ?s l" using lok l(3) t mu by (simp add: local_ok_def Let_def lc_key_def)
    have "udp_ok cfg ?s"
    proof (rule udp_okI)
      show "queues_ok ?s" using qo h(2) l other by (auto simp: queues_ok_def)
      show "tables_ok ?s" using tb unfolding tables_ok_def by (auto simp del: split_paired_All simp: lc_key_def)
      show "local_ok cfg ?s l'" if "l' < next_local ?s" for l'
        using udp_okD(3) [OF ok, of l'] that free [of l'] new by (cases "l' = l", simp) (auto simp: local_ok_def Let_def)
      show "tunnel_ok ?s t'" if "t' < next_tunnel ?s" for t'
        using udp_okD(4) [OF ok, of t'] that tok t h(2) by (cases "t' = t") (simp_all add: tunnel_ok_def Let_def)
    qed
    then show ?thesis using h mu(1) True by (simp add: handle_pair_def Let_def)
  qed
qed (use ok in \<open>auto simp: handle_pair_def split: list.splits option.splits\<close>)

lemma copying_lengths:
  assumes "udp_ok cfg s" "l < next_local s" "lc_phase (locals s l) = Copying t u d"
  shows "length (lc_payload (locals s l)) \<le> payload_cap" "length (tc_payload (tunnels s t)) \<le> payload_cap"
    "carried_up (locals s l) (tunnels s t)" "carried_down (locals s l) (tunnels s t)"
proof -
  note lok = udp_okD(3) [OF assms(1,2)]
  have t: "t < next_tunnel s" using local_okD(6) [OF lok] assms(3) by simp
  show "length (lc_payload (locals s l)) \<le> payload_cap" by (rule local_okD(2) [OF lok])
  show "length (tc_payload (tunnels s t)) \<le> payload_cap" using udp_okD(4) [OF assms(1) t] by (simp add: tunnel_ok_def Let_def)
  show "carried_up (locals s l) (tunnels s t)" "carried_down (locals s l) (tunnels s t)"
    using local_okD(7,8) [OF lok] assms(3) by auto
qed

lemma upd_self [simp]: "s\<lparr>tunnels := (tunnels s)(t := tunnels s t)\<rparr> = (s :: udp_state)"
  by simp

lemma local_idle_ok:
  assumes ok: "udp_ok cfg s"
  shows "udp_ok cfg (local_idle l s)"
proof (cases "\<exists>t u d. l < next_local s \<and> lc_phase (locals s l) = Copying t u d")
  case True
  then obtain t u d where l: "l < next_local s" "lc_phase (locals s l) = Copying t u d" by auto
  note c = copying_lengths [OF ok l]
  have "udp_ok cfg (s\<lparr>locals := (locals s)(l := (locals s l)\<lparr>lc_phase := Copying t True d\<rparr>), tunnels := (tunnels s)(t := tunnels s t)\<rparr>)"
    by (rule upd_pair_ok [OF ok l]) (use c carried_up_cong [OF c(3)] carried_down_cong [OF c(4)] l(2) in simp_all)
  then show ?thesis using l by (simp add: local_idle_def)
qed (use ok in \<open>auto simp: local_idle_def split: local_phase.splits\<close>)

lemma tunnel_idle_ok:
  assumes ok: "udp_ok cfg s"
  shows "udp_ok cfg (tunnel_idle l s)"
proof (cases "\<exists>t u d. l < next_local s \<and> lc_phase (locals s l) = Copying t u d")
  case True
  then obtain t u d where l: "l < next_local s" "lc_phase (locals s l) = Copying t u d" by auto
  note c = copying_lengths [OF ok l]
  have "udp_ok cfg (s\<lparr>locals := (locals s)(l := (locals s l)\<lparr>lc_phase := Copying t u True\<rparr>), tunnels := (tunnels s)(t := tunnels s t)\<rparr>)"
    by (rule upd_pair_ok [OF ok l]) (use c carried_up_cong [OF c(3)] carried_down_cong [OF c(4)] l(2) in simp_all)
  then show ?thesis using l by (simp add: tunnel_idle_def)
qed (use ok in \<open>auto simp: tunnel_idle_def split: local_phase.splits\<close>)


lemma udpLocalCopy_ok:
  assumes ok: "udp_ok cfg s"
  shows "udp_ok cfg (udpLocalCopy l wr s)"
proof (cases "\<exists>t d x q. l < next_local s \<and> lc_phase (locals s l) = Copying t False d \<and> lc_payload (locals s l) = x # q")
  case True
  then obtain t d x q where l: "l < next_local s" "lc_phase (locals s l) = Copying t False d" and x: "lc_payload (locals s l) = x # q"
    by auto
  note c = copying_lengths [OF ok l]
  let ?sent = "s\<lparr>locals := (locals s)(l := (locals s l)\<lparr>lc_payload := q\<rparr>),
    tunnels := (tunnels s)(t := (tunnels s t)\<lparr>tc_out := write_dgram x (tc_out (tunnels s t))\<rparr>)\<rparr>"
  let ?failed = "s\<lparr>locals := (locals s)(l := (locals s l)\<lparr>lc_payload := q, lc_phase := Copying t True d\<rparr>),
    tunnels := (tunnels s)(t := tunnels s t)\<rparr>"
  have "udp_ok cfg ?sent"
    by (rule upd_pair_ok [OF ok l, where u' = False and d' = d]) (use c x carried_up_step [OF c(3) _ x] carried_down_cong [OF c(4)] l(2) in simp_all)
  moreover have "udp_ok cfg ?failed"
    by (rule upd_pair_ok [OF ok l]) (use c x carried_up_cong [OF c(3)] carried_down_cong [OF c(4)] l(2) in simp_all)
  ultimately show ?thesis using l x by (simp add: udpLocalCopy_def)
qed (use ok in \<open>auto simp: udpLocalCopy_def split: local_phase.splits list.splits bool.splits\<close>)

lemma udpTunnelCopy_ok:
  assumes ok: "udp_ok cfg s"
  shows "udp_ok cfg (udpTunnelCopy l wr s)"
proof (cases "\<exists>t u x q. l < next_local s \<and> lc_phase (locals s l) = Copying t u False \<and> tc_payload (tunnels s t) = x # q")
  case True
  then obtain t u x q where l: "l < next_local s" "lc_phase (locals s l) = Copying t u False" and x: "tc_payload (tunnels s t) = x # q"
    by auto
  note c = copying_lengths [OF ok l]
  let ?sent = "s\<lparr>locals := (locals s)(l := (locals s l)\<lparr>lc_out := write_dgram x (lc_out (locals s l))\<rparr>),
    tunnels := (tunnels s)(t := (tunnels s t)\<lparr>tc_payload := q\<rparr>)\<rparr>"
  let ?failed = "s\<lparr>locals := (locals s)(l := (locals s l)\<lparr>lc_phase := Copying t u True\<rparr>),
    tunnels := (tunnels s)(t := (tunnels s t)\<lparr>tc_payload := q\<rparr>)\<rparr>"
  have "udp_ok cfg ?sent"
    by (rule upd_pair_ok [OF ok l, where u' = u and d' = False]) (use c x carried_down_step [OF c(4) _ x] carried_up_cong [OF c(3)] l(2) in simp_all)
  moreover have "udp_ok cfg ?failed"
    by (rule upd_pair_ok [OF ok l]) (use c x carried_up_cong [OF c(3)] carried_down_cong [OF c(4)] l(2) in simp_all)
  ultimately show ?thesis using l x by (simp add: udpTunnelCopy_def)
qed (use ok in \<open>auto simp: udpTunnelCopy_def split: local_phase.splits list.splits bool.splits\<close>)

lemma close_local_ok:
  assumes ok: "udp_ok cfg s"
  shows "\<exists>s'. close_local l s = Some s' \<and> udp_ok cfg s'"
proof (cases "\<exists>t. l < next_local s \<and> lc_phase (locals s l) = Copying t True True")
  case True
  then obtain t where l: "l < next_local s" "lc_phase (locals s l) = Copying t True True" by auto
  note lok = udp_okD(3) [OF ok l(1)] and qo = udp_okD(1) [OF ok] and tb = udp_okD(2) [OF ok]
  have act: "activeLocal s (lc_key (locals s l)) = Some l" "\<not> lc_closed (locals s l)" using local_okD(3,4) [OF lok] l(2) by auto
  let ?s = "(upd_local l (\<lambda>c. c\<lparr>lc_closed := True, lc_phase := LocalClosed t\<rparr>) s)
    \<lparr>activeLocal := (activeLocal s)(lc_key (locals s l) := None)\<rparr>"
  note c = copying_lengths [OF ok l]
  have new: "local_ok cfg ?s l"
    using lok l(2) carried_up_cong [OF c(3)] carried_down_cong [OF c(4)] by (simp add: local_ok_def Let_def)
  have "udp_ok cfg ?s"
  proof (rule udp_okI)
    show "queues_ok ?s" using qo l by (auto simp: queues_ok_def)
    show "tables_ok ?s"
    proof (rule tables_okI)
      fix k l' assume "activeLocal ?s k = Some l'"
      then have "activeLocal s k = Some l'" "k \<noteq> lc_key (locals s l)" by (auto split: if_splits)
      then show "l' < next_local ?s \<and> lc_key (locals ?s l') = k \<and> phase_live (lc_phase (locals ?s l'))"
        using activeLocalD [OF tb, of k l'] by auto
    next
      fix a t assume "activeTunnel ?s a = Some t"
      then show "t < next_tunnel ?s \<and> tc_addr (tunnels ?s t) = a \<and> \<not> tc_closed (tunnels ?s t)" using activeTunnelD [OF tb] by simp
    qed
    show "local_ok cfg ?s l'" if "l' < next_local ?s" for l'
    proof (cases "l' = l")
      case False
      then have "activeLocal s (lc_key (locals s l')) = Some l' \<longrightarrow> lc_key (locals s l') \<noteq> lc_key (locals s l)" using act by auto
      then show ?thesis using False udp_okD(3) [OF ok, of l'] that by (auto simp: local_ok_def Let_def)
    qed (use new in simp)
    show "tunnel_ok ?s t'" if "t' < next_tunnel ?s" for t'
      using udp_okD(4) [OF ok, of t'] that by (simp add: tunnel_ok_def Let_def)
  qed
  then show ?thesis using l act by (simp add: close_local_def lc_key_def)
qed (use ok in \<open>auto simp: close_local_def split: local_phase.splits bool.splits\<close>)

lemma close_tunnel_ok:
  assumes ok: "udp_ok cfg s"
  shows "\<exists>s'. close_tunnel l s = Some s' \<and> udp_ok cfg s'"
proof (cases "\<exists>t. l < next_local s \<and> lc_phase (locals s l) = LocalClosed t")
  case True
  then obtain t where l: "l < next_local s" "lc_phase (locals s l) = LocalClosed t" by auto
  note lok = udp_okD(3) [OF ok l(1)] and qo = udp_okD(1) [OF ok] and tb = udp_okD(2) [OF ok]
  have t: "t < next_tunnel s" "tc_user (tunnels s t) = Some l" "\<not> tc_closed (tunnels s t)" "activeTunnel s (tc_addr (tunnels s t)) = Some t"
    using local_okD(6,9) [OF lok, of t] l(2) by auto
  have mu: "tc_mu (tunnels s t)" "t \<notin> set (tunnelChannel s)" using udp_okD(4) [OF ok t(1)] t(2) by (auto simp: tunnel_ok_def Let_def)
  let ?s = "(upd_local l (\<lambda>c. c\<lparr>lc_phase := Ended t\<rparr>) (upd_tunnel t (\<lambda>c. c\<lparr>tc_closed := True\<rparr>) s))
    \<lparr>activeTunnel := (activeTunnel s)(tc_addr (tunnels s t) := None)\<rparr>"
  have other: "activeTunnel s (tc_addr (tunnels s t')) = Some t' \<longrightarrow> tc_addr (tunnels s t') \<noteq> tc_addr (tunnels s t)" if "t' \<noteq> t" for t'
    using t(4) that by auto
  have new: "local_ok cfg ?s l"
    using lok l(2) t carried_up_cong [OF local_okD(7) [OF lok, of t]] carried_down_cong [OF local_okD(8) [OF lok, of t]]
    by (simp add: local_ok_def Let_def)
  have "udp_ok cfg ?s"
  proof (rule udp_okI)
    show "queues_ok ?s" using qo l by (auto simp: queues_ok_def)
    show "tables_ok ?s"
    proof (rule tables_okI)
      fix k l' assume "activeLocal ?s k = Some l'"
      then show "l' < next_local ?s \<and> lc_key (locals ?s l') = k \<and> phase_live (lc_phase (locals ?s l'))"
        using activeLocalD [OF tb, of k l'] l(2) by (auto simp: lc_key_def)
    next
      fix a t' assume "activeTunnel ?s a = Some t'"
      then have "activeTunnel s a = Some t'" "a \<noteq> tc_addr (tunnels s t)" by (auto split: if_splits)
      then show "t' < next_tunnel ?s \<and> tc_addr (tunnels ?s t') = a \<and> \<not> tc_closed (tunnels ?s t')" using activeTunnelD [OF tb, of a t'] by auto
    qed
    show "local_ok cfg ?s l'" if "l' < next_local ?s" for l'
    proof (cases "l' = l")
      case False
      have l': "l' < next_local s" using that by simp
      then have "phase_tunnel (lc_phase (locals s l')) \<noteq> Some t" using pair_unique [OF ok l(1) l'] l(2) False by auto
      then show ?thesis using False udp_okD(3) [OF ok l'] other by (auto simp: local_ok_def Let_def)
    qed (use new in simp)
    show "tunnel_ok ?s t'" if "t' < next_tunnel ?s" for t'
      using udp_okD(4) [OF ok, of t'] that mu t(2) other [of t'] by (cases "t' = t") (auto simp: tunnel_ok_def Let_def)
  qed
  then show ?thesis using l t(3) by (simp add: close_tunnel_def)
qed (use ok in \<open>auto simp: close_tunnel_def split: local_phase.splits bool.splits\<close>)

lemma udp_start_ok: "udp_ok cfg udp_start"
  by (simp add: udp_ok_def queues_ok_def tables_ok_def udp_start_def)

lemmas udp_step_ok = acceptTunnelConn_ok localListener_ok handle_take_ok handle_pair_ok udp_keepAlive_ok udpLocalCopy_ok udpTunnelCopy_ok
  local_idle_ok tunnel_idle_ok close_local_ok close_tunnel_ok

lemma send_request_ok: "udp_ok cfg s \<Longrightarrow> udp_ok cfg (s\<lparr>reqNewConn := n\<rparr>)"
  by (simp add: udp_ok_def queues_ok_def tables_ok_def local_ok_def tunnel_ok_def Let_def)

interpretation udp_run: safe_machine "\<lambda>s. s = udp_start" "udp_next cfg" "udp_ok cfg" for cfg
proof unfold_locales
  fix s e assume ok: "udp_ok cfg s"
  show "\<exists>s'. udp_next cfg e s = Some s' \<and> udp_ok cfg s'"
    using udp_step_ok [OF ok] send_request_ok [OF ok] by (cases e) (simp_all add: udp_next_def)
qed (simp add: udp_start_ok)


section \<open>What a visitor sent and what the service gets\<close>

definition visitor_dgrams :: "nat \<times> string \<Rightarrow> udp_event list \<Rightarrow> bytes list" where
  "visitor_dgrams k es =
     concat (map (\<lambda>e. case e of LocalDgram port addr d now \<Rightarrow> (if (port, addr) = k then [d] else []) | _ \<Rightarrow> []) es)"

definition tunnel_dgrams :: "string \<Rightarrow> udp_event list \<Rightarrow> bytes list" where
  "tunnel_dgrams a es = concat (map (\<lambda>e. case e of TunnelDgram addr d \<Rightarrow> (if addr = a then [d] else []) | _ \<Rightarrow> []) es)"

text \<open>Only the reader of its port adds to a visitor's queue, and only what that visitor sent.\<close>

lemma local_in_step:
  assumes "udp_next cfg e s = Some s'" "udp_ok cfg s" "l < next_local s'"
  shows "(l < next_local s \<and> lc_key (locals s' l) = lc_key (locals s l) \<and>
      (lc_in (locals s' l) = lc_in (locals s l) \<or>
       lc_in (locals s' l) = lc_in (locals s l) @ visitor_dgrams (lc_key (locals s l)) [e])) \<or>
    (lc_in (locals s' l) = [] \<or> lc_in (locals s' l) = visitor_dgrams (lc_key (locals s' l)) [e])"
proof (cases e)
  case (LocalDgram port addr d now)
  show ?thesis
  proof (cases "activeLocal s (port, addr)")
    case (Some l')
    then have "lc_key (locals s l') = (port, addr)" using activeLocalD [OF udp_okD(2) [OF assms(2)]] by blast
    then have k: "lc_port (locals s l') = port" "lc_addr (locals s l') = addr" by (simp_all add: lc_key_def)
    have s': "s' = upd_local l' (queue_local d) s" using assms(1) LocalDgram Some by (simp add: udp_next_def localListener_def split: if_splits)
    have l: "l < next_local s" using assms(3) by (simp add: s')
    show ?thesis using l k by (cases "l = l'") (simp_all add: s' LocalDgram queue_local_def visitor_dgrams_def lc_key_def)
  next
    case None
    define c where "c = locals s' (next_local s)"
    have s': "locals s' = (locals s)(next_local s := c)" "next_local s' = Suc (next_local s)" "lc_key c = (port, addr)"
        "lc_in c = [] \<or> lc_in c = [d]"
      using assms(1) LocalDgram None
      by (auto simp: c_def udp_next_def localListener_def queue_local_def lc_key_def Let_def split: if_splits)
    show ?thesis using s' assms(3) by (cases "l = next_local s") (auto simp: LocalDgram visitor_dgrams_def)
  qed
qed (use assms(1,3) in \<open>auto simp: udp_next_def acceptTunnelConn_def handle_take_def handle_pair_def udp_keepAlive_def udpLocalCopy_def
    udpTunnelCopy_def local_idle_def tunnel_idle_def close_local_def close_tunnel_def Let_def lc_key_def
    split: if_splits option.splits list.splits local_phase.splits bool.splits\<close>)


lemma tunnel_in_step:
  assumes "udp_next cfg e s = Some s'" "udp_ok cfg s" "t < next_tunnel s'"
  shows "(t < next_tunnel s \<and> tc_addr (tunnels s' t) = tc_addr (tunnels s t) \<and>
      (tc_in (tunnels s' t) = tc_in (tunnels s t) \<or>
       tc_in (tunnels s' t) = tc_in (tunnels s t) @ tunnel_dgrams (tc_addr (tunnels s t)) [e])) \<or>
    tc_in (tunnels s' t) = []"
proof (cases e)
  case (TunnelDgram addr d)
  show ?thesis
  proof (cases "activeTunnel s addr")
    case (Some t')
    then have k: "tc_addr (tunnels s t') = addr" using activeTunnelD [OF udp_okD(2) [OF assms(2)]] by blast
    have s': "s' = upd_tunnel t' (queue_tunnel d) s"
      using assms(1) TunnelDgram Some by (simp add: udp_next_def acceptTunnelConn_def split: if_splits)
    show ?thesis using assms(3) k by (cases "t = t'") (simp_all add: s' TunnelDgram queue_tunnel_def tunnel_dgrams_def)
  next
    case None
    then show ?thesis using assms(1,3) TunnelDgram
      by (auto simp: udp_next_def acceptTunnelConn_def Let_def less_Suc_eq split: if_splits)
  qed
next
  case (LocalDgram port addr d now)
  then show ?thesis using assms(1,3) by (auto simp: udp_next_def localListener_def Let_def split: if_splits option.splits)
qed (use assms(1,3) in \<open>auto simp: udp_next_def handle_take_def handle_pair_def udp_keepAlive_def udpLocalCopy_def
    udpTunnelCopy_def local_idle_def tunnel_idle_def close_local_def close_tunnel_def Let_def
    split: if_splits option.splits list.splits local_phase.splits bool.splits\<close>)

lemma dgrams_snoc:
  "visitor_dgrams k (es @ [e]) = visitor_dgrams k es @ visitor_dgrams k [e]"
  "tunnel_dgrams a (es @ [e]) = tunnel_dgrams a es @ tunnel_dgrams a [e]"
  by (simp_all add: visitor_dgrams_def tunnel_dgrams_def)

lemma subseq_more: "subseq xs ys \<Longrightarrow> subseq xs (ys @ zs)" "subseq xs ys \<Longrightarrow> subseq (xs @ zs) (ys @ zs)" "subseq zs (ys @ zs)"
  using list_emb_append_mono [of "(=)" xs ys "[]" zs] by (auto intro: subseq_append')

lemma subseq_append_prefix: "subseq (xs @ ys) zs \<Longrightarrow> subseq xs zs"
  using prefix_imp_subseq [OF prefixI [OF refl]] subseq_order.trans by blast

lemma queued_from_visitor:
  assumes "run_events (udp_next cfg) es udp_start = Some s"
  shows "udp_ok cfg s \<and> (\<forall>l < next_local s. subseq (lc_in (locals s l)) (visitor_dgrams (lc_key (locals s l)) es)) \<and>
    (\<forall>t < next_tunnel s. subseq (tc_in (tunnels s t)) (tunnel_dgrams (tc_addr (tunnels s t)) es))"
  using assms
proof (induction es arbitrary: s rule: rev_induct)
  case (snoc e es)
  obtain s1 where s1: "run_events (udp_next cfg) es udp_start = Some s1" "udp_next cfg e s1 = Some s"
    using snoc.prems by (auto simp: run_events_append Option.bind_eq_Some_conv)
  note IH = snoc.IH [OF s1(1)]
  have "subseq (lc_in (locals s l)) (visitor_dgrams (lc_key (locals s l)) (es @ [e]))" if "l < next_local s" for l
    using local_in_step [OF s1(2) _ that] IH by (auto simp: dgrams_snoc intro: subseq_more)
  moreover have "subseq (tc_in (tunnels s t)) (tunnel_dgrams (tc_addr (tunnels s t)) (es @ [e]))" if "t < next_tunnel s" for t
    using tunnel_in_step [OF s1(2) _ that] IH by (auto simp: dgrams_snoc intro: subseq_more)
  moreover have "udp_ok cfg s" using udp_run.safe_next [of cfg s1 e] IH s1(2) by auto
  ultimately show ?case by blast
qed (simp add: udp_start_ok, simp add: udp_start_def)

text \<open>The client's end: the pings of the keep-alive are skipped and the target is the first datagram after them.\<close>

lemma char_of_byte [simp]: "char_of (unat (of_char c :: byte)) = c"
proof -
  have "(of_char c :: byte) = of_nat (of_char c)" by (simp only: of_nat_of_char)
  moreover have "(of_char c :: nat) < 256" by simp
  ultimately have "unat (of_char c :: byte) = (of_char c :: nat)" by (simp add: unat_of_nat)
  then show ?thesis by simp
qed

lemma bytes_str_str_bytes [simp]: "bytes_str (str_bytes s) = s"
  by (induction s) (simp_all add: bytes_str_def str_bytes_def)

lemma ping_is_no_target: "str_bytes target = [SG_Ping] \<Longrightarrow> ResolveRemoteAddr target = None"
proof -
  assume "str_bytes target = [SG_Ping]"
  then have "target = bytes_str [SG_Ping]" by (metis bytes_str_str_bytes)
  then show ?thesis by (simp add: bytes_str_def SG_Ping_def ResolveRemoteAddr_def resolve_one_def backendSep_def Atoi_def parse_uint_def
        is_digit_def char_of_def)
qed

lemma handleTunnelConn_pings: "handleTunnelConn (pings k @ ds) = handleTunnelConn ds"
  by (induction k) (simp_all add: pings_def)

lemma handleTunnelConn_target:
  assumes "length target \<le> 47" "ResolveRemoteAddr target = Some (port, addr)"
  shows "handleTunnelConn (pings k @ str_bytes target # ds) = (DialRemote port (firstBackend addr), ds)"
proof -
  have len: "take 47 (str_bytes target) = str_bytes target" using assms(1) by (simp add: str_bytes_def)
  have "\<not> (length (str_bytes target) = 1 \<and> str_bytes target ! 0 = SG_Ping)"
    using ping_is_no_target [of target] assms(2) by (cases "str_bytes target") auto
  then show ?thesis using assms(2) len by (auto simp: handleTunnelConn_pings Let_def)
qed



definition demo_udp :: udp_config where
  "demo_udp = \<lparr>uc_Token = ''k'', uc_ChannelSize = 4, uc_remote = (\<lambda>p. ''53'')\<rparr>"

definition demo_udp_events :: "udp_event list" where
  "demo_udp_events = [TunnelDgram ''c'' (str_bytes ''k''), KeepAlive 0, LocalDgram 0 ''v'' [7] 0, TakeLocal 0 1, PairTunnel 0 True,
     LocalDgram 0 ''v'' [8] 2, UpData 0 True, UpData 0 True, TunnelDgram ''c'' [9], DownData 0 True]"


section \<open>Flows that carry one direction\<close>

definition up_over :: "nat \<Rightarrow> nat \<Rightarrow> bytes list \<Rightarrow> udp_state \<Rightarrow> bool" where
  "up_over l t out s =
     (l < next_local s \<and> phase_tunnel (lc_phase (locals s l)) = Some t \<and> \<not> phase_up (lc_phase (locals s l)) \<and> tc_out (tunnels s t) = out)"

lemma up_over_step:
  assumes ok: "udp_ok cfg s" and over: "up_over l t out s" and nxt: "udp_next cfg e s = Some s'"
  shows "up_over l t out s'"
proof -
  have l: "l < next_local s" "phase_tunnel (lc_phase (locals s l)) = Some t" "\<not> phase_up (lc_phase (locals s l))"
      "tc_out (tunnels s t) = out"
    using over by (auto simp: up_over_def)
  note lok = udp_okD(3) [OF ok l(1)]
  have t: "t < next_tunnel s" "tc_user (tunnels s t) = Some l" using local_okD(6) [OF lok l(2)] by auto
  then have mu: "tc_mu (tunnels s t)" "t \<notin> set (tunnelChannel s)" using udp_okD(4) [OF ok t(1)] by (auto simp: tunnel_ok_def Let_def)
  have q: "l \<notin> set (udpChan s p)" "held s p \<noteq> Some l" for p using udp_okD(1) [OF ok] l(2) by (auto simp: queues_ok_def)
  show ?thesis
  proof (cases e)
    case (UpData l' wr)
    have "l' = l" if "l' < next_local s" "lc_phase (locals s l') = Copying t False d" for d
      using pair_unique [OF ok that(1) l(1) _ l(2)] that(2) by simp
    then have "lc_phase (locals s l') \<noteq> Copying t False d" if "l' < next_local s" for d using l(3) that by auto
    then have "\<not> l' < next_local s \<or> (\<forall>d. lc_phase (locals s l') \<noteq> Copying t False d)" by blast
    then show ?thesis using UpData nxt l
      by (auto simp: up_over_def udp_next_def udpLocalCopy_def split: if_splits local_phase.splits bool.splits list.splits)
  next
    case (TunnelDgram a d)
    then show ?thesis using nxt l t(1) by (auto simp: up_over_def udp_next_def acceptTunnelConn_def queue_tunnel_def Let_def split: if_splits option.splits)
  next
    case (LocalDgram p a d now)
    then show ?thesis using nxt l by (auto simp: up_over_def udp_next_def localListener_def queue_local_def Let_def split: if_splits option.splits)
  next
    case (TakeLocal p now)
    then show ?thesis using nxt l q(1) [of p] by (auto simp: up_over_def udp_next_def handle_take_def Let_def split: if_splits option.splits list.splits)
  next
    case (PairTunnel p wr)
    then show ?thesis using nxt l mu q(2) [of p] by (auto simp: up_over_def udp_next_def handle_pair_def Let_def split: if_splits option.splits list.splits)
  next
    case (DownData l' wr)
    then show ?thesis using nxt l
      by (auto simp: up_over_def udp_next_def udpTunnelCopy_def split: if_splits local_phase.splits bool.splits list.splits)
  next
    case (CloseLocal l')
    then show ?thesis using nxt l by (auto simp: up_over_def udp_next_def close_local_def split: if_splits local_phase.splits bool.splits)
  next
    case (CloseTunnel l')
    then show ?thesis using nxt l by (auto simp: up_over_def udp_next_def close_tunnel_def split: if_splits local_phase.splits bool.splits)
  qed (use nxt l mu in \<open>auto simp: up_over_def udp_next_def udp_keepAlive_def local_idle_def tunnel_idle_def split: if_splits local_phase.splits\<close>)
qed

text \<open>(C38) A direction that saw no datagram for a minute is over for good, while the flow lives on as long as the other
  direction is busy: nothing the visitor sends is written to the pool socket any more, whatever happens, and its address
  stays bound to this flow as long as the replies go on.\<close>

theorem one_sided_flow_goes_deaf:
  assumes "run_events (udp_next cfg) es udp_start = Some s" "l < next_local s" "lc_phase (locals s l) = Copying t True False"
  shows "\<exists>s'. run_events (udp_next cfg) more_es s = Some s' \<and> tc_out (tunnels s' t) = tc_out (tunnels s t) \<and>
    (lc_phase (locals s' l) = Copying t True False \<longrightarrow> activeLocal s' (lc_port (locals s' l), lc_addr (locals s' l)) = Some l)"
proof -
  have ok: "udp_ok cfg s" using queued_from_visitor [OF assms(1)] by blast
  have "\<exists>s'. run_events (udp_next cfg) more_es s = Some s' \<and> udp_ok cfg s' \<and> up_over l t (tc_out (tunnels s t)) s'"
  proof (induction more_es rule: rev_induct)
    case Nil
    then show ?case using ok assms(2,3) by (simp add: up_over_def)
  next
    case (snoc e more_es)
    then obtain s1 where s1: "run_events (udp_next cfg) more_es s = Some s1" "udp_ok cfg s1" "up_over l t (tc_out (tunnels s t)) s1" by blast
    obtain s2 where "udp_next cfg e s1 = Some s2" "udp_ok cfg s2" using udp_run.safe_next [OF s1(2)] by blast
    then show ?case using s1 up_over_step [OF s1(2,3)] by (simp add: run_events_append)
  qed
  then obtain s' where s': "run_events (udp_next cfg) more_es s = Some s'" "udp_ok cfg s'" "up_over l t (tc_out (tunnels s t)) s'" by blast
  then show ?thesis using local_okD(4) [OF udp_okD(3) [OF s'(2), of l]] by (auto simp: up_over_def lc_key_def)
qed

theorem one_sided_flow_goes_deaf_witness:
  "\<exists>s. run_events (udp_next demo_udp) (demo_udp_events @ [UpIdle 0]) udp_start = Some s \<and>
    (\<exists>s'. run_events (udp_next demo_udp) [LocalDgram 0 ''v'' [1] 70000, UpData 0 True] s = Some s' \<and>
      tc_out (tunnels s' 0) = [[SG_Ping], str_bytes ''53'', [7], [8]])"
proof -
  note defs = demo_udp_events_def demo_udp_def udp_next_def acceptTunnelConn_def localListener_def handle_take_def handle_pair_def
    udp_keepAlive_def udpLocalCopy_def udpTunnelCopy_def udp_start_def queue_local_def queue_tunnel_def write_dgram_def payload_cap_def
    local_idle_def
  obtain s where s: "run_events (udp_next demo_udp) (demo_udp_events @ [UpIdle 0]) udp_start = Some s"
    using udp_run.safe_run [OF refl] by blast
  have f: "0 < next_local s" "lc_phase (locals s 0) = Copying 0 True False" "tc_out (tunnels s 0) = [[SG_Ping], str_bytes ''53'', [7], [8]]"
    using s by (auto simp: defs str_bytes_def)
  from one_sided_flow_goes_deaf [OF s f(1,2), of "[LocalDgram 0 ''v'' [1] 70000, UpData 0 True]"] s f(3) show ?thesis by auto
qed

section \<open>Targets the client does not understand\<close>

text \<open>A target longer than the client's buffer is cut: what is dialled depends on its first 47 bytes only.\<close>

lemma long_target_is_cut:
  "handleTunnelConn (str_bytes (a @ b) # ds) = handleTunnelConn (str_bytes a # ds)" if "length a = 47"
  using that by (simp add: str_bytes_def Let_def)

lemma long_target_example:
  "fst (handleTunnelConn [str_bytes (''game-server-number-one.eu-central.example.com:2'' @ ''7015'')]) =
    DialRemote 2 ''game-server-number-one.eu-central.example.com:2''"
proof -
  let ?a = "''game-server-number-one.eu-central.example.com:2''"
  have "ResolveRemoteAddr ?a = Some (2, ?a)"
    by (simp add: ResolveRemoteAddr_def backendSep_def resolve_one_def Atoi_def parse_uint_def is_digit_def digits_val_def digit_val_def)
  then have "handleTunnelConn (pings 0 @ str_bytes ?a # []) = (DialRemote 2 (firstBackend ?a), [])"
    by (intro handleTunnelConn_target) simp_all
  moreover have "firstBackend ?a = ?a"
    by (simp add: firstBackend_def splitBackends_def backendSep_def TrimSpace_def is_space_def)
  moreover have "handleTunnelConn [str_bytes (?a @ ''7015'')] = handleTunnelConn [str_bytes ?a]" by (rule long_target_is_cut) simp
  ultimately show ?thesis by (simp only: pings_def replicate_0 append_Nil fst_conv)
qed

end
