(* ===== verification/Accept_Udp.thy ===== *)
theory Accept_Udp
  imports Udp_Transport
begin

text \<open>
  UDP carried over the \<open>tcp\<close> transport (\<open>accept_udp\<close>): \<open>internal/server/transport/accept_udp.go\<close> and
  \<open>internal/client/transport/accept_udp.go\<close>.

  The server gives every visitor a tunnel connection of its own; datagrams travel on it with a length, replies also
  with the time at which the client read them.  The events are the iterations of the reader of the port, of
  \<open>handleUDPLoop\<close> and of the two directions of a connection, and the critical section at its end.  A send on a closed
  channel and a second close are panics, the value \<^const>\<open>None\<close>.  Times are milliseconds.
\<close>

section \<open>Frames\<close>

definition BufferSize :: nat where "BufferSize = 16384"

text \<open>What the server writes for one datagram, and what the client reads.\<close>

definition dgram_frame :: "bytes \<Rightarrow> bytes" where
  "dgram_frame d = be16 (len16 d) @ d"

datatype frame_error = FrameEnd io_error | FrameTooBig

definition read_dgram :: "bytes \<Rightarrow> frame_error + (bytes \<times> bytes)" where
  "read_dgram s =
     (case read_full 2 s of
        Inl e \<Rightarrow> Inl (FrameEnd e)
      | Inr (lenBuf, s1) \<Rightarrow>
          (let packetSize = unat (u16_at lenBuf 0) in
           if packetSize > BufferSize then Inl FrameTooBig
           else case read_full packetSize s1 of Inl e \<Rightarrow> Inl (FrameEnd e) | Inr r \<Rightarrow> Inr r))"

definition tenMinutes :: int where "tenMinutes = 10 * 60 * 1000"

definition lastMillis :: "int \<Rightarrow> int" where
  "lastMillis timestamp = timestamp mod tenMinutes"

text \<open>A reply with its time: the client's \<open>udpToTCP\<close> and the server's \<open>tcpToUDP\<close>.\<close>

definition reply_frame :: "32 word \<times> bytes \<Rightarrow> bytes" where
  "reply_frame r = be32 (fst r) @ be16 (len16 (snd r)) @ snd r"

definition read_reply :: "bytes \<Rightarrow> frame_error + ((32 word \<times> bytes) \<times> bytes)" where
  "read_reply s =
     (case read_full 4 s of
        Inl e \<Rightarrow> Inl (FrameEnd e)
      | Inr (ts, s1) \<Rightarrow>
          (case read_dgram s1 of Inl e \<Rightarrow> Inl e | Inr (d, rest) \<Rightarrow> Inr ((u32_at ts 0, d), rest)))"

definition client_reply :: "int \<Rightarrow> bytes \<Rightarrow> bytes" where
  "client_reply timestamp d = reply_frame (word_of_int (lastMillis timestamp), take (BufferSize - 6) d)"

definition packetAge :: "int \<Rightarrow> 32 word \<Rightarrow> int" where
  "packetAge timestamp packetTimestamp = lastMillis timestamp - uint packetTimestamp"

section \<open>The server\<close>

datatype accept_phase = Waiting | Taken | NeverQueued | Forwarding bool bool | Finished

text \<open>\<open>ac_in\<close> is ghost: the datagrams put into the queue.\<close>

record LocalAcceptUDPConn =
  ac_clientAddr :: string
  ac_payload :: "bytes list"
  ac_closed :: bool
  ac_IsCongested :: bool
  ac_phase :: accept_phase
  ac_in :: "bytes list"
  ac_up :: bytes
  ac_down :: "bytes list"

record accept_server =
  ac_conns :: "nat \<Rightarrow> LocalAcceptUDPConn"
  ac_next :: nat
  ac_active :: "string \<Rightarrow> nat option"
  ac_udpChan :: "nat list"
  ac_held :: "nat option"
  ac_req :: nat

abbreviation upd_conn :: "nat \<Rightarrow> (LocalAcceptUDPConn \<Rightarrow> LocalAcceptUDPConn) \<Rightarrow> accept_server \<Rightarrow> accept_server" where
  "upd_conn i h s \<equiv> s\<lparr>ac_conns := (ac_conns s)(i := h (ac_conns s i))\<rparr>"

definition new_conn :: "nat \<Rightarrow> string \<Rightarrow> bytes \<Rightarrow> accept_server \<Rightarrow> accept_server" where
  "new_conn cap addr d s =
     (let i = ac_next s;
          full = cap \<le> length (ac_udpChan s);
          c = \<lparr>ac_clientAddr = addr, ac_payload = (if full then [] else [d]), ac_closed = False, ac_IsCongested = False,
               ac_phase = (if full then NeverQueued else Waiting), ac_in = (if full then [] else [d]), ac_up = [], ac_down = []\<rparr>;
          s1 = s\<lparr>ac_conns := (ac_conns s)(i := c), ac_next := Suc i, ac_active := (ac_active s)(addr \<mapsto> i)\<rparr> in
      if full then s1
      else s1\<lparr>ac_udpChan := ac_udpChan s @ [i], ac_req := (if ac_req s < cap then Suc (ac_req s) else ac_req s)\<rparr>)"

definition udpListener :: "nat \<Rightarrow> string \<Rightarrow> bytes \<Rightarrow> accept_server \<Rightarrow> accept_server option" where
  "udpListener cap addr d s =
     (let d = take (BufferSize - 2) d in
      case ac_active s addr of
        None \<Rightarrow> Some (new_conn cap addr d s)
      | Some i \<Rightarrow>
          if ac_IsCongested (ac_conns s i) then Some (new_conn cap addr d s)
          else if ac_closed (ac_conns s i) then None
          else if length (ac_payload (ac_conns s i)) < payload_cap
               then Some (upd_conn i (\<lambda>c. c\<lparr>ac_payload := ac_payload c @ [d], ac_in := ac_in c @ [d]\<rparr>) s)
               else Some s)"

definition handleUDPLoop_take :: "accept_server \<Rightarrow> accept_server" where
  "handleUDPLoop_take s =
     (case (ac_held s, ac_udpChan s) of
        (None, i # q) \<Rightarrow> (upd_conn i (\<lambda>c. c\<lparr>ac_phase := Taken\<rparr>) s)\<lparr>ac_udpChan := q, ac_held := Some i\<rparr>
      | _ \<Rightarrow> s)"

text \<open>A tunnel connection is at hand; a failed write of the target costs the connection only, the visitor waits for the next.\<close>

definition handleUDPLoop_pair :: "bool \<Rightarrow> accept_server \<Rightarrow> accept_server" where
  "handleUDPLoop_pair ok s =
     (case ac_held s of
        Some i \<Rightarrow> if ok then (upd_conn i (\<lambda>c. c\<lparr>ac_phase := Forwarding False False\<rparr>) s)\<lparr>ac_held := None\<rparr> else s
      | None \<Rightarrow> s)"

text \<open>One datagram of \<open>udpToTCP\<close>: the write succeeds or ends the direction.\<close>

definition accept_udpToTCP :: "nat \<Rightarrow> bool \<Rightarrow> accept_server \<Rightarrow> accept_server" where
  "accept_udpToTCP i ok s =
     (case (ac_phase (ac_conns s i), ac_payload (ac_conns s i)) of
        (Forwarding False down, d # q) \<Rightarrow>
          if ok then upd_conn i (\<lambda>c. c\<lparr>ac_payload := q, ac_up := ac_up c @ dgram_frame d\<rparr>) s
          else upd_conn i (\<lambda>c. c\<lparr>ac_payload := q, ac_phase := Forwarding True down\<rparr>) s
      | _ \<Rightarrow> s)"

text \<open>One frame of \<open>tcpToUDP\<close>.\<close>

definition accept_tcpToUDP :: "int \<Rightarrow> nat \<Rightarrow> int \<Rightarrow> 32 word \<times> bytes \<Rightarrow> accept_server \<Rightarrow> accept_server" where
  "accept_tcpToUDP rtt i now r s =
     (case ac_phase (ac_conns s i) of
        Forwarding up False \<Rightarrow>
          (let rtt = (if rtt = 0 then 100 else rtt) in
           upd_conn i (\<lambda>c. c\<lparr>ac_IsCongested := (packetAge now (fst r) > 3 * rtt \<or> ac_IsCongested c),
             ac_down := write_dgram (snd r) (ac_down c)\<rparr>) s)
      | _ \<Rightarrow> s)"

text \<open>A minute of silence or the end of the tunnel connection ends a direction, and each end closes the connection for the
  other.\<close>

definition accept_end :: "bool \<Rightarrow> nat \<Rightarrow> accept_server \<Rightarrow> accept_server" where
  "accept_end up_ends i s =
     (case ac_phase (ac_conns s i) of
        Forwarding up down \<Rightarrow> upd_conn i (\<lambda>c. c\<lparr>ac_phase := Forwarding (up \<or> up_ends) (down \<or> \<not> up_ends)\<rparr>) s
      | _ \<Rightarrow> s)"

definition UDPConnectionHandler_done :: "nat \<Rightarrow> accept_server \<Rightarrow> accept_server option" where
  "UDPConnectionHandler_done i s =
     (case ac_phase (ac_conns s i) of
        Forwarding True True \<Rightarrow>
          if ac_closed (ac_conns s i) then None
          else Some ((upd_conn i (\<lambda>c. c\<lparr>ac_closed := True, ac_phase := Finished\<rparr>) s)
            \<lparr>ac_active := (if ac_IsCongested (ac_conns s i) then ac_active s
                            else (ac_active s)(ac_clientAddr (ac_conns s i) := None))\<rparr>)
      | _ \<Rightarrow> Some s)"

datatype accept_event =
    AcDgram string bytes | AcTake | AcPair bool | AcRequest | AcUp nat bool | AcReply nat int "32 word \<times> bytes"
  | AcEnd bool nat | AcDone nat

definition accept_next :: "nat \<Rightarrow> int \<Rightarrow> accept_event \<Rightarrow> accept_server \<Rightarrow> accept_server option" where
  "accept_next cap rtt e s =
     (case e of
        AcDgram addr d \<Rightarrow> udpListener cap addr d s
      | AcTake \<Rightarrow> Some (handleUDPLoop_take s)
      | AcPair ok \<Rightarrow> Some (handleUDPLoop_pair ok s)
      | AcRequest \<Rightarrow> Some (s\<lparr>ac_req := ac_req s - 1\<rparr>)
      | AcUp i ok \<Rightarrow> Some (accept_udpToTCP i ok s)
      | AcReply i now r \<Rightarrow> Some (accept_tcpToUDP rtt i now r s)
      | AcEnd up i \<Rightarrow> Some (accept_end up i s)
      | AcDone i \<Rightarrow> UDPConnectionHandler_done i s)"

definition accept_start :: accept_server where
  "accept_start = \<lparr>ac_conns = (\<lambda>_. \<lparr>ac_clientAddr = [], ac_payload = [], ac_closed = False, ac_IsCongested = False,
     ac_phase = NeverQueued, ac_in = [], ac_up = [], ac_down = []\<rparr>), ac_next = 0, ac_active = (\<lambda>_. None), ac_udpChan = [], ac_held = None, ac_req = 0\<rparr>"

section \<open>The client\<close>

text \<open>\<open>UDPDialer\<close>: what is dialled must split into host and port; \<open>lookup\<close> and \<open>dials\<close> are the resolver and the kernel.\<close>

definition UDPDialer :: "(string \<Rightarrow> bool) \<Rightarrow> (string \<Rightarrow> bool) \<Rightarrow> string \<Rightarrow> bool" where
  "UDPDialer lookup dials remoteAddr =
     (case SplitHostPort remoteAddr of None \<Rightarrow> False | Some (h, p) \<Rightarrow> lookup remoteAddr \<and> dials remoteAddr)"

lemma read_dgram_shorter: "read_dgram s = Inr (d, rest) \<Longrightarrow> length rest < length s"
  by (auto simp: read_dgram_def read_full_def Let_def split: if_splits sum.splits)

lemma read_reply_shorter: "read_reply s = Inr (r, rest) \<Longrightarrow> length rest < length s"
  by (auto simp: read_reply_def read_full_def split: if_splits sum.splits dest!: read_dgram_shorter)

text \<open>The client's \<open>tcpToUDP\<close> on the bytes of the connection.\<close>

function client_tcpToUDP :: "bytes \<Rightarrow> bytes list" where
  "client_tcpToUDP s = (case read_dgram s of Inl _ \<Rightarrow> [] | Inr (d, rest) \<Rightarrow> write_dgram d [] @ client_tcpToUDP rest)"
  by pat_completeness auto

termination
  by (relation "measure length") (auto dest: read_dgram_shorter)

declare client_tcpToUDP.simps [simp del]

text \<open>The server's \<open>tcpToUDP\<close> on the bytes of the connection: the frames it handles.\<close>

function read_replies :: "bytes \<Rightarrow> (32 word \<times> bytes) list" where
  "read_replies s = (case read_reply s of Inl _ \<Rightarrow> [] | Inr (r, rest) \<Rightarrow> r # read_replies rest)"
  by pat_completeness auto

termination
  by (relation "measure length") (auto dest: read_reply_shorter)

declare read_replies.simps [simp del]

section \<open>Frames are read back\<close>

lemma read_dgram_frame: "length d \<le> BufferSize \<Longrightarrow> read_dgram (dgram_frame d @ rest) = Inr (d, rest)"
  by (simp add: read_dgram_def dgram_frame_def BufferSize_def)

lemma read_dgram_cut:
  assumes "length d \<le> BufferSize" "k < length (dgram_frame d)"
  shows "\<exists>e. read_dgram (take k (dgram_frame d)) = Inl e"
proof (cases "k < 2")
  case True
  then show ?thesis by (simp add: read_dgram_def read_full_def dgram_frame_def)
next
  case False
  then have "take k (dgram_frame d) = be16 (len16 d) @ take (k - 2) d" by (simp add: dgram_frame_def)
  moreover have "k - 2 < length d" using assms(2) False by (simp add: dgram_frame_def)
  ultimately show ?thesis using assms(1) by (simp add: read_dgram_def BufferSize_def read_full_def)
qed

interpretation dgram: codec dgram_frame read_dgram "\<lambda>d. length d \<le> BufferSize"
  by unfold_locales (auto intro: read_dgram_frame read_dgram_cut)

interpretation reply: codec reply_frame read_reply "\<lambda>r. length (snd r) \<le> BufferSize"
proof unfold_locales
  fix r :: "32 word \<times> bytes" and rest :: bytes assume v: "length (snd r) \<le> BufferSize"
  have f: "reply_frame r = be32 (fst r) @ dgram_frame (snd r)" by (simp add: reply_frame_def dgram_frame_def)
  have u: "u32_at (be32 (fst r)) 0 = fst r" using u32_at_be32 [of "fst r" "[]"] by simp
  show "read_reply (reply_frame r @ rest) = Inr (r, rest)" using dgram.dec_enc [OF v] by (simp add: read_reply_def f u)
  fix k assume k: "k < length (reply_frame r)"
  show "\<exists>e. read_reply (take k (reply_frame r)) = Inl e"
  proof (cases "k < 4")
    case True
    then show ?thesis by (simp add: read_reply_def read_full_def f)
  next
    case False
    then have "take k (reply_frame r) = be32 (fst r) @ take (k - 4) (dgram_frame (snd r))" by (simp add: f)
    moreover have "k - 4 < length (dgram_frame (snd r))" using k False by (simp add: f)
    then obtain e where "read_dgram (take (k - 4) (dgram_frame (snd r))) = Inl e" using dgram.dec_trunc [OF v] by blast
    ultimately show ?thesis by (simp add: read_reply_def)
  qed
qed

lemma client_tcpToUDP_frames:
  "\<forall>d \<in> set ds. length d \<le> BufferSize \<Longrightarrow> client_tcpToUDP (concat (map dgram_frame ds)) = no_empty ds"
proof (induction ds)
  case Nil
  show ?case by (subst client_tcpToUDP.simps) (simp add: read_dgram_def read_full_def no_empty_def)
next
  case (Cons d ds)
  then show ?case using dgram.dec_enc [of d] by (subst client_tcpToUDP.simps) (simp add: write_dgram_def no_empty_def)
qed

lemma read_replies_frames:
  "\<forall>r \<in> set rs. length (snd r) \<le> BufferSize \<Longrightarrow> read_replies (concat (map reply_frame rs)) = rs"
proof (induction rs)
  case Nil
  show ?case by (subst read_replies.simps) (simp add: read_reply_def read_full_def)
next
  case (Cons r rs)
  then show ?case using reply.dec_enc [of r] by (subst read_replies.simps) simp
qed

section \<open>Congestion\<close>

lemma lastMillis_range: "0 \<le> lastMillis t \<and> lastMillis t < 600000"
  by (simp add: lastMillis_def tenMinutes_def)

lemma uint_lastMillis [simp]: "uint (word_of_int (lastMillis t) :: 32 word) = lastMillis t"
  using lastMillis_range [of t] by (intro word_of_int_inverse) auto

text \<open>With both clocks right, a reply that was on the way for at most three round trips is never taken for congestion.\<close>

lemma prompt_reply_not_congested:
  assumes "0 \<le> delay" "delay \<le> 3 * rtt"
  shows "\<not> packetAge (t + delay) (word_of_int (lastMillis t)) > 3 * rtt"
proof -
  have "t + delay = lastMillis t + delay + tenMinutes * (t div tenMinutes)" by (simp add: lastMillis_def)
  then have "lastMillis (t + delay) = (lastMillis t + delay) mod tenMinutes" by (metis lastMillis_def mod_mult_self2)
  also have "\<dots> \<le> lastMillis t + delay" using lastMillis_range [of t] assms(1) by (intro zmod_le_nonneg_dividend) simp
  finally show ?thesis using assms(2) by (simp add: packetAge_def)
qed

text \<open>The age compares the clocks of two machines: with the client's clock slow by more than three round trips, a reply that
  took no time at all looks late.\<close>

lemma slow_clock_looks_late:
  assumes "3 * rtt < skew" "skew \<le> lastMillis now"
  shows "packetAge now (word_of_int (lastMillis (now - skew))) > 3 * rtt"
proof -
  have "now - skew = (lastMillis now - skew) + tenMinutes * (now div tenMinutes)" by (simp add: lastMillis_def)
  then have "lastMillis (now - skew) = (lastMillis now - skew) mod tenMinutes" by (metis lastMillis_def mod_mult_self2)
  also have "\<dots> \<le> lastMillis now - skew" using assms(2) by (intro zmod_le_nonneg_dividend) simp
  finally show ?thesis using assms(1) by (simp add: packetAge_def)
qed


section \<open>What every reachable state satisfies\<close>

fun ac_running :: "accept_phase \<Rightarrow> bool" where
  "ac_running Waiting = True" | "ac_running Taken = True" | "ac_running (Forwarding _ _) = True" | "ac_running _ = False"

fun ac_up_runs :: "accept_phase \<Rightarrow> bool" where
  "ac_up_runs (Forwarding up _) = (\<not> up)" | "ac_up_runs Finished = False" | "ac_up_runs _ = True"

definition ac_conn_ok :: "accept_server \<Rightarrow> nat \<Rightarrow> bool" where
  "ac_conn_ok s i =
     (let c = ac_conns s i in
      (ac_running (ac_phase c) \<longrightarrow> \<not> ac_closed c \<and> (ac_IsCongested c \<or> ac_active s (ac_clientAddr c) = Some i)) \<and>
      (ac_phase c = NeverQueued \<longrightarrow> \<not> ac_closed c \<and> \<not> ac_IsCongested c) \<and>
      (ac_active s (ac_clientAddr c) = Some i \<longrightarrow> ac_phase c = Finished \<longrightarrow> ac_IsCongested c) \<and>
      (\<forall>d \<in> set (ac_in c). length d \<le> BufferSize) \<and>
      (\<exists>done rest. ac_in c = done @ rest \<and> ac_up c = concat (map dgram_frame done) \<and>
         (ac_up_runs (ac_phase c) \<longrightarrow> rest = ac_payload c)))"

definition accept_ok :: "accept_server \<Rightarrow> bool" where
  "accept_ok s =
     ((\<forall>i < ac_next s. ac_conn_ok s i) \<and> (\<forall>i \<ge> ac_next s. ac_phase (ac_conns s i) = NeverQueued) \<and>
      (\<forall>a i. ac_active s a = Some i \<longrightarrow> i < ac_next s \<and> ac_clientAddr (ac_conns s i) = a) \<and>
      distinct (ac_udpChan s) \<and> (\<forall>i \<in> set (ac_udpChan s). i < ac_next s \<and> ac_phase (ac_conns s i) = Waiting) \<and>
      (\<forall>i. ac_held s = Some i \<longrightarrow> i < ac_next s \<and> ac_phase (ac_conns s i) = Taken))"

lemma accept_okD:
  assumes "accept_ok s"
  shows "i < ac_next s \<Longrightarrow> ac_conn_ok s i" "ac_next s \<le> i \<Longrightarrow> ac_phase (ac_conns s i) = NeverQueued"
    "ac_active s a = Some i \<Longrightarrow> i < ac_next s \<and> ac_clientAddr (ac_conns s i) = a"
    "distinct (ac_udpChan s)" "i \<in> set (ac_udpChan s) \<Longrightarrow> i < ac_next s \<and> ac_phase (ac_conns s i) = Waiting"
    "ac_held s = Some i \<Longrightarrow> i < ac_next s \<and> ac_phase (ac_conns s i) = Taken"
  using assms unfolding accept_ok_def by auto

lemma accept_okI:
  assumes "\<And>i. i < ac_next s \<Longrightarrow> ac_conn_ok s i" "\<And>i. ac_next s \<le> i \<Longrightarrow> ac_phase (ac_conns s i) = NeverQueued"
    "\<And>a i. ac_active s a = Some i \<Longrightarrow> i < ac_next s \<and> ac_clientAddr (ac_conns s i) = a"
    "distinct (ac_udpChan s)" "\<And>i. i \<in> set (ac_udpChan s) \<Longrightarrow> i < ac_next s \<and> ac_phase (ac_conns s i) = Waiting"
    "\<And>i. ac_held s = Some i \<Longrightarrow> i < ac_next s \<and> ac_phase (ac_conns s i) = Taken"
  shows "accept_ok s"
  using assms unfolding accept_ok_def by blast

text \<open>A change to one connection: the address stays, and what the queues rely on.\<close>

lemma upd_conn_ok:
  assumes ok: "accept_ok s" and i: "i < ac_next s" and addr: "ac_clientAddr c = ac_clientAddr (ac_conns s i)"
    and chan: "i \<in> set (ac_udpChan s) \<Longrightarrow> ac_phase c = Waiting" and held: "ac_held s = Some i \<Longrightarrow> ac_phase c = Taken"
    and new: "ac_conn_ok (s\<lparr>ac_conns := (ac_conns s)(i := c)\<rparr>) i"
  shows "accept_ok (s\<lparr>ac_conns := (ac_conns s)(i := c)\<rparr>)" (is "accept_ok ?s")
proof (rule accept_okI)
  show "ac_conn_ok ?s j" if "j < ac_next ?s" for j
    using accept_okD(1) [OF ok, of j] that new by (cases "j = i") (simp_all add: ac_conn_ok_def Let_def)
  show "ac_phase (ac_conns ?s j) = NeverQueued" if "ac_next ?s \<le> j" for j using accept_okD(2) [OF ok] that i by simp
  show "j < ac_next ?s \<and> ac_clientAddr (ac_conns ?s j) = a" if "ac_active ?s a = Some j" for a j
    using accept_okD(3) [OF ok, of a j] that addr by auto
  show "distinct (ac_udpChan ?s)" using accept_okD(4) [OF ok] by simp
  show "j < ac_next ?s \<and> ac_phase (ac_conns ?s j) = Waiting" if "j \<in> set (ac_udpChan ?s)" for j
    using accept_okD(5) [OF ok, of j] that chan by auto
  show "j < ac_next ?s \<and> ac_phase (ac_conns ?s j) = Taken" if "ac_held ?s = Some j" for j
    using accept_okD(6) [OF ok, of j] that held by auto
qed

lemma conn_cases:
  assumes "accept_ok s" "ac_phase (ac_conns s i) \<noteq> NeverQueued"
  shows "i < ac_next s"
  using accept_okD(2) [OF assms(1), of i] assms(2) by (meson not_le)

lemma not_queued:
  assumes ok: "accept_ok s" and ph: "ac_phase (ac_conns s i) \<noteq> Waiting" "ac_phase (ac_conns s i) \<noteq> Taken"
  shows "i \<notin> set (ac_udpChan s)" "ac_held s \<noteq> Some i"
  using accept_okD(5,6) [OF ok, of i] ph by auto

lemma new_conn_ok:
  assumes ok: "accept_ok s" and free: "\<And>i. ac_active s addr = Some i \<Longrightarrow> ac_IsCongested (ac_conns s i)" and d: "length d \<le> BufferSize"
  shows "accept_ok (new_conn cap addr d s)" (is "accept_ok ?s")
proof (rule accept_okI)
  let ?n = "ac_next s"
  have keep: "ac_conns ?s j = ac_conns s j" if "j \<noteq> ?n" for j using that by (simp add: new_conn_def Let_def)
  have nxt: "ac_next ?s = Suc ?n" by (simp add: new_conn_def Let_def)
  have act: "ac_active ?s = (ac_active s)(addr \<mapsto> ?n)" by (simp add: new_conn_def Let_def)
  have chan: "set (ac_udpChan ?s) \<subseteq> insert ?n (set (ac_udpChan s))" "ac_held ?s = ac_held s"
    and phase: "?n \<in> set (ac_udpChan ?s) \<Longrightarrow> ac_phase (ac_conns ?s ?n) = Waiting"
    using accept_okD(5) [OF ok, of ?n] by (auto simp: new_conn_def Let_def)
  show "ac_conn_ok ?s j" if "j < ac_next ?s" for j
  proof (cases "j = ?n")
    case True
    show ?thesis
    proof (cases "cap \<le> length (ac_udpChan s)")
      case full: True
      then show ?thesis unfolding True by (simp add: ac_conn_ok_def new_conn_def Let_def)
    next
      case room: False
      have "\<exists>done rest. [d] = done @ rest \<and> [] = concat (map dgram_frame done) \<and> rest = [d]" by (intro exI [of _ "[]"] exI [of _ "[d]"]) simp
      then show ?thesis unfolding True using room d by (simp add: ac_conn_ok_def new_conn_def Let_def)
    qed
  next
    case False
    then have j: "j < ?n" using that nxt by simp
    have old: "ac_conn_ok s j" by (rule accept_okD(1) [OF ok j])
    have "ac_IsCongested (ac_conns s j)" if "ac_active s (ac_clientAddr (ac_conns s j)) = Some j" "ac_clientAddr (ac_conns s j) = addr"
      using free that by auto
    then show ?thesis using old j keep [OF False] act by (auto simp: ac_conn_ok_def Let_def)
  qed
  show "ac_phase (ac_conns ?s j) = NeverQueued" if "ac_next ?s \<le> j" for j
    using accept_okD(2) [OF ok, of j] that nxt keep [of j] by simp
  show "j < ac_next ?s \<and> ac_clientAddr (ac_conns ?s j) = a" if "ac_active ?s a = Some j" for a j
  proof (cases "a = addr")
    case True
    then have "j = ?n" using that act by simp
    then show ?thesis using True nxt by (simp add: new_conn_def Let_def)
  next
    case False
    then have "ac_active s a = Some j" using that act by simp
    then have "j < ?n" "ac_clientAddr (ac_conns s j) = a" using accept_okD(3) [OF ok] by blast+
    then show ?thesis using keep [of j] nxt by simp
  qed
  show "distinct (ac_udpChan ?s)" using accept_okD(4) [OF ok] accept_okD(5) [OF ok, of ?n] by (auto simp: new_conn_def Let_def)
  show "j < ac_next ?s \<and> ac_phase (ac_conns ?s j) = Waiting" if "j \<in> set (ac_udpChan ?s)" for j
    using chan that phase accept_okD(5) [OF ok, of j] keep [of j] nxt by (cases "j = ?n") auto
  show "j < ac_next ?s \<and> ac_phase (ac_conns ?s j) = Taken" if "ac_held ?s = Some j" for j
    using chan(2) that accept_okD(6) [OF ok, of j] keep [of j] nxt by auto
qed


lemma udpListener_ok:
  assumes ok: "accept_ok s"
  shows "\<exists>s'. udpListener cap addr d s = Some s' \<and> accept_ok s'"
proof -
  let ?d = "take (BufferSize - 2) d"
  have d: "length ?d \<le> BufferSize" by simp
  show ?thesis
  proof (cases "\<exists>i. ac_active s addr = Some i \<and> \<not> ac_IsCongested (ac_conns s i)")
    case True
    then obtain i where a: "ac_active s addr = Some i" and c: "\<not> ac_IsCongested (ac_conns s i)" by blast
    have i: "i < ac_next s" "ac_clientAddr (ac_conns s i) = addr" using accept_okD(3) [OF ok a] by auto
    note cok = accept_okD(1) [OF ok i(1)]
    have open': "\<not> ac_closed (ac_conns s i)" "ac_phase (ac_conns s i) \<noteq> Finished"
      using cok a c i(2) by (cases "ac_phase (ac_conns s i)"; auto simp: ac_conn_ok_def Let_def)+
    obtain sent rest where h: "ac_in (ac_conns s i) = sent @ rest" "ac_up (ac_conns s i) = concat (map dgram_frame sent)"
        "ac_up_runs (ac_phase (ac_conns s i)) \<longrightarrow> rest = ac_payload (ac_conns s i)"
      using cok by (auto simp: ac_conn_ok_def Let_def)
    let ?s = "upd_conn i (\<lambda>c. c\<lparr>ac_payload := ac_payload c @ [?d], ac_in := ac_in c @ [?d]\<rparr>) s"
    have "\<exists>done rest'. ac_in (ac_conns s i) @ [?d] = done @ rest' \<and> ac_up (ac_conns s i) = concat (map dgram_frame done) \<and>
        (ac_up_runs (ac_phase (ac_conns s i)) \<longrightarrow> rest' = ac_payload (ac_conns s i) @ [?d])"
      using h by (intro exI [of _ sent] exI [of _ "rest @ [?d]"]) auto
    then have "ac_conn_ok ?s i" using cok d by (auto simp: ac_conn_ok_def Let_def)
    then have "accept_ok ?s" using accept_okD(5,6) [OF ok, of i] by (intro upd_conn_ok [OF ok i(1)]) simp_all
    then show ?thesis using a c open' ok by (simp add: udpListener_def Let_def)
  next
    case False
    then show ?thesis using new_conn_ok [OF ok _ d, of addr cap] by (auto simp: udpListener_def Let_def split: option.splits)
  qed
qed

lemma handleUDPLoop_take_ok:
  assumes ok: "accept_ok s"
  shows "accept_ok (handleUDPLoop_take s)"
proof (cases "ac_held s = None \<and> ac_udpChan s \<noteq> []")
  case True
  then obtain i q where q: "ac_held s = None" "ac_udpChan s = i # q" by (cases "ac_udpChan s") auto
  have i: "i < ac_next s" "ac_phase (ac_conns s i) = Waiting" "i \<notin> set q" using accept_okD(4) [OF ok] accept_okD(5) [OF ok, of i] q(2) by auto
  let ?c = "(ac_conns s i)\<lparr>ac_phase := Taken\<rparr>"
  let ?s = "s\<lparr>ac_conns := (ac_conns s)(i := ?c), ac_udpChan := q, ac_held := Some i\<rparr>"
  have "accept_ok ?s"
  proof (rule accept_okI)
    show "ac_conn_ok ?s j" if "j < ac_next ?s" for j
      using accept_okD(1) [OF ok, of j] that i by (cases "j = i") (simp_all add: ac_conn_ok_def Let_def)
    show "ac_phase (ac_conns ?s j) = NeverQueued" if "ac_next ?s \<le> j" for j using accept_okD(2) [OF ok] that i by simp
    show "j < ac_next ?s \<and> ac_clientAddr (ac_conns ?s j) = a" if "ac_active ?s a = Some j" for a j
      using accept_okD(3) [OF ok, of a j] that by auto
    show "distinct (ac_udpChan ?s)" using accept_okD(4) [OF ok] q(2) by simp
    show "j < ac_next ?s \<and> ac_phase (ac_conns ?s j) = Waiting" if "j \<in> set (ac_udpChan ?s)" for j
      using accept_okD(5) [OF ok, of j] that i q(2) by auto
    show "j < ac_next ?s \<and> ac_phase (ac_conns ?s j) = Taken" if "ac_held ?s = Some j" for j using that i by simp
  qed
  then show ?thesis using q by (simp add: handleUDPLoop_take_def)
qed (use ok in \<open>auto simp: handleUDPLoop_take_def split: option.splits list.splits\<close>)

lemma handleUDPLoop_pair_ok:
  assumes ok: "accept_ok s"
  shows "accept_ok (handleUDPLoop_pair wr s)"
proof (cases "ac_held s")
  case (Some i)
  have i: "i < ac_next s" "ac_phase (ac_conns s i) = Taken" using accept_okD(6) [OF ok Some] by auto
  let ?s = "s\<lparr>ac_conns := (ac_conns s)(i := (ac_conns s i)\<lparr>ac_phase := Forwarding False False\<rparr>), ac_held := None\<rparr>"
  have "accept_ok ?s"
  proof (rule accept_okI)
    show "ac_conn_ok ?s j" if "j < ac_next ?s" for j
      using accept_okD(1) [OF ok, of j] that i by (cases "j = i") (simp_all add: ac_conn_ok_def Let_def)
    show "ac_phase (ac_conns ?s j) = NeverQueued" if "ac_next ?s \<le> j" for j using accept_okD(2) [OF ok] that i by simp
    show "j < ac_next ?s \<and> ac_clientAddr (ac_conns ?s j) = a" if "ac_active ?s a = Some j" for a j
      using accept_okD(3) [OF ok, of a j] that by auto
    show "distinct (ac_udpChan ?s)" using accept_okD(4) [OF ok] by simp
    show "j < ac_next ?s \<and> ac_phase (ac_conns ?s j) = Waiting" if "j \<in> set (ac_udpChan ?s)" for j
      using accept_okD(5) [OF ok, of j] that i by auto
  qed simp
  then show ?thesis using Some ok by (simp add: handleUDPLoop_pair_def)
qed (use ok in \<open>simp add: handleUDPLoop_pair_def\<close>)

lemma forwarding_facts:
  assumes ok: "accept_ok s" and ph: "ac_phase (ac_conns s i) = Forwarding up down"
  shows "i < ac_next s" "ac_conn_ok s i" "i \<notin> set (ac_udpChan s)" "ac_held s \<noteq> Some i"
  using conn_cases [OF ok, of i] not_queued [OF ok, of i] accept_okD(1) [OF ok, of i] ph by auto

lemma upd_forwarding_ok:
  assumes ok: "accept_ok s" and ph: "ac_phase (ac_conns s i) = Forwarding up down"
    and new: "ac_conn_ok (s\<lparr>ac_conns := (ac_conns s)(i := c)\<rparr>) i" and addr: "ac_clientAddr c = ac_clientAddr (ac_conns s i)"
  shows "accept_ok (s\<lparr>ac_conns := (ac_conns s)(i := c)\<rparr>)"
  by (rule upd_conn_ok [OF ok forwarding_facts(1) [OF ok ph] addr _ _ new]) (use forwarding_facts [OF ok ph] in auto)

lemma accept_udpToTCP_ok:
  assumes ok: "accept_ok s"
  shows "accept_ok (accept_udpToTCP i wr s)"
proof (cases "\<exists>down d q. ac_phase (ac_conns s i) = Forwarding False down \<and> ac_payload (ac_conns s i) = d # q")
  case True
  then obtain down d q where ph: "ac_phase (ac_conns s i) = Forwarding False down" and p: "ac_payload (ac_conns s i) = d # q" by blast
  note i = forwarding_facts [OF ok ph]
  obtain sent where h: "ac_in (ac_conns s i) = sent @ d # q" "ac_up (ac_conns s i) = concat (map dgram_frame sent)"
    using i(2) ph p by (auto simp: ac_conn_ok_def Let_def)
  let ?a = "upd_conn i (\<lambda>c. c\<lparr>ac_payload := q, ac_up := ac_up c @ dgram_frame d\<rparr>) s"
  let ?b = "upd_conn i (\<lambda>c. c\<lparr>ac_payload := q, ac_phase := Forwarding True down\<rparr>) s"
  have "\<exists>done rest. sent @ d # q = done @ rest \<and> ac_up (ac_conns s i) @ dgram_frame d = concat (map dgram_frame done) \<and> rest = q"
    using h by (intro exI [of _ "sent @ [d]"] exI [of _ q]) simp
  then have "ac_conn_ok ?a i" using i(2) ph h(1) by (simp add: ac_conn_ok_def Let_def)
  then have "accept_ok ?a" by (rule upd_forwarding_ok [OF ok ph]) simp
  moreover have "ac_conn_ok ?b i" using i(2) ph h by (auto simp: ac_conn_ok_def Let_def)
  then have "accept_ok ?b" by (rule upd_forwarding_ok [OF ok ph]) simp
  ultimately show ?thesis using ph p by (simp add: accept_udpToTCP_def)
qed (use ok in \<open>auto simp: accept_udpToTCP_def split: accept_phase.splits list.splits bool.splits\<close>)

lemma accept_tcpToUDP_ok:
  assumes ok: "accept_ok s"
  shows "accept_ok (accept_tcpToUDP rtt i now r s)"
proof (cases "\<exists>up. ac_phase (ac_conns s i) = Forwarding up False")
  case True
  then obtain up where ph: "ac_phase (ac_conns s i) = Forwarding up False" by blast
  note i = forwarding_facts [OF ok ph]
  let ?s = "accept_tcpToUDP rtt i now r s"
  have "ac_conn_ok ?s i" using i(2) ph by (auto simp: accept_tcpToUDP_def ac_conn_ok_def Let_def)
  then show ?thesis unfolding accept_tcpToUDP_def ph Let_def accept_phase.case bool.case
    by (rule upd_forwarding_ok [OF ok ph]) simp
qed (use ok in \<open>auto simp: accept_tcpToUDP_def split: accept_phase.splits bool.splits\<close>)

lemma accept_end_ok:
  assumes ok: "accept_ok s"
  shows "accept_ok (accept_end b i s)"
proof (cases "\<exists>up down. ac_phase (ac_conns s i) = Forwarding up down")
  case True
  then obtain up down where ph: "ac_phase (ac_conns s i) = Forwarding up down" by blast
  note i = forwarding_facts [OF ok ph]
  have "ac_conn_ok (accept_end b i s) i" using i(2) ph by (auto simp: accept_end_def ac_conn_ok_def Let_def)
  then show ?thesis unfolding accept_end_def ph accept_phase.case by (rule upd_forwarding_ok [OF ok ph]) simp
qed (use ok in \<open>auto simp: accept_end_def split: accept_phase.splits\<close>)

lemma UDPConnectionHandler_done_ok:
  assumes ok: "accept_ok s"
  shows "\<exists>s'. UDPConnectionHandler_done i s = Some s' \<and> accept_ok s'"
proof (cases "ac_phase (ac_conns s i) = Forwarding True True")
  case True
  note i = forwarding_facts [OF ok True]
  have op: "\<not> ac_closed (ac_conns s i)" "ac_IsCongested (ac_conns s i) \<or> ac_active s (ac_clientAddr (ac_conns s i)) = Some i"
    using i(2) True by (auto simp: ac_conn_ok_def Let_def)
  let ?c = "(ac_conns s i)\<lparr>ac_closed := True, ac_phase := Finished\<rparr>"
  let ?act = "if ac_IsCongested (ac_conns s i) then ac_active s else (ac_active s)(ac_clientAddr (ac_conns s i) := None)"
  let ?s = "s\<lparr>ac_conns := (ac_conns s)(i := ?c), ac_active := ?act\<rparr>"
  have sub: "ac_active s a = Some j" if "?act a = Some j" for a j using that by (auto split: if_splits)
  have "accept_ok ?s"
  proof (rule accept_okI)
    show "ac_conn_ok ?s j" if "j < ac_next ?s" for j
    proof (cases "j = i")
      case True
      then show ?thesis using i(2) \<open>ac_phase (ac_conns s i) = Forwarding True True\<close> by (auto simp: ac_conn_ok_def Let_def)
    next
      case False
      have eq: "(ac_active ?s (ac_clientAddr (ac_conns s j)) = Some j) = (ac_active s (ac_clientAddr (ac_conns s j)) = Some j)"
        using op(2) False by auto
      have cj: "ac_conns ?s j = ac_conns s j" using False by simp
      have "ac_conn_ok s j" using accept_okD(1) [OF ok, of j] \<open>j < ac_next ?s\<close> by simp
      then show ?thesis unfolding ac_conn_ok_def Let_def cj eq .
    qed
    show "ac_phase (ac_conns ?s j) = NeverQueued" if "ac_next ?s \<le> j" for j using accept_okD(2) [OF ok] that i by simp
    show "j < ac_next ?s \<and> ac_clientAddr (ac_conns ?s j) = a" if "ac_active ?s a = Some j" for a j
    proof -
      have "ac_active s a = Some j" by (rule sub) (use that in simp)
      from accept_okD(3) [OF ok this] show ?thesis by (cases "j = i") simp_all
    qed
    show "distinct (ac_udpChan ?s)" using accept_okD(4) [OF ok] by simp
    show "j < ac_next ?s \<and> ac_phase (ac_conns ?s j) = Waiting" if "j \<in> set (ac_udpChan ?s)" for j
      using accept_okD(5) [OF ok, of j] that i by auto
    show "j < ac_next ?s \<and> ac_phase (ac_conns ?s j) = Taken" if "ac_held ?s = Some j" for j
      using accept_okD(6) [OF ok, of j] that i by auto
  qed
  then show ?thesis using True op(1) by (simp add: UDPConnectionHandler_done_def)
qed (use ok in \<open>auto simp: UDPConnectionHandler_done_def split: accept_phase.splits bool.splits\<close>)

lemma accept_request_ok: "accept_ok s \<Longrightarrow> accept_ok (s\<lparr>ac_req := n\<rparr>)"
proof -
  have "ac_conn_ok (s\<lparr>ac_req := n\<rparr>) i = ac_conn_ok s i" for i by (simp add: ac_conn_ok_def)
  then have "accept_ok (s\<lparr>ac_req := n\<rparr>) = accept_ok s" by (simp add: accept_ok_def)
  then show "accept_ok s \<Longrightarrow> accept_ok (s\<lparr>ac_req := n\<rparr>)" by simp
qed

lemmas accept_step_ok = udpListener_ok handleUDPLoop_take_ok handleUDPLoop_pair_ok accept_udpToTCP_ok accept_tcpToUDP_ok accept_end_ok
  UDPConnectionHandler_done_ok accept_request_ok

interpretation accept_run: safe_machine "\<lambda>s. s = accept_start" "accept_next cap rtt" accept_ok for cap rtt
proof unfold_locales
  fix s e assume ok: "accept_ok s"
  show "\<exists>s'. accept_next cap rtt e s = Some s' \<and> accept_ok s'" using accept_step_ok [OF ok] by (cases e) (simp_all add: accept_next_def)
qed (simp add: accept_ok_def accept_start_def)


section \<open>What a visitor sent and what the service gets\<close>

definition ac_sent :: "string \<Rightarrow> accept_event list \<Rightarrow> bytes list" where
  "ac_sent a es = concat (map (\<lambda>e. case e of AcDgram addr d \<Rightarrow> (if addr = a then [take (BufferSize - 2) d] else []) | _ \<Rightarrow> []) es)"

lemma ac_sent_snoc: "ac_sent a (es @ [e]) = ac_sent a es @ ac_sent a [e]"
  by (simp add: ac_sent_def)

lemma new_conn_facts:
  "ac_next (new_conn cap addr d s) = Suc (ac_next s)" "j \<noteq> ac_next s \<Longrightarrow> ac_conns (new_conn cap addr d s) j = ac_conns s j"
  "ac_clientAddr (ac_conns (new_conn cap addr d s) (ac_next s)) = addr"
  "ac_in (ac_conns (new_conn cap addr d s) (ac_next s)) \<in> {[], [d]}"
  by (simp_all add: new_conn_def Let_def)

lemma accept_in_step:
  assumes "accept_next cap rtt e s = Some s'" "accept_ok s" "i < ac_next s'"
  shows "(i < ac_next s \<and> ac_clientAddr (ac_conns s' i) = ac_clientAddr (ac_conns s i) \<and>
      (ac_in (ac_conns s' i) = ac_in (ac_conns s i) \<or>
       ac_in (ac_conns s' i) = ac_in (ac_conns s i) @ ac_sent (ac_clientAddr (ac_conns s i)) [e])) \<or>
    (ac_in (ac_conns s' i) = [] \<or> ac_in (ac_conns s' i) = ac_sent (ac_clientAddr (ac_conns s' i)) [e])"
proof (cases e)
  case (AcDgram addr d)
  let ?d = "take (BufferSize - 2) d"
  have new: ?thesis if "s' = new_conn cap addr ?d s"
    using assms(3) new_conn_facts [where cap = cap and addr = addr and d = ?d and s = s] unfolding that by (cases "i = ac_next s") (auto simp: AcDgram ac_sent_def)
  show ?thesis
  proof (cases "s' = new_conn cap addr ?d s")
    case False
    then obtain j where j: "ac_active s addr = Some j"
        "s' = s \<or> s' = upd_conn j (\<lambda>c. c\<lparr>ac_payload := ac_payload c @ [?d], ac_in := ac_in c @ [?d]\<rparr>) s"
      using assms(1) AcDgram by (auto simp: accept_next_def udpListener_def Let_def split: option.splits if_splits)
    have addr: "ac_clientAddr (ac_conns s j) = addr" using accept_okD(3) [OF assms(2) j(1)] by simp
    have i: "i < ac_next s" using j(2) assms(3) by auto
    have sent: "ac_sent addr [e] = [?d]" by (simp add: AcDgram ac_sent_def)
    show ?thesis
    proof (cases "s' = s \<or> i \<noteq> j")
      case True
      then have "ac_conns s' i = ac_conns s i" using j(2) by auto
      then show ?thesis using i by simp
    next
      case False
      then have "ac_conns s' i = (ac_conns s j)\<lparr>ac_payload := ac_payload (ac_conns s j) @ [?d], ac_in := ac_in (ac_conns s j) @ [?d]\<rparr>"
        using j(2) by simp
      then show ?thesis using i False sent addr by simp
    qed
  qed (use new in blast)
qed (use assms(1,3) in \<open>auto simp: accept_next_def handleUDPLoop_take_def handleUDPLoop_pair_def accept_udpToTCP_def accept_tcpToUDP_def
    accept_end_def UDPConnectionHandler_done_def Let_def split: if_splits option.splits list.splits accept_phase.splits bool.splits\<close>)

lemma accept_queued:
  assumes "run_events (accept_next cap rtt) es accept_start = Some s"
  shows "accept_ok s \<and> (\<forall>i < ac_next s. subseq (ac_in (ac_conns s i)) (ac_sent (ac_clientAddr (ac_conns s i)) es))"
  using assms
proof (induction es arbitrary: s rule: rev_induct)
  case (snoc e es)
  obtain s1 where s1: "run_events (accept_next cap rtt) es accept_start = Some s1" "accept_next cap rtt e s1 = Some s"
    using snoc.prems by (auto simp: run_events_append Option.bind_eq_Some_conv)
  note IH = snoc.IH [OF s1(1)]
  have "subseq (ac_in (ac_conns s i)) (ac_sent (ac_clientAddr (ac_conns s i)) (es @ [e]))" if "i < ac_next s" for i
    using accept_in_step [OF s1(2) _ that] IH by (auto simp: ac_sent_snoc intro: subseq_more)
  moreover have "accept_ok s" using accept_run.safe_next [of s1 cap rtt e] IH s1(2) by auto
  ultimately show ?case by blast
qed (use accept_run.safe_start in \<open>auto simp: accept_start_def\<close>)




section \<open>Visitors that are lost\<close>

lemma never_queued_step:
  assumes ok: "accept_ok s" and i: "i < ac_next s" "ac_phase (ac_conns s i) = NeverQueued" "ac_active s a = Some i"
    and nxt: "accept_next cap rtt e s = Some s'"
  shows "i < ac_next s' \<and> ac_phase (ac_conns s' i) = NeverQueued \<and> ac_active s' a = Some i"
proof -
  have q: "i \<notin> set (ac_udpChan s)" "ac_held s \<noteq> Some i" using not_queued [OF ok, of i] i(2) by auto
  have c: "\<not> ac_IsCongested (ac_conns s i)" using accept_okD(1) [OF ok i(1)] i(2) by (simp add: ac_conn_ok_def Let_def)
  have addr: "ac_clientAddr (ac_conns s i) = a" using accept_okD(3) [OF ok i(3)] by simp
  show ?thesis
  proof (cases e)
    case (AcDgram b d)
    show ?thesis
    proof (cases "b = a")
      case True
      then show ?thesis using nxt AcDgram i c by (auto simp: accept_next_def udpListener_def Let_def split: if_splits)
    next
      case False
      have "ac_active (new_conn cap b x s) a = Some i" for x using False i(3) by (simp add: new_conn_def Let_def)
      moreover have "ac_conns (new_conn cap b x s) i = ac_conns s i" "ac_next (new_conn cap b x s) = Suc (ac_next s)" for x
        using new_conn_facts(1) [of cap b x s] new_conn_facts(2) [of i s cap b x] i(1) by auto
      ultimately show ?thesis using nxt AcDgram i by (auto simp: accept_next_def udpListener_def Let_def split: option.splits if_splits)
    qed
  next
    case AcTake
    then show ?thesis using nxt i q by (auto simp: accept_next_def handleUDPLoop_take_def split: option.splits list.splits)
  next
    case (AcPair wr)
    then show ?thesis using nxt i q by (auto simp: accept_next_def handleUDPLoop_pair_def split: option.splits)
  next
    case (AcUp j wr)
    then show ?thesis using nxt i by (auto simp: accept_next_def accept_udpToTCP_def split: accept_phase.splits list.splits bool.splits)
  next
    case (AcReply j now r)
    then show ?thesis using nxt i by (auto simp: accept_next_def accept_tcpToUDP_def Let_def split: accept_phase.splits bool.splits)
  next
    case (AcEnd b j)
    then show ?thesis using nxt i by (auto simp: accept_next_def accept_end_def split: accept_phase.splits)
  next
    case (AcDone j)
    show ?thesis
    proof (cases "ac_phase (ac_conns s j) = Forwarding True True")
      case True
      have "ac_clientAddr (ac_conns s j) \<noteq> a" if "\<not> ac_IsCongested (ac_conns s j)"
        using forwarding_facts(2) [OF ok True] True that i by (auto simp: ac_conn_ok_def Let_def)
      then show ?thesis using nxt AcDone True i by (auto simp: accept_next_def UDPConnectionHandler_done_def split: if_splits)
    next
      case False
      then show ?thesis using nxt AcDone i
        by (auto simp: accept_next_def UDPConnectionHandler_done_def split: accept_phase.splits bool.splits)
    qed
  qed (use nxt i in \<open>auto simp: accept_next_def\<close>)
qed

text \<open>(C37) A visitor whose first datagram finds the queue of new visitors full is lost: its entry is left in the table, no
  handler will ever read its queue, and whatever happens later its datagrams are put there.  The \<open>udp\<close> transport removes
  the entry in this case.\<close>

theorem full_queue_silences_visitor:
  assumes "run_events (accept_next cap rtt) es accept_start = Some s" "cap \<le> length (ac_udpChan s)" "ac_active s a = None"
  shows "\<exists>s'. run_events (accept_next cap rtt) (AcDgram a d # later) s = Some s' \<and>
    ac_active s' a = Some (ac_next s) \<and> ac_phase (ac_conns s' (ac_next s)) = NeverQueued"
proof -
  let ?s1 = "new_conn cap a (take (BufferSize - 2) d) s" and ?i = "ac_next s"
  have ok: "accept_ok s" using accept_queued [OF assms(1)] by blast
  have first: "accept_next cap rtt (AcDgram a d) s = Some ?s1" using assms(3) by (simp add: accept_next_def udpListener_def)
  have ok1: "accept_ok ?s1" by (rule new_conn_ok [OF ok]) (use assms(3) in auto)
  have i1: "?i < ac_next ?s1 \<and> ac_phase (ac_conns ?s1 ?i) = NeverQueued \<and> ac_active ?s1 a = Some ?i"
    using assms(2) by (simp add: new_conn_def Let_def)
  have "\<exists>s'. run_events (accept_next cap rtt) later ?s1 = Some s' \<and> accept_ok s' \<and>
      ?i < ac_next s' \<and> ac_phase (ac_conns s' ?i) = NeverQueued \<and> ac_active s' a = Some ?i"
  proof (induction later rule: rev_induct)
    case Nil
    then show ?case using ok1 i1 by simp
  next
    case (snoc e later)
    then obtain s2 where s2: "run_events (accept_next cap rtt) later ?s1 = Some s2" "accept_ok s2" "?i < ac_next s2"
        "ac_phase (ac_conns s2 ?i) = NeverQueued" "ac_active s2 a = Some ?i" by blast
    obtain s3 where s3: "accept_next cap rtt e s2 = Some s3" "accept_ok s3" using accept_run.safe_next [OF s2(2)] by blast
    then show ?case using s2 never_queued_step [OF s2(2-5) s3(1)] by (simp add: run_events_append)
  qed
  then show ?thesis using first by auto
qed

theorem full_queue_silences_visitor_witness:
  "\<exists>s s'. run_events (accept_next 1 50) [AcDgram ''u'' [7]] accept_start = Some s \<and>
     run_events (accept_next 1 50) [AcDgram ''v'' [8], AcTake, AcPair True, AcDgram ''v'' [9], AcTake] s = Some s' \<and>
     ac_phase (ac_conns s' (ac_next s)) = NeverQueued \<and> ac_payload (ac_conns s' (ac_next s)) = [[9]]"
proof -
  obtain s where s: "run_events (accept_next 1 50) [AcDgram ''u'' [7]] accept_start = Some s" using accept_run.safe_run [OF refl] by blast
  have f: "1 \<le> length (ac_udpChan s)" "ac_active s ''v'' = None" "ac_next s = 1"
    using s by (auto simp: accept_next_def udpListener_def new_conn_def accept_start_def Let_def)
  obtain s' where s': "run_events (accept_next 1 50) (AcDgram ''v'' [8] # [AcTake, AcPair True, AcDgram ''v'' [9], AcTake]) s = Some s'"
      "ac_phase (ac_conns s' (ac_next s)) = NeverQueued"
    using full_queue_silences_visitor [OF s f(1,2)] by blast
  have "ac_payload (ac_conns s' 1) = [[9]]"
    using s s'(1) by (auto simp: accept_next_def udpListener_def new_conn_def handleUDPLoop_take_def handleUDPLoop_pair_def
        accept_start_def Let_def BufferSize_def payload_cap_def)
  then show ?thesis using s s' f(3) by auto
qed

text \<open>With the client's clock slow by more than three round trips every reply marks its connection as congested, so the
  visitor's next datagram opens another tunnel connection.\<close>

lemma slow_clock_splits_flow:
  assumes ph: "ac_phase (ac_conns s i) = Forwarding up False" and act: "ac_active s a = Some i" and rtt: "rtt \<noteq> 0"
    and slow: "3 * rtt < skew" "skew \<le> lastMillis now"
  shows "udpListener cap a d (accept_tcpToUDP rtt i now (word_of_int (lastMillis (now - skew)), x) s) =
    Some (new_conn cap a (take (BufferSize - 2) d) (accept_tcpToUDP rtt i now (word_of_int (lastMillis (now - skew)), x) s))"
  using slow_clock_looks_late [OF slow] ph act rtt by (simp add: accept_tcpToUDP_def udpListener_def Let_def)

text \<open>A list of backends, which the other transports accept, is no address for \<open>UDPDialer\<close>.\<close>

lemma backend_list_is_dropped:
  "\<not> UDPDialer lookup dials ''127.0.0.1:8443|127.0.0.1:8444''"
  by (simp add: UDPDialer_def SplitHostPort_def)


end
