(* ===== verification/Monitoring.thy ===== *)
theory Monitoring
  imports Complex_Main Go_Strings "HOL-Library.Char_ord" "HOL-Library.List_Lexorder"
begin

text \<open>
  What the monitor service reports: the alert watcher (\<open>internal/telegram/alerts.go\<close>) and its record
  (\<open>internal/alerthist/alerthist.go\<close>), the history of every tunnel (\<open>internal/tunhist/tunhist.go\<close>, with the totals shown by
  \<open>internal/webui/handlers_monitoring.go\<close>) and the traffic counters (\<open>internal/metrics/metrics.go\<close>).

  A reading is a rational number where the source has a float, times are seconds.  A message is a constructor that names
  which text is sent.  A map that is iterated is a list of pairs with distinct keys, in the order of the iteration; files
  that are read and rewritten as a whole are the value they hold.
\<close>

section \<open>Alerts\<close>

record AlertConfig =
  al_Enabled :: bool
  CPUPercent :: int
  MemPercent :: int
  DiskPercent :: int
  al_TunnelDown :: bool
  NewRelease :: bool
  CheckSeconds :: int
  CooldownMinutes :: int

definition clearMargin :: int where "clearMargin = 5"

definition DefaultAlerts :: AlertConfig where
  "DefaultAlerts = \<lparr>al_Enabled = True, CPUPercent = 85, MemPercent = 85, DiskPercent = 90, al_TunnelDown = True, NewRelease = True,
     CheckSeconds = 60, CooldownMinutes = 30\<rparr>"

definition normalise :: "AlertConfig \<Rightarrow> AlertConfig" where
  "normalise a =
     (let a = (if CheckSeconds a \<le> 0 then a\<lparr>CheckSeconds := 60\<rparr> else a) in
      if CooldownMinutes a \<le> 0 then a\<lparr>CooldownMinutes := 30\<rparr> else a)"

record alertState =
  firing :: bool
  lastSent :: int

record watcher =
  states :: "string \<Rightarrow> alertState option"
  tunnelUp :: "(string \<times> bool) list"
  seeded :: bool

definition newWatcher :: watcher where
  "newWatcher = \<lparr>states = (\<lambda>_. None), tunnelUp = [], seeded = False\<rparr>"

datatype alert =
    Above string rat | StillAbove string rat | BackToNormal string rat
  | IsDown string | WentDown string | BackUp string | NoLonger string | Released string

text \<open>The closure \<open>resource\<close> of \<open>checkAt\<close>, on the state of one key.\<close>

definition resource_state :: "string \<Rightarrow> rat \<Rightarrow> int \<Rightarrow> int \<Rightarrow> int \<Rightarrow> alertState \<Rightarrow> alert list \<times> alertState" where
  "resource_state label v threshold cooldown now st =
     (if v \<ge> of_int threshold then
        (if \<not> firing st then ([Above label v], \<lparr>firing = True, lastSent = now\<rparr>)
         else if now - lastSent st \<ge> cooldown then ([StillAbove label v], st\<lparr>lastSent := now\<rparr>)
         else ([], st))
      else if firing st \<and> v < of_int (threshold - clearMargin) then ([BackToNormal label v], st\<lparr>firing := False\<rparr>)
      else ([], st))"

definition zero_state :: alertState where
  "zero_state = \<lparr>firing = False, lastSent = - 62135596800\<rparr>"

definition resource :: "string \<Rightarrow> string \<Rightarrow> rat \<Rightarrow> int \<Rightarrow> int \<Rightarrow> int \<Rightarrow> watcher \<Rightarrow> alert list \<times> watcher" where
  "resource key label v threshold cooldown now w =
     (if threshold \<le> 0 then ([], w)
      else
        (let st = (case states w key of None \<Rightarrow> zero_state | Some st \<Rightarrow> st);
             (msgs, st') = resource_state label v threshold cooldown now st in
         (msgs, w\<lparr>states := (states w)(key \<mapsto> st')\<rparr>)))"

definition tunnel_message :: "(string \<times> bool) list \<Rightarrow> (string \<times> bool) list \<Rightarrow> string \<Rightarrow> alert list" where
  "tunnel_message old now name =
     (let up = (map_of now name = Some True) in
      case map_of old name of
        None \<Rightarrow> if \<not> up then [IsDown name] else []
      | Some was \<Rightarrow> if was \<and> \<not> up then [WentDown name] else if \<not> was \<and> up then [BackUp name] else [])"

definition checkTunnels :: "(string \<times> bool) list \<Rightarrow> watcher \<Rightarrow> alert list \<times> watcher" where
  "checkTunnels now w =
     (if \<not> seeded w then ([], w\<lparr>tunnelUp := now, seeded := True\<rparr>)
      else
        (concat (map (tunnel_message (tunnelUp w) now) (sort (map fst now))) @
         map NoLonger (filter (\<lambda>name. map_of now name = None) (map fst (tunnelUp w))),
         w\<lparr>tunnelUp := now\<rparr>))"

text \<open>\<open>release\<close> is the tag that \<open>releaseMessages\<close> finds unannounced, if any.\<close>

definition checkAt :: "AlertConfig \<Rightarrow> rat \<times> rat \<times> rat \<Rightarrow> (string \<times> bool) list \<Rightarrow> string option \<Rightarrow> int \<Rightarrow> watcher \<Rightarrow> alert list \<times> watcher" where
  "checkAt a s tunnels release now w =
     (let cooldown = CooldownMinutes a * 60;
          (m1, w1) = resource ''cpu'' ''Processor'' (fst s) (CPUPercent a) cooldown now w;
          (m2, w2) = resource ''mem'' ''Memory'' (fst (snd s)) (MemPercent a) cooldown now w1;
          (m3, w3) = resource ''disk'' ''Disk'' (snd (snd s)) (DiskPercent a) cooldown now w2;
          (m4, w4) = (if al_TunnelDown a then checkTunnels tunnels w3 else ([], w3));
          m5 = (if NewRelease a then (case release of None \<Rightarrow> [] | Some tag \<Rightarrow> [Released tag]) else []) in
      (m1 @ m2 @ m3 @ m4 @ m5, w4))"

definition activeConditions :: "(string \<times> bool) list \<Rightarrow> watcher \<Rightarrow> string list" where
  "activeConditions tunnels w =
     map snd (filter (\<lambda>(key, label). case states w key of Some st \<Rightarrow> firing st | None \<Rightarrow> False)
       [(''cpu'', ''Processor above threshold''), (''mem'', ''Memory above threshold''), (''disk'', ''Disk above threshold'')]) @
     map (\<lambda>name. ''Tunnel '' @ name @ '' down'') (filter (\<lambda>name. map_of tunnels name \<noteq> Some True) (sort (map fst tunnels)))"

section \<open>The record of alerts\<close>

definition maxEvents :: nat where "maxEvents = 100"

record 'm hist_state =
  hs_Updated :: "int option"
  hs_Active :: "string list"
  hs_Events :: "(int \<times> 'm) list"

definition keep_last :: "nat \<Rightarrow> 'a list \<Rightarrow> 'a list" where
  "keep_last n xs = (if length xs > n then drop (length xs - n) xs else xs)"

definition alerthist_Record :: "int \<Rightarrow> 'm list \<Rightarrow> string list \<Rightarrow> 'm hist_state \<Rightarrow> 'm hist_state" where
  "alerthist_Record now msgs active st =
     (if msgs = [] \<and> active = hs_Active st \<and> hs_Updated st \<noteq> None then st
      else \<lparr>hs_Updated = Some now, hs_Active = active, hs_Events = keep_last maxEvents (hs_Events st @ map (\<lambda>m. (now, m)) msgs)\<rparr>)"

definition RecordEvent :: "int \<Rightarrow> 'm \<Rightarrow> 'm hist_state \<Rightarrow> 'm hist_state" where
  "RecordEvent now m st = st\<lparr>hs_Events := keep_last maxEvents (hs_Events st @ [(now, m)]), hs_Updated := Some now\<rparr>"

section \<open>Traffic counters\<close>

text \<open>A process has two counters; its collector adds the totals of the last snapshot it found.\<close>

record traffic =
  tr_in :: "64 word"
  tr_out :: "64 word"

record collector =
  baseIn :: "64 word"
  baseOut :: "64 word"

definition AddBytes :: "64 word \<Rightarrow> 64 word \<Rightarrow> traffic \<Rightarrow> traffic" where
  "AddBytes i out t = t\<lparr>tr_in := (if i > 0 then tr_in t + i else tr_in t), tr_out := (if out > 0 then tr_out t + out else tr_out t)\<rparr>"

text \<open>The snapshot file is the pair of totals, if it can be read.\<close>

definition NewCollector :: "(64 word \<times> 64 word) option \<Rightarrow> collector" where
  "NewCollector prev = (case prev of None \<Rightarrow> \<lparr>baseIn = 0, baseOut = 0\<rparr> | Some (i, out) \<Rightarrow> \<lparr>baseIn = i, baseOut = out\<rparr>)"

definition Snapshot :: "collector \<Rightarrow> traffic \<Rightarrow> 64 word \<times> 64 word" where
  "Snapshot c t = (baseIn c + tr_in t, baseOut c + tr_out t)"

datatype process_event = Carry "64 word" "64 word" | WriteSnapshot | ReloadConfig | RestartProcess

record process =
  pr_traffic :: traffic
  pr_collector :: collector
  pr_file :: "(64 word \<times> 64 word) option"

definition start_process :: "(64 word \<times> 64 word) option \<Rightarrow> process" where
  "start_process f =
     (let c = NewCollector f; t = \<lparr>tr_in = 0, tr_out = 0\<rparr> in \<lparr>pr_traffic = t, pr_collector = c, pr_file = Some (Snapshot c t)\<rparr>)"

text \<open>A reload starts the next run with a new collector in the same process; a restart starts a process, with the counters at
  zero.  Both begin with a snapshot.  The last snapshot of the run that ends is a \<open>WriteSnapshot\<close> before them, if it was
  written in time.\<close>

definition process_next :: "process_event \<Rightarrow> process \<Rightarrow> process" where
  "process_next e p =
     (case e of
        Carry i out \<Rightarrow> p\<lparr>pr_traffic := AddBytes i out (pr_traffic p)\<rparr>
      | WriteSnapshot \<Rightarrow> p\<lparr>pr_file := Some (Snapshot (pr_collector p) (pr_traffic p))\<rparr>
      | ReloadConfig \<Rightarrow>
          (let c = NewCollector (pr_file p) in p\<lparr>pr_collector := c, pr_file := Some (Snapshot c (pr_traffic p))\<rparr>)
      | RestartProcess \<Rightarrow> start_process (pr_file p))"

section \<open>History\<close>

definition keepRecent :: nat where "keepRecent = 288"
definition keepHourly :: nat where "keepHourly = 720"

record sample =
  sm_T :: int
  sm_In :: nat
  sm_Out :: nat
  sm_Up :: bool

record hour =
  hr_T :: int
  hr_In :: nat
  hr_Out :: nat
  hr_UpN :: nat
  hr_N :: nat

record history =
  Recent :: "sample list"
  Hourly :: "hour list"

definition hour_start :: "int \<Rightarrow> int" where
  "hour_start now = now div 3600 * 3600"

definition history_Record :: "nat \<Rightarrow> nat \<Rightarrow> bool \<Rightarrow> int \<Rightarrow> history \<Rightarrow> history" where
  "history_Record i out up now h =
     (let recent = keep_last keepRecent (Recent h @ [\<lparr>sm_T = now, sm_In = i, sm_Out = out, sm_Up = up\<rparr>]);
          hs = Hourly h in
      if hs \<noteq> [] \<and> hr_T (last hs) = hour_start now then
        (let b = last hs in
         \<lparr>Recent = recent,
          Hourly = butlast hs @ [b\<lparr>hr_In := i, hr_Out := out, hr_N := hr_N b + 1, hr_UpN := (if up then hr_UpN b + 1 else hr_UpN b)\<rparr>]\<rparr>)
      else
        \<lparr>Recent = recent,
         Hourly = keep_last keepHourly (hs @ [\<lparr>hr_T = hour_start now, hr_In = i, hr_Out = out, hr_UpN = (if up then 1 else 0), hr_N = 1\<rparr>])\<rparr>)"

definition new_history :: history where
  "new_history = \<lparr>Recent = [], Hourly = []\<rparr>"

text \<open>\<open>samplePass\<close>: one reading for every tunnel that exists; \<open>Read\<close> of its counters may fail.\<close>

type_synonym history_file = "string \<Rightarrow> history option"

definition file_Record :: "string \<Rightarrow> nat \<Rightarrow> nat \<Rightarrow> bool \<Rightarrow> int \<Rightarrow> history_file \<Rightarrow> history_file" where
  "file_Record name i out up now f =
     f(name \<mapsto> history_Record i out up now (case f name of None \<Rightarrow> new_history | Some h \<Rightarrow> h))"

definition prune :: "string list \<Rightarrow> history_file \<Rightarrow> history_file" where
  "prune current f = (\<lambda>name. if name \<in> set current then f name else None)"

definition samplePass :: "(string \<times> (nat \<times> nat) option \<times> bool) list \<Rightarrow> int \<Rightarrow> history_file \<Rightarrow> history_file" where
  "samplePass tunnels now f =
     prune (map fst tunnels)
       (fold (\<lambda>(name, reading, up). case reading of None \<Rightarrow> file_Record name 0 0 up now | Some (i, out) \<Rightarrow> file_Record name i out up now)
          tunnels f)"

text \<open>The bytes of the last week shown by \<open>handleHistory\<close>, added up over its days, and the uptime in numbers of checks.\<close>

fun week_traffic :: "int \<Rightarrow> hour list \<Rightarrow> nat \<times> nat" where
  "week_traffic weekAgo (a # b # hs) =
     (let (i, out) = week_traffic weekAgo (b # hs) in
      if hr_T b < weekAgo \<or> hr_In b < hr_In a \<or> hr_Out b < hr_Out a then (i, out)
      else (i + (hr_In b - hr_In a), out + (hr_Out b - hr_Out a)))"
| "week_traffic weekAgo _ = (0, 0)"

definition week_uptime :: "int \<Rightarrow> hour list \<Rightarrow> nat \<times> nat" where
  "week_uptime weekAgo hs =
     (sum_list (map hr_UpN (filter (\<lambda>b. hr_T b \<ge> weekAgo) hs)), sum_list (map hr_N (filter (\<lambda>b. hr_T b \<ge> weekAgo) hs)))"

section \<open>Alerts do not flap\<close>

type_synonym pass = "(rat \<times> rat \<times> rat) \<times> (string \<times> bool) list \<times> string option \<times> int"

fun watch :: "AlertConfig \<Rightarrow> pass list \<Rightarrow> watcher \<Rightarrow> (int \<times> alert) list \<times> watcher" where
  "watch a [] w = ([], w)"
| "watch a ((s, tunnels, release, now) # ps) w =
     (let (m, w1) = checkAt a s tunnels release now w; (ms, w2) = watch a ps w1 in (map (Pair now) m @ ms, w2))"

lemma watch_append:
  "watch a (ps @ qs) w = (let (m, w1) = watch a ps w; (ms, w2) = watch a qs w1 in (m @ ms, w2))"
  by (induction ps arbitrary: w) (auto simp: Let_def split: prod.splits)

fun about :: "string \<Rightarrow> alert \<Rightarrow> bool" where
  "about l (Above l' _) = (l = l')" | "about l (StillAbove l' _) = (l = l')" | "about l (BackToNormal l' _) = (l = l')"
| "about l _ = False"

fun raises :: "alert \<Rightarrow> bool" where
  "raises (Above _ _) = True" | "raises (StillAbove _ _) = True" | "raises _ = False"

text \<open>The three resources: key, label, reading and threshold.\<close>

datatype res = Cpu | Mem | Disk

fun res_key :: "res \<Rightarrow> string" where "res_key Cpu = ''cpu''" | "res_key Mem = ''mem''" | "res_key Disk = ''disk''"
fun res_label :: "res \<Rightarrow> string" where "res_label Cpu = ''Processor''" | "res_label Mem = ''Memory''" | "res_label Disk = ''Disk''"
fun res_reading :: "res \<Rightarrow> rat \<times> rat \<times> rat \<Rightarrow> rat" where
  "res_reading Cpu s = fst s" | "res_reading Mem s = fst (snd s)" | "res_reading Disk s = snd (snd s)"
fun res_threshold :: "res \<Rightarrow> AlertConfig \<Rightarrow> int" where
  "res_threshold Cpu a = CPUPercent a" | "res_threshold Mem a = MemPercent a" | "res_threshold Disk a = DiskPercent a"

definition res_state :: "res \<Rightarrow> watcher \<Rightarrow> alertState" where
  "res_state r w = (case states w (res_key r) of None \<Rightarrow> zero_state | Some st \<Rightarrow> st)"

lemma resource_about: "filter (about l) (fst (resource_state l' v t c now st)) = (if l = l' then fst (resource_state l' v t c now st) else [])"
  by (simp add: resource_state_def)

lemma checkTunnels_states: "states (snd (checkTunnels now w)) = states w" "filter (about l) (fst (checkTunnels now w)) = []"
proof -
  show "states (snd (checkTunnels now w)) = states w" by (simp add: checkTunnels_def)
  have "filter (about l) (tunnel_message old now name) = []" for old now name
    by (auto simp: tunnel_message_def Let_def split: option.splits)
  then show "filter (about l) (fst (checkTunnels now w)) = []"
    by (auto simp: checkTunnels_def filter_concat filter_empty_conv)
qed

lemma resource_messages:
  "filter (about l) (fst (resource key l' v t c now w)) =
    (if l = l' \<and> 0 < t then fst (resource_state l' v t c now (case states w key of None \<Rightarrow> zero_state | Some st \<Rightarrow> st)) else [])"
  by (simp add: resource_def Let_def case_prod_unfold resource_about)

lemma resource_states:
  "states (snd (resource key l v t c now w)) =
    (if 0 < t then (states w)(key \<mapsto> snd (resource_state l v t c now (case states w key of None \<Rightarrow> zero_state | Some st \<Rightarrow> st)))
     else states w)"
  by (simp add: resource_def Let_def case_prod_unfold)

text \<open>One pass, seen from one resource.\<close>

lemma checkAt_resource:
  assumes "0 < res_threshold r a"
  shows "filter (about (res_label r)) (fst (checkAt a s tunnels release now w)) =
      fst (resource_state (res_label r) (res_reading r s) (res_threshold r a) (CooldownMinutes a * 60) now (res_state r w))"
    and "states (snd (checkAt a s tunnels release now w)) (res_key r) =
      Some (snd (resource_state (res_label r) (res_reading r s) (res_threshold r a) (CooldownMinutes a * 60) now (res_state r w)))"
proof -
  define w1 where "w1 = snd (resource ''cpu'' ''Processor'' (fst s) (CPUPercent a) (CooldownMinutes a * 60) now w)"
  define w2 where "w2 = snd (resource ''mem'' ''Memory'' (fst (snd s)) (MemPercent a) (CooldownMinutes a * 60) now w1)"
  define w3 where "w3 = snd (resource ''disk'' ''Disk'' (snd (snd s)) (DiskPercent a) (CooldownMinutes a * 60) now w2)"
  define rest where "rest = fst (if al_TunnelDown a then checkTunnels tunnels w3 else ([], w3)) @
    (if NewRelease a then (case release of None \<Rightarrow> [] | Some tag \<Rightarrow> [Released tag]) else [])"
  have f: "fst (checkAt a s tunnels release now w) =
      fst (resource ''cpu'' ''Processor'' (fst s) (CPUPercent a) (CooldownMinutes a * 60) now w) @
      fst (resource ''mem'' ''Memory'' (fst (snd s)) (MemPercent a) (CooldownMinutes a * 60) now w1) @
      fst (resource ''disk'' ''Disk'' (snd (snd s)) (DiskPercent a) (CooldownMinutes a * 60) now w2) @ rest"
    and g: "states (snd (checkAt a s tunnels release now w)) = states w3"
    by (simp_all add: checkAt_def Let_def case_prod_unfold w1_def w2_def w3_def rest_def checkTunnels_states)
  have t: "filter (about l) (fst (if al_TunnelDown a then checkTunnels tunnels w3 else ([], w3))) = []" for l
    by (cases "al_TunnelDown a") (simp_all only: if_True if_False fst_conv filter.simps checkTunnels_states)
  have u: "filter (about l) (if NewRelease a then (case release of None \<Rightarrow> [] | Some tag \<Rightarrow> [Released tag]) else []) = []" for l
    by (cases release; cases "NewRelease a") simp_all
  have "filter (about l) rest = []" for l unfolding rest_def filter_append t u by simp
  then show "filter (about (res_label r)) (fst (checkAt a s tunnels release now w)) =
      fst (resource_state (res_label r) (res_reading r s) (res_threshold r a) (CooldownMinutes a * 60) now (res_state r w))"
    using assms by (cases r) (simp_all add: f resource_messages w1_def w2_def resource_states res_state_def)
  show "states (snd (checkAt a s tunnels release now w)) (res_key r) =
      Some (snd (resource_state (res_label r) (res_reading r s) (res_threshold r a) (CooldownMinutes a * 60) now (res_state r w)))"
    using assms by (cases r) (simp_all add: g w1_def w2_def w3_def resource_states res_state_def)
qed

text \<open>Which message may follow which.\<close>

definition follows :: "int \<Rightarrow> int \<times> alert \<Rightarrow> int \<times> alert \<Rightarrow> bool" where
  "follows cooldown a b =
     (case snd b of
        Above _ _ \<Rightarrow> \<not> raises (snd a)
      | StillAbove _ _ \<Rightarrow> raises (snd a) \<and> fst b - fst a \<ge> cooldown
      | _ \<Rightarrow> raises (snd a))"

definition alert_inv :: "res \<Rightarrow> AlertConfig \<Rightarrow> (int \<times> alert) list \<Rightarrow> alertState \<Rightarrow> bool" where
  "alert_inv r a ms st =
     (successively (follows (CooldownMinutes a * 60)) ms \<and>
      (ms = [] \<longrightarrow> \<not> firing st) \<and>
      (ms \<noteq> [] \<longrightarrow> (\<exists>l v. snd (hd ms) = Above l v) \<and> firing st = raises (snd (last ms)) \<and> (firing st \<longrightarrow> lastSent st = fst (last ms))))"

lemma alert_inv_step:
  assumes inv: "alert_inv r a ms st" and step: "resource_state l v t (CooldownMinutes a * 60) now st = (m, st')"
  shows "alert_inv r a (ms @ map (Pair now) m) st'"
proof (cases "ms = []")
  case True
  then show ?thesis using assms by (auto simp: alert_inv_def resource_state_def split: if_splits)
next
  case False
  have "m = [] \<and> st' = st \<or> m \<noteq> []" using step by (auto simp: resource_state_def split: if_splits)
  then show ?thesis
  proof
    assume "m \<noteq> []"
    then consider "m = [Above l v]" "\<not> firing st" "st' = \<lparr>firing = True, lastSent = now\<rparr>"
      | "m = [StillAbove l v]" "firing st" "st' = st\<lparr>lastSent := now\<rparr>" "now - lastSent st \<ge> CooldownMinutes a * 60"
      | "m = [BackToNormal l v]" "firing st" "st' = st\<lparr>firing := False\<rparr>"
      using step by (auto simp: resource_state_def split: if_splits)
    then show ?thesis
      using inv False by cases (auto simp: alert_inv_def successively_append_iff follows_def)
  qed (use inv False in \<open>simp add: alert_inv_def\<close>)
qed

definition res_messages :: "res \<Rightarrow> (int \<times> alert) list \<Rightarrow> (int \<times> alert) list" where
  "res_messages r ms = filter (about (res_label r) \<circ> snd) ms"

lemma watch_inv:
  assumes "0 < res_threshold r a"
  shows "alert_inv r a (res_messages r (fst (watch a ps newWatcher))) (res_state r (snd (watch a ps newWatcher)))"
proof (induction ps rule: rev_induct)
  case Nil
  show ?case by (simp add: alert_inv_def res_messages_def res_state_def newWatcher_def zero_state_def)
next
  case (snoc p ps)
  obtain s tunnels release now where p: "p = (s, tunnels, release, now)" by (cases p) auto
  let ?w = "snd (watch a ps newWatcher)"
  let ?r = "resource_state (res_label r) (res_reading r s) (res_threshold r a) (CooldownMinutes a * 60) now (res_state r ?w)"
  have m: "res_messages r (map (Pair now) x) = map (Pair now) (filter (about (res_label r)) x)" for x
    by (induction x) (auto simp: res_messages_def)
  have "fst (watch a (ps @ [p]) newWatcher) = fst (watch a ps newWatcher) @ map (Pair now) (fst (checkAt a s tunnels release now ?w))"
    "snd (watch a (ps @ [p]) newWatcher) = snd (checkAt a s tunnels release now ?w)"
    by (simp_all add: watch_append p Let_def case_prod_unfold)
  then have "res_messages r (fst (watch a (ps @ [p]) newWatcher)) = res_messages r (fst (watch a ps newWatcher)) @ map (Pair now) (fst ?r)"
    "res_state r (snd (watch a (ps @ [p]) newWatcher)) = snd ?r"
    using checkAt_resource [OF assms, of s tunnels release now ?w] m by (simp_all add: res_messages_def res_state_def)
  then show ?case using alert_inv_step [OF snoc, of "res_label r"] by (metis prod.collapse)
qed



text \<open>Tunnels are announced exactly when their state changes, each once, and never on the first pass.\<close>

lemma in_tunnel_message:
  "WentDown n \<in> set (tunnel_message old now name) \<longleftrightarrow> name = n \<and> map_of old n = Some True \<and> map_of now n \<noteq> Some True"
  "BackUp n \<in> set (tunnel_message old now name) \<longleftrightarrow> name = n \<and> map_of old n = Some False \<and> map_of now n = Some True"
  "IsDown n \<in> set (tunnel_message old now name) \<longleftrightarrow> name = n \<and> map_of old n = None \<and> map_of now n \<noteq> Some True"
  "NoLonger n \<notin> set (tunnel_message old now name)"
  by (cases "map_of old name"; auto simp: tunnel_message_def Let_def)+

lemma tunnel_alerts_exact:
  assumes "seeded w" "distinct (map fst (tunnelUp w))" "distinct (map fst now)" "checkTunnels now w = (msgs, w')"
  shows "(WentDown n \<in> set msgs \<longleftrightarrow> map_of (tunnelUp w) n = Some True \<and> map_of now n = Some False) \<and>
    (BackUp n \<in> set msgs \<longleftrightarrow> map_of (tunnelUp w) n = Some False \<and> map_of now n = Some True) \<and>
    (IsDown n \<in> set msgs \<longleftrightarrow> map_of (tunnelUp w) n = None \<and> map_of now n = Some False) \<and>
    (NoLonger n \<in> set msgs \<longleftrightarrow> map_of (tunnelUp w) n \<noteq> None \<and> map_of now n = None)"
proof -
  have m: "msgs = concat (map (tunnel_message (tunnelUp w) now) (sort (map fst now))) @
      map NoLonger (filter (\<lambda>name. map_of now name = None) (map fst (tunnelUp w)))"
    using assms(1,4) by (auto simp: checkTunnels_def)
  have k: "x \<in> fst ` set ys \<longleftrightarrow> map_of ys x \<noteq> None" for x and ys :: "(string \<times> bool) list" by (simp add: map_of_eq_None_iff)
  have "(x \<in> set (concat (map (tunnel_message (tunnelUp w) now) (sort (map fst now))))) =
      (\<exists>name. map_of now name \<noteq> None \<and> x \<in> set (tunnel_message (tunnelUp w) now name))" for x
  proof -
    have "set (map fst now) = {name. map_of now name \<noteq> None}" using k [of _ now] by auto
    then show ?thesis by auto
  qed
  then have mem: "x \<in> set msgs \<longleftrightarrow> (\<exists>name. map_of now name \<noteq> None \<and> x \<in> set (tunnel_message (tunnelUp w) now name)) \<or>
      (\<exists>name. map_of (tunnelUp w) name \<noteq> None \<and> map_of now name = None \<and> x = NoLonger name)" for x
    unfolding m using k [of _ "tunnelUp w"] by auto
  have two: "map_of now n = None \<or> map_of now n = Some True \<or> map_of now n = Some False" by (cases "map_of now n") auto
  then show ?thesis unfolding mem in_tunnel_message(1-3) by (auto simp: in_tunnel_message(4))
qed

lemma first_pass_is_silent: "\<not> seeded w \<Longrightarrow> fst (checkTunnels now w) = []"
  by (simp add: checkTunnels_def)

lemma record_keeps_newest:
  "length (hs_Events st) \<le> maxEvents \<Longrightarrow> length (hs_Events (alerthist_Record now msgs active st)) \<le> maxEvents"
  "msgs \<noteq> [] \<Longrightarrow> last (hs_Events (alerthist_Record now msgs active st)) = (now, last msgs)"
proof -
  show "length (hs_Events st) \<le> maxEvents \<Longrightarrow> length (hs_Events (alerthist_Record now msgs active st)) \<le> maxEvents"
    by (auto simp: alerthist_Record_def keep_last_def)
  assume m: "msgs \<noteq> []"
  let ?es = "hs_Events st @ map (\<lambda>m. (now, m)) msgs"
  have "last (keep_last maxEvents ?es) = last ?es"
    unfolding keep_last_def using m by (cases "length ?es > maxEvents") (simp_all only: if_True if_False, rule last_drop, simp add: maxEvents_def)
  then show "last (hs_Events (alerthist_Record now msgs active st)) = (now, last msgs)" using m by (simp add: alerthist_Record_def last_map)
qed

lemma record_active: "hs_Active (alerthist_Record now msgs active st) = active"
  by (simp add: alerthist_Record_def)

section \<open>Totals of traffic\<close>

text \<open>The intended meaning: a saved and a current total; a restart falls back to the saved one and a reload changes nothing.\<close>

definition totals_next :: "process_event \<Rightarrow> (64 word \<times> 64 word) \<times> (64 word \<times> 64 word) \<Rightarrow> (64 word \<times> 64 word) \<times> (64 word \<times> 64 word)" where
  "totals_next e t =
     (case e of
        Carry i out \<Rightarrow> (fst t, fst (snd t) + i, snd (snd t) + out)
      | WriteSnapshot \<Rightarrow> (snd t, snd t)
      | ReloadConfig \<Rightarrow> t
      | RestartProcess \<Rightarrow> (fst t, fst t))"

definition totals :: "process \<Rightarrow> (64 word \<times> 64 word) \<times> (64 word \<times> 64 word)" where
  "totals p = (the (pr_file p), Snapshot (pr_collector p) (pr_traffic p))"

lemma AddBytes_add: "AddBytes i out t = \<lparr>tr_in = tr_in t + i, tr_out = tr_out t + out\<rparr>"
  by (cases t) (auto simp: AddBytes_def word_gt_0)

lemma start_process_file: "pr_file (start_process f) \<noteq> None"
  by (simp add: start_process_def Let_def)

lemma process_next_file: "pr_file p \<noteq> None \<Longrightarrow> pr_file (process_next e p) \<noteq> None"
  by (cases e) (auto simp: process_next_def start_process_file Let_def)

lemma totals_step:
  assumes "pr_file p \<noteq> None" "e \<noteq> ReloadConfig"
  shows "totals (process_next e p) = totals_next e (totals p)"
  using assms by (cases e) (auto simp: process_next_def totals_def totals_next_def AddBytes_add Snapshot_def start_process_def NewCollector_def Let_def)

text \<open>(C40) Traffic totals.  From the first start on, as long as the configuration is not reloaded, what a snapshot shows is
  what was carried, across any number of restarts (a restart loses what was carried after the last snapshot).  A
  reload adds everything this process has carried so far a second time: the new collector starts from the last
  snapshot, which has it already, and the counters go on.\<close>

theorem traffic_totals:
  assumes "ReloadConfig \<notin> set es" "p = fold process_next es (start_process f)"
  shows "totals p = fold totals_next es (totals (start_process f)) \<and>
    snd (totals (process_next ReloadConfig (process_next WriteSnapshot p))) =
      (fst (snd (totals p)) + tr_in (pr_traffic p), snd (snd (totals p)) + tr_out (pr_traffic p))"
proof -
  have "pr_file p' \<noteq> None \<Longrightarrow> totals (fold process_next es p') = fold totals_next es (totals p')" for p'
    using assms(1)
  proof (induction es arbitrary: p')
    case (Cons e es)
    then have "e \<noteq> ReloadConfig" by auto
    then show ?case using Cons totals_step [of p' e] process_next_file [of p' e] by simp
  qed simp
  then have "totals p = fold totals_next es (totals (start_process f))" using assms(2) start_process_file [of f] by simp
  moreover have "snd (totals (process_next ReloadConfig (process_next WriteSnapshot p))) =
      (fst (snd (totals p)) + tr_in (pr_traffic p), snd (snd (totals p)) + tr_out (pr_traffic p))"
    by (simp add: process_next_def totals_def NewCollector_def Snapshot_def Let_def)
  ultimately show ?thesis by blast
qed

theorem traffic_totals_witness:
  "\<exists>p. p = fold process_next [Carry 100 7, WriteSnapshot, RestartProcess, Carry 5 0] (start_process None) \<and> snd (totals p) = (105, 7) \<and>
    snd (totals (process_next ReloadConfig (process_next WriteSnapshot p))) = (110, 7)"
proof -
  define p where "p = fold process_next [Carry 100 7, WriteSnapshot, RestartProcess, Carry 5 0] (start_process None)"
  have t: "tr_in (pr_traffic p) = 5" "tr_out (pr_traffic p) = 0"
    by (simp_all add: p_def process_next_def start_process_def Let_def AddBytes_add)
  have all: "totals p = fold totals_next [Carry 100 7, WriteSnapshot, RestartProcess, Carry 5 0] (totals (start_process None))"
      "snd (totals (process_next ReloadConfig (process_next WriteSnapshot p))) =
        (fst (snd (totals p)) + tr_in (pr_traffic p), snd (snd (totals p)) + tr_out (pr_traffic p))"
    using traffic_totals [OF _ p_def] by simp_all
  have "snd (totals p) = (105, 7)"
    unfolding all(1) by (simp add: totals_next_def totals_def start_process_def NewCollector_def Snapshot_def Let_def)
  moreover from this have "snd (totals (process_next ReloadConfig (process_next WriteSnapshot p))) = (110, 7)" unfolding all(2) t by simp
  ultimately show ?thesis using p_def by blast
qed

section \<open>History of a tunnel\<close>

definition hist_run :: "(nat \<times> nat \<times> bool \<times> int) list \<Rightarrow> history" where
  "hist_run rs = fold (\<lambda>(i, out, up, now). history_Record i out up now) rs new_history"

lemma hist_run_snoc: "hist_run (rs @ [(i, out, up, now)]) = history_Record i out up now (hist_run rs)"
  by (simp add: hist_run_def)

lemma keep_last_snoc: "0 < n \<Longrightarrow> keep_last n (keep_last n xs @ [x]) = keep_last n (xs @ [x])"
  by (auto simp: keep_last_def Suc_diff_le)

lemma length_keep_last [simp]: "length (keep_last n xs) \<le> n"
  by (simp add: keep_last_def)

lemma set_keep_last: "set (keep_last n xs) \<subseteq> set xs"
  by (auto simp: keep_last_def dest: in_set_dropD)

text \<open>The day view is exactly the last 288 readings.\<close>

lemma recent_exact:
  "Recent (hist_run rs) = keep_last keepRecent (map (\<lambda>(i, out, up, now). \<lparr>sm_T = now, sm_In = i, sm_Out = out, sm_Up = up\<rparr>) rs)"
proof (induction rs rule: rev_induct)
  case Nil
  show ?case by (simp add: hist_run_def new_history_def keep_last_def)
next
  case (snoc r rs)
  obtain i out up now where r: "r = (i, out, up, now)" by (cases r) auto
  have "0 < keepRecent" by (simp add: keepRecent_def)
  then show ?case using snoc by (simp add: r hist_run_snoc history_Record_def Let_def keep_last_snoc)
qed

text \<open>With counters that never go back the bytes shown for the week are exactly what the counters advanced.\<close>

definition advancing :: "hour list \<Rightarrow> bool" where
  "advancing hs = (sorted (map hr_In hs) \<and> sorted (map hr_Out hs))"

lemma advancing_keep_last: "advancing hs \<Longrightarrow> advancing (keep_last n hs)"
  by (simp add: advancing_def keep_last_def drop_map [symmetric] sorted_wrt_drop)

lemma hourly_advances:
  assumes "sorted (map fst rs)" "sorted (map (fst \<circ> snd) rs)"
  shows "advancing (Hourly (hist_run rs)) \<and> length (Hourly (hist_run rs)) \<le> keepHourly \<and>
    (\<forall>b \<in> set (Hourly (hist_run rs)). 1 \<le> hr_N b \<and> hr_UpN b \<le> hr_N b \<and>
      (\<exists>r \<in> set rs. hr_In b = fst r) \<and> (\<exists>r \<in> set rs. hr_Out b = fst (snd r)))"
  using assms
proof (induction rs rule: rev_induct)
  case Nil
  show ?case by (simp add: hist_run_def new_history_def advancing_def)
next
  case (snoc r rs)
  obtain i out up now where r: "r = (i, out, up, now)" by (cases r) auto
  let ?hs = "Hourly (hist_run rs)"
  have IH: "advancing ?hs" "length ?hs \<le> keepHourly" "\<forall>b \<in> set ?hs. 1 \<le> hr_N b \<and> hr_UpN b \<le> hr_N b \<and>
      (\<exists>r \<in> set rs. hr_In b = fst r) \<and> (\<exists>r \<in> set rs. hr_Out b = fst (snd r))"
    using snoc by (auto simp: sorted_append)
  have le: "\<forall>r \<in> set rs. fst r \<le> i \<and> fst (snd r) \<le> out" using snoc.prems by (auto simp: sorted_append r)
  have below: "hr_In b \<le> i" "hr_Out b \<le> out" if "b \<in> set ?hs" for b using IH(3) le that by fastforce+
  show ?case
  proof (cases "?hs \<noteq> [] \<and> hr_T (last ?hs) = hour_start now")
    case True
    then obtain bs b where bs: "?hs = bs @ [b]" by (metis append_butlast_last_id)
    have "advancing (bs @ [b'])" if "hr_In b' = i" "hr_Out b' = out" for b'
      using IH(1) below that by (auto simp: advancing_def sorted_append bs)
    then show ?thesis using True IH(2,3) by (auto simp: r hist_run_snoc history_Record_def Let_def bs)
  next
    case False
    let ?b = "\<lparr>hr_T = hour_start now, hr_In = i, hr_Out = out, hr_UpN = (if up then 1 else 0), hr_N = 1\<rparr>"
    have new: "Hourly (hist_run (rs @ [r])) = keep_last keepHourly (?hs @ [?b])"
      using False by (auto simp: r hist_run_snoc history_Record_def Let_def)
    have "advancing (?hs @ [?b])" using IH(1) below by (auto simp: advancing_def sorted_append)
    moreover have "\<forall>b \<in> set (?hs @ [?b]). 1 \<le> hr_N b \<and> hr_UpN b \<le> hr_N b \<and>
      (\<exists>x \<in> set (rs @ [r]). hr_In b = fst x) \<and> (\<exists>x \<in> set (rs @ [r]). hr_Out b = fst (snd x))"
      using IH(3) by (auto simp: r)
    ultimately show ?thesis
      unfolding new using advancing_keep_last [of "?hs @ [?b]" keepHourly] set_keep_last [of keepHourly "?hs @ [?b]"] length_keep_last
      by (meson subsetD)
  qed
qed

lemma week_traffic_telescopes:
  assumes "advancing (b # hs)" "\<forall>h \<in> set hs. weekAgo \<le> hr_T h"
  shows "week_traffic weekAgo (b # hs) = (hr_In (last (b # hs)) - hr_In b, hr_Out (last (b # hs)) - hr_Out b)"
  using assms
proof (induction hs arbitrary: b)
  case (Cons c hs)
  have "advancing (c # hs)" "hr_In b \<le> hr_In c" "hr_Out b \<le> hr_Out c" using Cons.prems(1) by (auto simp: advancing_def)
  moreover have "hr_In c \<le> hr_In (last (c # hs))" "hr_Out c \<le> hr_Out (last (c # hs))"
    using Cons.prems(1) by (auto simp: advancing_def)
  ultimately show ?case using Cons.IH [of c] Cons.prems(2) by simp
qed simp

text \<open>A pass that cannot read the counters of a tunnel records zeros, and the next pass then shows the whole total as traffic
  of its hour.\<close>

lemma failed_read_invents_traffic:
  "week_traffic 0 (Hourly (the (samplePass [(''t'', Some (n, m), True)] 7200
      (samplePass [(''t'', None, True)] 3600 (samplePass [(''t'', Some (n, m), True)] 0 (\<lambda>_. None))) ''t''))) = (n, m)"
  by (simp add: samplePass_def prune_def file_Record_def history_Record_def new_history_def hour_start_def keep_last_def keepHourly_def
      keepRecent_def Let_def)

end
