(* ===== verification/Spec2Isabelle.thy ===== *)
theory Spec2Isabelle
  imports Spoof Xdi Pck_Conn Ports Pck_Flags Admission Failover Udp_Forwarder Packet_Protocol Pools Secure_Stream Egress_Udp Hub_Pool Panel_Auth
    Noise Watchdog Backup Reload Rathole Accept_Udp Monitoring
begin

text \<open>
  A verification development for Arange-tun, a reverse-tunnel and VPN-egress engine written in Go.

  \<^bold>\<open>The program.\<close>  A server inside a filtered network and a client outside it keep a tunnel.  The client dials
  the server, proves the token over a control channel and keeps a pool of tunnel connections; the server
  listens on the forwarded ports and hands each user connection to a pool connection, whose client end dials
  the local service.  Several engines share this shape: the backhaul transports
  (\<open>internal/server/transport\<close>, \<open>internal/client/transport\<close>), frp and rathole (\<open>internal/frp\<close>,
  \<open>internal/rathole\<close>), the packet engine (\<open>internal/packet\<close>) and hedioum (\<open>internal/hedioum\<close>), which runs
  SOCKS over an encrypted, camouflaged stream to an egress.  Below the backhaul transports lie three packet
  carriers (\<open>internal/utils/network\<close>): spoofed IP, ICMP echo (xdi) and hand-made TCP segments (pck).  A
  management layer creates, checks and watches the tunnels.

  \<^bold>\<open>Theories.\<close>  All paths are under \<open>src/internal/\<close>.

  \<^item> \<open>Go_Prelude\<close>, \<open>Go_Strings\<close>: bytes, words, slices, streams and strings as Go has them, and the interfaces
    as locales: \<open>codec\<close> (self-delimiting messages), \<open>layer\<close> and \<open>layer_stack\<close> (wrapping a datagram),
    \<open>byte_reader\<close> (reading a stream in pieces), \<open>invariant\<close>, \<open>machine\<close> and \<open>safe_machine\<close> (step relations, events, and events
    that could panic).  Each is interpreted on the model's own
    definitions in the theories below.
  \<^item> \<open>Wire_Framing\<close>: control strings (\<open>utils/binary.go\<close>), datagram frames (\<open>utils/network/udpframe.go\<close>), the
    wire messages of rathole and frp.  Sequences of messages read back, truncation is an error.
  \<^item> \<open>Checksum\<close>, \<open>Spoof\<close>: the internet checksum and the spoofed-IP carrier (\<open>utils/network/spoofframe.go\<close>,
    \<open>spoofpacket.go\<close>, \<open>spoofconn_linux.go\<close>).  Shims carry checksums that verify, fragments tile the segment,
    and a datagram sent by one end is delivered by the other for every profile and obfuscation.
  \<^item> \<open>Xdi\<close>: the ICMP carrier; only datagrams of the same token and the right direction are delivered.
  \<^item> \<open>Pck\<close>, \<open>Pck_Conn\<close>, \<open>Pck_Flags\<close>: the TCP-segment carrier (\<open>pckframe.go\<close>, \<open>pckconn_linux.go\<close>, \<open>pckport.go\<close>).
    The in-place assembler equals a reference that builds the frame from scratch, whatever the reused buffer
    held; the parser never panics; a conversation arrives in order with acknowledgements in step.
  \<^item> \<open>Ports\<close>: port specifications, as validated by \<open>manage/validate.go\<close> and as run by
    \<open>server/transport/tcp.go\<close> and \<open>rathole/rathole.go\<close>.
  \<^item> \<open>Handshake\<close>, \<open>Admission\<close>: the control handshake and the TCP server's admission of connections under every
    interleaving with restarts (\<open>server/transport/tcp.go\<close>, \<open>announce.go\<close>, \<open>control.go\<close>,
    \<open>client/transport/tcp.go\<close>, \<open>handshake.go\<close>, \<open>utils/network/poolnonce.go\<close>).
  \<^item> \<open>Failover\<close>, \<open>Pools\<close>: where a client dials and how many connections it keeps (\<open>utils/network/endpoints.go\<close>,
    \<open>healthscore.go\<close>, \<open>client/transport/backoff.go\<close>, \<open>backendpool.go\<close>, \<open>poolload.go\<close>).
  \<^item> \<open>Tunnel_Limits\<close>, \<open>Udp_Flow\<close>, \<open>Udp_Forwarder\<close>: connection and bandwidth caps (\<open>server/transport/limits.go\<close>) and
    forwarded UDP (\<open>server/transport/udpforward.go\<close>, \<open>client/transport/udpforward.go\<close>).  \<open>Write\<close> refines an
    incremental frame parser; flows carry datagrams end to end; no interleaving silences a source.
  \<^item> \<open>Udp_Transport\<close>, \<open>Accept_Udp\<close>: the \<open>udp\<close> transport and UDP over the \<open>tcp\<close> transport (\<open>server/transport/udp.go\<close>,
    \<open>accept_udp.go\<close> and their client ends, \<open>utils/network/resolver.go\<close>).  No interleaving panics, visitors are kept apart
    and their datagrams arrive in order; two theorems show how a visitor is lost.
  \<^item> \<open>Socks\<close>, \<open>Socks_Udp\<close>: the SOCKS5 client and the two servers (\<open>socks\<close>, \<open>packet/engine/socks\<close>), which meet one
    contract (locale \<open>socks_proxy\<close>), and UDP association.
  \<^item> \<open>Packet_Protocol\<close>: the packet engine's stream messages (\<open>packet/engine/protocol\<close>, \<open>packet/engine/conf/tcp.go\<close>).
  \<^item> \<open>Secure_Stream\<close>, \<open>Tunproto\<close>, \<open>Egress\<close>, \<open>Egress_Udp\<close>: hedioum's encrypted stream with its replay filter, the
    protocol inside it, the egress's address policy and its table of UDP flows (\<open>hedioum/engine\<close>).
  \<^item> \<open>Hub_Pool\<close>: the hub's pool of camouflaged connections (\<open>hedioum/engine/pool\<close>): lifetimes, draining, eviction and
    scaling.  The pool stays within its bounds, recovers its minimum in a round, and lets transfers finish.
  \<^item> \<open>Noise\<close>: the stealth transport (\<open>utils/network/noise.go\<close>): handshake, padding and records, whose reading end
    is an instance of the prelude's \<open>byte_reader\<close>.
  \<^item> \<open>Watchdog\<close>: which tunnels are connected, which are restarted (\<open>manage/watchdog.go\<close>) and what health is shown
    for them (\<open>manage/health.go\<close>).
  \<^item> \<open>Schedule\<close>, \<open>Backup\<close>: the cron job of the restarts (\<open>schedule/schedule.go\<close>) and the backup and restore of the
    configuration directory (\<open>manage/backup.go\<close>).  A backup rebuilds the directory; no archive writes outside it.
  \<^item> \<open>Outbound\<close>, \<open>Reload\<close>: how a client reaches the server (\<open>utils/network/proxy.go\<close>, \<open>outbound.go\<close>, \<open>tcp_dialer.go\<close>), and
    the life of one tunnel process (\<open>cmd\<close> and \<open>config\<close> at the top of the repository): defaults, checks, the choice of the
    engine, and the reload of a changed file.  Connections take the configured route; the tunnel follows its file.
  \<^item> \<open>Frp\<close>, \<open>Rathole\<close>: the two reverse-proxy engines (\<open>frp/frp.go\<close>, \<open>rathole/rathole.go\<close>): handshakes, the live session and
    the pool of data channels over all interleavings, forwarded UDP, reconnection.  Visitors are kept apart and
    served on authenticated channels only; the theorems on a stale pool and on a deaf flow show where service is lost.
  \<^item> \<open>Monitoring\<close>: alerts (\<open>telegram/alerts.go\<close>, \<open>alerthist\<close>), the history of tunnels (\<open>tunhist\<close>) and the traffic totals
    (\<open>metrics/metrics.go\<close>).  Alerts do not flap; totals survive restarts, and a reload counts twice.
  \<^item> \<open>Panel_Auth\<close>: who may use the web panel (\<open>webui/server.go\<close>, \<open>handlers_security.go\<close>): the login limiter, the
    two-factor codes, the sessions, the wrappers and the routes, over every sequence of requests.

  \<^bold>\<open>Modelling.\<close>  One definition for each Go function, record or type, with the source's names; bytes and machine
  integers are words, \<open>int\<close> is an integer with \<open>wrap64\<close> where it matters; errors are values; a run-time
  panic is \<^const>\<open>None\<close> or an error constructor.  Reading from a connection is reading a list of bytes;
  concurrent code is a step relation whose steps are its critical sections and system calls.  Loops are
  recursive functions with termination proofs; no fuel is used.  The clock, random draws, the operating
  system, and code outside the repository (AEAD, key derivation, SHA-256, resolver) are arguments, with what
  is assumed of them stated in each theorem.

  \<^bold>\<open>Not modelled.\<close>  The menus, the web panel's pages and assets, the Telegram bot's messages, installation, systemd and
  firewall commands are input and output around the operating system.  Opening and tuning sockets, kernel
  filters, TLS, QUIC, KCP, WebSocket and smux are libraries or glue to them; the transports built on them
  repeat the control logic of the TCP transport modelled here.  Copying bytes between two connections is the
  library's \<open>io.Copy\<close> and its splice variants.
\<close>

end
